(* ===== verification/Prelude.thy ===== *)
theory Prelude
  imports Main "HOL-Library.AList" "HOL-Library.Sublist"
begin

text \<open>
  Vocabulary shared by every component of the development.

  \<^item> A thrown \<^verbatim>\<open>Error(code)\<close> is \<open>Inl code\<close>, a returned value \<open>Inr v\<close>.
  \<^item> A JavaScript \<^verbatim>\<open>Map\<close> iterates in insertion order and keeps a key's place when the key
    is set again, so it is an association list: \<open>map_of\<close> is \<^verbatim>\<open>get\<close>, \<open>AList.update\<close> is
    \<^verbatim>\<open>set\<close> (in place, or appended) and \<open>AList.delete\<close> is \<^verbatim>\<open>delete\<close>. A JavaScript
    \<^verbatim>\<open>Set\<close> is a list without duplicates, extended at the end by \<open>jset_add\<close>.
  \<^item> Numbers the code uses as counters and sizes are \<open>nat\<close> or \<open>int\<close>; the checks
    \<^verbatim>\<open>Number.isSafeInteger\<close> are kept.
  \<^item> Decimal rendering and reading of a counter (template literals, \<^verbatim>\<open>Number(digits)\<close>).
\<close>

named_theorems sedes_simps \<open>rewrite rules for the operations of the components\<close>
named_theorems sedes_inv \<open>preservation of the component invariants\<close>

type_synonym 'a result = "string + 'a"
type_synonym ('k, 'v) jmap = "('k \<times> 'v) list"
type_synonym 'a jset = "'a list"

section \<open>Definitions\<close>

subsection \<open>JavaScript Map and Set\<close>

abbreviation jmap_get :: "('k, 'v) jmap \<Rightarrow> 'k \<Rightarrow> 'v option" where
  "jmap_get m k \<equiv> map_of m k"

abbreviation jmap_set :: "'k \<Rightarrow> 'v \<Rightarrow> ('k, 'v) jmap \<Rightarrow> ('k, 'v) jmap" where
  "jmap_set k v m \<equiv> AList.update k v m"

abbreviation jmap_delete :: "'k \<Rightarrow> ('k, 'v) jmap \<Rightarrow> ('k, 'v) jmap" where
  "jmap_delete k m \<equiv> AList.delete k m"

abbreviation jmap_wf :: "('k, 'v) jmap \<Rightarrow> bool" where
  "jmap_wf m \<equiv> distinct (map fst m)"

definition jmap_has :: "('k, 'v) jmap \<Rightarrow> 'k \<Rightarrow> bool" where
  "jmap_has m k \<longleftrightarrow> map_of m k \<noteq> None"

definition jmap_map :: "('k \<Rightarrow> 'v \<Rightarrow> 'v) \<Rightarrow> ('k, 'v) jmap \<Rightarrow> ('k, 'v) jmap" where
  "jmap_map g m = map (\<lambda>(k, v). (k, g k v)) m"

definition jset_add :: "'a \<Rightarrow> 'a jset \<Rightarrow> 'a jset" where
  "jset_add x s = (if x \<in> set s then s else s @ [x])"

definition jset_delete :: "'a \<Rightarrow> 'a jset \<Rightarrow> 'a jset" where
  "jset_delete x s = filter (\<lambda>y. y \<noteq> x) s"

subsection \<open>Safe integers\<close>

definition max_safe_integer :: int where
  "max_safe_integer = 9007199254740991"

definition is_safe_integer :: "int \<Rightarrow> bool" where
  "is_safe_integer x \<longleftrightarrow> \<bar>x\<bar> \<le> max_safe_integer"

subsection \<open>Decimal digits\<close>

definition digit_char :: "nat \<Rightarrow> char" where
  "digit_char d = char_of (48 + d)"

definition is_digit :: "char \<Rightarrow> bool" where
  "is_digit c \<longleftrightarrow> 48 \<le> (of_char c :: nat) \<and> (of_char c :: nat) \<le> 57"

definition digit_val :: "char \<Rightarrow> nat" where
  "digit_val c = of_char c - 48"

fun show_nat :: "nat \<Rightarrow> string" where
  "show_nat n = (if n < 10 then [digit_char n] else show_nat (n div 10) @ [digit_char (n mod 10)])"

declare show_nat.simps [simp del]

definition read_nat :: "string \<Rightarrow> nat" where
  "read_nat ds = foldl (\<lambda>acc c. acc * 10 + digit_val c) 0 ds"

subsection \<open>Steps with outputs\<close>

text \<open>A synchronous piece of code changes a state and produces a list of outputs; \<open>then_do\<close> runs one
  piece after another.\<close>

definition then_do :: "'s \<times> 'o list \<Rightarrow> ('s \<Rightarrow> 's \<times> 'o list) \<Rightarrow> 's \<times> 'o list" where
  "then_do r f = (fst (f (fst r)), snd r @ snd (f (fst r)))"

text \<open>A run handles a sequence of events one after the other.\<close>

primrec run_steps :: "('e \<Rightarrow> 's \<Rightarrow> 's \<times> 'o list) \<Rightarrow> 'e list \<Rightarrow> 's \<Rightarrow> 's \<times> 'o list" where
  "run_steps step [] s = (s, [])"
| "run_steps step (ev # evs) s = then_do (step ev s) (run_steps step evs)"

section \<open>Lemmas\<close>

subsection \<open>Steps with outputs\<close>

lemma fst_then_do [simp]: "fst (then_do r f) = fst (f (fst r))"
  by (simp add: then_do_def)

lemma snd_then_do [simp]: "snd (then_do r f) = snd r @ snd (f (fst r))"
  by (simp add: then_do_def)

lemma then_do_code [code]:
  "then_do r f = (case r of (s, outs) \<Rightarrow> (case f s of (t, outs') \<Rightarrow> (t, outs @ outs')))"
  by (simp add: then_do_def split: prod.splits)

lemma then_do_pair: "then_do (s, outs) f = (fst (f s), outs @ snd (f s))"
  by (simp add: then_do_def)

text \<open>An invariant of a reactive component relates its state to all its outputs so far. Every allowed
  event has to keep it; then every run does.\<close>

locale reactive_invariant =
  fixes step :: "'e \<Rightarrow> 's \<Rightarrow> 's \<times> 'o list"
    and allowed :: "'e \<Rightarrow> bool"
    and inv :: "'s \<Rightarrow> 'o list \<Rightarrow> bool"
  assumes step_keeps: "inv s outs \<Longrightarrow> allowed ev \<Longrightarrow> inv (fst (step ev s)) (outs @ snd (step ev s))"
begin

lemma run_preserves:
  "inv s outs \<Longrightarrow> \<forall>ev \<in> set evs. allowed ev \<Longrightarrow>
     inv (fst (run_steps step evs s)) (outs @ snd (run_steps step evs s))"
proof (induction evs arbitrary: s outs)
  case (Cons ev evs)
  then show ?case
    using Cons.IH [OF step_keeps [OF Cons.prems(1), of ev]] by simp
qed simp

lemma run_from_start:
  "inv s [] \<Longrightarrow> \<forall>ev \<in> set evs. allowed ev \<Longrightarrow> inv (fst (run_steps step evs s)) (snd (run_steps step evs s))"
  using run_preserves [of s "[]" evs] by simp

end

subsection \<open>JavaScript Map and Set\<close>

lemma jmap_get_set [simp]: "jmap_get (jmap_set k v m) k' = (if k' = k then Some v else jmap_get m k')"
  by (simp add: update_conv')

lemma jmap_get_delete [simp]:
  "jmap_get (jmap_delete k m) k' = (if k' = k then None else jmap_get m k')"
  by (simp add: delete_conv')

lemma jmap_wf_set [simp, intro]: "jmap_wf m \<Longrightarrow> jmap_wf (jmap_set k v m)"
  by (rule distinct_update)

lemma jmap_wf_delete [simp, intro]: "jmap_wf m \<Longrightarrow> jmap_wf (jmap_delete k m)"
  by (rule distinct_delete)

lemma jmap_has_set [simp]: "jmap_has (jmap_set k v m) k' \<longleftrightarrow> k' = k \<or> jmap_has m k'"
  by (simp add: jmap_has_def)

lemma jmap_has_delete [simp]: "jmap_has (jmap_delete k m) k' \<longleftrightarrow> k' \<noteq> k \<and> jmap_has m k'"
  by (simp add: jmap_has_def)

lemma jmap_set_absent: "jmap_get m k = None \<Longrightarrow> jmap_set k v m = m @ [(k, v)]"
  by (induction m) (auto split: if_splits)

lemma length_jmap_set:
  "length (jmap_set k v m) = (if jmap_has m k then length m else Suc (length m))"
  by (induction m) (auto simp: jmap_has_def)

lemma jmap_wf_map_snd [simp]: "jmap_wf (map (\<lambda>(k, v). (k, f k v)) m) \<longleftrightarrow> jmap_wf m"
  by (simp add: comp_def split_def)

lemma jmap_map_simps [simp]:
  "jmap_map g [] = []" "jmap_map g ((k, v) # m) = (k, g k v) # jmap_map g m"
  by (simp_all add: jmap_map_def)

lemma jmap_get_map [simp]: "jmap_get (jmap_map g m) k = map_option (g k) (jmap_get m k)"
  by (induction m) auto

lemma map_fst_jmap_map [simp]: "map fst (jmap_map g m) = map fst m"
  by (induction m) auto

lemma keys_jmap_map [simp]: "fst ` set (jmap_map g m) = fst ` set m"
  by (metis map_fst_jmap_map set_map)

lemma jmap_map_compose [simp]: "jmap_map g (jmap_map f m) = jmap_map (\<lambda>k v. g k (f k v)) m"
  by (induction m) auto

lemma jmap_map_cong: "(\<And>k v. (k, v) \<in> set m \<Longrightarrow> f k v = g k v) \<Longrightarrow> jmap_map f m = jmap_map g m"
  by (induction m) auto

lemma jmap_map_id: "(\<And>k v. (k, v) \<in> set m \<Longrightarrow> f k v = v) \<Longrightarrow> jmap_map f m = m"
  by (induction m) auto

lemma jmap_map_absent:
  "jmap_get m i = None \<Longrightarrow> jmap_map (\<lambda>k v. if k = i then f v else v) m = m"
  by (induction m) (auto split: if_splits)

lemma jmap_set_map:
  assumes "jmap_wf m" and "jmap_get m i = Some v"
  shows "jmap_set i (f v) m = jmap_map (\<lambda>k v. if k = i then f v else v) m"
  using assms
proof (induction m)
  case (Cons p m)
  obtain k w where p: "p = (k, w)" by (cases p)
  show ?case
  proof (cases "k = i")
    case True
    with Cons.prems p have "jmap_get m i = None" by (auto simp: map_of_eq_None_iff)
    with True p Cons.prems show ?thesis by (simp add: jmap_map_absent)
  next
    case False
    with Cons p show ?thesis by simp
  qed
qed simp

lemma keys_jmap_set: "fst ` set (jmap_set k v m) = insert k (fst ` set m)"
  by (auto simp: dom_map_of_conv_image_fst [symmetric] update_conv')

lemma keys_jmap_delete: "fst ` set (jmap_delete k m) = fst ` set m - {k}"
  by (auto simp: dom_map_of_conv_image_fst [symmetric] delete_conv')

lemma jset_add_distinct [simp, intro]: "distinct s \<Longrightarrow> distinct (jset_add x s)"
  by (simp add: jset_add_def)

lemma jset_delete_distinct [simp, intro]: "distinct s \<Longrightarrow> distinct (jset_delete x s)"
  by (simp add: jset_delete_def)

lemma set_jset_add [simp]: "set (jset_add x s) = insert x (set s)"
  by (auto simp: jset_add_def)

lemma set_jset_delete [simp]: "set (jset_delete x s) = set s - {x}"
  by (auto simp: jset_delete_def)

text \<open>A quantity summed over the entries of a map: how deletion and replacement change it.\<close>

lemma delete_absent: "k \<notin> fst ` set m \<Longrightarrow> jmap_delete k m = m"
  by (induction m) (auto simp: AList.delete_eq)

lemma sum_jmap_delete:
  fixes f :: "'v \<Rightarrow> int"
  assumes "jmap_wf m" and "jmap_get m k = Some v"
  shows "(\<Sum>p\<leftarrow>jmap_delete k m. f (snd p)) = (\<Sum>p\<leftarrow>m. f (snd p)) - f v"
  using assms
proof (induction m)
  case Nil
  then show ?case by simp
next
  case (Cons p m)
  show ?case
  proof (cases "fst p = k")
    case True
    with Cons.prems(1) have "k \<notin> fst ` set m" by auto
    then have "jmap_delete k m = m" by (rule delete_absent)
    with True Cons.prems(2) show ?thesis by (cases p) auto
  next
    case False
    with Cons show ?thesis by (cases p) auto
  qed
qed

lemma sum_jmap_set_new:
  fixes f :: "'v \<Rightarrow> int"
  assumes "jmap_get m k = None"
  shows "(\<Sum>p\<leftarrow>jmap_set k v m. f (snd p)) = (\<Sum>p\<leftarrow>m. f (snd p)) + f v"
  using assms by (simp add: jmap_set_absent)

lemma sum_jmap_set_old:
  fixes f :: "'v \<Rightarrow> int"
  assumes "jmap_wf m" and "jmap_get m k = Some w"
  shows "(\<Sum>p\<leftarrow>jmap_set k v m. f (snd p)) = (\<Sum>p\<leftarrow>m. f (snd p)) - f w + f v"
  using assms
proof (induction m)
  case Nil
  then show ?case by simp
next
  case (Cons p m)
  then show ?case by (cases p) auto
qed

subsection \<open>Decimal digits\<close>

lemma digit_val_char [simp]: "d < 10 \<Longrightarrow> digit_val (digit_char d) = d"
  by (simp add: digit_val_def digit_char_def)

lemma is_digit_char [simp]: "d < 10 \<Longrightarrow> is_digit (digit_char d)"
  by (simp add: is_digit_def digit_char_def)

lemma show_nat_nonempty [simp]: "show_nat n \<noteq> []"
  by (subst show_nat.simps) simp

lemma show_nat_digits: "list_all is_digit (show_nat n)"
proof (induction n rule: show_nat.induct)
  case (1 n)
  then show ?case by (subst show_nat.simps) auto
qed

lemma read_nat_snoc: "read_nat (ds @ [c]) = read_nat ds * 10 + digit_val c"
  by (simp add: read_nat_def)

lemma read_show_nat [simp]: "read_nat (show_nat n) = n"
proof (induction n rule: show_nat.induct)
  case (1 n)
  show ?case
  proof (cases "n < 10")
    case True
    then show ?thesis by (subst show_nat.simps) (simp add: read_nat_def)
  next
    case False
    with 1 have "read_nat (show_nat (n div 10)) = n div 10" by simp
    with False show ?thesis by (subst show_nat.simps) (simp add: read_nat_snoc)
  qed
qed

lemma show_nat_inject [simp]: "show_nat a = show_nat b \<longleftrightarrow> a = b"
  by (metis read_show_nat)

subsection \<open>Suffixes\<close>

lemma drop_Cons_suffix: "map f (x # xs) = drop k ys \<Longrightarrow> map f xs = drop (Suc k) ys"
  by (metis drop_Suc list.sel(3) list.simps(9) tl_drop)

end
