(* ===== verification/EventHub.thy ===== *)
theory EventHub
  imports Prelude
begin

text \<open>
  \<^verbatim>\<open>src/server/events/event-hub.ts\<close>: the publication log every thread and application
  stream is built on. It numbers events, keeps a bounded suffix for replay to a reconnecting
  client and fans each event out to the current subscribers.

  Subscribers are named by a number in the order of their creation (the code's object identity);
  the listener of a subscriber is a parameter of \<open>publish\<close> that says whether it throws.
  \<^verbatim>\<open>JSON.stringify\<close> of the generic payload enters as the parameter \<open>json_bytes\<close>.
\<close>

section \<open>Definitions\<close>

subsection \<open>Data\<close>

record 'd sequenced_event =
  se_id :: string
  se_sequence :: nat
  se_type :: string
  se_data :: 'd

record 'd retained_event =
  re_event :: "'d sequenced_event"
  re_bytes :: int
  re_costFloor :: int

record 'd servable_replay =
  costFloor :: "string \<Rightarrow> 'd \<Rightarrow> int \<Rightarrow> int"
  servableBytes :: int

record 'd event_hub_options =
  opt_replayLimit :: "int option"
  opt_replayByteLimit :: "int option"
  opt_supersedesReplay :: "(string \<Rightarrow> 'd \<Rightarrow> bool) option"

record 'd event_hub =
  hub_generation :: string
  hub_sequence :: nat
  hub_events :: "'d retained_event list"
  hub_subscribers :: "nat jset"
  hub_nextSubscriber :: nat
  hub_replayLimit :: int
  hub_replayByteLimit :: int
  hub_supersedesReplay :: "string \<Rightarrow> 'd \<Rightarrow> bool"
  hub_replayBytes :: int
  hub_replayCostFloor :: int

record 'd publish_commit =
  commit_bytes :: int
  commit_retain :: bool
  commit_beforeFanout :: "'d sequenced_event \<Rightarrow> string option"

record 'd event_subscription =
  sub_watermark :: nat
  sub_replay :: "'d sequenced_event list"
  sub_subscriber :: nat

subsection \<open>Construction\<close>

definition default_replay_limit :: int where
  "default_replay_limit = 4096"

definition default_replay_byte_limit :: int where
  "default_replay_byte_limit = 32 * 1024 * 1024"

definition new_event_hub :: "string \<Rightarrow> 'd event_hub_options \<Rightarrow> 'd event_hub result" where
  "new_event_hub uuid options =
     (let limit = (case opt_replayLimit options of None \<Rightarrow> default_replay_limit | Some n \<Rightarrow> n);
          byteLimit = (case opt_replayByteLimit options of None \<Rightarrow> default_replay_byte_limit
                       | Some n \<Rightarrow> n);
          supersedes = (case opt_supersedesReplay options of None \<Rightarrow> (\<lambda>_ _. False) | Some f \<Rightarrow> f)
      in if \<not> is_safe_integer limit \<or> limit \<le> 0 then Inl ''event_hub_replay_limit_invalid''
         else if \<not> is_safe_integer byteLimit \<or> byteLimit \<le> 0
         then Inl ''event_hub_replay_byte_limit_invalid''
         else Inr \<lparr>hub_generation = uuid, hub_sequence = 0, hub_events = [], hub_subscribers = [],
                   hub_nextSubscriber = 0, hub_replayLimit = limit,
                   hub_replayByteLimit = byteLimit, hub_supersedesReplay = supersedes,
                   hub_replayBytes = 0, hub_replayCostFloor = 0\<rparr>)"

subsection \<open>Publication\<close>

definition event_id :: "string \<Rightarrow> nat \<Rightarrow> string" where
  "event_id gen n = gen @ ''.'' @ show_nat n"

definition clear_replay :: "'d event_hub \<Rightarrow> 'd event_hub" where
  "clear_replay h = h\<lparr>hub_events := [], hub_replayBytes := 0, hub_replayCostFloor := 0\<rparr>"

text \<open>The eviction loop: the oldest retained events go while any of the three bounds is exceeded
  (\<open>None\<close> is the absent \<^verbatim>\<open>servableReplay\<close>, whose bound is infinity).\<close>

fun evict_replay ::
  "int \<Rightarrow> int \<Rightarrow> int option \<Rightarrow> 'd retained_event list \<Rightarrow> int \<Rightarrow> int \<Rightarrow>
   'd retained_event list \<times> int \<times> int" where
  "evict_replay limit byteLimit servable [] bytes floor = ([], bytes, floor)"
| "evict_replay limit byteLimit servable (r # rs) bytes floor =
     (if int (length (r # rs)) > limit \<or> bytes > byteLimit \<or>
         (case servable of None \<Rightarrow> False | Some s \<Rightarrow> floor > s)
      then evict_replay limit byteLimit servable rs (bytes - re_bytes r) (floor - re_costFloor r)
      else (r # rs, bytes, floor))"

definition retain_event ::
  "'d servable_replay option \<Rightarrow> 'd sequenced_event \<Rightarrow> int \<Rightarrow> 'd event_hub \<Rightarrow> 'd event_hub" where
  "retain_event servable e bytes h =
     (let floor = (case servable of None \<Rightarrow> 0
                   | Some s \<Rightarrow> costFloor s (se_type e) (se_data e) bytes);
          (evs, b, f) = evict_replay (hub_replayLimit h) (hub_replayByteLimit h)
             (map_option servableBytes servable)
             (hub_events h @ [\<lparr>re_event = e, re_bytes = bytes, re_costFloor = floor\<rparr>])
             (hub_replayBytes h + bytes) (hub_replayCostFloor h + floor)
      in h\<lparr>hub_events := evs, hub_replayBytes := b, hub_replayCostFloor := f\<rparr>)"

text \<open>Fan-out over a copy of the subscriber set: a listener that throws is removed, and the others
  still receive the event. The result holds the subscribers called, in order.\<close>

fun fanout ::
  "(nat \<Rightarrow> 'd sequenced_event \<Rightarrow> bool) \<Rightarrow> 'd sequenced_event \<Rightarrow> nat list \<Rightarrow> nat jset \<Rightarrow>
   nat jset \<times> nat list" where
  "fanout throws e [] subs = (subs, [])"
| "fanout throws e (s # ss) subs =
     (let (subs', called) = fanout throws e ss (if throws s e then jset_delete s subs else subs)
      in (subs', s # called))"

definition next_event :: "string \<Rightarrow> 'd \<Rightarrow> 'd event_hub \<Rightarrow> 'd sequenced_event" where
  "next_event type data h =
     \<lparr>se_id = event_id (hub_generation h) (hub_sequence h + 1),
      se_sequence = hub_sequence h + 1, se_type = type, se_data = data\<rparr>"

text \<open>The state change of \<open>publish\<close>: the sequence number, then the replay buffer.\<close>

definition commit_event ::
  "'d servable_replay option \<Rightarrow> 'd sequenced_event \<Rightarrow> int \<Rightarrow> bool \<Rightarrow> 'd event_hub \<Rightarrow> 'd event_hub" where
  "commit_event servable e eventBytes retain h =
     (let h1 = h\<lparr>hub_sequence := se_sequence e\<rparr>;
          h2 = (if hub_supersedesReplay h1 (se_type e) (se_data e) then clear_replay h1 else h1)
      in if \<not> retain \<or> eventBytes > hub_replayByteLimit h2 then clear_replay h2
         else retain_event servable e eventBytes h2)"

definition publish ::
  "('d sequenced_event \<Rightarrow> int) \<Rightarrow> 'd servable_replay option \<Rightarrow>
   (nat \<Rightarrow> 'd sequenced_event \<Rightarrow> bool) \<Rightarrow> string \<Rightarrow> 'd \<Rightarrow> 'd publish_commit option \<Rightarrow>
   'd event_hub \<Rightarrow> 'd sequenced_event result \<times> nat list \<times> 'd event_hub" where
  "publish json_bytes servable throws type data commit h =
     (let e = next_event type data h;
          eventBytes = (case commit of None \<Rightarrow> json_bytes e | Some c \<Rightarrow> commit_bytes c);
          retain = (case commit of None \<Rightarrow> True | Some c \<Rightarrow> commit_retain c);
          h1 = commit_event servable e eventBytes retain h
      in case (case commit of None \<Rightarrow> None | Some c \<Rightarrow> commit_beforeFanout c e) of
           Some err \<Rightarrow> (Inl err, [], h1)
         | None \<Rightarrow>
             (let (subs, called) = fanout throws e (hub_subscribers h1) (hub_subscribers h1)
              in (Inr e, called, h1\<lparr>hub_subscribers := subs\<rparr>)))"

definition close_hub :: "'d event_hub \<Rightarrow> 'd event_hub" where
  "close_hub h = clear_replay (h\<lparr>hub_subscribers := []\<rparr>)"

subsection \<open>Cursors and replay\<close>

definition is_generation_char :: "char \<Rightarrow> bool" where
  "is_generation_char c \<longleftrightarrow> is_digit c \<or> c \<in> set ''abcdef'' \<or> c = CHR ''-''"

text \<open>The pattern \<^verbatim>\<open>/^([0-9a-f-]+)\.(\d+)$/\<close>: neither group admits a dot, so the two groups are
  the text before and after the only dot. \<^verbatim>\<open>Number\<close> of a digit string above the largest safe
  integer is never a safe integer, so the exact value decides the check.\<close>

definition parse_event_id :: "'d event_hub \<Rightarrow> string option \<Rightarrow> nat option" where
  "parse_event_id h eventId =
     (case eventId of
        None \<Rightarrow> None
      | Some s \<Rightarrow>
          (let gen = takeWhile (\<lambda>c. c \<noteq> CHR ''.'') s; rest = drop (length gen) s
           in if s = [] then None
              else if gen = [] \<or> \<not> list_all is_generation_char gen \<or> rest = [] \<or> tl rest = [] \<or>
                      \<not> list_all is_digit (tl rest)
              then None
              else if gen \<noteq> hub_generation h then None
              else let n = read_nat (tl rest)
                   in if is_safe_integer (int n) then Some n else None))"

definition oldest_sequence :: "'d event_hub \<Rightarrow> nat" where
  "oldest_sequence h =
     (case hub_events h of [] \<Rightarrow> hub_sequence h + 1 | r # _ \<Rightarrow> se_sequence (re_event r))"

definition replay_after :: "'d event_hub \<Rightarrow> string option \<Rightarrow> 'd sequenced_event list" where
  "replay_after h lastEventId =
     (case parse_event_id h lastEventId of
        None \<Rightarrow> []
      | Some n \<Rightarrow>
          if int n \<ge> int (oldest_sequence h) - 1
          then map re_event (filter (\<lambda>r. se_sequence (re_event r) > n) (hub_events h))
          else [])"

definition subscribe ::
  "string option \<Rightarrow> 'd event_hub \<Rightarrow> 'd event_subscription \<times> 'd event_hub" where
  "subscribe lastEventId h =
     (let s = hub_nextSubscriber h;
          h1 = h\<lparr>hub_subscribers := jset_add s (hub_subscribers h), hub_nextSubscriber := s + 1\<rparr>
      in (\<lparr>sub_watermark = hub_sequence h1, sub_replay = replay_after h1 lastEventId,
           sub_subscriber = s\<rparr>, h1))"

definition close_subscription :: "nat \<Rightarrow> 'd event_hub \<Rightarrow> 'd event_hub" where
  "close_subscription s h = h\<lparr>hub_subscribers := jset_delete s (hub_subscribers h)\<rparr>"

definition can_replay :: "'d event_hub \<Rightarrow> string option \<Rightarrow> bool" where
  "can_replay h lastEventId =
     (case parse_event_id h lastEventId of
        None \<Rightarrow> False
      | Some n \<Rightarrow> int n \<ge> int (oldest_sequence h) - 1 \<and> n \<le> hub_sequence h)"

definition replay_bytes_after :: "'d event_hub \<Rightarrow> string option \<Rightarrow> int option" where
  "replay_bytes_after h lastEventId =
     (if \<not> can_replay h lastEventId then None
      else map_option (\<lambda>n. foldl (\<lambda>bytes r. if se_sequence (re_event r) > n
                                            then bytes + re_bytes r else bytes) 0 (hub_events h))
             (parse_event_id h lastEventId))"

fun cost_exceeds_loop ::
  "nat \<Rightarrow> int \<Rightarrow> ('d sequenced_event \<Rightarrow> int) \<Rightarrow> int \<Rightarrow> 'd retained_event list \<Rightarrow> bool" where
  "cost_exceeds_loop n budget cost acc [] = False"
| "cost_exceeds_loop n budget cost acc (r # rs) =
     (if se_sequence (re_event r) \<le> n then cost_exceeds_loop n budget cost acc rs
      else if acc + cost (re_event r) > budget then True
      else cost_exceeds_loop n budget cost (acc + cost (re_event r)) rs)"

definition replay_cost_exceeds ::
  "'d event_hub \<Rightarrow> string \<Rightarrow> int \<Rightarrow> ('d sequenced_event \<Rightarrow> int) \<Rightarrow> bool option" where
  "replay_cost_exceeds h lastEventId budget cost =
     (if \<not> can_replay h (Some lastEventId) then None
      else map_option (\<lambda>n. cost_exceeds_loop n budget cost 0 (hub_events h))
             (parse_event_id h (Some lastEventId)))"

subsection \<open>Runs of the hub, with the log of everything published\<close>

inductive hub_reach :: "'d event_hub \<Rightarrow> 'd sequenced_event list \<Rightarrow> bool" where
  reach_new: "new_event_hub uuid options = Inr h \<Longrightarrow> hub_reach h []"
| reach_publish: "hub_reach h H \<Longrightarrow>
     publish json_bytes servable throws type data commit h = (res, called, h') \<Longrightarrow>
     hub_reach h' (H @ [next_event type data h])"
| reach_subscribe: "hub_reach h H \<Longrightarrow> subscribe cursor h = (sub, h') \<Longrightarrow> hub_reach h' H"
| reach_unsubscribe: "hub_reach h H \<Longrightarrow> hub_reach (close_subscription s h) H"
| reach_close: "hub_reach h H \<Longrightarrow> hub_reach (close_hub h) H"

text \<open>The invariant: the log is numbered without gaps from one, the retained events are exactly its
  last ones, the running totals are the sums over them and within the configured bounds.\<close>

definition log_numbered :: "string \<Rightarrow> 'd sequenced_event list \<Rightarrow> bool" where
  "log_numbered gen H \<longleftrightarrow>
     (\<forall>i<length H. se_sequence (H ! i) = Suc i \<and> se_id (H ! i) = event_id gen (Suc i))"

definition retained_suffix :: "'d retained_event list \<Rightarrow> 'd sequenced_event list \<Rightarrow> bool" where
  "retained_suffix rs H \<longleftrightarrow> (\<exists>k\<le>length H. map re_event rs = drop k H)"

definition hub_bounds :: "'d event_hub \<Rightarrow> bool" where
  "hub_bounds h \<longleftrightarrow>
     0 < hub_replayLimit h \<and> 0 < hub_replayByteLimit h \<and>
     hub_replayBytes h = (\<Sum>r\<leftarrow>hub_events h. re_bytes r) \<and>
     hub_replayCostFloor h = (\<Sum>r\<leftarrow>hub_events h. re_costFloor r) \<and>
     int (length (hub_events h)) \<le> hub_replayLimit h \<and>
     hub_replayBytes h \<le> hub_replayByteLimit h"

definition hub_inv :: "'d event_hub \<Rightarrow> 'd sequenced_event list \<Rightarrow> bool" where
  "hub_inv h H \<longleftrightarrow>
     hub_sequence h = length H \<and> log_numbered (hub_generation h) H \<and>
     retained_suffix (hub_events h) H \<and> hub_bounds h \<and>
     distinct (hub_subscribers h) \<and> (\<forall>s\<in>set (hub_subscribers h). s < hub_nextSubscriber h)"

section \<open>Lemmas\<close>

subsection \<open>Eviction\<close>

lemma evict_replay_props:
  assumes "evict_replay limit byteLimit servable rs bytes floor = (rs', b, f)"
    and "bytes = (\<Sum>r\<leftarrow>rs. re_bytes r)" and "floor = (\<Sum>r\<leftarrow>rs. re_costFloor r)"
  shows "suffix rs' rs" and "b = (\<Sum>r\<leftarrow>rs'. re_bytes r)"
    and "f = (\<Sum>r\<leftarrow>rs'. re_costFloor r)"
    and "rs' = [] \<or> int (length rs') \<le> limit \<and> b \<le> byteLimit \<and>
           (\<forall>s. servable = Some s \<longrightarrow> f \<le> s)"
  using assms
  by (induction limit byteLimit servable rs bytes floor rule: evict_replay.induct)
     (auto simp: suffix_ConsI split: if_splits option.splits)

text \<open>Eviction never drops more than it must: the event it kept would not fit with the one before.\<close>

lemma evict_replay_maximal:
  assumes "evict_replay limit byteLimit servable rs bytes floor = (rs', b, f)"
    and "bytes = (\<Sum>r\<leftarrow>rs. re_bytes r)" and "floor = (\<Sum>r\<leftarrow>rs. re_costFloor r)"
    and "rs = pre @ r # rs'"
  shows "int (length (r # rs')) > limit \<or> b + re_bytes r > byteLimit \<or>
         (\<exists>s. servable = Some s \<and> f + re_costFloor r > s)"
  using assms
proof (induction limit byteLimit servable rs bytes floor arbitrary: pre rule: evict_replay.induct)
  case 1
  then show ?case by simp
next
  case (2 limit byteLimit servable x rs bytes floor)
  let ?c = "int (length (x # rs)) > limit \<or> bytes > byteLimit \<or>
     (case servable of None \<Rightarrow> False | Some s \<Rightarrow> floor > s)"
  show ?case
  proof (cases ?c)
    case False
    with "2.prems"(1) have "rs' = x # rs" by auto
    with "2.prems"(4) show ?thesis by auto
  next
    case True
    show ?thesis
    proof (cases pre)
      case Nil
      with "2.prems"(4) have rs: "rs' = rs" "r = x" by auto
      have "b + re_bytes r = bytes"
        using evict_replay_props(2)[OF "2.prems"(1-3)] "2.prems"(2) rs by simp
      moreover have "f + re_costFloor r = floor"
        using evict_replay_props(3)[OF "2.prems"(1-3)] "2.prems"(3) rs by simp
      ultimately show ?thesis
        using True rs by (cases servable) simp_all
    next
      case (Cons y pre')
      with "2.prems"(4) have "rs = pre' @ r # rs'" by simp
      moreover from "2.prems"(1) True
      have "evict_replay limit byteLimit servable rs (bytes - re_bytes x) (floor - re_costFloor x) =
          (rs', b, f)"
        by (simp only: evict_replay.simps if_True)
      ultimately show ?thesis
        using "2.IH"[OF True, of pre'] "2.prems"(2,3) by simp
    qed
  qed
qed

lemma retained_suffix_snoc:
  assumes "retained_suffix rs H" and "suffix rs' (rs @ [r])" and "re_event r = e"
  shows "retained_suffix rs' (H @ [e])"
proof -
  from assms(1) obtain k where k: "k \<le> length H" "map re_event rs = drop k H"
    by (auto simp: retained_suffix_def)
  from assms(2) obtain n where n: "rs' = drop n (rs @ [r])" "n \<le> length (rs @ [r])"
    by (metis append_eq_conv_conj length_append le_add1 suffixE)
  from k have len: "length rs = length H - k"
    by (metis length_drop length_map)
  have all: "map re_event (rs @ [r]) = drop k (H @ [e])"
    using k assms(3) by simp
  have "map re_event rs' = drop n (map re_event (rs @ [r]))"
    unfolding n(1) by (simp only: drop_map)
  then have "map re_event rs' = drop (n + k) (H @ [e])"
    by (simp only: all drop_drop)
  moreover have "n + k \<le> length (H @ [e])"
    using k(1) n(2) len by simp
  ultimately show ?thesis
    unfolding retained_suffix_def by blast
qed

lemma retained_suffix_nil [simp]: "retained_suffix [] H"
  by (auto simp: retained_suffix_def)

lemma retained_suffix_empty_log [simp]: "retained_suffix rs [] \<longleftrightarrow> rs = []"
  by (auto simp: retained_suffix_def)

lemma log_numbered_snoc:
  "log_numbered gen H \<Longrightarrow> se_sequence e = Suc (length H) \<Longrightarrow>
   se_id e = event_id gen (Suc (length H)) \<Longrightarrow> log_numbered gen (H @ [e])"
  by (auto simp: log_numbered_def nth_append less_Suc_eq)

lemma log_numbered_nil [simp]: "log_numbered gen []"
  by (simp add: log_numbered_def)

subsection \<open>Every operation keeps the invariant\<close>

lemma hub_bounds_frame [simp]:
  "hub_bounds (h\<lparr>hub_subscribers := ss\<rparr>) = hub_bounds h"
  "hub_bounds (h\<lparr>hub_sequence := n\<rparr>) = hub_bounds h"
  "hub_bounds (h\<lparr>hub_nextSubscriber := n\<rparr>) = hub_bounds h"
  by (simp_all add: hub_bounds_def)

lemma clear_replay_frame [simp]:
  "hub_sequence (clear_replay h) = hub_sequence h"
  "hub_generation (clear_replay h) = hub_generation h"
  "hub_events (clear_replay h) = []"
  "hub_subscribers (clear_replay h) = hub_subscribers h"
  "hub_nextSubscriber (clear_replay h) = hub_nextSubscriber h"
  "hub_replayLimit (clear_replay h) = hub_replayLimit h"
  "hub_replayByteLimit (clear_replay h) = hub_replayByteLimit h"
  by (simp_all add: clear_replay_def)

lemma hub_bounds_clear: "hub_bounds h \<Longrightarrow> hub_bounds (clear_replay h)"
  by (simp add: hub_bounds_def clear_replay_def)

lemma retain_event_frame [simp]:
  "hub_sequence (retain_event sv e b h) = hub_sequence h"
  "hub_generation (retain_event sv e b h) = hub_generation h"
  "hub_subscribers (retain_event sv e b h) = hub_subscribers h"
  "hub_nextSubscriber (retain_event sv e b h) = hub_nextSubscriber h"
  by (simp_all add: retain_event_def Let_def split: prod.splits)

lemma retain_event_inv:
  assumes "hub_bounds h" and "retained_suffix (hub_events h) H"
  shows "hub_bounds (retain_event sv e b h)"
    and "retained_suffix (hub_events (retain_event sv e b h)) (H @ [e])"
proof -
  let ?f = "case sv of None \<Rightarrow> 0 | Some s \<Rightarrow> costFloor s (se_type e) (se_data e) b"
  let ?r = "\<lparr>re_event = e, re_bytes = b, re_costFloor = ?f\<rparr>"
  obtain evs b' f' where ev: "evict_replay (hub_replayLimit h) (hub_replayByteLimit h)
      (map_option servableBytes sv) (hub_events h @ [?r]) (hub_replayBytes h + b)
      (hub_replayCostFloor h + ?f) = (evs, b', f')"
    by (metis prod_cases3)
  then have eq: "retain_event sv e b h =
      h\<lparr>hub_events := evs, hub_replayBytes := b', hub_replayCostFloor := f'\<rparr>"
    by (simp add: retain_event_def Let_def)
  note props = evict_replay_props[OF ev]
  have s: "hub_replayBytes h + b = (\<Sum>r\<leftarrow>hub_events h @ [?r]. re_bytes r)"
    "hub_replayCostFloor h + ?f = (\<Sum>r\<leftarrow>hub_events h @ [?r]. re_costFloor r)"
    using assms(1) by (simp_all add: hub_bounds_def)
  from props(2-4)[OF s] assms(1) show "hub_bounds (retain_event sv e b h)"
    by (auto simp: eq hub_bounds_def)
  from props(1)[OF s] assms(2) show "retained_suffix (hub_events (retain_event sv e b h)) (H @ [e])"
    by (auto simp: eq intro: retained_suffix_snoc)
qed

lemma commit_event_frame [simp]:
  "hub_sequence (commit_event sv e b r h) = se_sequence e"
  "hub_generation (commit_event sv e b r h) = hub_generation h"
  "hub_subscribers (commit_event sv e b r h) = hub_subscribers h"
  "hub_nextSubscriber (commit_event sv e b r h) = hub_nextSubscriber h"
  by (simp_all add: commit_event_def Let_def)

lemma commit_event_inv:
  assumes "hub_bounds h" and "retained_suffix (hub_events h) H"
  shows "hub_bounds (commit_event sv e b r h)"
    and "retained_suffix (hub_events (commit_event sv e b r h)) (H @ [e])"
  using assms retain_event_inv[of "h\<lparr>hub_sequence := se_sequence e\<rparr>" H sv e b]
    retain_event_inv[of "clear_replay (h\<lparr>hub_sequence := se_sequence e\<rparr>)" H sv e b]
  by (auto simp: commit_event_def Let_def hub_bounds_clear)

lemma fanout_subset: "fanout throws e ss subs = (subs', called) \<Longrightarrow>
  called = ss \<and> set subs' \<subseteq> set subs \<and> (distinct subs \<longrightarrow> distinct subs') \<and>
  set subs' = set subs - {s \<in> set ss. throws s e}"
  by (induction throws e ss subs arbitrary: subs' called rule: fanout.induct)
     (auto simp: Let_def split: prod.splits if_splits)

lemma publish_state:
  assumes "publish jb sv throws t d c h = (res, called, h')"
  shows "\<exists>b r subs. h' = commit_event sv (next_event t d h) b r h\<lparr>hub_subscribers := subs\<rparr> \<and>
    set subs \<subseteq> set (hub_subscribers h) \<and> (distinct (hub_subscribers h) \<longrightarrow> distinct subs)"
proof -
  let ?e = "next_event t d h"
  let ?b = "case c of None \<Rightarrow> jb ?e | Some c \<Rightarrow> commit_bytes c"
  let ?r = "case c of None \<Rightarrow> True | Some c \<Rightarrow> commit_retain c"
  let ?h = "commit_event sv ?e ?b ?r h"
  obtain subs called' where f: "fanout throws ?e (hub_subscribers h) (hub_subscribers h) =
      (subs, called')"
    by fastforce
  have same: "?h = ?h\<lparr>hub_subscribers := hub_subscribers h\<rparr>"
    by simp
  have "h' = ?h \<or> h' = ?h\<lparr>hub_subscribers := subs\<rparr>"
    using assms f by (auto simp: publish_def Let_def split: option.splits)
  then show ?thesis
    using fanout_subset[OF f] same by blast
qed

lemma new_event_hub_inv [sedes_inv]: "new_event_hub uuid options = Inr h \<Longrightarrow> hub_inv h []"
  by (auto simp: new_event_hub_def Let_def hub_inv_def hub_bounds_def split: if_splits)

lemma publish_inv [sedes_inv]:
  assumes "hub_inv h H" and "publish jb sv throws t d c h = (res, called, h')"
  shows "hub_inv h' (H @ [next_event t d h])"
proof -
  from publish_state[OF assms(2)] obtain b r subs where
    h': "h' = commit_event sv (next_event t d h) b r h\<lparr>hub_subscribers := subs\<rparr>"
    and subs: "set subs \<subseteq> set (hub_subscribers h)" "distinct (hub_subscribers h) \<longrightarrow> distinct subs"
    by blast
  with assms(1) commit_event_inv[of h H] show ?thesis
    by (auto simp: hub_inv_def next_event_def intro!: log_numbered_snoc)
qed

lemma subscribe_inv [sedes_inv]: "hub_inv h H \<Longrightarrow> subscribe c h = (sub, h') \<Longrightarrow> hub_inv h' H"
  by (auto simp: subscribe_def Let_def hub_inv_def less_Suc_eq)

lemma close_subscription_inv [sedes_inv]: "hub_inv h H \<Longrightarrow> hub_inv (close_subscription s h) H"
  by (auto simp: close_subscription_def hub_inv_def)

lemma close_hub_inv [sedes_inv]: "hub_inv h H \<Longrightarrow> hub_inv (close_hub h) H"
  by (auto simp: close_hub_def hub_inv_def hub_bounds_clear)

lemma hub_reach_inv: "hub_reach h H \<Longrightarrow> hub_inv h H"
  by (induction rule: hub_reach.induct) (auto intro: sedes_inv)

subsection \<open>Cursors\<close>

lemma generation_char_not_dot: "is_generation_char c \<Longrightarrow> c \<noteq> CHR ''.''"
  by (auto simp: is_generation_char_def is_digit_def)

lemma takeWhile_generation:
  "list_all is_generation_char gen \<Longrightarrow> takeWhile (\<lambda>c. c \<noteq> CHR ''.'') (gen @ CHR ''.'' # rest) = gen"
  by (induction gen) (auto dest: generation_char_not_dot)

lemma parse_event_id_event_id:
  assumes "hub_generation h \<noteq> []" and "list_all is_generation_char (hub_generation h)"
    and "int n \<le> max_safe_integer"
  shows "parse_event_id h (Some (event_id (hub_generation h) n)) = Some n"
proof -
  have "takeWhile (\<lambda>c. c \<noteq> CHR ''.'') (event_id (hub_generation h) n) = hub_generation h"
    using takeWhile_generation[OF assms(2)] by (simp add: event_id_def)
  then show ?thesis
    using assms show_nat_digits[of n]
    by (simp add: parse_event_id_def Let_def event_id_def is_safe_integer_def)
qed

lemma filter_suffix_numbered:
  assumes "log_numbered gen H" and "k \<le> n"
  shows "filter (\<lambda>e. se_sequence e > n) (drop k H) = drop n H"
proof -
  have seq: "se_sequence (H ! i) = Suc i" if "i < length H" for i
    using assms(1) that by (simp add: log_numbered_def)
  have split: "drop k H = take (n - k) (drop k H) @ drop n H"
    by (metis append_take_drop_id assms(2) drop_drop le_add_diff_inverse2)
  have "filter (\<lambda>e. se_sequence e > n) (take (n - k) (drop k H)) = []"
    using assms(2) seq by (auto simp: filter_empty_conv in_set_conv_nth)
  moreover have "filter (\<lambda>e. se_sequence e > n) (drop n H) = drop n H"
    using seq by (auto simp: filter_id_conv in_set_conv_nth)
  ultimately show ?thesis
    by (subst split) simp
qed

lemma oldest_sequence_suffix:
  assumes "hub_inv h H" and "hub_events h \<noteq> []"
  shows "\<exists>k. k < length H \<and> map re_event (hub_events h) = drop k H \<and> oldest_sequence h = Suc k"
proof -
  from assms(1) obtain k where k: "k \<le> length H" "map re_event (hub_events h) = drop k H"
    by (auto simp: hub_inv_def retained_suffix_def)
  with assms(2) have "k < length H"
    by (metis drop_all leI map_is_Nil_conv)
  moreover from this k(2) assms(2) have "re_event (hd (hub_events h)) = H ! k"
    by (metis hd_drop_conv_nth hd_map)
  ultimately show ?thesis
    using assms k(2)
    by (auto simp: hub_inv_def log_numbered_def oldest_sequence_def split: list.splits)
qed

lemma parse_event_id_frame:
  "parse_event_id (h\<lparr>hub_subscribers := ss, hub_nextSubscriber := m\<rparr>) c = parse_event_id h c"
  by (cases c) (simp_all add: parse_event_id_def Let_def)

lemma replay_after_frame:
  "replay_after (h\<lparr>hub_subscribers := ss, hub_nextSubscriber := m\<rparr>) c = replay_after h c"
  by (simp add: replay_after_def parse_event_id_frame oldest_sequence_def split: option.splits list.splits)

text \<open>What a cursor in the replay window selects: everything published after it.\<close>

lemma can_replay_exact:
  assumes inv: "hub_inv h H" and "can_replay h c"
  shows "\<exists>n\<le>length H. parse_event_id h c = Some n \<and> replay_after h c = drop n H"
proof -
  from assms(2) obtain n where n: "parse_event_id h c = Some n"
    "int n \<ge> int (oldest_sequence h) - 1" "n \<le> hub_sequence h"
    by (auto simp: can_replay_def split: option.splits)
  have len: "n \<le> length H"
    using n(3) inv by (simp add: hub_inv_def)
  have "replay_after h c = drop n H"
  proof (cases "hub_events h = []")
    case True
    then have "n = length H"
      using n(2) len inv by (simp add: oldest_sequence_def hub_inv_def)
    with True n show ?thesis by (simp add: replay_after_def)
  next
    case False
    from oldest_sequence_suffix[OF inv False] obtain k
      where k: "map re_event (hub_events h) = drop k H" "oldest_sequence h = Suc k"
      by blast
    have "replay_after h c = filter (\<lambda>e. se_sequence e > n) (map re_event (hub_events h))"
      using n by (simp add: replay_after_def filter_map comp_def)
    also have "\<dots> = drop n H"
      unfolding k(1) using inv n(2) k(2)
      by (intro filter_suffix_numbered[of "hub_generation h"]) (auto simp: hub_inv_def)
    finally show ?thesis .
  qed
  with n(1) len show ?thesis by blast
qed

subsection \<open>The replay interface\<close>

text \<open>
  What the stream transports rely on. \<open>invar h H\<close> says that \<open>H\<close> is everything published so far;
  a cursor that the provider accepts names a position in \<open>H\<close>, and the replay is the rest of \<open>H\<close>.
\<close>

locale replay_log =
  fixes invar :: "'h \<Rightarrow> 'e list \<Rightarrow> bool"
    and replayable :: "'h \<Rightarrow> 'c \<Rightarrow> bool"
    and position :: "'h \<Rightarrow> 'c \<Rightarrow> nat option"
    and replay :: "'h \<Rightarrow> 'c \<Rightarrow> 'e list"
  assumes replay_exact: "invar h H \<Longrightarrow> replayable h c \<Longrightarrow>
    \<exists>n\<le>length H. position h c = Some n \<and> replay h c = drop n H"
begin

lemma position_bound: "invar h H \<Longrightarrow> replayable h c \<Longrightarrow> the (position h c) \<le> length H"
  using replay_exact by fastforce

text \<open>A client folds events into its view; one that stopped at the cursor and applies the replay
  has the view of a client that never disconnected.\<close>

lemma resume_view:
  assumes "invar h H" and "replayable h c" and "position h c = Some n"
  shows "fold apply_event (replay h c) (fold apply_event (take n H) v) = fold apply_event H v"
proof -
  from replay_exact[OF assms(1,2)] assms(3) have "replay h c = drop n H" by auto
  then show ?thesis
    by (metis append_take_drop_id comp_apply fold_append)
qed

end

interpretation hub_replay: replay_log hub_inv can_replay parse_event_id replay_after
  by unfold_locales (rule can_replay_exact)

lemma replay_bytes_foldl:
  "foldl (\<lambda>bytes r. if P r then bytes + re_bytes r else bytes) b rs =
   b + (\<Sum>r\<leftarrow>filter P rs. re_bytes r)"
  by (induction rs arbitrary: b) auto

lemma cost_exceeds_loop_eq:
  assumes "\<And>e. 0 \<le> cost e" and "acc \<le> budget"
  shows "cost_exceeds_loop n budget cost acc rs \<longleftrightarrow>
    acc + (\<Sum>r\<leftarrow>filter (\<lambda>r. se_sequence (re_event r) > n) rs. cost (re_event r)) > budget"
  using assms(2)
proof (induction rs arbitrary: acc)
  case Nil
  then show ?case by simp
next
  case (Cons r rs)
  have nonneg: "0 \<le> (\<Sum>r\<leftarrow>filter (\<lambda>r. se_sequence (re_event r) > n) rs. cost (re_event r))"
    by (intro sum_list_nonneg) (auto simp: assms(1))
  show ?case
    using Cons nonneg by (auto simp: add.assoc)
qed

section \<open>Properties\<close>

text \<open>C5. Replay is exact. In every state the hub can reach, when it accepts a reconnecting client's
  cursor, the subscription replays precisely the events published after that cursor, in order,
  with none missing and none repeated.\<close>

theorem subscribe_replays_exactly:
  assumes "hub_reach h H" and "can_replay h (Some cursor)"
  shows "\<exists>n\<le>length H. parse_event_id h (Some cursor) = Some n \<and>
    sub_replay (fst (subscribe (Some cursor) h)) = drop n H \<and>
    sub_watermark (fst (subscribe (Some cursor) h)) = length H"
proof -
  from assms(1) have inv: "hub_inv h H" by (rule hub_reach_inv)
  with hub_replay.replay_exact[OF inv assms(2)] show ?thesis
    by (auto simp: subscribe_def Let_def replay_after_frame hub_inv_def)
qed

text \<open>C33. The replay buffer stays within its bounds. In every reachable state the retained events
  number at most the replay limit, their byte total is the maintained counter and at most the
  byte limit, and they are a suffix of the whole log, which is numbered 1, 2, 3, ... .\<close>

theorem replay_buffer_bounded:
  assumes "hub_reach h H"
  shows "hub_bounds h \<and> retained_suffix (hub_events h) H \<and> log_numbered (hub_generation h) H"
  using hub_reach_inv[OF assms] by (simp add: hub_inv_def)

text \<open>Cursors round-trip. The identifier the hub puts on its \<open>i\<close>-th event, sent back as
  \<^verbatim>\<open>Last-Event-ID\<close>, is read as exactly that position, as long as the generation is a UUID-like
  string and the counter is a safe integer.\<close>

theorem event_id_roundtrip:
  assumes "hub_reach h H" and "i < length H"
    and "hub_generation h \<noteq> []" and "list_all is_generation_char (hub_generation h)"
    and "int (length H) \<le> max_safe_integer"
  shows "parse_event_id h (Some (se_id (H ! i))) = Some (Suc i)"
proof -
  from assms(1,2) have "se_id (H ! i) = event_id (hub_generation h) (Suc i)"
    using hub_reach_inv[OF assms(1)] by (simp add: hub_inv_def log_numbered_def)
  then show ?thesis
    using parse_event_id_event_id[OF assms(3,4), of "Suc i"] assms(2,5) by simp
qed

text \<open>C34. A failing transport cannot disturb the others. Publication calls every current subscriber
  once, in subscription order; afterwards exactly those whose listener threw are gone.\<close>

theorem publish_isolates_failures:
  assumes "publish jb sv throws t d c h = (Inr e, called, h')"
  shows "called = hub_subscribers h \<and>
    set (hub_subscribers h') = {s \<in> set (hub_subscribers h). \<not> throws s e}"
proof -
  obtain subs called' where f: "fanout throws (next_event t d h) (hub_subscribers h)
      (hub_subscribers h) = (subs, called')"
    by fastforce
  with assms have "e = next_event t d h" "called = called'" "hub_subscribers h' = subs"
    by (auto simp: publish_def Let_def split: option.splits)
  then show ?thesis using fanout_subset[OF f] by auto
qed

text \<open>The projected cost test is exact. Although \<open>replay_cost_exceeds\<close> stops at the first event
  over budget, for non-negative costs it answers whether the whole replay costs more than the
  budget, and \<open>replay_bytes_after\<close> is the byte total of that replay.\<close>

theorem replay_cost_exact:
  assumes "can_replay h (Some c)" and "\<And>e. 0 \<le> cost e" and "0 \<le> budget"
  shows "replay_cost_exceeds h c budget cost =
      Some (budget < (\<Sum>e\<leftarrow>replay_after h (Some c). cost e)) \<and>
    (\<exists>n. parse_event_id h (Some c) = Some n \<and> replay_bytes_after h (Some c) =
      Some (\<Sum>r\<leftarrow>filter (\<lambda>r. se_sequence (re_event r) > n) (hub_events h). re_bytes r))"
proof -
  from assms(1) obtain n where n: "parse_event_id h (Some c) = Some n"
    "int n \<ge> int (oldest_sequence h) - 1"
    by (auto simp: can_replay_def split: option.splits)
  show ?thesis
    using assms n
    by (simp add: replay_cost_exceeds_def replay_bytes_after_def replay_bytes_foldl
        cost_exceeds_loop_eq replay_after_def comp_def)
qed

section \<open>Witnesses\<close>

definition demo_options :: "string event_hub_options" where
  "demo_options = \<lparr>opt_replayLimit = Some 2, opt_replayByteLimit = Some 100,
     opt_supersedesReplay = None\<rparr>"

definition demo_hub :: "string event_hub" where
  "demo_hub = projr (new_event_hub ''ab-1'' demo_options)"

definition demo_publish :: "string \<Rightarrow> string event_hub \<Rightarrow> string event_hub" where
  "demo_publish d h = snd (snd (publish (\<lambda>_. 10) None (\<lambda>_ _. False) ''t'' d None h))"

definition demo_log :: "string sequenced_event list" where
  "demo_log = [next_event ''t'' ''x'' demo_hub,
     next_event ''t'' ''y'' (demo_publish ''x'' demo_hub),
     next_event ''t'' ''z'' (demo_publish ''y'' (demo_publish ''x'' demo_hub))]"

definition demo_hub3 :: "string event_hub" where
  "demo_hub3 = demo_publish ''z'' (demo_publish ''y'' (demo_publish ''x'' demo_hub))"

lemma demo_reach_new: "hub_reach demo_hub []"
  by (rule reach_new[where uuid = "''ab-1''" and options = demo_options])
     (simp add: demo_hub_def demo_options_def new_event_hub_def is_safe_integer_def max_safe_integer_def Let_def)

lemma demo_reach_publish:
  "hub_reach h H \<Longrightarrow> hub_reach (demo_publish d h) (H @ [next_event ''t'' d h])"
  unfolding demo_publish_def by (metis prod.collapse reach_publish)

lemma demo_reach: "hub_reach demo_hub3 demo_log"
  using demo_reach_publish[OF demo_reach_publish[OF demo_reach_publish[OF demo_reach_new]]]
  by (simp add: demo_hub3_def demo_log_def)

lemma show_nat_digit [simp]: "n < 10 \<Longrightarrow> show_nat n = [digit_char n]"
  by (subst show_nat.simps) simp

lemmas demo_eval = demo_hub3_def demo_hub_def demo_options_def demo_publish_def new_event_hub_def Let_def
  is_safe_integer_def max_safe_integer_def publish_def commit_event_def retain_event_def
  next_event_def event_id_def

theorem subscribe_replays_exactly_witness:
  "\<exists>n\<le>length demo_log. parse_event_id demo_hub3 (Some ''ab-1.1'') = Some n \<and>
    sub_replay (fst (subscribe (Some ''ab-1.1'') demo_hub3)) = drop n demo_log \<and>
    sub_watermark (fst (subscribe (Some ''ab-1.1'') demo_hub3)) = length demo_log"
proof -
  have "can_replay demo_hub3 (Some ''ab-1.1'')"
    by (simp add: can_replay_def parse_event_id_def oldest_sequence_def demo_eval
        is_generation_char_def is_digit_def read_nat_def digit_val_def)
  with demo_reach show ?thesis by (rule subscribe_replays_exactly)
qed

theorem replay_buffer_bounded_witness:
  "hub_bounds demo_hub3 \<and> retained_suffix (hub_events demo_hub3) demo_log \<and>
   log_numbered (hub_generation demo_hub3) demo_log"
  using demo_reach by (rule replay_buffer_bounded)

theorem event_id_roundtrip_witness:
  "parse_event_id demo_hub3 (Some (se_id (demo_log ! 1))) = Some 2"
  using event_id_roundtrip[OF demo_reach, of 1]
  by (simp add: demo_log_def demo_eval is_generation_char_def is_digit_def)

theorem publish_isolates_failures_witness:
  "\<exists>e h'. publish (\<lambda>_. 10) None (\<lambda>s _. s = 1) ''t'' ''x'' None
      (demo_hub\<lparr>hub_subscribers := [0, 1, 2]\<rparr>) = (Inr e, [0, 1, 2], h') \<and>
    set (hub_subscribers h') = {0, 2}"
proof -
  let ?h = "demo_hub\<lparr>hub_subscribers := [0, 1, 2]\<rparr>"
  have "fst (publish (\<lambda>_. 10) None (\<lambda>s _. s = 1) ''t'' ''x'' None ?h) = Inr (next_event ''t'' ''x'' ?h)"
    by (simp add: publish_def Let_def split_def)
  then obtain e called h' where p: "publish (\<lambda>_. 10) None (\<lambda>s _. s = 1) ''t'' ''x'' None ?h =
      (Inr e, called, h')"
    by (metis fst_conv prod_cases3)
  have "{s \<in> set [0, 1, 2]. \<not> s = (1::nat)} = {0, 2}"
    by auto
  then have "called = [0, 1, 2]" "set (hub_subscribers h') = {0, 2}"
    using publish_isolates_failures[OF p] by simp_all
  with p show ?thesis by blast
qed

theorem replay_cost_exact_witness:
  "replay_cost_exceeds demo_hub3 ''ab-1.1'' 15 (\<lambda>_. 10) = Some True"
proof -
  have can: "can_replay demo_hub3 (Some ''ab-1.1'')"
    by (simp add: can_replay_def parse_event_id_def oldest_sequence_def demo_eval
        is_generation_char_def is_digit_def read_nat_def digit_val_def)
  have "replay_cost_exceeds demo_hub3 ''ab-1.1'' 15 (\<lambda>_. 10) =
      Some (15 < (\<Sum>e\<leftarrow>replay_after demo_hub3 (Some ''ab-1.1''). (10::int)))"
    using replay_cost_exact[OF can, of "\<lambda>_. 10" 15] by simp
  then show ?thesis
    by (simp add: replay_after_def parse_event_id_def oldest_sequence_def demo_eval
        is_generation_char_def is_digit_def read_nat_def digit_val_def)
qed

end
