(* ===== verification/Coalescer.thy ===== *)
theory Coalescer
  imports Prelude
begin

text \<open>
  \<^verbatim>\<open>src/server/conversations/projection-event-coalescer.ts\<close>: rate-limits full item replacements
  of a streaming conversation. Per item at most one update per interval leaves; later ones replace
  the pending one until its timer fires, a terminal update overtakes it, or the stream is flushed.

  The clock value is an argument of every operation (it does not advance inside one synchronous
  call), the scheduler's outstanding timers are the list \<open>co_tasks\<close>, and what the code hands to
  \<^verbatim>\<open>emit\<close> is the returned output list. Items and turns carry a payload for the fields the
  coalescer never reads, and \<open>co_serializedBytes\<close> stands for the JSON size of an event.
\<close>

section \<open>Definitions\<close>

subsection \<open>Data\<close>

datatype item_status = Streaming | Completed | Failed | Interrupted

record 'p conversation_item =
  item_id :: string
  item_revision :: nat
  item_status :: item_status
  item_content :: 'p

datatype turn_status = TurnInProgress | TurnCompleted | TurnInterrupted | TurnFailed

record 'p conversation_turn =
  turn_id :: string
  turn_revision :: nat
  turn_status :: turn_status
  turn_endedBy :: "string option"
  turn_startedAt :: "string option"
  turn_completedAt :: "string option"
  turn_orderedItemIds :: "string list"
  turn_rest :: 'p

text \<open>The event union of \<^verbatim>\<open>shared/protocol/conversation.ts\<close> as far as the coalescer tells its
  members apart; every other member is passed on unchanged.\<close>

datatype ('i, 't, 'o) thread_event =
    Snapshot string "(string \<times> 't conversation_turn) list" "(string \<times> 'i conversation_item) list"
  | HistoryPrepend string "(string \<times> 't conversation_turn) list" "(string \<times> 'i conversation_item) list"
  | ItemUpsert string "'i conversation_item"
  | TurnUpsert string "'t conversation_turn" 'o
  | OtherEvent string 'o

primrec event_generation :: "('i, 't, 'o) thread_event \<Rightarrow> string" where
  "event_generation (Snapshot g ts xs) = g"
| "event_generation (HistoryPrepend g ts xs) = g"
| "event_generation (ItemUpsert g i) = g"
| "event_generation (TurnUpsert g t f) = g"
| "event_generation (OtherEvent g x) = g"

datatype failure_reason =
    CoalescerOverflow | ProjectionGenerationMismatch | ItemRevisionRegression
  | ItemUpdatedAfterTerminal | TurnRevisionRegression | TurnRevisionConflict

datatype ('i, 't, 'o) coalescer_output =
    OutEvent "('i, 't, 'o) thread_event"
  | ResnapshotRequired string failure_reason

record 'i pending_item =
  pend_generation :: string
  pend_item :: "'i conversation_item"
  pend_bytes :: int
  pend_sequence :: nat
  pend_dueAt :: int
  pend_task :: nat

record seen_item =
  seen_revision :: nat
  seen_terminal :: bool

record ('i, 't, 'o) coalescer =
  co_intervalMilliseconds :: int
  co_maximumPendingItems :: int
  co_maximumPendingBytes :: int
  co_serializedBytes :: "('i, 't, 'o) thread_event \<Rightarrow> int"
  co_pending :: "(string, 'i pending_item) jmap"
  co_lastEmittedAt :: "(string, int) jmap"
  co_seenItems :: "(string, seen_item) jmap"
  co_turns :: "(string, 't conversation_turn) jmap"
  co_generation :: "string option"
  co_pendingBytes :: int
  co_nextPendingSequence :: nat
  co_invalidated :: bool
  co_tasks :: "(nat \<times> string) list"
  co_nextTask :: nat

text \<open>One call: the error it throws, if any, what it emitted, and the new state.\<close>

type_synonym ('i, 't, 'o) co_step =
  "string option \<times> ('i, 't, 'o) coalescer_output list \<times> ('i, 't, 'o) coalescer"

subsection \<open>Construction\<close>

definition positive_safe_integer :: "int \<Rightarrow> bool" where
  "positive_safe_integer n \<longleftrightarrow> is_safe_integer n \<and> 0 < n"

definition new_coalescer ::
  "int \<Rightarrow> int \<Rightarrow> int \<Rightarrow> (('i, 't, 'o) thread_event \<Rightarrow> int) \<Rightarrow> ('i, 't, 'o) coalescer result" where
  "new_coalescer interval maxItems maxBytes sizeOf =
     (if \<not> positive_safe_integer interval
      then Inl ''projection_coalescer_intervalMilliseconds_invalid''
      else if \<not> positive_safe_integer maxItems
      then Inl ''projection_coalescer_maximumPendingItems_invalid''
      else if \<not> positive_safe_integer maxBytes
      then Inl ''projection_coalescer_maximumPendingBytes_invalid''
      else Inr \<lparr>co_intervalMilliseconds = interval, co_maximumPendingItems = maxItems,
                co_maximumPendingBytes = maxBytes, co_serializedBytes = sizeOf, co_pending = [],
                co_lastEmittedAt = [], co_seenItems = [], co_turns = [], co_generation = None,
                co_pendingBytes = 0, co_nextPendingSequence = 0, co_invalidated = False,
                co_tasks = [], co_nextTask = 0\<rparr>)"

subsection \<open>Helpers\<close>

definition terminal_item :: "'i conversation_item \<Rightarrow> bool" where
  "terminal_item i \<longleftrightarrow>
     item_status i = Completed \<or> item_status i = Failed \<or> item_status i = Interrupted"

definition equal_turn :: "'t conversation_turn \<Rightarrow> 't conversation_turn \<Rightarrow> bool" where
  "equal_turn l r \<longleftrightarrow>
     turn_id l = turn_id r \<and> turn_revision l = turn_revision r \<and> turn_status l = turn_status r \<and>
     turn_endedBy l = turn_endedBy r \<and> turn_startedAt l = turn_startedAt r \<and>
     turn_completedAt l = turn_completedAt r \<and> turn_orderedItemIds l = turn_orderedItemIds r"

definition cancel_task :: "nat \<Rightarrow> ('i, 't, 'o) coalescer \<Rightarrow> ('i, 't, 'o) coalescer" where
  "cancel_task n c = c\<lparr>co_tasks := filter (\<lambda>t. fst t \<noteq> n) (co_tasks c)\<rparr>"

definition clear_pending :: "('i, 't, 'o) coalescer \<Rightarrow> ('i, 't, 'o) coalescer" where
  "clear_pending c =
     (fold (\<lambda>p. cancel_task (pend_task (snd p))) (co_pending c) c)
       \<lparr>co_pending := [], co_pendingBytes := 0\<rparr>"

definition remove_pending :: "string \<Rightarrow> ('i, 't, 'o) coalescer \<Rightarrow> ('i, 't, 'o) coalescer" where
  "remove_pending i c =
     (case jmap_get (co_pending c) i of
        None \<Rightarrow> c
      | Some p \<Rightarrow> cancel_task (pend_task p)
          (c\<lparr>co_pending := jmap_delete i (co_pending c),
             co_pendingBytes := max 0 (co_pendingBytes c - pend_bytes p)\<rparr>))"

definition invalidate :: "failure_reason \<Rightarrow> ('i, 't, 'o) coalescer \<Rightarrow> ('i, 't, 'o) co_step" where
  "invalidate reason c =
     (if co_invalidated c then (None, [], c)
      else case co_generation c of
        None \<Rightarrow> (Some ''projection_coalescer_generation_missing'', [], c)
      | Some g \<Rightarrow>
          if g = [] then (Some ''projection_coalescer_generation_missing'', [], c)
          else (None, [ResnapshotRequired g reason], clear_pending (c\<lparr>co_invalidated := True\<rparr>)))"

definition emit_now :: "('i, 't, 'o) thread_event \<Rightarrow> string \<Rightarrow> int \<Rightarrow> ('i, 't, 'o) coalescer \<Rightarrow>
    ('i, 't, 'o) co_step" where
  "emit_now e i now c =
     (None, [OutEvent e], c\<lparr>co_lastEmittedAt := jmap_set i now (co_lastEmittedAt c)\<rparr>)"

definition emit_pending :: "string \<Rightarrow> int \<Rightarrow> ('i, 't, 'o) coalescer \<Rightarrow>
    ('i, 't, 'o) coalescer_output list \<times> ('i, 't, 'o) coalescer" where
  "emit_pending i now c =
     (case jmap_get (co_pending c) i of
        None \<Rightarrow> ([], c)
      | Some p \<Rightarrow>
          (let c1 = remove_pending i c
           in ([OutEvent (ItemUpsert (pend_generation p) (pend_item p))],
               c1\<lparr>co_lastEmittedAt := jmap_set i now (co_lastEmittedAt c1)\<rparr>)))"

definition see_items :: "(string \<times> 'i conversation_item) list \<Rightarrow> (string, seen_item) jmap \<Rightarrow>
    (string, seen_item) jmap" where
  "see_items xs seen = fold (\<lambda>(k, i). jmap_set (item_id i)
     \<lparr>seen_revision = item_revision i, seen_terminal = terminal_item i\<rparr>) xs seen"

definition note_turns :: "(string \<times> 't conversation_turn) list \<Rightarrow>
    (string, 't conversation_turn) jmap \<Rightarrow> (string, 't conversation_turn) jmap" where
  "note_turns ts turns = fold (\<lambda>(k, t). jmap_set (turn_id t) t) ts turns"

subsection \<open>Operations\<close>

definition retain_pending :: "string \<Rightarrow> 'i conversation_item \<Rightarrow> int \<Rightarrow> int \<Rightarrow>
    ('i, 't, 'o) coalescer \<Rightarrow> ('i, 't, 'o) co_step" where
  "retain_pending g i dueAt now c =
     (let itemId = item_id i;
          bytes = co_serializedBytes c (ItemUpsert g i);
          prior = jmap_get (co_pending c) itemId;
          nextCount = int (length (co_pending c)) + (case prior of None \<Rightarrow> 1 | Some _ \<Rightarrow> 0);
          nextBytes = co_pendingBytes c - (case prior of None \<Rightarrow> 0 | Some p \<Rightarrow> pend_bytes p) + bytes
      in if nextCount > co_maximumPendingItems c \<or> nextBytes > co_maximumPendingBytes c
         then invalidate CoalescerOverflow c
         else case prior of
           Some p \<Rightarrow>
             (None, [], c\<lparr>co_pendingBytes := nextBytes, co_pending :=
                jmap_set itemId (p\<lparr>pend_generation := g, pend_item := i, pend_bytes := bytes\<rparr>)
                  (co_pending c)\<rparr>)
         | None \<Rightarrow>
             (None, [], c\<lparr>co_tasks := co_tasks c @ [(co_nextTask c, itemId)],
                co_nextTask := co_nextTask c + 1,
                co_pending := jmap_set itemId
                  \<lparr>pend_generation = g, pend_item = i, pend_bytes = bytes,
                   pend_sequence = co_nextPendingSequence c, pend_dueAt = dueAt,
                   pend_task = co_nextTask c\<rparr> (co_pending c),
                co_nextPendingSequence := co_nextPendingSequence c + 1,
                co_pendingBytes := nextBytes\<rparr>))"

definition accept_item :: "string \<Rightarrow> 'i conversation_item \<Rightarrow> int \<Rightarrow> ('i, 't, 'o) coalescer \<Rightarrow>
    ('i, 't, 'o) co_step" where
  "accept_item g i now c =
     (let seen = jmap_get (co_seenItems c) (item_id i)
      in if (\<exists>s \<in> set_option seen. item_revision i \<le> seen_revision s)
         then invalidate ItemRevisionRegression c
         else if (\<exists>s \<in> set_option seen. seen_terminal s)
         then invalidate ItemUpdatedAfterTerminal c
         else
           let c1 = c\<lparr>co_seenItems := jmap_set (item_id i)
                 \<lparr>seen_revision = item_revision i, seen_terminal = terminal_item i\<rparr>
                 (co_seenItems c)\<rparr>
           in if terminal_item i
              then emit_now (ItemUpsert g i) (item_id i) now (remove_pending (item_id i) c1)
              else case jmap_get (co_lastEmittedAt c1) (item_id i) of
                None \<Rightarrow> emit_now (ItemUpsert g i) (item_id i) now (remove_pending (item_id i) c1)
              | Some t \<Rightarrow>
                  if now - t \<ge> co_intervalMilliseconds c1
                  then emit_now (ItemUpsert g i) (item_id i) now (remove_pending (item_id i) c1)
                  else retain_pending g i (t + co_intervalMilliseconds c1) now c1)"

definition accept_turn :: "string \<Rightarrow> 't conversation_turn \<Rightarrow> 'o \<Rightarrow> ('i, 't, 'o) coalescer \<Rightarrow>
    ('i, 't, 'o) co_step" where
  "accept_turn g t fork c =
     (let accepted = (None, [OutEvent (TurnUpsert g t fork)],
            c\<lparr>co_turns := jmap_set (turn_id t) t (co_turns c)\<rparr>)
      in case jmap_get (co_turns c) (turn_id t) of
        None \<Rightarrow> accepted
      | Some prior \<Rightarrow>
          if turn_revision t < turn_revision prior then invalidate TurnRevisionRegression c
          else if turn_revision t = turn_revision prior \<and> \<not> equal_turn prior t
          then invalidate TurnRevisionConflict c
          else if equal_turn prior t then (None, [], c)
          else accepted)"

definition reset :: "string \<Rightarrow> (string \<times> 't conversation_turn) list \<Rightarrow>
    (string \<times> 'i conversation_item) list \<Rightarrow> ('i, 't, 'o) coalescer \<Rightarrow> ('i, 't, 'o) coalescer" where
  "reset g ts xs c =
     (clear_pending c)\<lparr>co_generation := Some g, co_invalidated := False, co_lastEmittedAt := [],
       co_seenItems := see_items xs [], co_turns := note_turns ts []\<rparr>"

text \<open>The dispatch below the generation check of \<^verbatim>\<open>accept\<close>.\<close>

fun accept_current :: "('i, 't, 'o) thread_event \<Rightarrow> int \<Rightarrow> ('i, 't, 'o) coalescer \<Rightarrow>
    ('i, 't, 'o) co_step" where
  "accept_current (ItemUpsert g i) now c = accept_item g i now c"
| "accept_current (TurnUpsert g t f) now c = accept_turn g t f c"
| "accept_current (HistoryPrepend g ts xs) now c =
     (None, [OutEvent (HistoryPrepend g ts xs)],
      c\<lparr>co_turns := note_turns ts (co_turns c), co_seenItems := see_items xs (co_seenItems c)\<rparr>)"
| "accept_current e now c = (None, [OutEvent e], c)"

definition accept :: "('i, 't, 'o) thread_event \<Rightarrow> int \<Rightarrow> ('i, 't, 'o) coalescer \<Rightarrow>
    ('i, 't, 'o) co_step" where
  "accept e now c =
     (case e of
        Snapshot g ts xs \<Rightarrow> (None, [OutEvent e], reset g ts xs c)
      | _ \<Rightarrow>
          if co_invalidated c then (None, [], c)
          else case co_generation c of
            None \<Rightarrow> accept_current e now (c\<lparr>co_generation := Some (event_generation e)\<rparr>)
          | Some g \<Rightarrow>
              if event_generation e \<noteq> g then invalidate ProjectionGenerationMismatch c
              else accept_current e now c)"

fun emit_each :: "string list \<Rightarrow> int \<Rightarrow> ('i, 't, 'o) coalescer \<Rightarrow>
    ('i, 't, 'o) coalescer_output list \<times> ('i, 't, 'o) coalescer" where
  "emit_each [] now c = ([], c)"
| "emit_each (i # is) now c =
     (let (o1, c1) = emit_pending i now c; (o2, c2) = emit_each is now c1 in (o1 @ o2, c2))"

definition flush :: "int \<Rightarrow> ('i, 't, 'o) coalescer \<Rightarrow>
    ('i, 't, 'o) coalescer_output list \<times> ('i, 't, 'o) coalescer" where
  "flush now c =
     (if co_invalidated c then ([], c)
      else emit_each (map (\<lambda>p. item_id (pend_item (snd p)))
             (sort_key (\<lambda>p. pend_sequence (snd p)) (co_pending c))) now c)"

definition dispose :: "('i, 't, 'o) coalescer \<Rightarrow> ('i, 't, 'o) coalescer" where
  "dispose c = (clear_pending c)\<lparr>co_invalidated := True\<rparr>"

text \<open>A timer fires: its task leaves the scheduler and \<^verbatim>\<open>#onTimer\<close> runs.\<close>

definition on_timer :: "string \<Rightarrow> int \<Rightarrow> ('i, 't, 'o) coalescer \<Rightarrow>
    ('i, 't, 'o) coalescer_output list \<times> ('i, 't, 'o) coalescer" where
  "on_timer i now c =
     (if co_invalidated c then ([], c)
      else case jmap_get (co_pending c) i of
        None \<Rightarrow> ([], c)
      | Some p \<Rightarrow>
          if now < pend_dueAt p
          then ([], c\<lparr>co_tasks := co_tasks c @ [(co_nextTask c, i)],
                  co_nextTask := co_nextTask c + 1,
                  co_pending := jmap_set i (p\<lparr>pend_task := co_nextTask c\<rparr>) (co_pending c)\<rparr>)
          else emit_pending i now c)"

definition timer_fires :: "nat \<Rightarrow> int \<Rightarrow> ('i, 't, 'o) coalescer \<Rightarrow>
    ('i, 't, 'o) coalescer_output list \<times> ('i, 't, 'o) coalescer" where
  "timer_fires n now c =
     (case map_of (co_tasks c) n of
        None \<Rightarrow> ([], c)
      | Some i \<Rightarrow> on_timer i now (cancel_task n c))"

subsection \<open>Runs\<close>

datatype ('i, 't, 'o) co_op =
    OpAccept "('i, 't, 'o) thread_event" int
  | OpFlush int
  | OpTimer nat int

primrec co_op_step :: "('i, 't, 'o) co_op \<Rightarrow> ('i, 't, 'o) coalescer \<Rightarrow>
    ('i, 't, 'o) coalescer_output list \<times> ('i, 't, 'o) coalescer" where
  "co_op_step (OpAccept e now) c = snd (accept e now c)"
| "co_op_step (OpFlush now) c = flush now c"
| "co_op_step (OpTimer n now) c = timer_fires n now c"

fun co_run :: "('i, 't, 'o) co_op list \<Rightarrow> ('i, 't, 'o) coalescer \<Rightarrow>
    ('i, 't, 'o) coalescer_output list \<times> ('i, 't, 'o) coalescer" where
  "co_run [] c = ([], c)"
| "co_run (x # xs) c =
     (let (o1, c1) = co_op_step x c; (o2, c2) = co_run xs c1 in (o1 @ o2, c2))"

fun accepted_events :: "('i, 't, 'o) co_op list \<Rightarrow> ('i, 't, 'o) thread_event list" where
  "accepted_events [] = []"
| "accepted_events (OpAccept e now # xs) = e # accepted_events xs"
| "accepted_events (_ # xs) = accepted_events xs"

subsection \<open>The invariant\<close>

text \<open>The pending table, its byte total and the outstanding timers: one timer per pending item.\<close>

definition pend_ok :: "(string, 'i pending_item) jmap \<Rightarrow> int \<Rightarrow> (nat \<times> string) list \<Rightarrow> nat \<Rightarrow> bool" where
  "pend_ok P b T n \<longleftrightarrow>
     jmap_wf P \<and>
     (\<forall>k p. map_of P k = Some p \<longrightarrow> item_id (pend_item p) = k \<and> 0 \<le> pend_bytes p) \<and>
     b = (\<Sum>q\<leftarrow>P. pend_bytes (snd q)) \<and>
     distinct (map fst T) \<and> (\<forall>t\<in>set T. fst t < n) \<and>
     (\<forall>m k. (m, k) \<in> set T \<longleftrightarrow> (\<exists>p. map_of P k = Some p \<and> pend_task p = m))"

definition co_inv :: "('i, 't, 'o) coalescer \<Rightarrow> bool" where
  "co_inv c \<longleftrightarrow>
     pend_ok (co_pending c) (co_pendingBytes c) (co_tasks c) (co_nextTask c) \<and>
     int (length (co_pending c)) \<le> co_maximumPendingItems c \<and>
     co_pendingBytes c \<le> co_maximumPendingBytes c \<and>
     (co_invalidated c \<longrightarrow> co_pending c = []) \<and>
     0 < co_maximumPendingItems c \<and> 0 < co_maximumPendingBytes c \<and>
     (\<forall>e. 0 \<le> co_serializedBytes c e)"

subsection \<open>What a consumer of the stream sees\<close>

text \<open>A consumer keeps the latest item per identifier. A history page never overrides what is
  already there (\<^verbatim>\<open>{ ...page.itemsById, ...snapshot.itemsById }\<close> in
  \<^verbatim>\<open>thread-event-hub.ts\<close>).\<close>

primrec apply_view :: "('i, 't, 'o) thread_event \<Rightarrow> (string \<rightharpoonup> 'i conversation_item) \<Rightarrow>
    (string \<rightharpoonup> 'i conversation_item)" where
  "apply_view (Snapshot g ts xs) v = map_of xs"
| "apply_view (HistoryPrepend g ts xs) v = map_of xs ++ v"
| "apply_view (ItemUpsert g i) v = v(item_id i \<mapsto> i)"
| "apply_view (TurnUpsert g t f) v = v"
| "apply_view (OtherEvent g x) v = v"

primrec apply_output :: "('i, 't, 'o) coalescer_output \<Rightarrow> (string \<rightharpoonup> 'i conversation_item) \<Rightarrow>
    (string \<rightharpoonup> 'i conversation_item)" where
  "apply_output (OutEvent e) v = apply_view e v"
| "apply_output (ResnapshotRequired g r) v = v"

definition co_view :: "('i, 't, 'o) coalescer \<Rightarrow> (string \<rightharpoonup> 'i conversation_item) \<Rightarrow>
    (string \<rightharpoonup> 'i conversation_item)" where
  "co_view c v = (\<lambda>k. case map_of (co_pending c) k of Some p \<Rightarrow> Some (pend_item p) | None \<Rightarrow> v k)"

text \<open>\<open>full\<close> is the view without coalescing, \<open>v\<close> the view of the emitted stream.\<close>

definition co_sim :: "('i, 't, 'o) coalescer \<Rightarrow> (string \<rightharpoonup> 'i conversation_item) \<Rightarrow>
    (string \<rightharpoonup> 'i conversation_item) \<Rightarrow> bool" where
  "co_sim c full v \<longleftrightarrow> co_inv c \<and> co_generation c \<noteq> Some [] \<and>
     (co_invalidated c \<or>
      full = co_view c v \<and>
      (\<forall>k. map_of (co_lastEmittedAt c) k \<noteq> None \<longrightarrow> v k \<noteq> None) \<and>
      (\<forall>k. map_of (co_pending c) k \<noteq> None \<longrightarrow> map_of (co_lastEmittedAt c) k \<noteq> None))"

text \<open>The updates of one item that left the coalescer, oldest first.\<close>

fun emitted_items :: "string \<Rightarrow> ('i, 't, 'o) coalescer_output list \<Rightarrow> 'i conversation_item list" where
  "emitted_items k [] = []"
| "emitted_items k (OutEvent (ItemUpsert g i) # os) =
     (if item_id i = k then i # emitted_items k os else emitted_items k os)"
| "emitted_items k (_ # os) = emitted_items k os"

definition supersedes :: "'i conversation_item \<Rightarrow> 'i conversation_item \<Rightarrow> bool" where
  "supersedes a b \<longleftrightarrow> item_revision a < item_revision b \<and> \<not> terminal_item a"

definition key_ordered :: "seen_item option \<Rightarrow> 'i conversation_item option \<Rightarrow>
    'i conversation_item list \<Rightarrow> bool" where
  "key_ordered seen pend es \<longleftrightarrow>
     sorted_wrt supersedes es \<and>
     (\<forall>a\<in>set es. \<exists>s. seen = Some s \<and> item_revision a \<le> seen_revision s \<and>
        (terminal_item a \<longrightarrow> seen_terminal s)) \<and>
     (\<forall>i. pend = Some i \<longrightarrow> \<not> terminal_item i \<and>
        (\<exists>s. seen = Some s \<and> \<not> seen_terminal s \<and> item_revision i \<le> seen_revision s) \<and>
        (\<forall>a\<in>set es. item_revision a < item_revision i))"

definition co_ordered :: "('i, 't, 'o) coalescer \<Rightarrow> ('i, 't, 'o) coalescer_output list \<Rightarrow> bool" where
  "co_ordered c outs \<longleftrightarrow> co_inv c \<and>
     (\<forall>k. key_ordered (map_of (co_seenItems c) k) (map_option pend_item (map_of (co_pending c) k))
        (emitted_items k outs))"

definition resnapshot_only :: "('i, 't, 'o) coalescer_output list \<Rightarrow> bool" where
  "resnapshot_only os \<longleftrightarrow> (\<exists>g r. os = [ResnapshotRequired g r])"

fun item_or_turn_op :: "('i, 't, 'o) co_op \<Rightarrow> bool" where
  "item_or_turn_op (OpAccept (Snapshot g ts xs) now) = False"
| "item_or_turn_op (OpAccept (HistoryPrepend g ts xs) now) = False"
| "item_or_turn_op _ = True"

section \<open>Lemmas\<close>

subsection \<open>The pending table\<close>

lemma pend_okD:
  assumes "pend_ok P b T n"
  shows "jmap_wf P" and "b = (\<Sum>q\<leftarrow>P. pend_bytes (snd q))" and "distinct (map fst T)"
    and "map_of P k = Some p \<Longrightarrow> item_id (pend_item p) = k"
    and "map_of P k = Some p \<Longrightarrow> 0 \<le> pend_bytes p"
    and "t \<in> set T \<Longrightarrow> fst t < n"
    and "(m, k) \<in> set T \<longleftrightarrow> (\<exists>p. map_of P k = Some p \<and> pend_task p = m)"
  using assms by (auto simp: pend_ok_def)

lemma pend_ok_tasks_inj:
  assumes "pend_ok P b T n" and "map_of P k = Some p" and "map_of P k' = Some p'"
    and "pend_task p = pend_task p'"
  shows "k = k'"
proof -
  from assms have "(pend_task p, k) \<in> set T" "(pend_task p, k') \<in> set T"
    by (auto simp: pend_okD(7)[OF assms(1)])
  with pend_okD(3)[OF assms(1)] show ?thesis
    by (metis eq_key_imp_eq_value)
qed

lemma pend_ok_empty [simp]: "pend_ok [] 0 [] n"
  by (simp add: pend_ok_def)

lemma pend_ok_empty_tasks: "pend_ok [] b T n \<Longrightarrow> T = [] \<and> b = 0"
  using pend_okD(2,7)[of "[]" b T n] by (cases T) auto

lemma pend_bytes_nonneg:
  assumes "pend_ok P b T n"
  shows "0 \<le> b"
  using assms by (auto simp: pend_ok_def intro!: sum_list_nonneg)

lemma jmap_wf_get: "jmap_wf m \<Longrightarrow> (k, v) \<in> set m \<longleftrightarrow> map_of m k = Some v"
  by (simp add: map_of_eq_Some_iff)

lemma pend_ok_delete:
  assumes ok: "pend_ok P b T n" and k: "map_of P k = Some p"
  shows "pend_ok (jmap_delete k P) (max 0 (b - pend_bytes p)) (filter (\<lambda>t. fst t \<noteq> pend_task p) T) n"
proof -
  let ?P = "jmap_delete k P" and ?T = "filter (\<lambda>t. fst t \<noteq> pend_task p) T"
  have sum: "(\<Sum>q\<leftarrow>?P. pend_bytes (snd q)) = b - pend_bytes p"
    using sum_jmap_delete[OF pend_okD(1)[OF ok] k, of pend_bytes] pend_okD(2)[OF ok] by simp
  have "0 \<le> (\<Sum>q\<leftarrow>?P. pend_bytes (snd q))"
  proof (rule sum_list_nonneg, clarsimp)
    fix a q assume "(a, q) \<in> set ?P"
    then have "map_of ?P a = Some q"
      using jmap_wf_delete[OF pend_okD(1)[OF ok]] by (simp add: jmap_wf_get)
    then show "0 \<le> pend_bytes q"
      using pend_okD(5)[OF ok] by (auto split: if_splits)
  qed
  then have bytes: "max 0 (b - pend_bytes p) = (\<Sum>q\<leftarrow>?P. pend_bytes (snd q))"
    using sum by simp
  have tasks: "(m, j) \<in> set ?T \<longleftrightarrow> (\<exists>q. map_of ?P j = Some q \<and> pend_task q = m)" for m j
  proof (cases "j = k")
    case True
    then show ?thesis using pend_okD(7)[OF ok, of m k] k by simp
  next
    case False
    then have "pend_task q \<noteq> pend_task p" if "map_of P j = Some q" for q
      using pend_ok_tasks_inj[OF ok k that] by metis
    with False show ?thesis using pend_okD(7)[OF ok, of m j] by auto
  qed
  show ?thesis
    unfolding pend_ok_def bytes
    using ok tasks by (auto simp: pend_ok_def distinct_map_filter split: if_splits)
qed

lemma pend_ok_insert:
  assumes ok: "pend_ok P b T n" and k: "map_of P k = None"
    and p: "item_id (pend_item p) = k" "0 \<le> pend_bytes p" "pend_task p = n"
  shows "pend_ok (jmap_set k p P) (b + pend_bytes p) (T @ [(n, k)]) (Suc n)"
proof -
  have fresh: "m < n" if "(m, j) \<in> set T" for m j
    using pend_okD(6)[OF ok that] by simp
  have other: "pend_task q \<noteq> n" if "map_of P j = Some q" for j q
    using pend_okD(7)[OF ok, of "pend_task q" j] that fresh by blast
  have tasks: "(m, j) \<in> set (T @ [(n, k)]) \<longleftrightarrow>
      (\<exists>q. map_of (jmap_set k p P) j = Some q \<and> pend_task q = m)" for m j
    using pend_okD(7)[OF ok, of m j] k p(3) by auto
  have "(\<Sum>q\<leftarrow>jmap_set k p P. pend_bytes (snd q)) = b + pend_bytes p"
    using sum_jmap_set_new[OF k, where f = pend_bytes] pend_okD(2)[OF ok] by simp
  then show ?thesis
    unfolding pend_ok_def
    using ok tasks p fresh by (auto simp: pend_ok_def less_Suc_eq split: if_splits)
qed

lemma pend_ok_replace:
  assumes ok: "pend_ok P b T n" and k: "map_of P k = Some p"
    and p: "item_id (pend_item p') = k" "0 \<le> pend_bytes p'" "pend_task p' = pend_task p"
  shows "pend_ok (jmap_set k p' P) (b - pend_bytes p + pend_bytes p') T n"
proof -
  have tasks: "(m, j) \<in> set T \<longleftrightarrow>
      (\<exists>q. map_of (jmap_set k p' P) j = Some q \<and> pend_task q = m)" for m j
    using pend_okD(7)[OF ok, of m j] k p(3) by auto
  have "(\<Sum>q\<leftarrow>jmap_set k p' P. pend_bytes (snd q)) = b - pend_bytes p + pend_bytes p'"
    using sum_jmap_set_old[OF pend_okD(1)[OF ok] k, where f = pend_bytes] pend_okD(2)[OF ok] by simp
  then show ?thesis
    unfolding pend_ok_def
    using ok tasks p by (auto simp: pend_ok_def split: if_splits)
qed

text \<open>The timer of \<open>k\<close> fired early and is armed again under a new task.\<close>

lemma pend_ok_rearm:
  assumes ok: "pend_ok P b T n" and k: "map_of P k = Some p"
  shows "pend_ok (jmap_set k (p\<lparr>pend_task := n\<rparr>) P) b
    (filter (\<lambda>t. fst t \<noteq> pend_task p) T @ [(n, k)]) (Suc n)"
proof -
  let ?p = "p\<lparr>pend_task := n\<rparr>" and ?T = "filter (\<lambda>t. fst t \<noteq> pend_task p) T"
  have fresh: "m < n" if "(m, j) \<in> set T" for m j
    using pend_okD(6)[OF ok that] by simp
  have tasks: "(m, j) \<in> set (?T @ [(n, k)]) \<longleftrightarrow>
      (\<exists>q. map_of (jmap_set k ?p P) j = Some q \<and> pend_task q = m)" for m j
  proof (cases "j = k")
    case True
    then show ?thesis using pend_okD(7)[OF ok, of m k] k by auto
  next
    case False
    then have "pend_task q \<noteq> pend_task p" if "map_of P j = Some q" for q
      using pend_ok_tasks_inj[OF ok k that] by metis
    with False show ?thesis using pend_okD(7)[OF ok, of m j] by auto
  qed
  have "(\<Sum>q\<leftarrow>jmap_set k ?p P. pend_bytes (snd q)) = b"
    using sum_jmap_set_old[OF pend_okD(1)[OF ok] k, where f = pend_bytes and v = ?p]
      pend_okD(2)[OF ok] by simp
  then show ?thesis
    unfolding pend_ok_def
    using ok tasks fresh k by (auto simp: pend_ok_def less_Suc_eq distinct_map_filter split: if_splits)
qed

subsection \<open>Every operation keeps the invariant\<close>

lemma fold_cancel_task:
  "fold (\<lambda>p. cancel_task (pend_task (snd p))) ps c =
   c\<lparr>co_tasks := filter (\<lambda>t. fst t \<notin> (\<lambda>p. pend_task (snd p)) ` set ps) (co_tasks c)\<rparr>"
proof (induction ps arbitrary: c)
  case (Cons p ps)
  let ?d = "cancel_task (pend_task (snd p)) c"
  let ?Q = "\<lambda>t. fst t \<notin> (\<lambda>p. pend_task (snd p)) ` set ps"
  have "fold (\<lambda>p. cancel_task (pend_task (snd p))) (p # ps) c =
      ?d\<lparr>co_tasks := filter ?Q (co_tasks ?d)\<rparr>"
    by (simp add: Cons.IH)
  also have "\<dots> = c\<lparr>co_tasks :=
      filter (\<lambda>t. fst t \<notin> (\<lambda>p. pend_task (snd p)) ` set (p # ps)) (co_tasks c)\<rparr>"
    by (simp add: cancel_task_def conj_commute)
  finally show ?case .
qed simp

lemma clear_pending_eq:
  assumes "co_inv c"
  shows "clear_pending c = c\<lparr>co_pending := [], co_pendingBytes := 0, co_tasks := []\<rparr>"
proof -
  have ok: "pend_ok (co_pending c) (co_pendingBytes c) (co_tasks c) (co_nextTask c)"
    using assms by (simp add: co_inv_def)
  have "fst t \<in> (\<lambda>p. pend_task (snd p)) ` set (co_pending c)" if "t \<in> set (co_tasks c)" for t
  proof -
    obtain m k where t: "t = (m, k)" by fastforce
    with that obtain p where "map_of (co_pending c) k = Some p" "pend_task p = m"
      using pend_okD(7)[OF ok] by auto
    then show ?thesis using t by (auto dest: map_of_SomeD intro!: image_eqI[where x = "(k, p)"])
  qed
  then have "filter (\<lambda>t. fst t \<notin> (\<lambda>p. pend_task (snd p)) ` set (co_pending c)) (co_tasks c) = []"
    by (auto simp: filter_empty_conv)
  then show ?thesis by (simp add: clear_pending_def fold_cancel_task)
qed

lemma co_inv_frame [simp]:
  "co_inv (c\<lparr>co_lastEmittedAt := l\<rparr>) = co_inv c"
  "co_inv (c\<lparr>co_seenItems := sn\<rparr>) = co_inv c"
  "co_inv (c\<lparr>co_turns := ts\<rparr>) = co_inv c"
  "co_inv (c\<lparr>co_generation := g\<rparr>) = co_inv c"
  by (simp_all add: co_inv_def)

lemma co_inv_cleared:
  "co_inv c \<Longrightarrow> co_inv (c\<lparr>co_pending := [], co_pendingBytes := 0, co_tasks := [], co_invalidated := b\<rparr>)"
  by (simp add: co_inv_def)

lemma clear_pending_inv [sedes_inv]: "co_inv c \<Longrightarrow> co_inv (clear_pending c)"
  by (simp add: clear_pending_eq) (simp add: co_inv_def)

lemma remove_pending_inv [sedes_inv]:
  assumes "co_inv c"
  shows "co_inv (remove_pending i c)"
proof (cases "jmap_get (co_pending c) i")
  case None
  then show ?thesis using assms by (simp add: remove_pending_def)
next
  case (Some p)
  have ok: "pend_ok (co_pending c) (co_pendingBytes c) (co_tasks c) (co_nextTask c)"
    using assms by (simp add: co_inv_def)
  have "length (jmap_delete i (co_pending c)) \<le> length (co_pending c)"
    by (rule length_delete_le)
  then show ?thesis
    using assms pend_ok_delete[OF ok Some] pend_okD(5)[OF ok Some] Some
    by (auto simp: remove_pending_def cancel_task_def co_inv_def)
qed

lemma invalidate_inv [sedes_inv]:
  assumes "co_inv c"
  shows "co_inv (snd (snd (invalidate r c)))"
proof -
  let ?d = "c\<lparr>co_invalidated := True\<rparr>"
  have "clear_pending ?d = (clear_pending c)\<lparr>co_invalidated := True\<rparr>"
    by (simp add: clear_pending_def fold_cancel_task)
  then show ?thesis
    using assms
    by (auto simp: invalidate_def clear_pending_eq co_inv_def split: option.splits)
qed

lemma emit_pending_inv [sedes_inv]: "co_inv c \<Longrightarrow> co_inv (snd (emit_pending i now c))"
  by (simp add: emit_pending_def Let_def remove_pending_inv split: option.splits)

lemma emit_each_inv [sedes_inv]: "co_inv c \<Longrightarrow> co_inv (snd (emit_each is now c))"
proof (induction "is" arbitrary: c)
  case (Cons i "is")
  then have "co_inv (snd (emit_each is now (snd (emit_pending i now c))))"
    by (simp add: emit_pending_inv)
  then show ?case by (simp add: Let_def split_def)
qed simp

lemma flush_inv [sedes_inv]: "co_inv c \<Longrightarrow> co_inv (snd (flush now c))"
  by (simp add: flush_def emit_each_inv)

lemma reset_inv [sedes_inv]: "co_inv c \<Longrightarrow> co_inv (reset g ts xs c)"
  by (simp add: reset_def clear_pending_eq) (simp add: co_inv_def)

lemma dispose_inv [sedes_inv]: "co_inv c \<Longrightarrow> co_inv (dispose c)"
  by (simp add: dispose_def clear_pending_eq) (simp add: co_inv_def)

lemma retain_pending_inv [sedes_inv]:
  assumes inv: "co_inv c" and live: "\<not> co_invalidated c"
  shows "co_inv (snd (snd (retain_pending g i due now c)))"
proof -
  have ok: "pend_ok (co_pending c) (co_pendingBytes c) (co_tasks c) (co_nextTask c)"
    and sz: "0 \<le> co_serializedBytes c e" for e
    using inv by (simp_all add: co_inv_def)
  show ?thesis
  proof (cases "jmap_get (co_pending c) (item_id i)")
    case None
    have "length (jmap_set (item_id i) q (co_pending c)) = Suc (length (co_pending c))" for q
      using None by (simp add: jmap_set_absent)
    moreover have "pend_ok (jmap_set (item_id i)
        \<lparr>pend_generation = g, pend_item = i, pend_bytes = co_serializedBytes c (ItemUpsert g i),
         pend_sequence = co_nextPendingSequence c, pend_dueAt = due, pend_task = co_nextTask c\<rparr>
        (co_pending c)) (co_pendingBytes c + co_serializedBytes c (ItemUpsert g i))
        (co_tasks c @ [(co_nextTask c, item_id i)]) (Suc (co_nextTask c))"
      using pend_ok_insert[OF ok None, of "\<lparr>pend_generation = g, pend_item = i,
         pend_bytes = co_serializedBytes c (ItemUpsert g i),
         pend_sequence = co_nextPendingSequence c, pend_dueAt = due, pend_task = co_nextTask c\<rparr>"] sz
      by simp
    ultimately show ?thesis
      using inv live None invalidate_inv[OF inv, of CoalescerOverflow]
      by (simp add: retain_pending_def Let_def) (simp add: co_inv_def)
  next
    case (Some p)
    have "length (jmap_set (item_id i) q (co_pending c)) = length (co_pending c)" for q
      using Some by (simp add: length_jmap_set jmap_has_def)
    moreover have "pend_ok (jmap_set (item_id i)
        (p\<lparr>pend_generation := g, pend_item := i,
           pend_bytes := co_serializedBytes c (ItemUpsert g i)\<rparr>) (co_pending c))
        (co_pendingBytes c - pend_bytes p + co_serializedBytes c (ItemUpsert g i))
        (co_tasks c) (co_nextTask c)"
      using pend_ok_replace[OF ok Some, of "p\<lparr>pend_generation := g, pend_item := i,
           pend_bytes := co_serializedBytes c (ItemUpsert g i)\<rparr>"] sz
      by simp
    ultimately show ?thesis
      using inv live Some invalidate_inv[OF inv, of CoalescerOverflow]
      by (simp add: retain_pending_def Let_def) (simp add: co_inv_def)
  qed
qed

lemma remove_pending_frame [simp]:
  "co_invalidated (remove_pending i c) = co_invalidated c"
  "co_seenItems (remove_pending i c) = co_seenItems c"
  "co_lastEmittedAt (remove_pending i c) = co_lastEmittedAt c"
  "co_turns (remove_pending i c) = co_turns c"
  "co_generation (remove_pending i c) = co_generation c"
  "co_pending (remove_pending i c) = jmap_delete i (co_pending c)"
proof -
  have absent: "jmap_delete i P = P" if "map_of P i = None" for P :: "(string, 'a pending_item) jmap"
    using that by (intro delete_absent) (auto simp: map_of_eq_None_iff)
  show "co_pending (remove_pending i c) = jmap_delete i (co_pending c)"
    using absent by (auto simp: remove_pending_def cancel_task_def split: option.splits)
qed (simp_all add: remove_pending_def cancel_task_def split: option.splits)

lemma accept_item_inv [sedes_inv]:
  assumes "co_inv c" and "\<not> co_invalidated c"
  shows "co_inv (snd (snd (accept_item g i now c)))"
  using assms invalidate_inv[OF assms(1)]
  by (auto simp: accept_item_def Let_def emit_now_def remove_pending_inv retain_pending_inv
      split: option.splits)

lemma accept_turn_inv [sedes_inv]:
  "co_inv c \<Longrightarrow> co_inv (snd (snd (accept_turn g t f c)))"
  using invalidate_inv[of c] by (auto simp: accept_turn_def Let_def split: option.splits)

lemma accept_current_inv [sedes_inv]:
  "co_inv c \<Longrightarrow> \<not> co_invalidated c \<Longrightarrow> co_inv (snd (snd (accept_current e now c)))"
  by (cases e) (auto simp: accept_item_inv accept_turn_inv)

lemma accept_inv [sedes_inv]: "co_inv c \<Longrightarrow> co_inv (snd (snd (accept e now c)))"
  using invalidate_inv[of c]
  by (auto simp: accept_def accept_current_inv reset_inv simp del: accept_current.simps
      split: thread_event.splits option.splits)

lemma timer_fires_inv [sedes_inv]:
  assumes inv: "co_inv c"
  shows "co_inv (snd (timer_fires n now c))"
proof (cases "map_of (co_tasks c) n")
  case None
  then show ?thesis using inv by (simp add: timer_fires_def)
next
  case (Some i)
  have ok: "pend_ok (co_pending c) (co_pendingBytes c) (co_tasks c) (co_nextTask c)"
    using inv by (simp add: co_inv_def)
  from Some obtain p where p: "jmap_get (co_pending c) i = Some p" "pend_task p = n"
    using pend_okD(7)[OF ok, of n i] map_of_SomeD[OF Some] by auto
  then have live: "\<not> co_invalidated c"
    using inv by (auto simp: co_inv_def)
  have again: "emit_pending i now (cancel_task n c) = emit_pending i now c"
    using p by (simp add: emit_pending_def remove_pending_def cancel_task_def Let_def)
  have len: "length (jmap_set i q (co_pending c)) = length (co_pending c)" for q
    using p by (simp add: length_jmap_set jmap_has_def)
  have rearmed: "co_inv (snd (on_timer i now (cancel_task n c)))" if "now < pend_dueAt p"
    using pend_ok_rearm[OF ok p(1)] inv p live len that
    by (auto simp: on_timer_def cancel_task_def co_inv_def)
  have "co_inv (snd (on_timer i now (cancel_task n c)))" if "\<not> now < pend_dueAt p"
  proof -
    have "on_timer i now (cancel_task n c) = emit_pending i now (cancel_task n c)"
      using p that live by (simp add: on_timer_def cancel_task_def)
    then show ?thesis using emit_pending_inv[OF inv] by (simp only: again)
  qed
  with rearmed show ?thesis
    using Some by (auto simp: timer_fires_def)
qed

lemma co_op_step_inv [sedes_inv]: "co_inv c \<Longrightarrow> co_inv (snd (co_op_step x c))"
  by (cases x) (simp_all add: accept_inv flush_inv timer_fires_inv)

lemma co_run_inv [sedes_inv]: "co_inv c \<Longrightarrow> co_inv (snd (co_run xs c))"
proof (induction xs arbitrary: c)
  case (Cons x xs)
  then have "co_inv (snd (co_run xs (snd (co_op_step x c))))"
    by (simp add: co_op_step_inv)
  then show ?case by (simp add: Let_def split_def)
qed simp

lemma new_coalescer_inv [sedes_inv]:
  "new_coalescer iv mi mb sz = Inr c \<Longrightarrow> (\<And>e. 0 \<le> sz e) \<Longrightarrow> co_inv c"
  by (auto simp: new_coalescer_def positive_safe_integer_def co_inv_def split: if_splits)

subsection \<open>The coalesced stream refines the uncoalesced one\<close>

lemma invalidate_cases:
  assumes "\<not> co_invalidated c" and "co_generation c = Some g" and "g \<noteq> []"
  shows "co_invalidated (snd (snd (invalidate r c)))"
    and "co_generation (snd (snd (invalidate r c))) = Some g"
    and "fst (snd (invalidate r c)) = [ResnapshotRequired g r]"
    and "fst (invalidate r c) = None"
  using assms by (simp_all add: invalidate_def clear_pending_def fold_cancel_task)

lemma emit_pending_sim:
  assumes "co_sim c full v" and "\<not> co_invalidated c"
  shows "co_sim (snd (emit_pending i now c)) full (fold apply_output (fst (emit_pending i now c)) v)
    \<and> \<not> co_invalidated (snd (emit_pending i now c))"
proof (cases "map_of (co_pending c) i")
  case None
  then show ?thesis using assms by (simp add: emit_pending_def)
next
  case (Some p)
  have inv: "co_inv c" and full: "full = co_view c v" using assms by (simp_all add: co_sim_def)
  have id: "item_id (pend_item p) = i"
    using inv pend_okD(4) Some by (fastforce simp: co_inv_def)
  have "co_view (snd (emit_pending i now c)) (v(i \<mapsto> pend_item p)) = full"
    using Some by (auto simp: full co_view_def emit_pending_def Let_def fun_eq_iff split: option.splits)
  then show ?thesis
    using assms Some id emit_pending_inv[OF inv, of i now]
    by (auto simp: co_sim_def emit_pending_def Let_def)
qed

lemma emit_each_sim:
  assumes "co_sim c full v" and "\<not> co_invalidated c"
  shows "co_sim (snd (emit_each is now c)) full (fold apply_output (fst (emit_each is now c)) v)
    \<and> \<not> co_invalidated (snd (emit_each is now c))"
  using assms
proof (induction "is" arbitrary: c v)
  case (Cons i "is")
  show ?case
    using Cons.IH[of "snd (emit_pending i now c)" "fold apply_output (fst (emit_pending i now c)) v"]
      emit_pending_sim[OF Cons.prems, of i now]
    by (simp add: Let_def split_def)
qed simp

lemma flush_sim:
  "co_sim c full v \<Longrightarrow> co_sim (snd (flush now c)) full (fold apply_output (fst (flush now c)) v)"
  using emit_each_sim[of c full v] by (cases "co_invalidated c") (auto simp: flush_def)

lemma timer_fires_sim:
  assumes sim: "co_sim c full v"
  shows "co_sim (snd (timer_fires n now c)) full (fold apply_output (fst (timer_fires n now c)) v)"
proof (cases "map_of (co_tasks c) n")
  case None
  then show ?thesis using sim by (simp add: timer_fires_def)
next
  case (Some i)
  have inv: "co_inv c" using sim by (simp add: co_sim_def)
  then have ok: "pend_ok (co_pending c) (co_pendingBytes c) (co_tasks c) (co_nextTask c)"
    by (simp add: co_inv_def)
  from Some obtain p where p: "jmap_get (co_pending c) i = Some p" "pend_task p = n"
    using pend_okD(7)[OF ok, of n i] map_of_SomeD[OF Some] by auto
  then have live: "\<not> co_invalidated c"
    using inv by (auto simp: co_inv_def)
  show ?thesis
  proof (cases "now < pend_dueAt p")
    case True
    have eq: "timer_fires n now c = ([], (cancel_task n c)\<lparr>
        co_tasks := co_tasks (cancel_task n c) @ [(co_nextTask c, i)],
        co_nextTask := co_nextTask c + 1,
        co_pending := jmap_set i (p\<lparr>pend_task := co_nextTask c\<rparr>) (co_pending c)\<rparr>)"
      using Some p live True by (simp add: timer_fires_def on_timer_def cancel_task_def)
    have "co_view (snd (timer_fires n now c)) v = co_view c v"
      using p by (auto simp: eq co_view_def cancel_task_def fun_eq_iff)
    then show ?thesis
      using sim timer_fires_inv[OF inv, of n now] live p
      by (auto simp: co_sim_def eq cancel_task_def)
  next
    case False
    have "timer_fires n now c = emit_pending i now c"
      using Some p live False
      by (simp add: timer_fires_def on_timer_def cancel_task_def emit_pending_def remove_pending_def Let_def)
    then show ?thesis using emit_pending_sim[OF sim live] by simp
  qed
qed

lemma emit_now_outputs [simp]:
  "fst (emit_now e k now c) = None" "fst (snd (emit_now e k now c)) = [OutEvent e]"
  by (simp_all add: emit_now_def)

lemma emit_now_sim:
  assumes sim: "co_sim c full v" and live: "\<not> co_invalidated c"
  shows "co_sim (snd (snd (emit_now (ItemUpsert g i) (item_id i) now
      (remove_pending (item_id i) (c\<lparr>co_seenItems := sn\<rparr>))))) (full(item_id i \<mapsto> i)) (v(item_id i \<mapsto> i))"
proof -
  let ?c = "remove_pending (item_id i) (c\<lparr>co_seenItems := sn\<rparr>)"
  have "co_inv ?c" using sim by (simp add: co_sim_def remove_pending_inv)
  moreover have "full(item_id i \<mapsto> i) = co_view ?c (v(item_id i \<mapsto> i))"
    using sim live by (auto simp: co_sim_def co_view_def fun_eq_iff split: option.splits)
  ultimately show ?thesis
    using sim live by (auto simp: co_sim_def emit_now_def co_view_def)
qed

lemma retain_pending_sim:
  assumes sim: "co_sim c full v" and live: "\<not> co_invalidated c"
    and gen: "co_generation c = Some h" "h \<noteq> []"
    and last: "map_of (co_lastEmittedAt c) (item_id i) \<noteq> None"
  shows "co_sim (snd (snd (retain_pending g i due now c))) (full(item_id i \<mapsto> i))
    (fold apply_output (fst (snd (retain_pending g i due now c))) v)"
proof -
  have inv: "co_inv c" using sim by (simp add: co_sim_def)
  have over: "co_sim (snd (snd (invalidate CoalescerOverflow c))) F
      (fold apply_output (fst (snd (invalidate CoalescerOverflow c))) v)" for F
    using invalidate_cases[OF live gen] invalidate_inv[OF inv] gen by (simp add: co_sim_def)
  have keep: "full(item_id i \<mapsto> i) = co_view c' v"
    if "co_pending c' = jmap_set (item_id i) q (co_pending c)" "pend_item q = i"
    for c' :: "('a, 'b, 'c) coalescer" and q
    using sim live that by (auto simp: co_sim_def co_view_def fun_eq_iff)
  show ?thesis
    using over sim live last keep retain_pending_inv[OF inv live, of g i due now]
    by (auto simp: retain_pending_def Let_def co_sim_def split: option.splits)
qed

lemma accept_item_sim:
  assumes sim: "co_sim c full v" and live: "\<not> co_invalidated c"
    and gen: "co_generation c = Some h" "h \<noteq> []"
  shows "co_sim (snd (snd (accept_item g i now c))) (full(item_id i \<mapsto> i))
    (fold apply_output (fst (snd (accept_item g i now c))) v)"
proof -
  have inv: "co_inv c" using sim by (simp add: co_sim_def)
  have bad: "co_sim (snd (snd (invalidate r c))) F (fold apply_output (fst (snd (invalidate r c))) v)"
    for r F
    using invalidate_cases[OF live gen] invalidate_inv[OF inv] gen by (simp add: co_sim_def)
  let ?sn = "jmap_set (item_id i) \<lparr>seen_revision = item_revision i, seen_terminal = terminal_item i\<rparr>
      (co_seenItems c)"
  have seen: "co_sim (c\<lparr>co_seenItems := ?sn\<rparr>) full v"
    using sim by (simp add: co_sim_def co_view_def)
  show ?thesis
    using bad emit_now_sim[OF sim live, of g i now ?sn]
      retain_pending_sim[OF seen, of h i g _ now] live gen
    by (auto simp: accept_item_def Let_def split: option.splits)
qed

lemma accept_turn_sim:
  assumes sim: "co_sim c full v" and live: "\<not> co_invalidated c"
    and gen: "co_generation c = Some h" "h \<noteq> []"
  shows "co_sim (snd (snd (accept_turn g t f c))) full
    (fold apply_output (fst (snd (accept_turn g t f c))) v)"
proof -
  have inv: "co_inv c" using sim by (simp add: co_sim_def)
  have bad: "co_sim (snd (snd (invalidate r c))) full
      (fold apply_output (fst (snd (invalidate r c))) v)" for r
    using invalidate_cases[OF live gen] invalidate_inv[OF inv] gen by (simp add: co_sim_def)
  have "co_sim (c\<lparr>co_turns := ts\<rparr>) full v" for ts
    using sim by (simp add: co_sim_def co_view_def)
  then show ?thesis
    using bad sim by (auto simp: accept_turn_def Let_def split: option.splits)
qed

lemma accept_current_sim:
  assumes sim: "co_sim c full v" and live: "\<not> co_invalidated c"
    and gen: "co_generation c = Some h" "h \<noteq> []" and e: "\<And>g ts xs. e \<noteq> Snapshot g ts xs"
  shows "co_sim (snd (snd (accept_current e now c))) (apply_view e full)
    (fold apply_output (fst (snd (accept_current e now c))) v)"
proof (cases e)
  case (HistoryPrepend g ts xs)
  have "map_of xs ++ full = co_view (c\<lparr>co_turns := note_turns ts (co_turns c),
      co_seenItems := see_items xs (co_seenItems c)\<rparr>) (map_of xs ++ v)"
    using sim live by (auto simp: co_sim_def co_view_def map_add_def fun_eq_iff split: option.splits)
  then show ?thesis
    using sim live HistoryPrepend by (auto simp: co_sim_def)
qed (use e sim accept_item_sim[OF sim live gen] accept_turn_sim[OF sim live gen] in auto)

lemma accept_sim:
  assumes sim: "co_sim c full v" and gen: "event_generation e \<noteq> []"
  shows "co_sim (snd (snd (accept e now c))) (apply_view e full)
    (fold apply_output (fst (snd (accept e now c))) v)"
proof (cases "\<exists>g ts xs. e = Snapshot g ts xs")
  case True
  then obtain g ts xs where e: "e = Snapshot g ts xs" by blast
  have inv: "co_inv c" using sim by (simp add: co_sim_def)
  then show ?thesis
    using gen reset_inv[OF inv, of g ts xs] e
    by (auto simp: accept_def co_sim_def co_view_def reset_def clear_pending_def)
next
  case False
  then have acc: "accept e now c = (if co_invalidated c then (None, [], c)
      else case co_generation c of
        None \<Rightarrow> accept_current e now (c\<lparr>co_generation := Some (event_generation e)\<rparr>)
      | Some g \<Rightarrow> if event_generation e \<noteq> g then invalidate ProjectionGenerationMismatch c
                  else accept_current e now c)"
    by (cases e) (auto simp: accept_def)
  have inv: "co_inv c" using sim by (simp add: co_sim_def)
  show ?thesis
  proof (cases "co_invalidated c")
    case True
    then show ?thesis using sim by (simp add: acc co_sim_def)
  next
    case live: False
    show ?thesis
    proof (cases "co_generation c")
      case None
      have "co_sim (c\<lparr>co_generation := Some (event_generation e)\<rparr>) full v"
        using sim gen live by (simp add: co_sim_def co_view_def)
      then show ?thesis
        using accept_current_sim[of "c\<lparr>co_generation := Some (event_generation e)\<rparr>" full v] None live
          gen False by (simp add: acc)
    next
      case (Some g)
      then have g: "g \<noteq> []" using sim by (simp add: co_sim_def)
      show ?thesis
        using accept_current_sim[OF sim live Some g] invalidate_cases[OF live Some g]
          invalidate_inv[OF inv] Some live g False
        by (auto simp: acc co_sim_def[of "snd (snd (invalidate _ _))"])
    qed
  qed
qed

lemma co_run_sim:
  assumes "co_sim c full v" and "\<forall>e\<in>set (accepted_events xs). event_generation e \<noteq> []"
  shows "co_sim (snd (co_run xs c)) (fold apply_view (accepted_events xs) full)
    (fold apply_output (fst (co_run xs c)) v)"
  using assms
proof (induction xs arbitrary: c full v)
  case (Cons x xs)
  let ?c = "snd (co_op_step x c)" and ?v = "fold apply_output (fst (co_op_step x c)) v"
  have "co_sim ?c (case x of OpAccept e _ \<Rightarrow> apply_view e full | _ \<Rightarrow> full) ?v"
    using Cons.prems accept_sim flush_sim timer_fires_sim by (cases x) auto
  from Cons.IH[OF this] Cons.prems(2) show ?case
    by (cases x) (simp_all add: Let_def split_def)
qed simp

lemma emit_each_pending:
  "co_pending (snd (emit_each is now c)) = fold jmap_delete is (co_pending c)"
proof (induction "is" arbitrary: c)
  case (Cons i "is")
  have "jmap_delete i (co_pending c) = co_pending c" if "jmap_get (co_pending c) i = None"
    using that by (intro delete_absent) (auto simp: map_of_eq_None_iff)
  then have "co_pending (snd (emit_pending i now c)) = jmap_delete i (co_pending c)"
    by (auto simp: emit_pending_def Let_def split: option.splits)
  then show ?case by (simp add: Let_def split_def Cons.IH)
qed simp

lemma map_of_fold_delete: "map_of (fold jmap_delete ks m) k = (if k \<in> set ks then None else map_of m k)"
  by (induction ks arbitrary: m) auto

lemma flush_empties:
  assumes "co_inv c" and "\<not> co_invalidated c"
  shows "co_pending (snd (flush now c)) = []"
proof -
  let ?ks = "map (\<lambda>p. item_id (pend_item (snd p))) (sort_key (\<lambda>p. pend_sequence (snd p)) (co_pending c))"
  have ok: "pend_ok (co_pending c) (co_pendingBytes c) (co_tasks c) (co_nextTask c)"
    using assms by (simp add: co_inv_def)
  have "k \<in> set ?ks" if "map_of (co_pending c) k = Some p" for k p
    using that pend_okD(4)[OF ok that] by (force dest: map_of_SomeD)
  then have "map_of (fold jmap_delete ?ks (co_pending c)) k = None" for k
    by (cases "map_of (co_pending c) k") (simp_all only: map_of_fold_delete if_splits, auto)
  then have "fold jmap_delete ?ks (co_pending c) = []"
    by (metis list.exhaust map_of_Cons_code(2) option.distinct(1) prod.exhaust)
  then show ?thesis using assms by (simp add: flush_def emit_each_pending)
qed

subsection \<open>Updates of an item leave in revision order\<close>

lemma emitted_items_append [simp]: "emitted_items k (xs @ ys) = emitted_items k xs @ emitted_items k ys"
  by (induction k xs rule: emitted_items.induct) auto

lemma key_drop: "key_ordered sn pd es \<Longrightarrow> key_ordered sn None es"
  by (simp add: key_ordered_def)

lemma key_emit_pending: "key_ordered sn (Some i) es \<Longrightarrow> key_ordered sn None (es @ [i])"
  by (auto simp: key_ordered_def sorted_wrt_append supersedes_def less_imp_le)

lemma key_advance:
  assumes "key_ordered sn pd es" and "\<And>s. sn = Some s \<Longrightarrow> seen_revision s < item_revision i \<and> \<not> seen_terminal s"
  shows "key_ordered (Some \<lparr>seen_revision = item_revision i, seen_terminal = terminal_item i\<rparr>) None es"
    and "key_ordered (Some \<lparr>seen_revision = item_revision i, seen_terminal = terminal_item i\<rparr>) None (es @ [i])"
    and "\<not> terminal_item i \<Longrightarrow>
      key_ordered (Some \<lparr>seen_revision = item_revision i, seen_terminal = terminal_item i\<rparr>) (Some i) es"
    and "\<not> terminal_item i \<Longrightarrow>
      key_ordered (Some \<lparr>seen_revision = item_revision i, seen_terminal = terminal_item i\<rparr>) pd es"
proof -
  have earlier: "item_revision a < item_revision i \<and> \<not> terminal_item a" if "a \<in> set es" for a
  proof -
    from assms(1) that obtain s where "sn = Some s" "item_revision a \<le> seen_revision s"
      "terminal_item a \<longrightarrow> seen_terminal s"
      by (auto simp: key_ordered_def)
    then show ?thesis using assms(2)[of s] by auto
  qed
  then show "key_ordered (Some \<lparr>seen_revision = item_revision i, seen_terminal = terminal_item i\<rparr>) None es"
    and "key_ordered (Some \<lparr>seen_revision = item_revision i, seen_terminal = terminal_item i\<rparr>) None (es @ [i])"
    and "\<not> terminal_item i \<Longrightarrow>
      key_ordered (Some \<lparr>seen_revision = item_revision i, seen_terminal = terminal_item i\<rparr>) (Some i) es"
    using assms(1) by (auto simp: key_ordered_def sorted_wrt_append supersedes_def less_imp_le)
  show "key_ordered (Some \<lparr>seen_revision = item_revision i, seen_terminal = terminal_item i\<rparr>) pd es"
    if "\<not> terminal_item i"
    using assms that earlier unfolding key_ordered_def by (fastforce dest: less_imp_le)
qed

lemma co_ordered_shrink:
  assumes "co_ordered c outs" and "co_inv c'" and "co_seenItems c' = co_seenItems c"
    and "\<And>k. emitted_items k os = []"
    and "\<And>k p'. map_of (co_pending c') k = Some p' \<Longrightarrow>
      \<exists>p. map_of (co_pending c) k = Some p \<and> pend_item p' = pend_item p"
  shows "co_ordered c' (outs @ os)"
  unfolding co_ordered_def
proof (intro conjI allI)
  fix k
  have "map_option pend_item (map_of (co_pending c') k) = None \<or>
      map_option pend_item (map_of (co_pending c') k) = map_option pend_item (map_of (co_pending c) k)"
    using assms(5)[of k] by (cases "map_of (co_pending c') k") auto
  moreover have "key_ordered (map_of (co_seenItems c) k) (map_option pend_item (map_of (co_pending c) k))
      (emitted_items k outs)"
    using assms(1) by (simp add: co_ordered_def)
  ultimately show "key_ordered (map_of (co_seenItems c') k)
      (map_option pend_item (map_of (co_pending c') k)) (emitted_items k (outs @ os))"
    using assms(3,4) by (auto intro: key_drop)
qed (rule assms(2))

lemma invalidate_frame:
  "co_seenItems (snd (snd (invalidate r c))) = co_seenItems c"
  "emitted_items k (fst (snd (invalidate r c))) = []"
  "map_of (co_pending (snd (snd (invalidate r c)))) k = Some p \<Longrightarrow> map_of (co_pending c) k = Some p"
  by (auto simp: invalidate_def clear_pending_def fold_cancel_task split: option.splits if_splits)

lemma invalidate_ordered:
  assumes "co_ordered c outs"
  shows "co_ordered (snd (snd (invalidate r c))) (outs @ fst (snd (invalidate r c)))"
proof (rule co_ordered_shrink[OF assms])
  show "co_inv (snd (snd (invalidate r c)))"
    using assms by (simp add: co_ordered_def invalidate_inv)
qed (auto simp: invalidate_frame(1,2) dest: invalidate_frame(3))

lemma emit_pending_ordered:
  assumes "co_ordered c outs"
  shows "co_ordered (snd (emit_pending i now c)) (outs @ fst (emit_pending i now c))"
proof (cases "map_of (co_pending c) i")
  case None
  then show ?thesis using assms by (simp add: emit_pending_def)
next
  case (Some p)
  have inv: "co_inv c" using assms by (simp add: co_ordered_def)
  have id: "item_id (pend_item p) = i"
    using inv pend_okD(4) Some by (fastforce simp: co_inv_def)
  have "key_ordered (map_of (co_seenItems c) k)
      (map_option pend_item (map_of (jmap_delete i (co_pending c)) k))
      (emitted_items k (outs @ [OutEvent (ItemUpsert (pend_generation p) (pend_item p))]))" for k
  proof -
    have key: "key_ordered (map_of (co_seenItems c) k) (map_option pend_item (map_of (co_pending c) k))
        (emitted_items k outs)"
      using assms by (simp add: co_ordered_def)
    show ?thesis
      using key key_emit_pending[of "map_of (co_seenItems c) i" "pend_item p" "emitted_items i outs"]
        Some id by (cases "k = i") simp_all
  qed
  then show ?thesis
    using Some emit_pending_inv[OF inv, of i now]
    unfolding co_ordered_def by (simp add: emit_pending_def Let_def)
qed

lemma emit_each_ordered:
  "co_ordered c outs \<Longrightarrow> co_ordered (snd (emit_each is now c)) (outs @ fst (emit_each is now c))"
proof (induction "is" arbitrary: c outs)
  case (Cons i "is")
  show ?case
    using Cons.IH[OF emit_pending_ordered[OF Cons.prems, of i now]]
    by (simp add: Let_def split_def)
qed simp

lemma flush_ordered: "co_ordered c outs \<Longrightarrow> co_ordered (snd (flush now c)) (outs @ fst (flush now c))"
  by (simp add: flush_def emit_each_ordered)

text \<open>A timer either emits its pending item or leaves every pending item in place.\<close>

lemma timer_fires_cases:
  assumes inv: "co_inv c"
  shows "(\<exists>i. timer_fires n now c = emit_pending i now c) \<or>
    fst (timer_fires n now c) = [] \<and>
    co_seenItems (snd (timer_fires n now c)) = co_seenItems c \<and>
    (\<forall>k. map_option pend_item (map_of (co_pending (snd (timer_fires n now c))) k) =
       map_option pend_item (map_of (co_pending c) k))"
proof (cases "map_of (co_tasks c) n")
  case None
  then show ?thesis by (simp add: timer_fires_def)
next
  case (Some i)
  have ok: "pend_ok (co_pending c) (co_pendingBytes c) (co_tasks c) (co_nextTask c)"
    using inv by (simp add: co_inv_def)
  from Some obtain p where p: "jmap_get (co_pending c) i = Some p" "pend_task p = n"
    using pend_okD(7)[OF ok, of n i] map_of_SomeD[OF Some] by auto
  then have live: "\<not> co_invalidated c"
    using inv by (auto simp: co_inv_def)
  show ?thesis
  proof (cases "now < pend_dueAt p")
    case True
    with Some p live show ?thesis
      by (auto simp: timer_fires_def on_timer_def cancel_task_def)
  next
    case False
    with Some p live have "timer_fires n now c = emit_pending i now c"
      by (simp add: timer_fires_def on_timer_def cancel_task_def emit_pending_def remove_pending_def Let_def)
    then show ?thesis by blast
  qed
qed

lemma timer_fires_ordered:
  assumes ord: "co_ordered c outs"
  shows "co_ordered (snd (timer_fires n now c)) (outs @ fst (timer_fires n now c))"
proof -
  have inv: "co_inv c" using ord by (simp add: co_ordered_def)
  from timer_fires_cases[OF inv, of n now] show ?thesis
  proof
    assume "\<exists>i. timer_fires n now c = emit_pending i now c"
    then show ?thesis using emit_pending_ordered[OF ord] by auto
  next
    assume "fst (timer_fires n now c) = [] \<and>
      co_seenItems (snd (timer_fires n now c)) = co_seenItems c \<and>
      (\<forall>k. map_option pend_item (map_of (co_pending (snd (timer_fires n now c))) k) =
         map_option pend_item (map_of (co_pending c) k))"
    then show ?thesis
      using ord timer_fires_inv[OF inv, of n now] by (simp add: co_ordered_def)
  qed
qed

text \<open>Likewise for retaining an update: it becomes the pending one, or the coalescer overflows.\<close>

lemma retain_pending_cases:
  "fst (snd (retain_pending g i due now c)) = [] \<and>
    co_seenItems (snd (snd (retain_pending g i due now c))) = co_seenItems c \<and>
    (\<forall>k. map_option pend_item (map_of (co_pending (snd (snd (retain_pending g i due now c)))) k) =
       (if k = item_id i then Some i else map_option pend_item (map_of (co_pending c) k))) \<or>
   retain_pending g i due now c = invalidate CoalescerOverflow c"
  by (auto simp: retain_pending_def Let_def split: option.splits)

lemma accept_item_cases:
  fixes c :: "('i, 't, 'o) coalescer"
  defines "c1 \<equiv> \<lambda>i. c\<lparr>co_seenItems := jmap_set (item_id i)
      \<lparr>seen_revision = item_revision i, seen_terminal = terminal_item i\<rparr> (co_seenItems c)\<rparr>"
  shows "(\<exists>r. accept_item g i now c = invalidate r c) \<or>
    (\<forall>s. map_of (co_seenItems c) (item_id i) = Some s \<longrightarrow>
       seen_revision s < item_revision i \<and> \<not> seen_terminal s) \<and>
    (accept_item g i now c =
       emit_now (ItemUpsert g i) (item_id i) now (remove_pending (item_id i) (c1 i)) \<or>
     (\<exists>due. \<not> terminal_item i \<and> accept_item g i now c = retain_pending g i due now (c1 i)))"
  unfolding c1_def by (auto simp: accept_item_def Let_def not_le split: option.splits)

lemma accept_item_ordered:
  assumes ord: "co_ordered c outs" and live: "\<not> co_invalidated c"
  shows "co_ordered (snd (snd (accept_item g i now c))) (outs @ fst (snd (accept_item g i now c)))"
proof -
  let ?k = "item_id i"
  let ?c = "c\<lparr>co_seenItems := jmap_set ?k
      \<lparr>seen_revision = item_revision i, seen_terminal = terminal_item i\<rparr> (co_seenItems c)\<rparr>"
  have inv: "co_inv c" "co_inv ?c" "\<not> co_invalidated ?c" using ord live by (simp_all add: co_ordered_def)
  have key: "key_ordered (map_of (co_seenItems c) k) (map_option pend_item (map_of (co_pending c) k))
      (emitted_items k outs)" for k
    using ord by (simp add: co_ordered_def)
  consider (bad) r where "accept_item g i now c = invalidate r c"
    | (emit) "\<forall>s. map_of (co_seenItems c) ?k = Some s \<longrightarrow> seen_revision s < item_revision i \<and> \<not> seen_terminal s"
        "accept_item g i now c = emit_now (ItemUpsert g i) ?k now (remove_pending ?k ?c)"
    | (keep) due where "\<forall>s. map_of (co_seenItems c) ?k = Some s \<longrightarrow> seen_revision s < item_revision i \<and> \<not> seen_terminal s"
        "\<not> terminal_item i" "accept_item g i now c = retain_pending g i due now ?c"
    using accept_item_cases[of g i now c] by blast
  then show ?thesis
  proof cases
    case bad
    then show ?thesis using invalidate_ordered[OF ord] by simp
  next
    case emit
    note adv = key_advance[OF key[of ?k], of i]
    have "co_inv (snd (snd (emit_now (ItemUpsert g i) ?k now (remove_pending ?k ?c))))"
      using remove_pending_inv[OF inv(2)] by (simp add: emit_now_def)
    then show ?thesis
      using emit key adv(2) unfolding co_ordered_def by (simp add: emit_now_def)
  next
    case keep
    note adv = key_advance[OF key[of ?k], of i]
    from retain_pending_cases[of g i due now ?c] show ?thesis
    proof
      assume "fst (snd (retain_pending g i due now ?c)) = [] \<and>
        co_seenItems (snd (snd (retain_pending g i due now ?c))) = co_seenItems ?c \<and>
        (\<forall>k. map_option pend_item (map_of (co_pending (snd (snd (retain_pending g i due now ?c)))) k) =
           (if k = ?k then Some i else map_option pend_item (map_of (co_pending ?c) k)))"
      then show ?thesis
        using keep key adv(3) retain_pending_inv[OF inv(2,3), of g i due now]
        unfolding co_ordered_def by auto
    next
      assume over: "retain_pending g i due now ?c = invalidate CoalescerOverflow ?c"
      have "co_ordered ?c outs"
        using keep key adv(4) inv(2) unfolding co_ordered_def by auto
      then show ?thesis
        using invalidate_ordered[of ?c outs] keep(3) over by simp
    qed
  qed
qed

lemma accept_ordered:
  assumes ord: "co_ordered c outs" and e: "item_or_turn_op (OpAccept e now)"
  shows "co_ordered (snd (snd (accept e now c))) (outs @ fst (snd (accept e now c)))"
proof -
  have gen: "co_ordered (c\<lparr>co_generation := g\<rparr>) outs" for g
    using ord by (simp add: co_ordered_def)
  have turn: "co_ordered (snd (snd (accept_turn g t f d))) (outs @ fst (snd (accept_turn g t f d)))"
    if "co_ordered d outs" for g t f d
  proof -
    have "co_ordered (d\<lparr>co_turns := ts\<rparr>) (outs @ [OutEvent (TurnUpsert g t f)])" for ts
      using that by (simp add: co_ordered_def)
    then show ?thesis
      using that invalidate_ordered[OF that] by (auto simp: accept_turn_def Let_def split: option.splits)
  qed
  have cur: "co_ordered (snd (snd (accept_current e now d))) (outs @ fst (snd (accept_current e now d)))"
    if "co_ordered d outs" "\<not> co_invalidated d" for d
    using that e accept_item_ordered[OF that] turn[OF that(1)]
    by (cases e) (auto simp: co_ordered_def[of _ "_ @ [OutEvent (OtherEvent _ _)]"] co_ordered_def[of _ outs])
  show ?thesis
    using cur[OF ord] cur[OF gen] ord invalidate_ordered[OF ord] e
    by (cases e) (auto simp: accept_def simp del: accept_current.simps split: option.splits)
qed

lemma co_run_ordered:
  assumes "co_ordered c outs" and "list_all item_or_turn_op xs"
  shows "co_ordered (snd (co_run xs c)) (outs @ fst (co_run xs c))"
  using assms
proof (induction xs arbitrary: c outs)
  case (Cons x xs)
  have "co_ordered (snd (co_op_step x c)) (outs @ fst (co_op_step x c))"
    using Cons.prems accept_ordered flush_ordered timer_fires_ordered by (cases x) auto
  from Cons.IH[OF this] Cons.prems(2) show ?case
    by (simp add: Let_def split_def)
qed simp

subsection \<open>Failing closed\<close>

lemma invalidated_step:
  assumes "co_invalidated c" and "\<And>g ts xs now. x \<noteq> OpAccept (Snapshot g ts xs) now"
  shows "fst (co_op_step x c) = [] \<and> co_invalidated (snd (co_op_step x c))"
proof (cases x)
  case (OpAccept e now)
  with assms show ?thesis by (cases e) (auto simp: accept_def)
qed (use assms in \<open>auto simp: flush_def timer_fires_def on_timer_def cancel_task_def split: option.splits\<close>)

lemma invalidated_run:
  "co_invalidated c \<Longrightarrow> \<forall>g ts ys now. OpAccept (Snapshot g ts ys) now \<notin> set xs \<Longrightarrow>
   fst (co_run xs c) = [] \<and> co_invalidated (snd (co_run xs c))"
proof (induction xs arbitrary: c)
  case (Cons x xs)
  have "fst (co_op_step x c) = [] \<and> co_invalidated (snd (co_op_step x c))"
    using Cons.prems by (intro invalidated_step) auto
  with Cons show ?case by (simp add: Let_def split_def)
qed simp

lemma invalidate_outputs:
  "\<not> co_invalidated c \<Longrightarrow> co_invalidated (snd (snd (invalidate r c))) \<Longrightarrow>
   resnapshot_only (fst (snd (invalidate r c)))"
  by (auto simp: invalidate_def resnapshot_only_def split: option.splits if_splits)

lemma accept_item_outputs:
  assumes "\<not> co_invalidated c" and "co_invalidated (snd (snd (accept_item g i now c)))"
  shows "resnapshot_only (fst (snd (accept_item g i now c)))"
proof -
  have ret: "resnapshot_only (fst (snd (retain_pending g i due now d)))"
    if "\<not> co_invalidated d" "co_invalidated (snd (snd (retain_pending g i due now d)))"
    for due and d :: "('a, 'b, 'c) coalescer"
    using that invalidate_outputs[of d CoalescerOverflow]
    by (auto simp: retain_pending_def Let_def split: option.splits if_splits)
  from accept_item_cases[of g i now c] assms show ?thesis
    using invalidate_outputs[of c] ret by (fastforce simp: emit_now_def)
qed

lemma accept_turn_outputs:
  assumes "\<not> co_invalidated c" and "co_invalidated (snd (snd (accept_turn g t f c)))"
  shows "resnapshot_only (fst (snd (accept_turn g t f c)))"
  using assms invalidate_outputs[of c]
  by (auto simp: accept_turn_def Let_def split: option.splits if_splits)

lemma accept_outputs:
  assumes live: "\<not> co_invalidated c" and inval: "co_invalidated (snd (snd (accept e now c)))"
  shows "resnapshot_only (fst (snd (accept e now c)))"
proof -
  have cur: "resnapshot_only (fst (snd (accept_current e now d)))"
    if "\<not> co_invalidated d" "co_invalidated (snd (snd (accept_current e now d)))" for d
    using that accept_item_outputs[of d] accept_turn_outputs[of d] by (cases e) auto
  show ?thesis
  proof (cases "\<exists>g ts xs. e = Snapshot g ts xs")
    case True
    then show ?thesis using inval by (auto simp: accept_def reset_def)
  next
    case False
    then have "accept e now c = (case co_generation c of
        None \<Rightarrow> accept_current e now (c\<lparr>co_generation := Some (event_generation e)\<rparr>)
      | Some g \<Rightarrow> if event_generation e \<noteq> g then invalidate ProjectionGenerationMismatch c
                  else accept_current e now c)"
      using live by (cases e) (auto simp: accept_def)
    then show ?thesis
      using inval live cur invalidate_outputs[OF live]
      by (auto split: option.splits if_splits)
  qed
qed

section \<open>Properties\<close>



text \<open>C36. Memory is bounded and timers do not leak. After any run at most the configured number of
  items and bytes are pending, the byte counter is exact, and the outstanding timers are in
  one-to-one correspondence with the pending items.\<close>

theorem pending_bounded:
  assumes "new_coalescer iv mi mb sizeOf = Inr c" and "\<And>e. 0 \<le> sizeOf e"
    and "co_run xs c = (outs, d)"
  shows "int (length (co_pending d)) \<le> co_maximumPendingItems d \<and>
    co_pendingBytes d = (\<Sum>q\<leftarrow>co_pending d. pend_bytes (snd q)) \<and>
    co_pendingBytes d \<le> co_maximumPendingBytes d \<and>
    distinct (map fst (co_tasks d)) \<and>
    set (co_tasks d) = (\<lambda>q. (pend_task (snd q), fst q)) ` set (co_pending d)"
proof -
  have "co_inv c" using assms(1,2) by (rule new_coalescer_inv)
  from co_run_inv[OF this, of xs] assms(3) have inv: "co_inv d" by simp
  then have ok: "pend_ok (co_pending d) (co_pendingBytes d) (co_tasks d) (co_nextTask d)"
    by (simp add: co_inv_def)
  have "set (co_tasks d) = (\<lambda>q. (pend_task (snd q), fst q)) ` set (co_pending d)"
  proof (intro set_eqI iffI)
    fix t assume mem: "t \<in> set (co_tasks d)"
    obtain m k where t: "t = (m, k)" by (cases t)
    with mem obtain p where p: "map_of (co_pending d) k = Some p" "pend_task p = m"
      using pend_okD(7)[OF ok, of m k] by blast
    from map_of_SomeD[OF p(1)] show "t \<in> (\<lambda>q. (pend_task (snd q), fst q)) ` set (co_pending d)"
      by (rule rev_image_eqI) (simp add: t p(2))
  next
    fix t assume "t \<in> (\<lambda>q. (pend_task (snd q), fst q)) ` set (co_pending d)"
    then obtain k p where t: "t = (pend_task p, k)" "(k, p) \<in> set (co_pending d)" by auto
    from map_of_is_SomeI[OF pend_okD(1)[OF ok] t(2)] have "map_of (co_pending d) k = Some p" .
    then show "t \<in> set (co_tasks d)"
      using pend_okD(7)[OF ok, of "pend_task p" k] t by blast
  qed
  then show ?thesis
    using inv pend_okD(2,3)[OF ok] by (simp add: co_inv_def)
qed

text \<open>C37. The coalescer fails closed. When an event makes it invalid it emits that event's
  resnapshot request and nothing else, and from then on it emits nothing until a snapshot
  arrives.\<close>

theorem coalescer_fails_closed:
  assumes "\<not> co_invalidated c" and "co_invalidated (snd (snd (accept e now c)))"
    and "\<forall>g ts ys t. OpAccept (Snapshot g ts ys) t \<notin> set xs"
  shows "resnapshot_only (fst (snd (accept e now c))) \<and>
    fst (co_run xs (snd (snd (accept e now c)))) = [] \<and>
    co_invalidated (snd (co_run xs (snd (snd (accept e now c)))))"
  using accept_outputs[OF assms(1,2)] invalidated_run[OF assms(2,3)] by blast

text \<open>C38. A pending update is not forgotten. When its timer fires at or after its due time the update
  is emitted; fired early, the timer is armed again and the update stays pending.\<close>

theorem timer_delivers:
  assumes "new_coalescer iv mi mb sizeOf = Inr c0" and "\<And>e. 0 \<le> sizeOf e"
    and "c = snd (co_run xs c0)" and "map_of (co_pending c) k = Some p"
  shows "if pend_dueAt p \<le> now
    then fst (timer_fires (pend_task p) now c) =
      [OutEvent (ItemUpsert (pend_generation p) (pend_item p))]
    else fst (timer_fires (pend_task p) now c) = [] \<and>
      (\<exists>q. map_of (co_pending (snd (timer_fires (pend_task p) now c))) k = Some q \<and>
        pend_item q = pend_item p \<and> pend_dueAt q = pend_dueAt p \<and>
        (pend_task q, k) \<in> set (co_tasks (snd (timer_fires (pend_task p) now c))))"
proof -
  have "co_inv c0" using assms(1,2) by (rule new_coalescer_inv)
  then have inv: "co_inv c" unfolding assms(3) by (rule co_run_inv)
  then have ok: "pend_ok (co_pending c) (co_pendingBytes c) (co_tasks c) (co_nextTask c)"
    by (simp add: co_inv_def)
  have "(pend_task p, k) \<in> set (co_tasks c)"
    using pend_okD(7)[OF ok] assms(4) by blast
  then have t: "map_of (co_tasks c) (pend_task p) = Some k"
    using pend_okD(3)[OF ok] by (simp add: map_of_eq_Some_iff)
  have live: "\<not> co_invalidated c" using inv assms(4) by (auto simp: co_inv_def)
  show ?thesis
    using t live assms(4)
    by (auto simp: timer_fires_def on_timer_def cancel_task_def emit_pending_def Let_def)
qed

section \<open>Witnesses\<close>

definition demo_item :: "nat \<Rightarrow> item_status \<Rightarrow> nat conversation_item" where
  "demo_item r st = \<lparr>item_id = ''a'', item_revision = r, item_status = st, item_content = r\<rparr>"

definition demo_coalescer :: "(nat, unit, unit) coalescer" where
  "demo_coalescer = projr (new_coalescer 100 2 1000 (\<lambda>_. 10))"

definition demo_ops :: "(nat, unit, unit) co_op list" where
  "demo_ops = [OpAccept (ItemUpsert ''g'' (demo_item 1 Streaming)) 0,
     OpAccept (ItemUpsert ''g'' (demo_item 2 Streaming)) 10,
     OpAccept (ItemUpsert ''g'' (demo_item 3 Streaming)) 20]"

lemma demo_new: "new_coalescer 100 2 1000 (\<lambda>_. 10) = Inr demo_coalescer"
  by (simp add: demo_coalescer_def new_coalescer_def positive_safe_integer_def is_safe_integer_def
      max_safe_integer_def)

lemmas demo_co_eval = demo_coalescer_def new_coalescer_def positive_safe_integer_def
  is_safe_integer_def max_safe_integer_def demo_ops_def demo_item_def accept_def accept_item_def
  Let_def terminal_item_def emit_now_def remove_pending_def retain_pending_def

lemma demo_live: "\<not> co_invalidated (snd (co_run demo_ops demo_coalescer))"
  by (simp add: demo_co_eval)



theorem pending_bounded_witness:
  "int (length (co_pending (snd (co_run demo_ops demo_coalescer)))) \<le> 2 \<and>
   set (co_tasks (snd (co_run demo_ops demo_coalescer))) = {(0, ''a'')}"
proof -
  let ?d = "snd (co_run demo_ops demo_coalescer)"
  have "int (length (co_pending ?d)) \<le> co_maximumPendingItems ?d \<and>
    set (co_tasks ?d) = (\<lambda>q. (pend_task (snd q), fst q)) ` set (co_pending ?d)"
    using pending_bounded[OF demo_new _ prod.collapse[symmetric], of demo_ops] by simp
  then show ?thesis by (simp add: demo_co_eval)
qed

theorem coalescer_fails_closed_witness:
  "fst (co_run [OpFlush 50] (snd (snd (accept (ItemUpsert ''g'' (demo_item 1 Streaming)) 40
     (snd (co_run demo_ops demo_coalescer)))))) = []"
proof -
  have "co_invalidated (snd (snd (accept (ItemUpsert ''g'' (demo_item 1 Streaming)) 40
     (snd (co_run demo_ops demo_coalescer)))))"
    by (simp add: demo_co_eval invalidate_def clear_pending_def cancel_task_def)
  from coalescer_fails_closed[OF demo_live this, of "[OpFlush 50]"] show ?thesis by simp
qed

theorem timer_delivers_witness:
  "fst (timer_fires 0 100 (snd (co_run demo_ops demo_coalescer))) =
     [OutEvent (ItemUpsert ''g'' (demo_item 3 Streaming))]"
proof -
  let ?p = "\<lparr>pend_generation = ''g'', pend_item = demo_item 3 Streaming, pend_bytes = 10,
      pend_sequence = 0, pend_dueAt = 100, pend_task = 0\<rparr>"
  have "map_of (co_pending (snd (co_run demo_ops demo_coalescer))) ''a'' = Some ?p"
    by (simp add: demo_co_eval)
  from timer_delivers[OF demo_new _ refl this, of 100] show ?thesis by simp
qed

end
