(* ===== verification/Bytes.thy ===== *)
theory Bytes
  imports Prelude "HOL-Library.Word"
begin

text \<open>
  Byte arrays (\<^verbatim>\<open>Uint8Array\<close>, \<^verbatim>\<open>Buffer\<close>) as lists of 8-bit words, with the operations of
  Node's \<^verbatim>\<open>Buffer\<close> the wire formats use: \<^verbatim>\<open>subarray\<close>, the big- and little-endian integer
  accessors, and hexadecimal text. \<^verbatim>\<open>Buffer.from(text, "hex")\<close> stops at the first pair that is
  not hexadecimal.
\<close>

type_synonym byte = "8 word"
type_synonym bytes = "byte list"

section \<open>Definitions\<close>

definition subarray :: "nat \<Rightarrow> nat \<Rightarrow> 'a list \<Rightarrow> 'a list" where
  "subarray i j xs = take (j - i) (drop i xs)"

primrec write_be :: "nat \<Rightarrow> nat \<Rightarrow> bytes" where
  "write_be 0 n = []"
| "write_be (Suc k) n = write_be k (n div 256) @ [word_of_nat (n mod 256)]"

definition read_be :: "bytes \<Rightarrow> nat" where
  "read_be bs = foldl (\<lambda>acc b. acc * 256 + unat b) 0 bs"

fun read_le :: "bytes \<Rightarrow> nat" where
  "read_le [] = 0"
| "read_le (b # bs) = unat b + 256 * read_le bs"

definition ascii :: "string \<Rightarrow> bytes" where
  "ascii s = map (\<lambda>c. word_of_nat (of_char c)) s"

definition hex_digit :: "nat \<Rightarrow> char" where
  "hex_digit d = (if d < 10 then char_of (48 + d) else char_of (87 + d))"

definition hex_value :: "char \<Rightarrow> nat option" where
  "hex_value c = (let n = (of_char c :: nat) in
     if 48 \<le> n \<and> n \<le> 57 then Some (n - 48)
     else if 97 \<le> n \<and> n \<le> 102 then Some (n - 87)
     else if 65 \<le> n \<and> n \<le> 70 then Some (n - 55)
     else None)"

definition to_hex :: "bytes \<Rightarrow> string" where
  "to_hex bs = concat (map (\<lambda>b. [hex_digit (unat b div 16), hex_digit (unat b mod 16)]) bs)"

fun of_hex :: "string \<Rightarrow> bytes" where
  "of_hex (h # l # cs) = (case (hex_value h, hex_value l) of
     (Some x, Some y) \<Rightarrow> word_of_nat (16 * x + y) # of_hex cs
   | _ \<Rightarrow> [])"
| "of_hex _ = []"

definition lower_char :: "char \<Rightarrow> char" where
  "lower_char c = (let n = (of_char c :: nat) in if 65 \<le> n \<and> n \<le> 90 then char_of (n + 32) else c)"

section \<open>Lemmas\<close>

lemma unat_byte [simp]: "unat (b :: byte) < 256"
  using unsigned_less [of b] by simp

lemma unat_byte_of_nat [simp]: "n < 256 \<Longrightarrow> unat (word_of_nat n :: byte) = n"
  by (simp add: unat_of_nat)

lemma length_subarray [simp]: "length (subarray i j xs) = min (j - i) (length xs - i)"
  by (simp add: subarray_def min.commute)

lemma subarray_append_left: "j \<le> length xs \<Longrightarrow> subarray i j (xs @ ys) = subarray i j xs"
  by (simp add: subarray_def)

lemma subarray_append_right:
  "length xs \<le> i \<Longrightarrow> subarray i j (xs @ ys) = subarray (i - length xs) (j - length xs) ys"
  by (simp add: subarray_def)

lemma subarray_all [simp]: "length xs \<le> j \<Longrightarrow> subarray 0 j xs = xs"
  by (simp add: subarray_def)

lemma subarray_empty [simp]: "j \<le> i \<Longrightarrow> subarray i j xs = []"
  by (simp add: subarray_def)

subsection \<open>Integers\<close>

lemma length_write_be [simp]: "length (write_be k n) = k"
  by (induction k arbitrary: n) auto

lemma read_be_snoc: "read_be (bs @ [b]) = read_be bs * 256 + unat b"
  by (simp add: read_be_def)

lemma read_write_be [simp]: "n < 256 ^ k \<Longrightarrow> read_be (write_be k n) = n"
proof (induction k arbitrary: n)
  case 0
  then show ?case by (simp add: read_be_def)
next
  case (Suc k)
  then have "n div 256 < 256 ^ k" by (simp add: div_less_iff_less_mult mult.commute)
  with Suc.IH show ?case by (simp add: read_be_snoc)
qed

lemma read_be_bound: "read_be bs < 256 ^ length bs"
proof (induction bs rule: rev_induct)
  case Nil
  then show ?case by (simp add: read_be_def)
next
  case (snoc b bs)
  have "unat b < 256" by simp
  moreover from snoc have "Suc (read_be bs) * 256 \<le> 256 ^ length bs * 256"
    by (intro mult_le_mono1) simp
  then have "read_be bs * 256 + 256 \<le> 256 ^ length bs * 256" by (simp only: mult_Suc add.commute)
  ultimately have "read_be bs * 256 + unat b < 256 ^ length bs * 256" by linarith
  then show ?case by (simp add: read_be_snoc mult.commute)
qed

lemma write_read_be: "length bs = k \<Longrightarrow> write_be k (read_be bs) = bs"
proof (induction k arbitrary: bs)
  case 0
  then show ?case by simp
next
  case (Suc k)
  then obtain cs c where bs: "bs = cs @ [c]" "length cs = k"
    by (metis append_butlast_last_id length_butlast length_0_conv nat.distinct(1) diff_Suc_1)
  have "(read_be cs * 256 + unat c) div 256 = read_be cs" "(read_be cs * 256 + unat c) mod 256 = unat c"
    by simp_all
  with Suc.IH [OF bs(2)] bs show ?case by (simp add: read_be_snoc)
qed

subsection \<open>Hexadecimal text\<close>

lemma hex_value_digit [simp]: "d < 16 \<Longrightarrow> hex_value (hex_digit d) = Some d"
  by (simp add: hex_value_def hex_digit_def Let_def)

lemma hex_value_bound: "hex_value c = Some d \<Longrightarrow> d < 16"
  by (auto simp: hex_value_def Let_def split: if_splits)

lemma hex_digit_value: "hex_value c = Some d \<Longrightarrow> hex_digit d = lower_char c"
  by (auto simp: hex_value_def hex_digit_def lower_char_def Let_def split: if_splits)

lemma of_hex_to_hex [simp]: "of_hex (to_hex bs) = bs"
proof (induction bs)
  case Nil
  then show ?case by (simp add: to_hex_def)
next
  case (Cons b bs)
  have "unat b div 16 < 16" "unat b mod 16 < 16"
    using unat_byte [of b] by (simp_all add: div_less_iff_less_mult)
  moreover have "to_hex (b # bs) = hex_digit (unat b div 16) # hex_digit (unat b mod 16) # to_hex bs"
    by (simp add: to_hex_def)
  ultimately show ?case using Cons by simp
qed

lemma length_to_hex [simp]: "length (to_hex bs) = 2 * length bs"
  by (induction bs) (auto simp: to_hex_def)

text \<open>Reading hexadecimal text and writing it back gives it in lower case.\<close>

fun pairs_induct :: "'a list \<Rightarrow> unit" where
  "pairs_induct (h # l # cs) = pairs_induct cs"
| "pairs_induct _ = ()"

lemma to_hex_of_hex:
  assumes "even (length cs)" and "\<forall>c\<in>set cs. hex_value c \<noteq> None"
  shows "to_hex (of_hex cs) = map lower_char cs \<and> length (of_hex cs) = length cs div 2"
  using assms
proof (induction cs rule: pairs_induct.induct)
  case (1 h l cs)
  from "1.prems"(2) obtain x y where xy: "hex_value h = Some x" "hex_value l = Some y" by auto
  then have "x < 16" "y < 16" by (auto dest: hex_value_bound)
  then have "16 * x + y < 256" "(16 * x + y) div 16 = x" "(16 * x + y) mod 16 = y" by simp_all
  moreover from this have "unat (word_of_nat (16 * x + y) :: byte) = 16 * x + y"
    by (intro unat_byte_of_nat)
  ultimately show ?case using xy 1
    by (simp add: to_hex_def hex_digit_value del: of_nat_add of_nat_mult)
qed (simp_all add: to_hex_def)

end
