(* ===== verification/FrameCompression.thy ===== *)
theory FrameCompression
  imports Bytes
begin

text \<open>
  The two pieces of logic around the native zstd codec.

  \<^item> \<open>validate_zstd_frame\<close> (\<^verbatim>\<open>src/internal/sidecar-protocol/frame-compression.ts\<close>) walks the block
    structure of a compressed payload before it is handed to the decoder. \<open>zstd_layout\<close> is the
    frame grammar of RFC 8878 restricted to what the code supports; the validator accepts exactly it.
  \<^item> \<open>codec_budget\<close> (\<^verbatim>\<open>src/internal/compression/async-codec-budget.ts\<close>) admits a bounded number of
    codec jobs. Leases and waiters are named by numbers; what a step resolves or rejects is its
    output. The lemmas give its bounds, that it is work-conserving and that it is first-come
    first-served. The codec itself is not modelled.
\<close>

section \<open>Definitions\<close>

subsection \<open>Validation of a compressed frame\<close>

definition maximum_window_bytes :: nat where
  "maximum_window_bytes = 1024 * 1024"

definition zstd_single_segment :: "byte \<Rightarrow> bool" where
  "zstd_single_segment descriptor \<longleftrightarrow> bit descriptor 5"

definition content_size_bytes :: "byte \<Rightarrow> nat" where
  "content_size_bytes descriptor =
     [if zstd_single_segment descriptor then 1 else 0, 2, 4, 8] ! (unat descriptor div 64)"

definition window_size :: "byte \<Rightarrow> nat" where
  "window_size wd = (let base = 2 ^ (10 + unat wd div 8) in base + base div 8 * (unat wd mod 8))"

definition content_size :: "bytes \<Rightarrow> nat" where
  "content_size c = read_le c + (if length c = 2 then 256 else 0)"

text \<open>The block loop; it returns the offset behind the last block.\<close>

function block_loop :: "nat \<Rightarrow> bytes \<Rightarrow> nat \<Rightarrow> nat result" where
  "block_loop maximum_block frame offset =
     (if offset + 3 > length frame then Inl ''sidecar_stream_zstd_frame_invalid''
      else
        let header = read_le (subarray offset (offset + 3) frame);
            block_type = header div 2 mod 4;
            block_bytes = header div 8
        in if block_type = 3 \<or> block_bytes > maximum_block then Inl ''sidecar_stream_zstd_frame_invalid''
           else
             let offset' = offset + 3 + (if block_type = 1 then 1 else block_bytes)
             in if offset' > length frame then Inl ''sidecar_stream_zstd_frame_invalid''
                else if header mod 2 \<noteq> 0 then Inr offset'
                else block_loop maximum_block frame offset')"
  by pat_completeness auto
termination
  by (relation "measure (\<lambda>(m, frame, offset). length frame - offset)") auto

declare block_loop.simps [simp del]

definition validate_zstd_frame :: "bytes \<Rightarrow> nat \<Rightarrow> unit result" where
  "validate_zstd_frame frame decoded_length =
     (if length frame < 6 \<or> read_le (subarray 0 4 frame) \<noteq> 0xfd2fb528
        then Inl ''sidecar_stream_zstd_frame_invalid''
      else
        let descriptor = frame ! 4 in
        if unat descriptor mod 32 \<noteq> 4 then Inl ''sidecar_stream_zstd_frame_invalid''
        else
          let single = zstd_single_segment descriptor;
              n = content_size_bytes descriptor;
              window = (if single then decoded_length else window_size (frame ! 5));
              offset = (if single then 5 else 6)
          in if window > maximum_window_bytes then Inl ''sidecar_stream_zstd_window_invalid''
             else if offset + n > length frame then Inl ''sidecar_stream_zstd_frame_invalid''
             else if n \<noteq> 0 \<and> content_size (subarray offset (offset + n) frame) \<noteq> decoded_length
               then Inl ''sidecar_stream_decoded_length_invalid''
             else case block_loop (min window (128 * 1024)) frame (offset + n) of
               Inl e \<Rightarrow> Inl e
             | Inr end_offset \<Rightarrow>
                 if end_offset + 4 \<noteq> length frame then Inl ''sidecar_stream_zstd_frame_invalid''
                 else Inr ())"

text \<open>The layout: magic number, descriptor, window, content size, blocks, checksum.\<close>

definition block_ok :: "nat \<Rightarrow> bytes \<Rightarrow> bytes \<Rightarrow> bool" where
  "block_ok maximum_block hdr body \<longleftrightarrow> length hdr = 3 \<and> read_le hdr div 2 mod 4 \<noteq> 3 \<and>
     read_le hdr div 8 \<le> maximum_block \<and>
     length body = (if read_le hdr div 2 mod 4 = 1 then 1 else read_le hdr div 8)"

inductive zstd_blocks :: "nat \<Rightarrow> bytes \<Rightarrow> bool" for maximum_block :: nat where
  last_block: "block_ok maximum_block hdr body \<Longrightarrow> odd (read_le hdr) \<Longrightarrow>
     zstd_blocks maximum_block (hdr @ body)"
| more_blocks: "block_ok maximum_block hdr body \<Longrightarrow> even (read_le hdr) \<Longrightarrow>
     zstd_blocks maximum_block rest \<Longrightarrow> zstd_blocks maximum_block (hdr @ body @ rest)"

definition zstd_layout :: "bytes \<Rightarrow> nat \<Rightarrow> bool" where
  "zstd_layout frame decoded_length \<longleftrightarrow>
     (\<exists>mg d w c blocks checksum.
        frame = mg @ [d] @ w @ c @ blocks @ checksum \<and>
        length mg = 4 \<and> read_le mg = 0xfd2fb528 \<and> unat d mod 32 = 4 \<and>
        length w = (if zstd_single_segment d then 0 else 1) \<and>
        length c = content_size_bytes d \<and> (c \<noteq> [] \<longrightarrow> content_size c = decoded_length) \<and>
        (let window = (if zstd_single_segment d then decoded_length else window_size (hd w))
         in window \<le> maximum_window_bytes \<and> zstd_blocks (min window (128 * 1024)) blocks) \<and>
        length checksum = 4)"

subsection \<open>The codec budget\<close>

record codec_budget =
  bg_slots :: int
  bg_maximum_waiters :: int
  bg_waiters :: "nat jset"
  bg_active :: int
  bg_leases :: "(nat, bool) jmap"   \<comment> \<open>lease, whether released\<close>
  bg_next_lease :: nat

datatype budget_output =
    Leased nat nat            \<comment> \<open>waiter or caller, lease\<close>
  | AcquireRejected nat string
  | AcquireWaits nat

definition new_codec_budget :: "int option \<Rightarrow> int option \<Rightarrow> codec_budget result" where
  "new_codec_budget slots waiters =
     (let s = (case slots of None \<Rightarrow> 2 | Some v \<Rightarrow> v); w = (case waiters of None \<Rightarrow> 128 | Some v \<Rightarrow> v)
      in if \<not> is_safe_integer s \<or> s \<le> 0 \<or> \<not> is_safe_integer w \<or> w < 0
         then Inl ''async_codec_budget_invalid''
         else Inr \<lparr>bg_slots = s, bg_maximum_waiters = w, bg_waiters = [], bg_active = 0,
                   bg_leases = [], bg_next_lease = 0\<rparr>)"

definition new_lease :: "codec_budget \<Rightarrow> nat \<times> codec_budget" where
  "new_lease b = (bg_next_lease b,
     b\<lparr>bg_active := bg_active b + 1, bg_leases := jmap_set (bg_next_lease b) False (bg_leases b),
       bg_next_lease := Suc (bg_next_lease b)\<rparr>)"

definition try_acquire :: "codec_budget \<Rightarrow> (nat \<times> codec_budget) option" where
  "try_acquire b =
     (if bg_active b \<ge> bg_slots b \<or> bg_waiters b \<noteq> [] then None else Some (new_lease b))"

definition acquire :: "nat \<Rightarrow> string option \<Rightarrow> codec_budget \<Rightarrow> codec_budget \<times> budget_output list" where
  "acquire wid aborted b =
     (case aborted of
        Some reason \<Rightarrow> (b, [AcquireRejected wid reason])
      | None \<Rightarrow>
        (case try_acquire b of
           Some (l, b') \<Rightarrow> (b', [Leased wid l])
         | None \<Rightarrow>
             if int (length (bg_waiters b)) \<ge> bg_maximum_waiters b
             then (b, [AcquireRejected wid ''async_codec_waiter_limit_exceeded''])
             else (b\<lparr>bg_waiters := jset_add wid (bg_waiters b)\<rparr>, [AcquireWaits wid])))"

definition abort_waiter :: "nat \<Rightarrow> string \<Rightarrow> codec_budget \<Rightarrow> codec_budget \<times> budget_output list" where
  "abort_waiter wid reason b =
     (if wid \<in> set (bg_waiters b)
      then (b\<lparr>bg_waiters := jset_delete wid (bg_waiters b)\<rparr>, [AcquireRejected wid reason])
      else (b, []))"

definition release :: "nat \<Rightarrow> codec_budget \<Rightarrow> codec_budget \<times> budget_output list" where
  "release l b =
     (if jmap_get (bg_leases b) l \<noteq> Some False then (b, [])
      else
        let b1 = b\<lparr>bg_leases := jmap_set l True (bg_leases b), bg_active := bg_active b - 1\<rparr>
        in case bg_waiters b1 of
             [] \<Rightarrow> (b1, [])
           | w # _ \<Rightarrow>
               let (l', b2) = new_lease (b1\<lparr>bg_waiters := jset_delete w (bg_waiters b1)\<rparr>)
               in (b2, [Leased w l']))"

inductive budget_reach :: "codec_budget \<Rightarrow> bool" where
  br_new: "new_codec_budget s w = Inr b \<Longrightarrow> budget_reach b"
| br_try: "budget_reach b \<Longrightarrow> try_acquire b = Some (l, b') \<Longrightarrow> budget_reach b'"
| br_acquire: "budget_reach b \<Longrightarrow> wid \<notin> set (bg_waiters b) \<Longrightarrow> budget_reach (fst (acquire wid sig b))"
| br_abort: "budget_reach b \<Longrightarrow> budget_reach (fst (abort_waiter wid reason b))"
| br_release: "budget_reach b \<Longrightarrow> budget_reach (fst (release l b))"

definition held_leases :: "codec_budget \<Rightarrow> nat" where
  "held_leases b = length (filter (\<lambda>p. \<not> snd p) (bg_leases b))"

definition budget_inv :: "codec_budget \<Rightarrow> bool" where
  "budget_inv b \<longleftrightarrow> 0 < bg_slots b \<and> bg_active b \<le> bg_slots b \<and>
     bg_active b = int (held_leases b) \<and>
     int (length (bg_waiters b)) \<le> bg_maximum_waiters b \<and> distinct (bg_waiters b) \<and>
     (bg_waiters b \<noteq> [] \<longrightarrow> bg_active b = bg_slots b) \<and>
     jmap_wf (bg_leases b) \<and> (\<forall>l\<in>fst ` set (bg_leases b). l < bg_next_lease b)"

section \<open>Lemmas\<close>

subsection \<open>The block loop\<close>

lemma subarray_prefix: "drop i xs = ys @ zs \<Longrightarrow> subarray i (i + length ys) xs = ys"
  by (simp add: subarray_def)

lemma block_bounds:
  assumes "drop offset frame = hdr @ body @ rest" and "block_ok m hdr body"
  shows "subarray offset (offset + 3) frame = hdr" and "offset + 3 + length body \<le> length frame"
    and "drop (offset + 3 + length body) frame = rest"
proof -
  have h: "length hdr = 3" using assms(2) by (simp add: block_ok_def)
  show "subarray offset (offset + 3) frame = hdr"
    using subarray_prefix [OF assms(1)] h by simp
  have "length frame - offset = 3 + length body + length rest"
    using arg_cong [OF assms(1), of length] h by simp
  then show "offset + 3 + length body \<le> length frame" by linarith
  have "drop (3 + length body) (drop offset frame) = rest" using assms(1) h by simp
  then show "drop (offset + 3 + length body) frame = rest" by (simp add: add.commute add.left_commute)
qed

lemma block_loop_step:
  assumes "subarray offset (offset + 3) frame = hdr" and "offset + 3 + length body \<le> length frame"
    and "block_ok m hdr body"
  shows "block_loop m frame offset = (if odd (read_le hdr) then Inr (offset + 3 + length body)
    else block_loop m frame (offset + 3 + length body))"
  using assms unfolding block_ok_def
  by (subst block_loop.simps) (auto simp: Let_def odd_iff_mod_2_eq_one)

lemma block_loop_blocks:
  assumes "zstd_blocks m blocks" and "drop offset frame = blocks @ rest"
  shows "block_loop m frame offset = Inr (offset + length blocks)"
  using assms
proof (induction arbitrary: offset rest)
  case (last_block hdr body)
  from last_block.prems have "drop offset frame = hdr @ body @ rest" by simp
  note b = block_bounds [OF this last_block.hyps(1)]
  from block_loop_step [OF b(1,2) last_block.hyps(1)] last_block.hyps show ?case
    by (simp add: block_ok_def)
next
  case (more_blocks hdr body rest')
  from more_blocks.prems have "drop offset frame = hdr @ body @ rest' @ rest" by simp
  note b = block_bounds [OF this more_blocks.hyps(1)]
  from block_loop_step [OF b(1,2) more_blocks.hyps(1)] more_blocks.hyps more_blocks.IH [OF b(3)]
  show ?case by (simp add: block_ok_def)
qed

lemma block_loop_guards:
  assumes "block_loop m frame offset = Inr e"
  defines "h \<equiv> read_le (subarray offset (offset + 3) frame)"
  shows "offset + 3 \<le> length frame" and "h div 2 mod 4 \<noteq> 3" and "h div 8 \<le> m"
    and "offset + 3 + (if h div 2 mod 4 = 1 then 1 else h div 8) \<le> length frame"
  using assms(1) unfolding block_loop.simps [of m frame offset] h_def
  by (auto simp: Let_def split: if_splits)

lemma block_loop_Inr:
  assumes "block_loop m frame offset = Inr e"
  shows "\<exists>blocks. zstd_blocks m blocks \<and> drop offset frame = blocks @ drop e frame \<and>
    e = offset + length blocks \<and> e \<le> length frame"
  using assms
proof (induction "length frame - offset" arbitrary: offset rule: less_induct)
  case less
  let ?hdr = "subarray offset (offset + 3) frame"
  let ?h = "read_le ?hdr"
  define n where "n = (if ?h div 2 mod 4 = 1 then 1 else ?h div 8)"
  let ?body = "subarray (offset + 3) (offset + 3 + n) frame"
  note g = block_loop_guards [OF less.prems, folded n_def]
  have len: "length ?body = n" using g(4) by simp
  have "length ?hdr = 3" using g(1) by simp
  with g(2,3) len have ok: "block_ok m ?hdr ?body"
    unfolding block_ok_def by (simp only: n_def [symmetric] simp_thms)
  have parts: "drop offset frame = ?hdr @ ?body @ drop (offset + 3 + n) frame"
  proof -
    have "drop i frame = subarray i (i + k) frame @ drop (i + k) frame" for i k
      by (simp add: subarray_def) (metis add.commute append_take_drop_id drop_drop)
    then show ?thesis by (metis append_assoc)
  qed
  note step = block_loop_step [OF refl _ ok, unfolded len, OF g(4)]
  show ?case
  proof (cases "odd ?h")
    case True
    with less.prems step have e: "e = offset + 3 + n" by simp
    show ?thesis
    proof (intro exI conjI)
      show "zstd_blocks m (?hdr @ ?body)" using ok True by (rule last_block)
      show "drop offset frame = (?hdr @ ?body) @ drop e frame" using parts e by simp
      show "e = offset + length (?hdr @ ?body)" using e g(1) len by simp
      show "e \<le> length frame" using e g(4) by simp
    qed
  next
    case False
    with less.prems step have "block_loop m frame (offset + 3 + n) = Inr e" by simp
    moreover have "length frame - (offset + 3 + n) < length frame - offset" using g(1) by arith
    ultimately obtain blocks where b: "zstd_blocks m blocks"
      "drop (offset + 3 + n) frame = blocks @ drop e frame"
      "e = offset + 3 + n + length blocks" "e \<le> length frame"
      using less.hyps by blast
    show ?thesis
    proof (intro exI conjI)
      show "zstd_blocks m (?hdr @ ?body @ blocks)" using ok False b(1) by (intro more_blocks) auto
      show "drop offset frame = (?hdr @ ?body @ blocks) @ drop e frame" using parts b(2) by simp
      show "e = offset + length (?hdr @ ?body @ blocks)" using b(3) g(1) len by simp
      show "e \<le> length frame" by (fact b(4))
    qed
  qed
qed

subsection \<open>The validator accepts exactly the layout\<close>

lemma layout_offsets:
  assumes "frame = mg @ [d] @ w @ c @ tail" and "length mg = 4"
  shows "subarray 0 4 frame = mg" and "frame ! 4 = d"
    and "subarray (5 + length w) (5 + length w + length c) frame = c"
    and "drop (5 + length w + length c) frame = tail"
    and "length w = 1 \<Longrightarrow> frame ! 5 = hd w"
    and "length frame = 5 + length w + length c + length tail"
  using assms by (auto simp: subarray_def nth_append length_Suc_conv)

lemma validate_accepts_layout:
  assumes "zstd_layout frame n"
  shows "validate_zstd_frame frame n = Inr ()"
proof -
  obtain mg d w c blocks checksum where f: "frame = mg @ [d] @ w @ c @ blocks @ checksum"
    "length mg = 4" "read_le mg = 0xfd2fb528" "unat d mod 32 = 4"
    "length w = (if zstd_single_segment d then 0 else 1)" "length c = content_size_bytes d"
    "c \<noteq> [] \<longrightarrow> content_size c = n"
    "(if zstd_single_segment d then n else window_size (hd w)) \<le> maximum_window_bytes"
    "zstd_blocks (min (if zstd_single_segment d then n else window_size (hd w)) (128 * 1024)) blocks"
    "length checksum = 4"
    using assms unfolding zstd_layout_def Let_def by blast
  note o = layout_offsets [OF f(1,2)]
  have off: "(if zstd_single_segment d then 5 else 6) = 5 + length w" using f(5) by simp
  have win: "(if zstd_single_segment d then n else window_size (frame ! 5)) =
      (if zstd_single_segment d then n else window_size (hd w))" using o(5) f(5) by simp
  have "length blocks > 0" using f(9) by (cases rule: zstd_blocks.cases) (auto simp: block_ok_def)
  then have six: "\<not> length frame < 6" "\<not> 5 + length w + length c > length frame"
    using o(6) f(10) by auto
  have loop: "block_loop (min (if zstd_single_segment d then n else window_size (hd w)) (128 * 1024)) frame
      (5 + length w + length c) = Inr (5 + length w + length c + length blocks)"
    by (rule block_loop_blocks [OF f(9) o(4)])
  have fin: "5 + length w + length c + length blocks + 4 = length frame" using o(6) f(10) by simp
  show ?thesis
    unfolding validate_zstd_frame_def Let_def o(1,2) win off f(6) [symmetric] o(3)
    using six f(3,4,7,8) loop fin by auto
qed

lemma validate_Inr:
  assumes "validate_zstd_frame frame n = Inr ()"
  defines "d \<equiv> frame ! 4"
  defines "off \<equiv> (if zstd_single_segment d then 5 else 6 :: nat)"
  defines "window \<equiv> (if zstd_single_segment d then n else window_size (frame ! 5))"
  shows "6 \<le> length frame" and "read_le (subarray 0 4 frame) = 0xfd2fb528" and "unat d mod 32 = 4"
    and "window \<le> maximum_window_bytes" and "off + content_size_bytes d \<le> length frame"
    and "content_size_bytes d \<noteq> 0 \<longrightarrow>
         content_size (subarray off (off + content_size_bytes d) frame) = n"
    and "\<exists>e. block_loop (min window (128 * 1024)) frame (off + content_size_bytes d) = Inr e \<and>
         e + 4 = length frame"
  using assms(1) unfolding validate_zstd_frame_def Let_def d_def off_def window_def
  by (auto split: if_splits sum.splits)

lemma validate_only_layout:
  assumes "validate_zstd_frame frame n = Inr ()"
  shows "zstd_layout frame n"
proof -
  define d where "d = frame ! 4"
  define off where "off = (if zstd_single_segment d then 5 else 6 :: nat)"
  define window where "window = (if zstd_single_segment d then n else window_size (frame ! 5))"
  note v = validate_Inr [OF assms, folded d_def, folded off_def window_def]
  define c where "c = subarray off (off + content_size_bytes d) frame"
  define w where "w = subarray 5 off frame"
  obtain e where e: "block_loop (min window (128 * 1024)) frame (off + content_size_bytes d) = Inr e"
    "e + 4 = length frame"
    using v(7) by blast
  obtain blocks where b: "zstd_blocks (min window (128 * 1024)) blocks"
    "drop (off + content_size_bytes d) frame = blocks @ drop e frame"
    using block_loop_Inr [OF e(1)] by blast
  have step: "drop i frame = subarray i j frame @ drop j frame" if "i \<le> j" for i j
    using that by (metis append_take_drop_id drop_drop le_add_diff_inverse2 subarray_def)
  have one: "drop 4 frame = [d] @ drop 5 frame"
    using v(1) by (simp add: d_def Cons_nth_drop_Suc [symmetric] numeral_eq_Suc)
  have off5: "5 \<le> off" by (simp add: off_def)
  have "frame = subarray 0 4 frame @ [d] @ w @ c @ blocks @ drop e frame"
    using step [of 0 4] one step [OF off5] step [of off "off + content_size_bytes d"] b(2)
    unfolding w_def c_def by simp
  moreover have "length (subarray 0 4 frame) = 4" "length (drop e frame) = 4"
    using v(1) e(2) by auto
  moreover have wl: "length w = (if zstd_single_segment d then 0 else 1)"
    using v(1) by (simp add: w_def off_def)
  moreover have cl: "length c = content_size_bytes d" using v(5) by (simp add: c_def)
  moreover have "c \<noteq> [] \<longrightarrow> content_size c = n" using v(6) cl by (auto simp: c_def)
  moreover have "hd w = frame ! 5" if "\<not> zstd_single_segment d"
    using that v(1) by (simp add: w_def off_def subarray_def hd_drop_conv_nth take_Suc)
  then have "window = (if zstd_single_segment d then n else window_size (hd w))"
    by (simp add: window_def)
  ultimately show ?thesis
    using v(2-4) b(1) unfolding zstd_layout_def Let_def by blast
qed

subsection \<open>The codec budget\<close>

lemma held_set_new:
  "jmap_get m l = None \<Longrightarrow> length (filter (\<lambda>p. \<not> snd p) (jmap_set l False m)) =
   Suc (length (filter (\<lambda>p. \<not> snd p) m))"
  by (simp add: jmap_set_absent)

lemma held_set_released:
  assumes "jmap_get m l = Some False"
  shows "Suc (length (filter (\<lambda>p. \<not> snd p) (jmap_set l True m))) = length (filter (\<lambda>p. \<not> snd p) m)"
  using assms by (induction m) (auto split: if_splits)

lemma fresh_lease:
  fixes n :: nat
  shows "\<forall>l\<in>fst ` set m. l < n \<Longrightarrow> jmap_get m n = None"
  by (auto simp: map_of_eq_None_iff)

lemma budget_inv_new_lease:
  assumes "budget_inv (b\<lparr>bg_waiters := []\<rparr>)" and "bg_active b < bg_slots b"
    and "bg_waiters b \<noteq> [] \<longrightarrow> bg_active b + 1 = bg_slots b" and "distinct (bg_waiters b)"
    and "int (length (bg_waiters b)) \<le> bg_maximum_waiters b"
  shows "budget_inv (snd (new_lease b))"
  using assms held_set_new [OF fresh_lease, of "bg_leases b" "bg_next_lease b"]
  by (auto simp: budget_inv_def new_lease_def held_leases_def keys_jmap_set image_iff)

lemma budget_inv_clear: "budget_inv b \<Longrightarrow> budget_inv (b\<lparr>bg_waiters := []\<rparr>)"
  by (auto simp: budget_inv_def held_leases_def)

lemma budget_inv_try [sedes_inv]:
  assumes "budget_inv b" and "try_acquire b = Some (l, b')"
  shows "budget_inv b'"
proof -
  from assms(2) have b': "b' = snd (new_lease b)" "bg_active b < bg_slots b" "bg_waiters b = []"
    by (auto simp: try_acquire_def split: if_splits dest: arg_cong [of _ _ snd])
  have "0 \<le> bg_maximum_waiters b" using assms(1) by (auto simp: budget_inv_def)
  with b' assms(1) show ?thesis
    by (auto intro!: budget_inv_new_lease dest: budget_inv_clear)
qed

lemma budget_inv_acquire [sedes_inv]:
  assumes "budget_inv b" and "wid \<notin> set (bg_waiters b)"
  shows "budget_inv (fst (acquire wid sig b))"
proof (cases "sig = None \<and> try_acquire b = None \<and> int (length (bg_waiters b)) < bg_maximum_waiters b")
  case True
  then have "bg_active b \<ge> bg_slots b \<or> bg_waiters b \<noteq> []" by (auto simp: try_acquire_def split: if_splits)
  with assms(1) have "bg_active b = bg_slots b" by (auto simp: budget_inv_def)
  with True assms show ?thesis
    by (auto simp: acquire_def budget_inv_def held_leases_def jset_add_def)
next
  case False
  with assms show ?thesis
    by (auto simp: acquire_def intro: budget_inv_try split: option.splits)
qed

lemma filter_within: "int (length xs) \<le> m \<Longrightarrow> int (length (filter P xs)) \<le> m"
  by (meson length_filter_le of_nat_mono order.trans)

lemma budget_inv_abort [sedes_inv]: "budget_inv b \<Longrightarrow> budget_inv (fst (abort_waiter wid reason b))"
  by (auto simp: abort_waiter_def budget_inv_def held_leases_def jset_delete_def
      intro: filter_within)

lemma jset_delete_head: "distinct (w # ws) \<Longrightarrow> jset_delete w (w # ws) = ws"
  by (auto simp: jset_delete_def filter_id_conv)

lemma budget_inv_release [sedes_inv]:
  assumes "budget_inv b"
  shows "budget_inv (fst (release l b))"
proof (cases "jmap_get (bg_leases b) l = Some False")
  case False
  with assms show ?thesis by (simp add: release_def)
next
  case True
  let ?b1 = "b\<lparr>bg_leases := jmap_set l True (bg_leases b), bg_active := bg_active b - 1\<rparr>"
  have l: "l \<in> fst ` set (bg_leases b)" using True by (metis map_of_eq_None_iff option.distinct(1))
  from assms True l held_set_released [OF True]
  have free: "budget_inv (?b1\<lparr>bg_waiters := ws\<rparr>)" if "ws = []" for ws
    using that by (auto simp: budget_inv_def held_leases_def keys_jmap_set)
  show ?thesis
  proof (cases "bg_waiters b")
    case Nil
    then have "fst (release l b) = ?b1\<lparr>bg_waiters := []\<rparr>" using True by (simp add: release_def Let_def)
    with free show ?thesis by simp
  next
    case (Cons w ws)
    with assms have d: "distinct (w # ws)" "bg_active b = bg_slots b"
      "int (length ws) + 1 \<le> bg_maximum_waiters b" by (auto simp: budget_inv_def)
    let ?b2 = "?b1\<lparr>bg_waiters := ws\<rparr>"
    have "fst (release l b) = snd (new_lease ?b2)"
      using True Cons jset_delete_head [OF d(1)] by (simp add: release_def Let_def split_def)
    moreover have "budget_inv (snd (new_lease ?b2))"
      using free [of "[]"] d by (intro budget_inv_new_lease) auto
    ultimately show ?thesis by simp
  qed
qed

lemma budget_reach_inv: "budget_reach b \<Longrightarrow> budget_inv b"
proof (induction rule: budget_reach.induct)
  case (br_new s w b)
  then show ?case
    by (auto simp: new_codec_budget_def budget_inv_def held_leases_def Let_def split: if_splits)
qed (auto intro: sedes_inv)

section \<open>Properties\<close>

text \<open>C28. Validation before decompression is exact. \<open>validate_zstd_frame\<close> accepts a payload exactly when
  it is one complete frame of the supported layout: header with checksum flag and no dictionary, a
  window of at most 1 MiB, a content size that agrees with the announced length, a sequence of
  blocks of which only the final one is flagged last, and four checksum bytes with nothing after them.\<close>

theorem zstd_validator_exact:
  "validate_zstd_frame frame n = Inr () \<longleftrightarrow> zstd_layout frame n"
  using validate_accepts_layout validate_only_layout by blast

text \<open>C29. The codec budget is safe, work-conserving and fair. In every reachable state the unreleased
  leases are counted exactly and never exceed the slots, the waiting line stays within its bound, and
  someone waits only when every slot is taken; releasing a held lease then grants the slot to the
  caller that has waited longest.\<close>

theorem codec_budget_safe:
  assumes "budget_reach b"
  shows "bg_active b \<le> bg_slots b \<and> bg_active b = int (held_leases b) \<and>
    int (length (bg_waiters b)) \<le> bg_maximum_waiters b \<and>
    (bg_waiters b \<noteq> [] \<longrightarrow> bg_active b = bg_slots b) \<and>
    (\<forall>w ws l. bg_waiters b = w # ws \<longrightarrow> jmap_get (bg_leases b) l = Some False \<longrightarrow>
       snd (release l b) = [Leased w (bg_next_lease b)] \<and> bg_waiters (fst (release l b)) = ws \<and>
       bg_active (fst (release l b)) = bg_slots b)"
proof -
  note inv = budget_reach_inv [OF assms]
  have "snd (release l b) = [Leased w (bg_next_lease b)] \<and> bg_waiters (fst (release l b)) = ws \<and>
      bg_active (fst (release l b)) = bg_slots b"
    if "bg_waiters b = w # ws" "jmap_get (bg_leases b) l = Some False" for w ws l
    using that inv jset_delete_head [of w ws]
    by (auto simp: release_def new_lease_def Let_def budget_inv_def)
  with inv show ?thesis by (auto simp: budget_inv_def)
qed

section \<open>Witness\<close>

text \<open>One slot, taken; a second caller waits.\<close>

definition example_budget :: codec_budget where
  "example_budget = \<lparr>bg_slots = 1, bg_maximum_waiters = 4, bg_waiters = [8], bg_active = 1,
     bg_leases = [(0, False)], bg_next_lease = 1\<rparr>"

lemma example_budget_reach: "budget_reach example_budget"
proof -
  let ?b = "\<lparr>bg_slots = 1, bg_maximum_waiters = 4, bg_waiters = [], bg_active = 0, bg_leases = [],
     bg_next_lease = 0\<rparr>"
  have "new_codec_budget (Some 1) (Some 4) = Inr ?b"
    by (simp add: new_codec_budget_def is_safe_integer_def max_safe_integer_def)
  then have "budget_reach ?b" by (rule br_new)
  then have "budget_reach (fst (acquire 7 None ?b))" by (rule br_acquire) simp
  then have "budget_reach (fst (acquire 8 None (fst (acquire 7 None ?b))))"
    by (rule br_acquire) (simp add: acquire_def try_acquire_def new_lease_def)
  moreover have "fst (acquire 8 None (fst (acquire 7 None ?b))) = example_budget"
    by (simp add: acquire_def try_acquire_def new_lease_def jset_add_def example_budget_def)
  ultimately show ?thesis by simp
qed

theorem codec_budget_safe_witness:
  "bg_active example_budget \<le> bg_slots example_budget \<and>
   snd (release 0 example_budget) = [Leased 8 1] \<and> bg_waiters (fst (release 0 example_budget)) = []"
proof -
  have "bg_waiters example_budget = 8 # []" "jmap_get (bg_leases example_budget) 0 = Some False"
    "bg_next_lease example_budget = 1" by (simp_all add: example_budget_def)
  with codec_budget_safe [OF example_budget_reach] show ?thesis by metis
qed

end
