(* ===== verification/Envelopes.thy ===== *)
theory Envelopes
  imports Bytes
begin

text \<open>
  The sidecar wire format above the carrier: protocol limits
  (\<^verbatim>\<open>src/internal/sidecar-protocol/limits.ts\<close>) and envelopes
  (\<^verbatim>\<open>src/internal/sidecar-protocol/envelopes.ts\<close>).

  A control frame is a tag byte and the JSON text of an envelope; an envelope is a datatype with one
  constructor per message, and \<open>envelope_valid\<close> states the bounds the schema puts on its fields.
  A stream-data frame is the binary record with the 45-byte header, translated byte by byte.
  Parameters stand for what the file only calls: the schema library's \<^verbatim>\<open>uuid()\<close> test, the hash
  \<^verbatim>\<open>sha256\<close>, the UTF-8 and JSON decoders, and the schema's reading of a JSON value.
\<close>

section \<open>Definitions\<close>

subsection \<open>Limits\<close>

record sidecar_protocol_limits =
  maximum_frame_bytes :: int
  maximum_inbound_queue_bytes :: int
  maximum_inbound_queue_frames :: int
  maximum_outbound_queue_bytes :: int
  maximum_outbound_queue_frames :: int
  reserved_settlement_queue_bytes :: int
  reserved_settlement_queue_frames :: int
  maximum_inbound_requests :: int
  maximum_outbound_requests :: int
  maximum_request_deadline_milliseconds :: int

record limit_overrides =
  ov_frame_bytes :: "int option"
  ov_inbound_queue_bytes :: "int option"
  ov_inbound_queue_frames :: "int option"
  ov_outbound_queue_bytes :: "int option"
  ov_outbound_queue_frames :: "int option"
  ov_settlement_queue_bytes :: "int option"
  ov_settlement_queue_frames :: "int option"
  ov_inbound_requests :: "int option"
  ov_outbound_requests :: "int option"
  ov_request_deadline :: "int option"

definition workspace_file_write_json_limit_bytes :: int where
  "workspace_file_write_json_limit_bytes = 16 * 1024 * 1024 * 6 + 64 * 1024"

definition default_sidecar_protocol_limits :: sidecar_protocol_limits where
  "default_sidecar_protocol_limits = \<lparr>
     maximum_frame_bytes = workspace_file_write_json_limit_bytes,
     maximum_inbound_queue_bytes = workspace_file_write_json_limit_bytes * 2,
     maximum_inbound_queue_frames = 256,
     maximum_outbound_queue_bytes = workspace_file_write_json_limit_bytes * 2,
     maximum_outbound_queue_frames = 256,
     reserved_settlement_queue_bytes = 64 * 1024,
     reserved_settlement_queue_frames = 16,
     maximum_inbound_requests = 128,
     maximum_outbound_requests = 128,
     maximum_request_deadline_milliseconds = 605000\<rparr>"

definition override :: "int \<Rightarrow> int option \<Rightarrow> int" where
  "override d o' = (case o' of None \<Rightarrow> d | Some v \<Rightarrow> v)"

definition limit_values :: "sidecar_protocol_limits \<Rightarrow> int list" where
  "limit_values l = [maximum_frame_bytes l, maximum_inbound_queue_bytes l,
     maximum_inbound_queue_frames l, maximum_outbound_queue_bytes l, maximum_outbound_queue_frames l,
     reserved_settlement_queue_bytes l, reserved_settlement_queue_frames l,
     maximum_inbound_requests l, maximum_outbound_requests l,
     maximum_request_deadline_milliseconds l]"

definition candidate_limits :: "limit_overrides \<Rightarrow> sidecar_protocol_limits" where
  "candidate_limits ov =
     (let d = default_sidecar_protocol_limits;
          out_bytes = override (maximum_outbound_queue_bytes d) (ov_outbound_queue_bytes ov);
          out_frames = override (maximum_outbound_queue_frames d) (ov_outbound_queue_frames ov)
      in \<lparr>maximum_frame_bytes = override (maximum_frame_bytes d) (ov_frame_bytes ov),
          maximum_inbound_queue_bytes =
            override (maximum_inbound_queue_bytes d) (ov_inbound_queue_bytes ov),
          maximum_inbound_queue_frames =
            override (maximum_inbound_queue_frames d) (ov_inbound_queue_frames ov),
          maximum_outbound_queue_bytes = out_bytes,
          maximum_outbound_queue_frames = out_frames,
          reserved_settlement_queue_bytes = (case ov_settlement_queue_bytes ov of
              Some v \<Rightarrow> v
            | None \<Rightarrow> min (reserved_settlement_queue_bytes d) (max 1 (out_bytes - 1))),
          reserved_settlement_queue_frames = (case ov_settlement_queue_frames ov of
              Some v \<Rightarrow> v
            | None \<Rightarrow> min (reserved_settlement_queue_frames d) (max 1 (out_frames - 1))),
          maximum_inbound_requests = override (maximum_inbound_requests d) (ov_inbound_requests ov),
          maximum_outbound_requests = override (maximum_outbound_requests d) (ov_outbound_requests ov),
          maximum_request_deadline_milliseconds =
            override (maximum_request_deadline_milliseconds d) (ov_request_deadline ov)\<rparr>)"

definition resolve_sidecar_protocol_limits :: "limit_overrides \<Rightarrow> sidecar_protocol_limits result" where
  "resolve_sidecar_protocol_limits ov =
     (let limits = candidate_limits ov in
      if \<exists>v\<in>set (limit_values limits). \<not> is_safe_integer v \<or> v \<le> 0
        then Inl ''sidecar_protocol_limits_invalid''
      else if maximum_inbound_queue_bytes limits < maximum_frame_bytes limits \<or>
              maximum_outbound_queue_bytes limits < maximum_frame_bytes limits
        then Inl ''sidecar_protocol_queue_limits_invalid''
      else Inr limits)"

text \<open>What every resolved limit record promises to the transport and the peer.\<close>

definition limits_ok :: "sidecar_protocol_limits \<Rightarrow> bool" where
  "limits_ok l \<longleftrightarrow> (\<forall>v\<in>set (limit_values l). is_safe_integer v \<and> 0 < v) \<and>
     maximum_frame_bytes l \<le> maximum_inbound_queue_bytes l \<and>
     maximum_frame_bytes l \<le> maximum_outbound_queue_bytes l"

subsection \<open>Envelopes\<close>

datatype frame_lane = ControlLane | OperationLane
datatype write_delivery = NotSent | SentOutcomeUnknown
datatype frame_compression = NoCompression | Zstd

definition sidecar_wire_version :: nat where "sidecar_wire_version = 17"
definition sidecar_json_frame_tag :: byte where "sidecar_json_frame_tag = 1"
definition sidecar_stream_data_frame_tag :: byte where "sidecar_stream_data_frame_tag = 2"
definition stream_data_session_binding_bytes :: nat where "stream_data_session_binding_bytes = 16"
definition stream_data_header_bytes :: nat where "stream_data_header_bytes = 45"
definition maximum_stream_data_bytes :: nat where "maximum_stream_data_bytes = 1024 * 1024"

datatype request_namespace = Sedes | Sidecar

datatype request_deadline = FiniteDeadline int | CallerAbort

record 'p request_envelope =
  rq_session_nonce :: string
  rq_namespace :: request_namespace
  rq_request_id :: string
  rq_capability_id :: string
  rq_major_version :: int
  rq_operation :: string
  rq_deadline :: request_deadline
  rq_payload :: 'p

datatype 'p response_outcome = OutcomeOk 'p | OutcomeError string bool

record 'p response_envelope =
  rs_session_nonce :: string
  rs_namespace :: request_namespace
  rs_request_id :: string
  rs_outcome :: "'p response_outcome"

record cancel_envelope =
  cx_session_nonce :: string
  cx_namespace :: request_namespace
  cx_request_id :: string

record 'p event_envelope =
  ev_session_nonce :: string
  ev_origin :: request_namespace
  ev_capability_id :: string
  ev_major_version :: int
  ev_event :: string
  ev_payload :: 'p

record stream_credit_envelope =
  sc_session_nonce :: string
  sc_origin :: request_namespace
  sc_stream_id :: string
  sc_bytes :: int

record 'p stream_terminal_envelope =
  st_session_nonce :: string
  st_origin :: request_namespace
  st_stream_id :: string
  st_sequence :: int
  st_capability_id :: string
  st_major_version :: int
  st_payload :: 'p

datatype 'p sidecar_envelope =
    RequestEnvelope "'p request_envelope"
  | ResponseEnvelope "'p response_envelope"
  | CancelEnvelope cancel_envelope
  | EventEnvelope "'p event_envelope"
  | StreamCreditEnvelope stream_credit_envelope
  | StreamTerminalEnvelope "'p stream_terminal_envelope"

definition is_lower :: "char \<Rightarrow> bool" where
  "is_lower c \<longleftrightarrow> 97 \<le> (of_char c :: nat) \<and> (of_char c :: nat) \<le> 122"

text \<open>\<^verbatim>\<open>/^[a-z][a-z0-9_.-]*$/u\<close> with the length bounds 1 and 120.\<close>

definition identifier_ok :: "string \<Rightarrow> bool" where
  "identifier_ok s = (case s of
      [] \<Rightarrow> False
    | c # cs \<Rightarrow> is_lower c \<and>
        list_all (\<lambda>c. is_lower c \<or> is_digit c \<or> c \<in> set ''_.-'') cs \<and> length s \<le> 120)"

definition session_nonce_ok :: "string \<Rightarrow> bool" where
  "session_nonce_ok s \<longleftrightarrow> 32 \<le> length s \<and> length s \<le> 160"

definition major_version_ok :: "int \<Rightarrow> bool" where
  "major_version_ok v \<longleftrightarrow> 1 \<le> v \<and> v \<le> 65535"

definition deadline_ok :: "request_deadline \<Rightarrow> bool" where
  "deadline_ok d = (case d of FiniteDeadline ms \<Rightarrow> 1 \<le> ms \<and> ms \<le> 605000 | CallerAbort \<Rightarrow> True)"

fun envelope_valid :: "(string \<Rightarrow> bool) \<Rightarrow> 'p sidecar_envelope \<Rightarrow> bool" where
  "envelope_valid is_uuid (RequestEnvelope e) \<longleftrightarrow> session_nonce_ok (rq_session_nonce e) \<and>
     is_uuid (rq_request_id e) \<and> identifier_ok (rq_capability_id e) \<and>
     major_version_ok (rq_major_version e) \<and> identifier_ok (rq_operation e) \<and>
     deadline_ok (rq_deadline e)"
| "envelope_valid is_uuid (ResponseEnvelope e) \<longleftrightarrow> session_nonce_ok (rs_session_nonce e) \<and>
     is_uuid (rs_request_id e) \<and>
     (case rs_outcome e of OutcomeOk _ \<Rightarrow> True | OutcomeError code _ \<Rightarrow> identifier_ok code)"
| "envelope_valid is_uuid (CancelEnvelope e) \<longleftrightarrow> session_nonce_ok (cx_session_nonce e) \<and>
     is_uuid (cx_request_id e)"
| "envelope_valid is_uuid (EventEnvelope e) \<longleftrightarrow> session_nonce_ok (ev_session_nonce e) \<and>
     identifier_ok (ev_capability_id e) \<and> major_version_ok (ev_major_version e) \<and>
     identifier_ok (ev_event e)"
| "envelope_valid is_uuid (StreamCreditEnvelope e) \<longleftrightarrow> session_nonce_ok (sc_session_nonce e) \<and>
     is_uuid (sc_stream_id e) \<and> 1 \<le> sc_bytes e \<and> sc_bytes e \<le> 16 * 1024 * 1024"
| "envelope_valid is_uuid (StreamTerminalEnvelope e) \<longleftrightarrow> session_nonce_ok (st_session_nonce e) \<and>
     is_uuid (st_stream_id e) \<and> 0 \<le> st_sequence e \<and> st_sequence e \<le> max_safe_integer \<and>
     identifier_ok (st_capability_id e) \<and> major_version_ok (st_major_version e)"

definition encode_sidecar_envelope ::
  "(string \<Rightarrow> bool) \<Rightarrow> ('p sidecar_envelope \<Rightarrow> bytes) \<Rightarrow> 'p sidecar_envelope \<Rightarrow> bytes result" where
  "encode_sidecar_envelope is_uuid stringify e =
     (if envelope_valid is_uuid e then Inr (sidecar_json_frame_tag # stringify e)
      else Inl ''ZodError'')"

definition decode_sidecar_envelope ::
  "(bytes \<Rightarrow> string option) \<Rightarrow> (string \<Rightarrow> 'j option) \<Rightarrow> ('j \<Rightarrow> 'p sidecar_envelope option) \<Rightarrow>
   bytes \<Rightarrow> 'p sidecar_envelope result" where
  "decode_sidecar_envelope utf8 json_parse safe_parse bs =
     (case bs of
        [] \<Rightarrow> Inl ''sidecar_protocol_frame_tag_invalid''
      | tag # rest \<Rightarrow>
          if tag \<noteq> sidecar_json_frame_tag then Inl ''sidecar_protocol_frame_tag_invalid''
          else case utf8 rest of
            None \<Rightarrow> Inl ''sidecar_protocol_frame_invalid_utf8''
          | Some txt \<Rightarrow>
              (case json_parse txt of
                 None \<Rightarrow> Inl ''sidecar_protocol_frame_invalid_json''
               | Some value \<Rightarrow>
                   (case safe_parse value of
                      None \<Rightarrow> Inl ''sidecar_protocol_envelope_invalid''
                    | Some e \<Rightarrow> Inr e)))"

subsection \<open>Stream-data frames\<close>

datatype stream_channel = Stdout | Stderr | Data

record stream_data_frame =
  sd_session_nonce :: string
  sd_origin :: request_namespace
  sd_stream_id :: string
  sd_sequence :: int
  sd_channel :: stream_channel
  sd_bytes :: bytes

datatype 'p decoded_sidecar_frame =
    ControlFrame "'p sidecar_envelope"
  | StreamDataFrame stream_data_frame

definition session_binding_for :: "(string \<Rightarrow> bytes) \<Rightarrow> string \<Rightarrow> bytes result" where
  "session_binding_for sha256 nonce =
     (if session_nonce_ok nonce then Inr (subarray 0 stream_data_session_binding_bytes (sha256 nonce))
      else Inl ''sidecar_session_nonce_invalid'')"

definition encode_origin :: "request_namespace \<Rightarrow> byte" where
  "encode_origin r = (case r of Sedes \<Rightarrow> 0 | Sidecar \<Rightarrow> 1)"

definition decode_origin :: "byte \<Rightarrow> request_namespace result" where
  "decode_origin b = (if b = 0 then Inr Sedes else if b = 1 then Inr Sidecar
     else Inl ''sidecar_protocol_stream_origin_invalid'')"

definition encode_channel :: "stream_channel \<Rightarrow> byte" where
  "encode_channel c = (case c of Stdout \<Rightarrow> 0 | Stderr \<Rightarrow> 1 | Data \<Rightarrow> 2)"

definition decode_channel :: "byte \<Rightarrow> stream_channel result" where
  "decode_channel b = (if b = 0 then Inr Stdout else if b = 1 then Inr Stderr
     else if b = 2 then Inr Data else Inl ''sidecar_protocol_stream_channel_invalid'')"

definition encode_uuid :: "(string \<Rightarrow> bool) \<Rightarrow> string \<Rightarrow> bytes result" where
  "encode_uuid is_uuid v =
     (if is_uuid v then Inr (of_hex (filter (\<lambda>c. c \<noteq> CHR ''-'') v))
      else Inl ''sidecar_stream_id_invalid'')"

definition dashed :: "string \<Rightarrow> string" where
  "dashed hex = subarray 0 8 hex @ ''-'' @ subarray 8 12 hex @ ''-'' @ subarray 12 16 hex @ ''-'' @
     subarray 16 20 hex @ ''-'' @ drop 20 hex"

definition decode_uuid :: "(string \<Rightarrow> bool) \<Rightarrow> bytes \<Rightarrow> string result" where
  "decode_uuid is_uuid bs =
     (let uuid = dashed (to_hex bs)
      in if is_uuid uuid then Inr uuid else Inl ''sidecar_stream_id_invalid'')"

definition encode_sidecar_stream_data_frame ::
  "(string \<Rightarrow> bool) \<Rightarrow> (string \<Rightarrow> bytes) \<Rightarrow> stream_data_frame \<Rightarrow> bytes result" where
  "encode_sidecar_stream_data_frame is_uuid sha256 f =
     (case encode_uuid is_uuid (sd_stream_id f) of
        Inl e \<Rightarrow> Inl e
      | Inr stream_id \<Rightarrow>
        (case session_binding_for sha256 (sd_session_nonce f) of
           Inl e \<Rightarrow> Inl e
         | Inr binding \<Rightarrow>
             if \<not> is_safe_integer (sd_sequence f) \<or> sd_sequence f < 0
               then Inl ''sidecar_protocol_stream_sequence_invalid''
             else if sd_bytes f = [] \<or> length (sd_bytes f) > maximum_stream_data_bytes
               then Inl ''sidecar_stream_chunk_size_invalid''
             else Inr ([sidecar_stream_data_frame_tag] @ write_be 2 sidecar_wire_version @ binding @
               [encode_origin (sd_origin f)] @ [encode_channel (sd_channel f)] @ stream_id @
               write_be 8 (nat (sd_sequence f)) @ sd_bytes f)))"

definition decode_stream_data ::
  "(string \<Rightarrow> bool) \<Rightarrow> (string \<Rightarrow> bytes) \<Rightarrow> bytes \<Rightarrow> string \<Rightarrow> stream_data_frame result" where
  "decode_stream_data is_uuid sha256 bs nonce =
     (if length bs \<le> stream_data_header_bytes then Inl ''sidecar_protocol_stream_data_invalid''
      else if read_be (subarray 1 3 bs) \<noteq> sidecar_wire_version
        then Inl ''sidecar_protocol_stream_wire_version_invalid''
      else if length bs - stream_data_header_bytes > maximum_stream_data_bytes
        then Inl ''sidecar_protocol_stream_data_invalid''
      else case session_binding_for sha256 nonce of
        Inl e \<Rightarrow> Inl e
      | Inr binding \<Rightarrow>
          if subarray 3 (3 + stream_data_session_binding_bytes) bs \<noteq> binding
            then Inl ''sidecar_protocol_session_nonce_mismatch''
          else let seq = read_be (subarray 37 45 bs) in
            if int seq > max_safe_integer then Inl ''sidecar_protocol_stream_sequence_invalid''
            else case decode_origin (bs ! 19) of
              Inl e \<Rightarrow> Inl e
            | Inr origin \<Rightarrow>
              (case decode_channel (bs ! 20) of
                 Inl e \<Rightarrow> Inl e
               | Inr channel \<Rightarrow>
                 (case decode_uuid is_uuid (subarray 21 37 bs) of
                    Inl e \<Rightarrow> Inl e
                  | Inr stream_id \<Rightarrow> Inr \<lparr>sd_session_nonce = nonce, sd_origin = origin,
                      sd_stream_id = stream_id, sd_sequence = int seq, sd_channel = channel,
                      sd_bytes = drop stream_data_header_bytes bs\<rparr>)))"

definition decode_sidecar_frame ::
  "(string \<Rightarrow> bool) \<Rightarrow> (string \<Rightarrow> bytes) \<Rightarrow> (bytes \<Rightarrow> 'p sidecar_envelope result) \<Rightarrow> bytes \<Rightarrow> string \<Rightarrow>
   'p decoded_sidecar_frame result" where
  "decode_sidecar_frame is_uuid sha256 decode_envelope bs nonce =
     (case bs of
        [] \<Rightarrow> Inl ''sidecar_protocol_frame_tag_invalid''
      | tag # _ \<Rightarrow>
          if tag = sidecar_json_frame_tag
            then map_sum id ControlFrame (decode_envelope bs)
          else if tag \<noteq> sidecar_stream_data_frame_tag
            then Inl ''sidecar_protocol_frame_tag_invalid''
          else map_sum id StreamDataFrame (decode_stream_data is_uuid sha256 bs nonce))"

text \<open>The documented shape of a UUID: hexadecimal digits with dashes at four fixed places.\<close>

definition uuid_shape :: "string \<Rightarrow> bool" where
  "uuid_shape s \<longleftrightarrow> length s = 36 \<and>
     (\<forall>i<36. if i \<in> {8, 13, 18, 23} then s ! i = CHR ''-'' else hex_value (s ! i) \<noteq> None)"

section \<open>Lemmas\<close>

subsection \<open>UUID text and bytes\<close>

text \<open>The five groups of a UUID.\<close>

definition uuid_groups :: "string \<Rightarrow> string \<Rightarrow> string \<Rightarrow> string \<Rightarrow> string \<Rightarrow> string" where
  "uuid_groups a b c d e = a @ ''-'' @ b @ ''-'' @ c @ ''-'' @ d @ ''-'' @ e"

lemma split_at: "i < length s \<Longrightarrow> s = take i s @ [s ! i] @ drop (Suc i) s"
  by (simp add: id_take_nth_drop)

lemma uuid_shape_groups:
  assumes "uuid_shape s"
  obtains a b c d e where "s = uuid_groups a b c d e"
    "length a = 8" "length b = 4" "length c = 4" "length d = 4" "length e = 12"
    "\<forall>x\<in>set (a @ b @ c @ d @ e). hex_value x \<noteq> None"
proof -
  define a b c d e where "a = take 8 s" and "b = take 4 (drop 9 s)" and "c = take 4 (drop 14 s)"
    and "d = take 4 (drop 19 s)" and "e = drop 24 s"
  from assms have len: "length s = 36"
    and at: "\<And>i. i < 36 \<Longrightarrow> if i \<in> {8, 13, 18, 23} then s ! i = CHR ''-'' else hex_value (s ! i) \<noteq> None"
    by (auto simp: uuid_shape_def)
  have "s = a @ [s ! 8] @ drop 9 s" "drop 9 s = b @ [s ! 13] @ drop 14 s"
    "drop 14 s = c @ [s ! 18] @ drop 19 s" "drop 19 s = d @ [s ! 23] @ e"
    unfolding a_def b_def c_def d_def e_def
    using split_at [of 8 s] split_at [of 4 "drop 9 s"] split_at [of 4 "drop 14 s"]
      split_at [of 4 "drop 19 s"] len by simp_all
  moreover have "s ! 8 = CHR ''-''" "s ! 13 = CHR ''-''" "s ! 18 = CHR ''-''" "s ! 23 = CHR ''-''"
    using at [of 8] at [of 13] at [of 18] at [of 23] by simp_all
  ultimately have "s = uuid_groups a b c d e" by (simp add: uuid_groups_def)
  moreover have "length a = 8" "length b = 4" "length c = 4" "length d = 4" "length e = 12"
    by (simp_all add: a_def b_def c_def d_def e_def len)
  moreover have "\<forall>x\<in>set (a @ b @ c @ d @ e). hex_value x \<noteq> None"
  proof -
    have "hex_value (s ! i) \<noteq> None" if "i < 36" "i \<notin> {8, 13, 18, 23}" for i
      using at [OF that(1)] that(2) by (auto split: if_splits)
    then show ?thesis
      unfolding a_def b_def c_def d_def e_def by (auto simp: in_set_conv_nth len)
  qed
  ultimately show thesis using that by blast
qed

lemma hex_value_dash [simp]: "hex_value CHR ''-'' = None"
  by (simp add: hex_value_def)

lemma lower_char_dash [simp]: "lower_char CHR ''-'' = CHR ''-''"
  by (simp add: lower_char_def)

lemma filter_dash_hex:
  "\<forall>x\<in>set cs. hex_value x \<noteq> None \<Longrightarrow> filter (\<lambda>c. c \<noteq> CHR ''-'') cs = cs"
  by (auto simp: filter_id_conv)

lemma uuid_groups_bare:
  assumes "\<forall>x\<in>set (a @ b @ c @ d @ e). hex_value x \<noteq> None"
  shows "filter (\<lambda>c. c \<noteq> CHR ''-'') (uuid_groups a b c d e) = a @ b @ c @ d @ e"
  using assms by (simp add: uuid_groups_def filter_dash_hex del: not_None_eq)

lemma dashed_groups:
  "length a = 8 \<Longrightarrow> length b = 4 \<Longrightarrow> length c = 4 \<Longrightarrow> length d = 4 \<Longrightarrow>
   dashed (a @ b @ c @ d @ e) = uuid_groups a b c d e"
  by (simp add: dashed_def uuid_groups_def subarray_def)

lemma uuid_bytes_roundtrip:
  assumes "uuid_shape s"
  shows "length (of_hex (filter (\<lambda>c. c \<noteq> CHR ''-'') s)) = 16"
    and "dashed (to_hex (of_hex (filter (\<lambda>c. c \<noteq> CHR ''-'') s))) = map lower_char s"
proof -
  obtain a b c d e where g: "s = uuid_groups a b c d e"
    "length a = 8" "length b = 4" "length c = 4" "length d = 4" "length e = 12"
    "\<forall>x\<in>set (a @ b @ c @ d @ e). hex_value x \<noteq> None"
    using assms by (rule uuid_shape_groups)
  have "even (length (a @ b @ c @ d @ e))" using g by simp
  from to_hex_of_hex [OF this g(7)] uuid_groups_bare [OF g(7)] g(1-6)
  show "length (of_hex (filter (\<lambda>c. c \<noteq> CHR ''-'') s)) = 16"
    and "dashed (to_hex (of_hex (filter (\<lambda>c. c \<noteq> CHR ''-'') s))) = map lower_char s"
    by (simp_all add: dashed_groups uuid_groups_def [of "map lower_char a"] uuid_groups_def)
qed

text \<open>Sixteen bytes written as a UUID and read back.\<close>

lemma to_hex_all_hex: "\<forall>x\<in>set (to_hex bs). hex_value x \<noteq> None"
proof -
  have "hex_value (hex_digit (unat b div 16)) \<noteq> None" "hex_value (hex_digit (unat b mod 16)) \<noteq> None"
    for b :: byte
    using unat_byte [of b] by (simp_all add: div_less_iff_less_mult)
  then show ?thesis by (induction bs) (auto simp: to_hex_def)
qed

lemma uuid_text_roundtrip:
  assumes "length bs = 16"
  shows "of_hex (filter (\<lambda>c. c \<noteq> CHR ''-'') (dashed (to_hex bs))) = bs"
proof -
  have "filter (\<lambda>c. c \<noteq> CHR ''-'') (dashed (to_hex bs)) =
      subarray 0 8 (to_hex bs) @ subarray 8 12 (to_hex bs) @ subarray 12 16 (to_hex bs) @
      subarray 16 20 (to_hex bs) @ drop 20 (to_hex bs)"
  proof -
    have "\<forall>x\<in>set (subarray i j (to_hex bs)). hex_value x \<noteq> None" for i j
      using to_hex_all_hex [of bs] by (auto simp: subarray_def dest: in_set_takeD in_set_dropD)
    moreover have "\<forall>x\<in>set (drop 20 (to_hex bs)). hex_value x \<noteq> None"
      using to_hex_all_hex [of bs] by (auto dest: in_set_dropD)
    ultimately show ?thesis by (simp add: dashed_def filter_dash_hex del: not_None_eq)
  qed
  also have "\<dots> = to_hex bs"
  proof -
    have "subarray i j xs @ drop j xs = drop i xs" if "i \<le> j" for i j and xs :: string
      using that by (metis append_take_drop_id drop_drop le_add_diff_inverse2 subarray_def)
    from this [of 0 8] this [of 8 12] this [of 12 16] this [of 16 20] show ?thesis by simp
  qed
  finally show ?thesis by simp
qed

subsection \<open>Fields of the binary header\<close>

lemma header_fields:
  assumes "length v = 2" and "length b = 16" and "length u = 16" and "length q = 8"
    and "bs = [t] @ v @ b @ [o'] @ [c] @ u @ q @ d"
  shows "subarray 1 3 bs = v" and "subarray 3 19 bs = b" and "bs ! 19 = o'" and "bs ! 20 = c"
    and "subarray 21 37 bs = u" and "subarray 37 45 bs = q" and "drop 45 bs = d"
    and "length bs = 45 + length d"
  using assms by (simp_all add: subarray_def nth_append nth_Cons')

lemma header_split:
  assumes "45 \<le> length bs"
  shows "bs = [bs ! 0] @ subarray 1 3 bs @ subarray 3 19 bs @ [bs ! 19] @ [bs ! 20] @
    subarray 21 37 bs @ subarray 37 45 bs @ drop 45 bs"
proof -
  have step: "subarray i j bs @ drop j bs = drop i bs" if "i \<le> j" for i j
    using that by (metis append_take_drop_id drop_drop le_add_diff_inverse2 subarray_def)
  have one: "[bs ! i] @ drop (Suc i) bs = drop i bs" if "i < 45" for i
    using that assms by (simp add: Cons_nth_drop_Suc)
  show ?thesis
    using step [of 37 45] step [of 21 37] one [of 20] one [of 19] step [of 3 19] step [of 1 3] one [of 0]
    by simp
qed

lemma origin_roundtrip [simp]: "decode_origin (encode_origin r) = Inr r"
  by (cases r) (simp_all add: decode_origin_def encode_origin_def)

lemma channel_roundtrip [simp]: "decode_channel (encode_channel c) = Inr c"
  by (cases c) (simp_all add: decode_channel_def encode_channel_def)

lemma decode_origin_Inr: "decode_origin b = Inr r \<Longrightarrow> encode_origin r = b"
  by (auto simp: decode_origin_def encode_origin_def split: if_splits)

lemma decode_channel_Inr: "decode_channel b = Inr c \<Longrightarrow> encode_channel c = b"
  by (auto simp: decode_channel_def encode_channel_def split: if_splits)

lemmas wire_constants = sidecar_wire_version_def sidecar_json_frame_tag_def
  sidecar_stream_data_frame_tag_def stream_data_session_binding_bytes_def
  stream_data_header_bytes_def maximum_stream_data_bytes_def

subsection \<open>Encoding and decoding a stream-data frame\<close>

lemma encode_frame_Inr:
  assumes "encode_sidecar_stream_data_frame is_uuid sha256 f = Inr bs"
  shows "is_uuid (sd_stream_id f)" and "session_nonce_ok (sd_session_nonce f)"
    and "0 \<le> sd_sequence f" and "sd_sequence f \<le> max_safe_integer"
    and "sd_bytes f \<noteq> []" and "length (sd_bytes f) \<le> maximum_stream_data_bytes"
    and "bs = [sidecar_stream_data_frame_tag] @ write_be 2 sidecar_wire_version @
      subarray 0 16 (sha256 (sd_session_nonce f)) @ [encode_origin (sd_origin f)] @
      [encode_channel (sd_channel f)] @
      of_hex (filter (\<lambda>c. c \<noteq> CHR ''-'') (sd_stream_id f)) @
      write_be 8 (nat (sd_sequence f)) @ sd_bytes f"
  using assms
  by (auto simp: encode_sidecar_stream_data_frame_def encode_uuid_def session_binding_for_def
      is_safe_integer_def stream_data_session_binding_bytes_def split: if_splits sum.splits)

lemma decode_encoded_frame:
  assumes shape: "\<forall>s. is_uuid s \<longrightarrow> uuid_shape s"
    and lower: "\<forall>s. is_uuid s \<longrightarrow> is_uuid (map lower_char s)"
    and sha: "\<forall>n. length (sha256 n) = 32"
    and enc: "encode_sidecar_stream_data_frame is_uuid sha256 f = Inr bs"
    and nonce: "session_nonce_ok nonce"
  shows "decode_stream_data is_uuid sha256 bs nonce =
    (if subarray 0 16 (sha256 nonce) = subarray 0 16 (sha256 (sd_session_nonce f))
     then Inr (f\<lparr>sd_session_nonce := nonce, sd_stream_id := map lower_char (sd_stream_id f)\<rparr>)
     else Inl ''sidecar_protocol_session_nonce_mismatch'')"
proof -
  note e = encode_frame_Inr [OF enc]
  let ?u = "of_hex (filter (\<lambda>c. c \<noteq> CHR ''-'') (sd_stream_id f))"
  from shape e(1) have "uuid_shape (sd_stream_id f)" by simp
  note u = uuid_bytes_roundtrip [OF this]
  from e(4) have q: "nat (sd_sequence f) < 256 ^ 8" by (simp add: max_safe_integer_def)
  note h = header_fields [OF _ _ _ _ e(7)]
  have h': "subarray 1 3 bs = write_be 2 sidecar_wire_version"
    "subarray 3 19 bs = subarray 0 16 (sha256 (sd_session_nonce f))"
    "bs ! 19 = encode_origin (sd_origin f)" "bs ! 20 = encode_channel (sd_channel f)"
    "subarray 21 37 bs = ?u" "subarray 37 45 bs = write_be 8 (nat (sd_sequence f))"
    "drop 45 bs = sd_bytes f" "length bs = 45 + length (sd_bytes f)"
    using h sha u(1) by simp_all
  have v: "read_be (subarray 1 3 bs) = sidecar_wire_version"
    unfolding h'(1) by (rule read_write_be) (simp add: sidecar_wire_version_def)
  have s: "read_be (subarray 37 45 bs) = nat (sd_sequence f)" unfolding h'(6) by (rule read_write_be [OF q])
  have d: "decode_uuid is_uuid (subarray 21 37 bs) = Inr (map lower_char (sd_stream_id f))"
    using u(2) lower e(1) by (simp add: h'(5) decode_uuid_def Let_def)
  have len: "\<not> length bs \<le> 45" "\<not> length bs - 45 > maximum_stream_data_bytes"
    using e(5,6) h'(8) by auto
  show ?thesis
    using nonce e(3,4) len
    by (simp add: decode_stream_data_def v [unfolded One_nat_def] s d h'(2-4,7) session_binding_for_def Let_def
        stream_data_header_bytes_def stream_data_session_binding_bytes_def)
qed

lemma decode_stream_data_Inr:
  assumes "decode_stream_data is_uuid sha256 bs nonce = Inr f"
  shows "45 < length bs" and "length bs - 45 \<le> maximum_stream_data_bytes"
    and "session_nonce_ok nonce" and "sd_session_nonce f = nonce"
    and "read_be (subarray 1 3 bs) = sidecar_wire_version"
    and "subarray 3 19 bs = subarray 0 16 (sha256 nonce)"
    and "int (read_be (subarray 37 45 bs)) \<le> max_safe_integer"
    and "sd_sequence f = int (read_be (subarray 37 45 bs))"
    and "encode_origin (sd_origin f) = bs ! 19" and "encode_channel (sd_channel f) = bs ! 20"
    and "sd_stream_id f = dashed (to_hex (subarray 21 37 bs))" and "is_uuid (sd_stream_id f)"
    and "sd_bytes f = drop 45 bs"
  using assms
  by (auto simp: decode_stream_data_def session_binding_for_def decode_uuid_def Let_def
      stream_data_header_bytes_def stream_data_session_binding_bytes_def
      dest!: decode_origin_Inr decode_channel_Inr split: if_splits sum.splits)

section \<open>Properties\<close>


text \<open>C27. The binary decoder accepts only canonical frames. Whatever bytes it accepts are exactly the
  encoding of the frame it returns, and the frame carries the expected nonce: no other byte string
  denotes the same frame.\<close>

theorem stream_frame_canonical:
  assumes "decode_sidecar_frame is_uuid sha256 decode_envelope bs nonce = Inr (StreamDataFrame f)"
  shows "encode_sidecar_stream_data_frame is_uuid sha256 f = Inr bs \<and> sd_session_nonce f = nonce"
proof -
  obtain rest where bs: "bs = sidecar_stream_data_frame_tag # rest"
    and dec: "decode_stream_data is_uuid sha256 bs nonce = Inr f"
    using assms
    by (cases bs; cases "decode_envelope bs"; cases "decode_stream_data is_uuid sha256 bs nonce")
      (auto simp: decode_sidecar_frame_def split: if_splits)
  note d = decode_stream_data_Inr [OF dec]
  have "write_be 2 sidecar_wire_version = subarray 1 3 bs"
    using write_read_be [of "subarray 1 3 bs" 2] d(1,5) by simp
  moreover have "write_be 8 (nat (sd_sequence f)) = subarray 37 45 bs"
    using write_read_be [of "subarray 37 45 bs" 8] d(1,8) by simp
  moreover have "of_hex (filter (\<lambda>c. c \<noteq> CHR ''-'') (sd_stream_id f)) = subarray 21 37 bs"
    using uuid_text_roundtrip [of "subarray 21 37 bs"] d(1,11) by simp
  moreover have "bs = [sidecar_stream_data_frame_tag] @ subarray 1 3 bs @ subarray 3 19 bs @
      [bs ! 19] @ [bs ! 20] @ subarray 21 37 bs @ subarray 37 45 bs @ drop 45 bs"
    using header_split [of bs] d(1) bs by simp
  ultimately show ?thesis
    using d(1-4,6-10,12,13)
    by (simp add: encode_sidecar_stream_data_frame_def encode_uuid_def session_binding_for_def
        is_safe_integer_def stream_data_session_binding_bytes_def)
qed

text \<open>C32. Resolved limits are usable. Every limit record the resolver returns has positive safe-integer
  limits, both queues can hold at least one frame of the maximum size, and a settlement reserve that is
  not overridden stays within its defaults of 16 frames and 64 KiB.\<close>

theorem resolved_limits_ok:
  assumes "resolve_sidecar_protocol_limits ov = Inr l"
  shows "(\<forall>v\<in>set (limit_values l). is_safe_integer v \<and> 0 < v) \<and>
    maximum_frame_bytes l \<le> maximum_inbound_queue_bytes l \<and>
    maximum_frame_bytes l \<le> maximum_outbound_queue_bytes l \<and>
    (ov_settlement_queue_frames ov = None \<longrightarrow> reserved_settlement_queue_frames l \<le> 16) \<and>
    (ov_settlement_queue_bytes ov = None \<longrightarrow> reserved_settlement_queue_bytes l \<le> 65536)"
  using assms
  by (auto simp: resolve_sidecar_protocol_limits_def Let_def candidate_limits_def
      default_sidecar_protocol_limits_def split: if_splits)

section \<open>Witnesses\<close>

definition no_overrides :: limit_overrides where
  "no_overrides = \<lparr>ov_frame_bytes = None, ov_inbound_queue_bytes = None, ov_inbound_queue_frames = None,
     ov_outbound_queue_bytes = None, ov_outbound_queue_frames = None, ov_settlement_queue_bytes = None,
     ov_settlement_queue_frames = None, ov_inbound_requests = None, ov_outbound_requests = None,
     ov_request_deadline = None\<rparr>"

lemma default_limits_resolve:
  "resolve_sidecar_protocol_limits no_overrides = Inr default_sidecar_protocol_limits"
  by (simp add: resolve_sidecar_protocol_limits_def candidate_limits_def limit_values_def override_def
      no_overrides_def default_sidecar_protocol_limits_def workspace_file_write_json_limit_bytes_def
      is_safe_integer_def max_safe_integer_def)

lemma default_limits_ok: "limits_ok default_sidecar_protocol_limits"
  by (simp add: limits_ok_def limit_values_def default_sidecar_protocol_limits_def
      workspace_file_write_json_limit_bytes_def is_safe_integer_def max_safe_integer_def)

theorem resolved_limits_ok_witness:
  "maximum_frame_bytes default_sidecar_protocol_limits \<le>
     maximum_inbound_queue_bytes default_sidecar_protocol_limits \<and>
   reserved_settlement_queue_frames default_sidecar_protocol_limits \<le> 16"
  using resolved_limits_ok [OF default_limits_resolve] by (simp add: no_overrides_def)

definition padded_text :: "string \<Rightarrow> bytes" where
  "padded_text n = take 32 (ascii n @ replicate 32 0)"

lemma length_padded_text: "length (padded_text n) = 32"
  by (simp add: padded_text_def min_def)

definition example_frame :: stream_data_frame where
  "example_frame = \<lparr>sd_session_nonce = replicate 32 CHR ''n'', sd_origin = Sidecar,
     sd_stream_id = ''0189ABCD-ef01-4abc-8def-0123456789ab'', sd_sequence = 5, sd_channel = Stderr,
     sd_bytes = [1, 2, 3]\<rparr>"

lemma lower_char_hex: "hex_value c = Some d \<Longrightarrow> hex_value (lower_char c) = Some d"
  by (metis hex_digit_value hex_value_bound hex_value_digit)

lemma uuid_shape_lower: "uuid_shape s \<Longrightarrow> uuid_shape (map lower_char s)"
proof -
  assume u: "uuid_shape s"
  have "if i \<in> {8, 13, 18, 23} then map lower_char s ! i = CHR ''-''
      else hex_value (map lower_char s ! i) \<noteq> None" if "i < 36" for i
  proof -
    from u that have "i < length s" "if i \<in> {8, 13, 18, 23} then s ! i = CHR ''-'' else hex_value (s ! i) \<noteq> None"
      by (simp_all add: uuid_shape_def)
    then show ?thesis using lower_char_hex by (cases "i \<in> {8, 13, 18, 23}") (simp_all, blast)
  qed
  moreover from u have "length (map lower_char s) = 36" by (simp add: uuid_shape_def)
  ultimately show ?thesis unfolding uuid_shape_def by blast
qed

lemma example_frame_uuid: "uuid_shape (sd_stream_id example_frame)"
proof -
  have "\<forall>i\<in>set [0..<36]. if i \<in> {8, 13, 18, 23} then sd_stream_id example_frame ! i = CHR ''-''
      else hex_value (sd_stream_id example_frame ! i) \<noteq> None"
    unfolding example_frame_def by code_simp
  moreover have "length (sd_stream_id example_frame) = 36" by (simp add: example_frame_def)
  ultimately show ?thesis unfolding uuid_shape_def by simp
qed

lemma example_frame_encodes:
  "\<exists>bs. encode_sidecar_stream_data_frame uuid_shape padded_text example_frame = Inr bs"
  using example_frame_uuid
  by (simp add: encode_sidecar_stream_data_frame_def encode_uuid_def session_binding_for_def
      session_nonce_ok_def is_safe_integer_def max_safe_integer_def maximum_stream_data_bytes_def)
    (simp add: example_frame_def)


theorem stream_frame_canonical_witness:
  "\<exists>bs f. decode_sidecar_frame uuid_shape padded_text (\<lambda>_. Inl [] :: unit sidecar_envelope result) bs
       (replicate 32 CHR ''n'') = Inr (StreamDataFrame f) \<and>
     encode_sidecar_stream_data_frame uuid_shape padded_text f = Inr bs"
proof -
  obtain bs where bs: "encode_sidecar_stream_data_frame uuid_shape padded_text example_frame = Inr bs"
    using example_frame_encodes by blast
  have n: "\<forall>n. length (padded_text n) = 32" "session_nonce_ok (sd_session_nonce example_frame)"
    by (simp_all add: length_padded_text session_nonce_ok_def example_frame_def)
  obtain rest where "bs = sidecar_stream_data_frame_tag # rest"
    using encode_frame_Inr(7) [OF bs] by simp
  with decode_encoded_frame [OF _ _ n(1) bs n(2)] uuid_shape_lower
  obtain f where "decode_sidecar_frame uuid_shape padded_text (\<lambda>_. Inl [] :: unit sidecar_envelope result)
      bs (sd_session_nonce example_frame) = Inr (StreamDataFrame f)"
    by (auto simp: decode_sidecar_frame_def wire_constants)
  with stream_frame_canonical [OF this] show ?thesis
    by (auto simp: example_frame_def)
qed

end
