(* ===== verification/FrameCodec.thy ===== *)
theory FrameCodec
  imports Envelopes
begin

text \<open>
  The length-prefixed framing of \<^verbatim>\<open>src/internal/sidecar-protocol/length-prefixed-frame-transport.ts\<close>:
  the 16-byte \<^verbatim>\<open>HSC2\<close> header (\<open>frame_bytes\<close>) and the reassembly of frames from the chunks of a byte
  stream (\<open>append_chunk\<close>, \<open>peek_header\<close>, \<open>consume\<close>, \<open>take_frame\<close>).

  The reader keeps the chunks as they came, with an offset into the first; \<open>pending\<close> is the byte
  string they stand for, and \<open>parse_frame\<close> the specification of frame extraction on it. The lemmas
  show that the chunk buffer implements that specification, so that extraction does not depend on how
  the carrier splits the stream, and that it inverts the writer.
\<close>

section \<open>Definitions\<close>

definition magic :: bytes where
  "magic = ascii ''HSC2''"

definition header_bytes :: nat where
  "header_bytes = 16"

record encoded_frame =
  ef_bytes :: bytes
  ef_encoding :: byte
  ef_decoded_length :: nat

text \<open>\<^verbatim>\<open>writeUInt32BE\<close> refuses a value of more than 32 bits.\<close>

definition frame_bytes :: "bytes \<Rightarrow> byte \<Rightarrow> nat \<Rightarrow> bytes result" where
  "frame_bytes payload encoding decoded_length =
     (if length payload \<ge> 2 ^ 32 \<or> decoded_length \<ge> 2 ^ 32 then Inl ''ERR_OUT_OF_RANGE''
      else Inr (magic @ [encoding] @ [0, 0, 0] @ write_be 4 (length payload) @
                write_be 4 decoded_length @ payload))"

subsection \<open>The chunk buffer\<close>

record chunk_buffer =
  cb_chunks :: "bytes list"
  cb_offset :: nat
  cb_bytes :: nat

definition empty_buffer :: chunk_buffer where
  "empty_buffer = \<lparr>cb_chunks = [], cb_offset = 0, cb_bytes = 0\<rparr>"

definition append_chunk :: "sidecar_protocol_limits \<Rightarrow> bytes \<Rightarrow> chunk_buffer \<Rightarrow> chunk_buffer result" where
  "append_chunk limits chunk b =
     (if int (cb_bytes b + length chunk) > maximum_inbound_queue_bytes limits + int header_bytes
        then Inl ''sidecar_stream_buffer_limit''
      else if chunk = [] then Inr b
      else Inr (b\<lparr>cb_chunks := cb_chunks b @ [chunk], cb_bytes := cb_bytes b + length chunk\<rparr>))"

text \<open>The copying loop of \<^verbatim>\<open>#peekHeader\<close>: \<open>n\<close> bytes are still wanted.\<close>

fun peek_loop :: "nat \<Rightarrow> nat \<Rightarrow> bytes list \<Rightarrow> bytes" where
  "peek_loop n offset [] = []"
| "peek_loop n offset (chunk # chunks) =
     (let piece = subarray offset (min (length chunk) (offset + n)) chunk
      in if length piece = n then piece else piece @ peek_loop (n - length piece) 0 chunks)"

definition peek_header :: "chunk_buffer \<Rightarrow> bytes" where
  "peek_header b =
     (case cb_chunks b of
        [] \<Rightarrow> []
      | first # _ \<Rightarrow>
          if length first - cb_offset b \<ge> header_bytes
          then subarray (cb_offset b) (cb_offset b + header_bytes) first
          else peek_loop header_bytes (cb_offset b) (cb_chunks b))"

text \<open>The loop of \<^verbatim>\<open>#consume\<close> with \<open>n\<close> bytes to go; the finished chunks are dropped as it passes
  them. \<open>None\<close> is the access beyond the last chunk.\<close>

fun consume_loop :: "nat \<Rightarrow> nat \<Rightarrow> bytes list \<Rightarrow> (bytes \<times> nat \<times> bytes list) option" where
  "consume_loop 0 offset chunks = Some ([], offset, chunks)"
| "consume_loop (Suc n) offset [] = None"
| "consume_loop (Suc n) offset (chunk # chunks) =
     (let tk = min (length chunk - offset) (Suc n);
          piece = subarray offset (offset + tk) chunk
      in if offset + tk = length chunk
         then map_option (\<lambda>(copied, r). (piece @ copied, r)) (consume_loop (Suc n - tk) 0 chunks)
         else Some (piece, offset + tk, chunk # chunks))"

definition consume :: "nat \<Rightarrow> chunk_buffer \<Rightarrow> (bytes \<times> chunk_buffer) option" where
  "consume n b = map_option
     (\<lambda>(copied, offset, chunks).
        (copied, \<lparr>cb_chunks = chunks, cb_offset = offset, cb_bytes = cb_bytes b - n\<rparr>))
     (consume_loop n (cb_offset b) (cb_chunks b))"

definition check_header :: "sidecar_protocol_limits \<Rightarrow> bytes \<Rightarrow> (byte \<times> nat \<times> nat) result" where
  "check_header limits header =
     (if subarray 0 (length magic) header \<noteq> magic then Inl ''sidecar_stream_magic_invalid''
      else let encoding = header ! 4 in
        if (encoding \<noteq> 0 \<and> encoding \<noteq> 1) \<or> header ! 5 \<noteq> 0 \<or> header ! 6 \<noteq> 0 \<or> header ! 7 \<noteq> 0
          then Inl ''sidecar_stream_encoding_invalid''
        else let len = read_be (subarray 8 12 header); decoded = read_be (subarray 12 16 header) in
          if len = 0 \<or> int len > maximum_frame_bytes limits \<or> decoded = 0 \<or>
             int decoded > maximum_frame_bytes limits \<or>
             (if encoding = 0 then len \<noteq> decoded else len \<ge> decoded)
            then Inl ''sidecar_stream_frame_length_invalid''
          else Inr (encoding, len, decoded))"

definition take_frame ::
  "sidecar_protocol_limits \<Rightarrow> bool \<Rightarrow> chunk_buffer \<Rightarrow> (encoded_frame \<times> chunk_buffer) option result" where
  "take_frame limits closed_settled b =
     (if closed_settled \<or> cb_bytes b < header_bytes then Inr None
      else case check_header limits (peek_header b) of
        Inl e \<Rightarrow> Inl e
      | Inr (encoding, len, decoded) \<Rightarrow>
          if cb_bytes b < header_bytes + len then Inr None
          else case consume header_bytes b of
            None \<Rightarrow> Inl ''TypeError''
          | Some (_, b1) \<Rightarrow>
              (case consume len b1 of
                 None \<Rightarrow> Inl ''TypeError''
               | Some (frame, b2) \<Rightarrow>
                   Inr (Some (\<lparr>ef_bytes = frame, ef_encoding = encoding, ef_decoded_length = decoded\<rparr>, b2))))"

subsection \<open>The specification\<close>

definition pending :: "chunk_buffer \<Rightarrow> bytes" where
  "pending b = drop (cb_offset b) (concat (cb_chunks b))"

definition buffer_ok :: "chunk_buffer \<Rightarrow> bool" where
  "buffer_ok b \<longleftrightarrow> [] \<notin> set (cb_chunks b) \<and> cb_bytes b = length (pending b) \<and>
     (case cb_chunks b of [] \<Rightarrow> cb_offset b = 0 | c # _ \<Rightarrow> cb_offset b < length c)"

definition parse_frame :: "sidecar_protocol_limits \<Rightarrow> bytes \<Rightarrow> (encoded_frame \<times> bytes) option result" where
  "parse_frame limits bs =
     (if length bs < header_bytes then Inr None
      else case check_header limits (take header_bytes bs) of
        Inl e \<Rightarrow> Inl e
      | Inr (encoding, len, decoded) \<Rightarrow>
          if length bs < header_bytes + len then Inr None
          else Inr (Some (\<lparr>ef_bytes = take len (drop header_bytes bs), ef_encoding = encoding,
                           ef_decoded_length = decoded\<rparr>, drop (header_bytes + len) bs)))"

section \<open>Lemmas\<close>

subsection \<open>Extraction makes progress\<close>

lemma check_header_len: "check_header limits h = Inr (e, len, decoded) \<Longrightarrow> 0 < len"
  by (auto simp: check_header_def Let_def split: if_splits)

lemma consume_bytes: "consume n b = Some (x, b') \<Longrightarrow> cb_bytes b' = cb_bytes b - n"
  by (auto simp: consume_def)

lemma take_frame_shrinks:
  assumes "take_frame limits cs b = Inr (Some (f, b'))"
  shows "cb_bytes b' < cb_bytes b"
  using assms
  by (auto simp: take_frame_def header_bytes_def dest!: consume_bytes check_header_len
      split: if_splits sum.splits option.splits prod.splits)

lemma parse_frame_shrinks:
  assumes "parse_frame limits bs = Inr (Some (f, rest))"
  shows "length rest < length bs"
  using assms
  by (auto simp: parse_frame_def header_bytes_def dest!: check_header_len
      split: if_splits sum.splits prod.splits)

text \<open>The loop of \<^verbatim>\<open>#read\<close> over the complete frames of the buffer, and its specification.\<close>

function take_frames ::
  "sidecar_protocol_limits \<Rightarrow> chunk_buffer \<Rightarrow> encoded_frame list \<times> chunk_buffer result" where
  "take_frames limits b = (case take_frame limits False b of
     Inl e \<Rightarrow> ([], Inl e)
   | Inr None \<Rightarrow> ([], Inr b)
   | Inr (Some (f, b')) \<Rightarrow> (let (fs, r) = take_frames limits b' in (f # fs, r)))"
  by pat_completeness auto
termination
  by (relation "measure (\<lambda>(limits, b). cb_bytes b)") (auto intro: take_frame_shrinks)

function parse_frames ::
  "sidecar_protocol_limits \<Rightarrow> bytes \<Rightarrow> encoded_frame list \<times> bytes result" where
  "parse_frames limits bs = (case parse_frame limits bs of
     Inl e \<Rightarrow> ([], Inl e)
   | Inr None \<Rightarrow> ([], Inr bs)
   | Inr (Some (f, rest)) \<Rightarrow> (let (fs, r) = parse_frames limits rest in (f # fs, r)))"
  by pat_completeness auto
termination
  by (relation "measure (\<lambda>(limits, bs). length bs)") (auto intro: parse_frame_shrinks)

declare take_frames.simps [simp del]
declare parse_frames.simps [simp del]

text \<open>What the reader does with the chunks of a stream: it stops at the first error.\<close>

fun read_chunks ::
  "sidecar_protocol_limits \<Rightarrow> bytes list \<Rightarrow> chunk_buffer \<Rightarrow> encoded_frame list \<times> chunk_buffer result" where
  "read_chunks limits [] b = ([], Inr b)"
| "read_chunks limits (chunk # chunks) b = (case append_chunk limits chunk b of
     Inl e \<Rightarrow> ([], Inl e)
   | Inr b1 \<Rightarrow> (case take_frames limits b1 of
       (fs, Inl e) \<Rightarrow> (fs, Inl e)
     | (fs, Inr b2) \<Rightarrow> (let (gs, r) = read_chunks limits chunks b2 in (fs @ gs, r))))"

subsection \<open>The chunk buffer implements the byte string\<close>

definition chunks_ok :: "nat \<Rightarrow> bytes list \<Rightarrow> bool" where
  "chunks_ok offset chunks \<longleftrightarrow> [] \<notin> set chunks \<and>
     (case chunks of [] \<Rightarrow> offset = 0 | c # _ \<Rightarrow> offset < length c)"

lemma buffer_ok_alt: "buffer_ok b \<longleftrightarrow> chunks_ok (cb_offset b) (cb_chunks b) \<and> cb_bytes b = length (pending b)"
  by (auto simp: buffer_ok_def chunks_ok_def)

lemma chunks_ok_Cons: "chunks_ok offset (c # cs) \<Longrightarrow> chunks_ok 0 cs"
  by (cases cs) (auto simp: chunks_ok_def)

lemma peek_loop_spec:
  "chunks_ok offset chunks \<Longrightarrow> peek_loop n offset chunks = take n (drop offset (concat chunks))"
proof (induction n offset chunks rule: peek_loop.induct)
  case (2 n offset c cs)
  then have off: "offset < length c" and ok: "chunks_ok 0 cs"
    by (auto simp: chunks_ok_def split: list.splits)
  show ?case
  proof (cases "offset + n \<le> length c")
    case True
    with off show ?thesis by (simp add: Let_def subarray_def min_def)
  next
    case False
    let ?piece = "subarray offset (min (length c) (offset + n)) c"
    from False off have p: "?piece = drop offset c" by (simp add: subarray_def min_def)
    then have "length ?piece \<noteq> n" using False off by simp
    with "2.IH" [OF refl this ok] p off False show ?thesis by (simp add: Let_def)
  qed
qed simp

lemma peek_header_spec:
  assumes "buffer_ok b"
  shows "peek_header b = take header_bytes (pending b)"
proof (cases "cb_chunks b")
  case Nil
  then show ?thesis by (simp add: peek_header_def pending_def)
next
  case (Cons c cs)
  with assms have ok: "chunks_ok (cb_offset b) (c # cs)" by (simp add: buffer_ok_alt)
  then have "cb_offset b < length c" by (simp add: chunks_ok_def)
  with Cons peek_loop_spec [OF ok, of header_bytes] show ?thesis
    by (auto simp: peek_header_def pending_def subarray_def simp del: peek_loop.simps concat.simps)
      (simp add: concat.simps)
qed

lemma consume_loop_spec:
  assumes "chunks_ok offset chunks" and "n \<le> length (drop offset (concat chunks))"
  obtains offset' chunks' where
    "consume_loop n offset chunks = Some (take n (drop offset (concat chunks)), offset', chunks')"
    "chunks_ok offset' chunks'"
    "drop offset' (concat chunks') = drop n (drop offset (concat chunks))"
  using assms
proof (induction n offset chunks arbitrary: thesis rule: consume_loop.induct)
  case (3 n offset c cs)
  then have off: "offset < length c" and ok: "chunks_ok 0 cs"
    by (auto simp: chunks_ok_def split: list.splits)
  let ?tk = "min (length c - offset) (Suc n)"
  show ?case
  proof (cases "offset + ?tk = length c")
    case True
    let ?piece = "subarray offset (offset + ?tk) c"
    from True off have tk: "?tk = length c - offset" "length c - offset \<le> Suc n" by auto
    have len: "Suc n - ?tk \<le> length (drop 0 (concat cs))" using "3.prems"(3) tk off by simp
    obtain o' cs' where r: "consume_loop (Suc n - ?tk) 0 cs =
        Some (take (Suc n - ?tk) (concat cs), o', cs')" "chunks_ok o' cs'"
        "drop o' (concat cs') = drop (Suc n - ?tk) (concat cs)"
      using "3.IH" [OF refl refl True _ ok len] by auto
    have p: "?piece = drop offset c" using tk off by (simp add: subarray_def)
    show ?thesis
    proof (rule "3.prems"(1))
      show "consume_loop (Suc n) offset (c # cs) =
          Some (take (Suc n) (drop offset (concat (c # cs))), o', cs')"
        using True r(1) p tk off by (simp add: Let_def)
      show "chunks_ok o' cs'" by (fact r(2))
      show "drop o' (concat cs') = drop (Suc n) (drop offset (concat (c # cs)))"
      proof -
        have "drop offset (concat (c # cs)) = drop offset c @ concat cs" using off by simp
        moreover have "drop (Suc n) (drop offset c) = []" using tk(2) by simp
        ultimately have "drop (Suc n) (drop offset (concat (c # cs))) =
            drop (Suc n - (length c - offset)) (concat cs)"
          by (simp only: drop_append length_drop append_Nil)
        with r(3) tk(1) show ?thesis by (simp only:)
      qed
    qed
  next
    case False
    then have tk: "?tk = Suc n" "offset + Suc n < length c" using off by auto
    show ?thesis
    proof (rule "3.prems"(1))
      show "consume_loop (Suc n) offset (c # cs) =
          Some (take (Suc n) (drop offset (concat (c # cs))), offset + Suc n, c # cs)"
        using False tk by (simp add: Let_def subarray_def)
      show "chunks_ok (offset + Suc n) (c # cs)" using "3.prems"(2) tk by (simp add: chunks_ok_def)
      show "drop (offset + Suc n) (concat (c # cs)) = drop (Suc n) (drop offset (concat (c # cs)))"
        by (simp only: drop_drop add.commute)
    qed
  qed
qed auto

lemma consume_spec:
  assumes "buffer_ok b" and "n \<le> cb_bytes b"
  obtains b' where "consume n b = Some (take n (pending b), b')" "buffer_ok b'"
    "pending b' = drop n (pending b)"
proof -
  from assms have ok: "chunks_ok (cb_offset b) (cb_chunks b)" and n: "n \<le> length (pending b)"
    by (simp_all add: buffer_ok_alt)
  obtain o' cs' where r:
    "consume_loop n (cb_offset b) (cb_chunks b) = Some (take n (pending b), o', cs')"
    "chunks_ok o' cs'" "drop o' (concat cs') = drop n (pending b)"
    using consume_loop_spec [OF ok] n unfolding pending_def by metis
  let ?b' = "\<lparr>cb_chunks = cs', cb_offset = o', cb_bytes = cb_bytes b - n\<rparr>"
  have "pending ?b' = drop n (pending b)" using r(3) by (simp add: pending_def)
  moreover from this have "buffer_ok ?b'" using r(2) assms(1) by (simp add: buffer_ok_alt)
  moreover have "consume n b = Some (take n (pending b), ?b')" using r(1) by (simp add: consume_def)
  ultimately show thesis using that by blast
qed

definition refines_take ::
  "(encoded_frame \<times> chunk_buffer) option result \<Rightarrow> (encoded_frame \<times> bytes) option result \<Rightarrow> bool" where
  "refines_take x y \<longleftrightarrow> map_sum id (map_option (map_prod id pending)) x = y \<and>
     (\<forall>f b. x = Inr (Some (f, b)) \<longrightarrow> buffer_ok b)"

lemma take_frame_refines:
  assumes "buffer_ok b"
  shows "refines_take (take_frame limits False b) (parse_frame limits (pending b))"
proof -
  have n: "cb_bytes b = length (pending b)" using assms by (simp add: buffer_ok_def)
  show ?thesis
  proof (cases "cb_bytes b < header_bytes")
    case True
    with n show ?thesis by (simp add: take_frame_def parse_frame_def refines_take_def)
  next
    case hdr: False
    note ph = peek_header_spec [OF assms]
    show ?thesis
    proof (cases "check_header limits (peek_header b)")
      case (Inl e)
      with hdr n ph show ?thesis by (simp add: take_frame_def parse_frame_def refines_take_def)
    next
      case (Inr r)
      obtain enc len dec where r: "r = (enc, len, dec)" by (cases r)
      show ?thesis
      proof (cases "cb_bytes b < header_bytes + len")
        case True
        with hdr n ph Inr r show ?thesis
          by (simp add: take_frame_def parse_frame_def refines_take_def)
      next
        case False
        obtain b1 where b1: "consume header_bytes b = Some (take header_bytes (pending b), b1)"
          "buffer_ok b1" "pending b1 = drop header_bytes (pending b)"
          using consume_spec [OF assms, of header_bytes] hdr by auto
        then have "len \<le> cb_bytes b1" using False n by (simp add: buffer_ok_def)
        then obtain b2 where b2: "consume len b1 = Some (take len (pending b1), b2)"
          "buffer_ok b2" "pending b2 = drop len (pending b1)"
          using consume_spec [OF b1(2)] by blast
        show ?thesis using hdr n ph Inr r False b1 b2
          by (simp add: take_frame_def parse_frame_def refines_take_def add.commute)
      qed
    qed
  qed
qed

lemma take_frames_refines:
  assumes "buffer_ok b"
  shows "map_prod id (map_sum id pending) (take_frames limits b) = parse_frames limits (pending b) \<and>
    (\<forall>fs b'. take_frames limits b = (fs, Inr b') \<longrightarrow> buffer_ok b')"
  using assms
proof (induction limits b rule: take_frames.induct)
  case (1 limits b)
  note ref = take_frame_refines [OF "1.prems", of limits, unfolded refines_take_def]
  show ?case
  proof (cases "take_frame limits False b")
    case (Inl e)
    with ref have "parse_frame limits (pending b) = Inl e" by auto
    with Inl show ?thesis by (simp add: take_frames.simps [of limits b] parse_frames.simps [of limits "pending b"])
  next
    case (Inr r)
    show ?thesis
    proof (cases r)
      case None
      with Inr ref have "parse_frame limits (pending b) = Inr None" by auto
      with Inr None "1.prems" show ?thesis
        by (simp add: take_frames.simps [of limits b] parse_frames.simps [of limits "pending b"])
    next
      case (Some p)
      obtain f b1 where p: "p = (f, b1)" by (cases p)
      with Inr Some ref have pf: "parse_frame limits (pending b) = Inr (Some (f, pending b1))"
        and ok: "buffer_ok b1" by auto
      obtain fs r1 where t: "take_frames limits b1 = (fs, r1)" by (cases "take_frames limits b1")
      have IH: "map_prod id (map_sum id pending) (take_frames limits b1) = parse_frames limits (pending b1) \<and>
          (\<forall>fs b'. take_frames limits b1 = (fs, Inr b') \<longrightarrow> buffer_ok b')"
        using "1.IH" Inr Some p ok by blast
      with t have "parse_frames limits (pending b1) = (fs, map_sum id pending r1)" by simp
      with pf have "parse_frames limits (pending b) = (f # fs, map_sum id pending r1)"
        by (simp add: parse_frames.simps [of limits "pending b"])
      moreover have "take_frames limits b = (f # fs, r1)"
        using Inr Some p t by (simp add: take_frames.simps [of limits b])
      ultimately show ?thesis using IH t by (auto simp: id_def)
    qed
  qed
qed

subsection \<open>Extraction does not depend on the chunks\<close>

lemma parse_frame_append:
  assumes "parse_frame limits bs = r" and "r \<noteq> Inr None"
  shows "parse_frame limits (bs @ cs) = map_sum id (map_option (map_prod id (\<lambda>rest. rest @ cs))) r"
proof -
  from assms have len: "\<not> length bs < header_bytes" by (auto simp: parse_frame_def)
  show ?thesis
  proof (cases "check_header limits (take header_bytes bs)")
    case (Inl e)
    with assms len show ?thesis by (auto simp: parse_frame_def)
  next
    case (Inr q)
    obtain enc n dec where q: "q = (enc, n, dec)" by (cases q)
    with assms Inr len have "\<not> length bs < header_bytes + n" by (auto simp: parse_frame_def)
    with assms Inr len q show ?thesis by (auto simp: parse_frame_def)
  qed
qed

lemma parse_frames_append:
  "parse_frames limits (bs @ cs) = (case parse_frames limits bs of
     (fs, Inl e) \<Rightarrow> (fs, Inl e)
   | (fs, Inr rest) \<Rightarrow> (let (gs, r) = parse_frames limits (rest @ cs) in (fs @ gs, r)))"
proof (induction limits bs rule: parse_frames.induct)
  case (1 limits bs)
  show ?case
  proof (cases "parse_frame limits bs")
    case (Inl e)
    with parse_frame_append [OF Inl, of cs] show ?thesis
      by (simp add: parse_frames.simps [of limits bs] parse_frames.simps [of limits "bs @ cs"])
  next
    case (Inr q)
    show ?thesis
    proof (cases q)
      case None
      with Inr show ?thesis by (simp add: parse_frames.simps [of limits bs] split: prod.splits)
    next
      case (Some p)
      obtain f rest where p: "p = (f, rest)" by (cases p)
      with Inr Some parse_frame_append [OF Inr, of cs]
      have ap: "parse_frame limits (bs @ cs) = Inr (Some (f, rest @ cs))" by simp
      obtain fs r where t: "parse_frames limits rest = (fs, r)" by (cases "parse_frames limits rest")
      have IH: "parse_frames limits (rest @ cs) = (case parse_frames limits rest of
           (fs, Inl e) \<Rightarrow> (fs, Inl e)
         | (fs, Inr rest) \<Rightarrow> (let (gs, r) = parse_frames limits (rest @ cs) in (fs @ gs, r)))"
        using "1.IH" Inr Some p by blast
      from Inr Some p have "parse_frames limits bs = (f # fs, r)"
        using t by (simp add: parse_frames.simps [of limits bs])
      moreover from ap have "parse_frames limits (bs @ cs) =
          (let (gs, r) = parse_frames limits (rest @ cs) in (f # gs, r))"
        by (simp add: parse_frames.simps [of limits "bs @ cs"])
      ultimately show ?thesis using IH t by (cases r) (simp_all split: prod.splits)
    qed
  qed
qed

text \<open>What is left in the buffer after extraction is less than one frame of the maximum size.\<close>

lemma check_header_max: "check_header limits h = Inr (e, len, decoded) \<Longrightarrow> int len \<le> maximum_frame_bytes limits"
  by (auto simp: check_header_def Let_def split: if_splits)

lemma parse_frame_None:
  assumes "parse_frame limits bs = Inr None" and "0 < maximum_frame_bytes limits"
  shows "int (length bs) < int header_bytes + maximum_frame_bytes limits"
proof -
  have "length bs < header_bytes \<or> (\<exists>e n d. check_header limits (take header_bytes bs) = Inr (e, n, d) \<and>
      length bs < header_bytes + n)"
    using assms(1) by (auto simp: parse_frame_def split: if_splits sum.splits prod.splits)
  with assms(2) show ?thesis by (auto dest!: check_header_max)
qed

lemma parse_frames_rest:
  assumes "parse_frames limits bs = (fs, Inr rest)"
  shows "parse_frame limits rest = Inr None"
  using assms
proof (induction limits bs arbitrary: fs rule: parse_frames.induct)
  case (1 limits bs)
  show ?case
  proof (cases "parse_frame limits bs")
    case (Inl e)
    with "1.prems" show ?thesis by (simp add: parse_frames.simps [of limits bs])
  next
    case (Inr q)
    show ?thesis
    proof (cases q)
      case None
      with Inr "1.prems" show ?thesis by (simp add: parse_frames.simps [of limits bs])
    next
      case (Some p)
      obtain f bs1 where p: "p = (f, bs1)" by (cases p)
      with Inr Some "1.prems" obtain gs where "parse_frames limits bs1 = (gs, Inr rest)"
        by (auto simp: parse_frames.simps [of limits bs] split: prod.splits)
      with "1.IH" Inr Some p show ?thesis by blast
    qed
  qed
qed

lemma append_chunk_fits:
  assumes "buffer_ok b" and "int (length (pending b)) < int header_bytes + maximum_frame_bytes limits"
    and "int (length chunk) \<le> maximum_inbound_queue_bytes limits - maximum_frame_bytes limits + 1"
  obtains b1 where "append_chunk limits chunk b = Inr b1" "buffer_ok b1" "pending b1 = pending b @ chunk"
proof (cases "chunk = []")
  case True
  with assms that [of b] show ?thesis by (auto simp: append_chunk_def buffer_ok_def)
next
  case False
  let ?b1 = "b\<lparr>cb_chunks := cb_chunks b @ [chunk], cb_bytes := cb_bytes b + length chunk\<rparr>"
  have "cb_offset b \<le> length (concat (cb_chunks b))"
    using assms(1) by (cases "cb_chunks b") (auto simp: buffer_ok_def)
  then have p: "pending ?b1 = pending b @ chunk" by (simp add: pending_def)
  moreover from this assms(1) False have "buffer_ok ?b1"
    by (auto simp: buffer_ok_def split: list.splits)
  moreover have "append_chunk limits chunk b = Inr ?b1"
    using assms False by (auto simp: append_chunk_def buffer_ok_def)
  ultimately show ?thesis using that by blast
qed

lemma read_chunks_refines:
  assumes "buffer_ok b" and "parse_frame limits (pending b) = Inr None"
    and "0 < maximum_frame_bytes limits"
    and "\<forall>c\<in>set chunks. int (length c) \<le> maximum_inbound_queue_bytes limits - maximum_frame_bytes limits + 1"
  shows "map_prod id (map_sum id pending) (read_chunks limits chunks b) =
    parse_frames limits (pending b @ concat chunks)"
  using assms
proof (induction chunks arbitrary: b)
  case Nil
  then show ?case by (simp add: parse_frames.simps [of limits "pending b"])
next
  case (Cons c cs)
  have small: "int (length (pending b)) < int header_bytes + maximum_frame_bytes limits"
    using parse_frame_None Cons.prems(2,3) by blast
  obtain b1 where b1: "append_chunk limits c b = Inr b1" "buffer_ok b1" "pending b1 = pending b @ c"
    using append_chunk_fits [OF Cons.prems(1) small, of c] Cons.prems(4) by auto
  note ref = take_frames_refines [OF b1(2), of limits]
  obtain fs r where t: "take_frames limits b1 = (fs, r)" by (cases "take_frames limits b1")
  show ?case
  proof (cases r)
    case (Inl e)
    with t ref b1 have "parse_frames limits (pending b @ c) = (fs, Inl e)" by simp
    with t Inl b1 show ?thesis
      using parse_frames_append [of limits "pending b @ c" "concat cs"] by simp
  next
    case (Inr b2)
    with t ref b1 have p: "parse_frames limits (pending b @ c) = (fs, Inr (pending b2))" and ok: "buffer_ok b2"
      by auto
    obtain gs r2 where u: "read_chunks limits cs b2 = (gs, r2)" by (cases "read_chunks limits cs b2")
    have "map_prod id (map_sum id pending) (read_chunks limits cs b2) =
        parse_frames limits (pending b2 @ concat cs)"
      by (rule Cons.IH [OF ok parse_frames_rest [OF p] Cons.prems(3)]) (use Cons.prems(4) in simp)
    with u have "parse_frames limits (pending b2 @ concat cs) = (gs, map_sum id pending r2)" by simp
    with p t Inr b1 u show ?thesis
      using parse_frames_append [of limits "pending b @ c" "concat cs"] by (simp add: id_def)
  qed
qed

subsection \<open>Extraction inverts the writer\<close>

definition frame_ok :: "sidecar_protocol_limits \<Rightarrow> encoded_frame \<Rightarrow> bool" where
  "frame_ok limits f \<longleftrightarrow> ef_bytes f \<noteq> [] \<and>
     int (length (ef_bytes f)) \<le> maximum_frame_bytes limits \<and>
     int (ef_decoded_length f) \<le> maximum_frame_bytes limits \<and>
     (ef_encoding f = 0 \<and> ef_decoded_length f = length (ef_bytes f) \<or>
      ef_encoding f = 1 \<and> length (ef_bytes f) < ef_decoded_length f)"

definition write_frame :: "encoded_frame \<Rightarrow> bytes result" where
  "write_frame f = frame_bytes (ef_bytes f) (ef_encoding f) (ef_decoded_length f)"

lemma frame_header_fields:
  assumes "length m = 4" and "length n = 4" and "length d = 4"
  shows "subarray 0 4 (m @ [e] @ [0, 0, 0] @ n @ d) = m"
    and "(m @ [e] @ [0, 0, 0] @ n @ d) ! 4 = e" and "(m @ [e] @ [0, 0, 0] @ n @ d) ! 5 = 0"
    and "(m @ [e] @ [0, 0, 0] @ n @ d) ! 6 = 0" and "(m @ [e] @ [0, 0, 0] @ n @ d) ! 7 = 0"
    and "subarray 8 12 (m @ [e] @ [0, 0, 0] @ n @ d) = n"
    and "subarray 12 16 (m @ [e] @ [0, 0, 0] @ n @ d) = d"
  using assms by (simp_all add: subarray_def nth_append)

lemma check_header_Inr:
  assumes "subarray 0 (length magic) h = magic" and "h ! 4 = ef_encoding f"
    and "h ! 5 = 0" and "h ! 6 = 0" and "h ! 7 = 0"
    and "read_be (subarray 8 12 h) = length (ef_bytes f)"
    and "read_be (subarray 12 16 h) = ef_decoded_length f" and "frame_ok limits f"
  shows "check_header limits h = Inr (ef_encoding f, length (ef_bytes f), ef_decoded_length f)"
proof -
  from assms(8) have ne: "ef_bytes f \<noteq> []" "\<not> int (length (ef_bytes f)) > maximum_frame_bytes limits"
    "\<not> int (ef_decoded_length f) > maximum_frame_bytes limits" by (simp_all add: frame_ok_def)
  from assms(8)
  consider "ef_encoding f = 0" "ef_decoded_length f = length (ef_bytes f)"
    | "ef_encoding f = 1" "length (ef_bytes f) < ef_decoded_length f"
    unfolding frame_ok_def by blast
  then show ?thesis
    by cases (use ne in \<open>simp_all add: check_header_def Let_def assms(1-7)\<close>)
qed

lemma parse_written_frame:
  assumes "frame_ok limits f" and "write_frame f = Inr bs"
  shows "parse_frame limits (bs @ rest) = Inr (Some (f, rest))"
proof -
  let ?n = "length (ef_bytes f)" and ?d = "ef_decoded_length f"
  let ?h = "magic @ [ef_encoding f] @ [0, 0, 0] @ write_be 4 ?n @ write_be 4 ?d"
  from assms(2) have bs: "bs = ?h @ ef_bytes f" and small: "?n < 256 ^ 4" "?d < 256 ^ 4"
    by (auto simp: write_frame_def frame_bytes_def split: if_splits)
  have m: "length magic = 4" by (simp add: magic_def ascii_def)
  have h: "length ?h = 16" by (simp add: m)
  note fields = frame_header_fields [OF m length_write_be length_write_be, of "ef_encoding f" ?n ?d]
  have "read_be (subarray 8 12 ?h) = ?n" "read_be (subarray 12 16 ?h) = ?d"
    unfolding fields(6,7) using small by (simp_all only: read_write_be)
  with fields(1-5) assms(1) m have "check_header limits ?h = Inr (ef_encoding f, ?n, ?d)"
    by (intro check_header_Inr) (simp_all only:)
  moreover have "take header_bytes (bs @ rest) = ?h"
    unfolding bs header_bytes_def append_assoc [of ?h] using h by (simp only: take_append) simp
  moreover have "length (bs @ rest) = 16 + ?n + length rest" unfolding bs using h by simp
  moreover have "drop header_bytes (bs @ rest) = ef_bytes f @ rest"
    unfolding bs header_bytes_def append_assoc [of ?h] using h by (simp only: drop_append) simp
  moreover have "drop (header_bytes + ?n) (bs @ rest) = drop ?n (drop header_bytes (bs @ rest))"
    by (simp only: drop_drop add.commute)
  ultimately show ?thesis by (simp add: parse_frame_def header_bytes_def)
qed

lemma parse_written_frames:
  assumes "list_all2 (\<lambda>f bs. frame_ok limits f \<and> write_frame f = Inr bs) fs ws"
  shows "parse_frames limits (concat ws @ rest) =
    (let (gs, r) = parse_frames limits rest in (fs @ gs, r))"
  using assms
proof (induction fs ws rule: list_all2_induct)
  case Nil
  then show ?case by (simp split: prod.splits)
next
  case (Cons f fs w ws)
  then have "parse_frame limits (w @ concat ws @ rest) = Inr (Some (f, concat ws @ rest))"
    using parse_written_frame by blast
  with Cons.IH show ?case
    by (simp add: parse_frames.simps [of limits "w @ concat ws @ rest"] split: prod.splits)
qed

lemma append_chunk_ok:
  assumes "buffer_ok b" and "append_chunk limits chunk b = Inr b1"
  shows "buffer_ok b1"
proof -
  have "cb_offset b \<le> length (concat (cb_chunks b))"
    using assms(1) by (cases "cb_chunks b") (auto simp: buffer_ok_def)
  with assms show ?thesis
    by (auto simp: append_chunk_def buffer_ok_def pending_def split: if_splits list.splits)
qed

lemma read_chunks_ok:
  assumes "buffer_ok b" and "read_chunks limits chunks b = (fs, Inr b')"
  shows "buffer_ok b'"
  using assms
proof (induction chunks arbitrary: b fs)
  case (Cons c cs)
  from Cons.prems(2) obtain b1 gs b2 hs where
    s: "append_chunk limits c b = Inr b1" "take_frames limits b1 = (gs, Inr b2)"
       "read_chunks limits cs b2 = (hs, Inr b')"
    by (auto split: sum.splits prod.splits)
  from append_chunk_ok [OF Cons.prems(1) s(1)] have "buffer_ok b1" .
  with take_frames_refines s(2) have "buffer_ok b2" by blast
  from Cons.IH [OF this s(3)] show ?case .
qed auto

lemma empty_buffer_ok [simp]: "buffer_ok empty_buffer" "pending empty_buffer = []"
  by (simp_all add: buffer_ok_def empty_buffer_def pending_def)

lemma parse_nothing [simp]: "parse_frame limits [] = Inr None" "parse_frames limits [] = ([], Inr [])"
  by (simp_all add: parse_frame_def parse_frames.simps [of limits "[]"] header_bytes_def)

section \<open>Properties\<close>



section \<open>Witnesses\<close>

definition example_frames :: "encoded_frame list" where
  "example_frames = [\<lparr>ef_bytes = [7, 8, 9], ef_encoding = 0, ef_decoded_length = 3\<rparr>,
                     \<lparr>ef_bytes = [1], ef_encoding = 1, ef_decoded_length = 200\<rparr>]"

definition example_wire :: "bytes list" where
  "example_wire = [magic @ [0, 0, 0, 0] @ [0, 0, 0, 3] @ [0, 0, 0, 3] @ [7, 8, 9],
                   magic @ [1, 0, 0, 0] @ [0, 0, 0, 1] @ [0, 0, 0, 200] @ [1]]"

text \<open>The same bytes cut in the middle of the first header and of the second frame.\<close>

definition example_chunks :: "bytes list" where
  "example_chunks = (let w = concat example_wire in [take 5 w, take 20 (drop 5 w), drop 25 w])"

lemma example_lengths:
  "write_be 4 3 = [0, 0, 0, 3]" "write_be 4 1 = [0, 0, 0, 1]" "write_be 4 200 = [0, 0, 0, 200]"
  by code_simp+

lemma example_written:
  "list_all2 (\<lambda>f bs. frame_ok default_sidecar_protocol_limits f \<and> write_frame f = Inr bs)
     example_frames example_wire"
  by (simp add: example_frames_def example_wire_def frame_ok_def write_frame_def frame_bytes_def
      default_sidecar_protocol_limits_def workspace_file_write_json_limit_bytes_def
      example_lengths [unfolded One_nat_def]
      example_lengths(1) [unfolded numeral_3_eq_3 One_nat_def])

lemma example_chunks_small:
  "\<forall>c\<in>set example_chunks. int (length c) \<le> maximum_inbound_queue_bytes default_sidecar_protocol_limits -
     maximum_frame_bytes default_sidecar_protocol_limits + 1"
  by (simp add: example_chunks_def example_wire_def magic_def ascii_def Let_def
      default_sidecar_protocol_limits_def workspace_file_write_json_limit_bytes_def)

lemma example_chunks_concat: "concat example_chunks = concat example_wire"
proof -
  have "take 5 w @ take 20 (drop 5 w) @ drop 25 w = w" for w :: bytes
    using append_take_drop_id [of 5 w] append_take_drop_id [of 20 "drop 5 w"] by simp
  then show ?thesis by (simp add: example_chunks_def Let_def)
qed

lemma default_frame_positive: "0 < maximum_frame_bytes default_sidecar_protocol_limits"
  by (simp add: default_sidecar_protocol_limits_def workspace_file_write_json_limit_bytes_def)



end
