(* ===== verification/BoundedQueue.thy ===== *)
theory BoundedQueue
  imports Prelude
begin

text \<open>
  The bounded asynchronous queue between a sidecar carrier and its consumer
  (\<^verbatim>\<open>src/internal/sidecar-protocol/bounded-async-queue.ts\<close>).

  An asynchronous method is modelled by the steps between two suspension points. A call of
  \<open>push\<close> either completes or suspends on the capacity promise; \<open>push_loop\<close> is the part from the
  \<^verbatim>\<open>while\<close> test on, and is run again each time the promise is released. A call of \<open>next_value\<close>
  either completes or leaves a waiter. Every call and every suspended call is named by a number,
  and what a step resolves, rejects, suspends or releases is its list of outputs.

  \<open>queue_reach\<close> closes the steps under every interleaving of producers, consumer and \<open>close_queue\<close>,
  with ghost logs of the accepted and the delivered values. The lemmas show that the bounds hold in
  every interleaving, that delivery is first-in first-out, and that with a single producer no wake-up
  is lost. The locale \<open>bounded_channel\<close> is the contract the frame transport uses.
\<close>

section \<open>Definitions\<close>

record 'a bounded_queue =
  bq_maximum_items :: int
  bq_maximum_bytes :: int
  bq_values :: "'a list"
  bq_waiters :: "nat list"
  bq_capacity_waiter :: "nat option"
  bq_queued_bytes :: int
  bq_closed :: bool
  bq_error :: "string option"
  bq_claimed :: bool

datatype 'a queue_output =
    PushResolved nat
  | PushRejected nat string
  | PushSuspended nat
  | NextResolved nat 'a
  | NextDone nat
  | NextRejected nat string
  | NextSuspended nat
  | CapacityReleased nat

definition new_bounded_queue :: "int \<Rightarrow> int \<Rightarrow> 'a bounded_queue" where
  "new_bounded_queue items bytes = \<lparr>bq_maximum_items = items, bq_maximum_bytes = bytes,
     bq_values = [], bq_waiters = [], bq_capacity_waiter = None, bq_queued_bytes = 0,
     bq_closed = False, bq_error = None, bq_claimed = False\<rparr>"

definition must_wait :: "int \<Rightarrow> 'a bounded_queue \<Rightarrow> bool" where
  "must_wait sz q \<longleftrightarrow> \<not> bq_closed q \<and> bq_waiters q = [] \<and>
     (int (length (bq_values q)) \<ge> bq_maximum_items q \<or>
      bq_queued_bytes q + sz > bq_maximum_bytes q)"

definition push_loop ::
  "nat \<Rightarrow> int \<Rightarrow> 'a \<Rightarrow> 'a bounded_queue \<Rightarrow> 'a bounded_queue \<times> 'a queue_output list" where
  "push_loop pid sz v q =
     (if must_wait sz q then (q\<lparr>bq_capacity_waiter := Some pid\<rparr>, [PushSuspended pid])
      else if bq_closed q then (q, [PushRejected pid ''sidecar_queue_closed''])
      else case bq_waiters q of
        w # ws \<Rightarrow> (q\<lparr>bq_waiters := ws\<rparr>, [NextResolved w v, PushResolved pid])
      | [] \<Rightarrow> (q\<lparr>bq_values := bq_values q @ [v], bq_queued_bytes := bq_queued_bytes q + sz\<rparr>,
               [PushResolved pid]))"

definition push ::
  "('a \<Rightarrow> int) \<Rightarrow> nat \<Rightarrow> 'a \<Rightarrow> 'a bounded_queue \<Rightarrow> 'a bounded_queue \<times> 'a queue_output list" where
  "push size_of pid v q =
     (let sz = size_of v in
      if \<not> is_safe_integer sz \<or> sz < 0
        then (q, [PushRejected pid ''sidecar_queue_item_size_invalid''])
      else if sz > bq_maximum_bytes q
        then (q, [PushRejected pid ''sidecar_queue_item_too_large''])
      else if bq_capacity_waiter q \<noteq> None
        then (q, [PushRejected pid ''sidecar_queue_push_concurrent''])
      else push_loop pid sz v q)"

definition release_capacity_waiter :: "'a bounded_queue \<Rightarrow> 'a bounded_queue \<times> 'a queue_output list" where
  "release_capacity_waiter q =
     (q\<lparr>bq_capacity_waiter := None\<rparr>,
      case bq_capacity_waiter q of None \<Rightarrow> [] | Some pid \<Rightarrow> [CapacityReleased pid])"

definition settle_waiter :: "string option \<Rightarrow> nat \<Rightarrow> 'a queue_output" where
  "settle_waiter err w = (case err of Some e \<Rightarrow> NextRejected w e | None \<Rightarrow> NextDone w)"

definition close_queue ::
  "string option \<Rightarrow> 'a bounded_queue \<Rightarrow> 'a bounded_queue \<times> 'a queue_output list" where
  "close_queue err q =
     (if bq_closed q then (q, [])
      else
        let q1 = q\<lparr>bq_closed := True, bq_error := err\<rparr>;
            q2 = (if err \<noteq> None then q1\<lparr>bq_values := [], bq_queued_bytes := 0\<rparr> else q1);
            (q3, outs) = release_capacity_waiter (q2\<lparr>bq_waiters := []\<rparr>)
        in (q3, map (settle_waiter err) (bq_waiters q) @ outs))"

definition claim_iterator :: "'a bounded_queue \<Rightarrow> 'a bounded_queue result" where
  "claim_iterator q =
     (if bq_claimed q then Inl ''sidecar_queue_already_consumed'' else Inr (q\<lparr>bq_claimed := True\<rparr>))"

definition next_value ::
  "('a \<Rightarrow> int) \<Rightarrow> nat \<Rightarrow> 'a bounded_queue \<Rightarrow> 'a bounded_queue \<times> 'a queue_output list" where
  "next_value size_of nid q =
     (case bq_values q of
        v # vs \<Rightarrow>
          let (q1, outs) = release_capacity_waiter
                (q\<lparr>bq_values := vs, bq_queued_bytes := bq_queued_bytes q - size_of v\<rparr>)
          in (q1, outs @ [NextResolved nid v])
      | [] \<Rightarrow>
          if bq_closed q then (q, [settle_waiter (bq_error q) nid])
          else
            let (q1, outs) = release_capacity_waiter (q\<lparr>bq_waiters := bq_waiters q @ [nid]\<rparr>)
            in (q1, NextSuspended nid # outs))"

subsection \<open>Interleavings\<close>

text \<open>The queue with the calls in flight: the values of the suspended pushes, the pushes whose
  capacity promise was released and that wait for their turn to run on, and the logs.\<close>

record 'a queue_system =
  qs_queue :: "'a bounded_queue"
  qs_suspended :: "(nat, 'a) jmap"
  qs_woken :: "nat list"
  qs_accepted :: "'a list"
  qs_delivered :: "'a list"

fun delivered_in :: "'a queue_output list \<Rightarrow> 'a list" where
  "delivered_in [] = []"
| "delivered_in (NextResolved n v # outs) = v # delivered_in outs"
| "delivered_in (_ # outs) = delivered_in outs"

fun released_in :: "'a queue_output list \<Rightarrow> nat list" where
  "released_in [] = []"
| "released_in (CapacityReleased p # outs) = p # released_in outs"
| "released_in (_ # outs) = released_in outs"

definition apply_outputs ::
  "'a bounded_queue \<times> 'a queue_output list \<Rightarrow> 'a queue_system \<Rightarrow> 'a queue_system" where
  "apply_outputs r s = s\<lparr>qs_queue := fst r, qs_woken := qs_woken s @ released_in (snd r),
     qs_delivered := qs_delivered s @ delivered_in (snd r)\<rparr>"

definition apply_push ::
  "nat \<Rightarrow> 'a \<Rightarrow> 'a bounded_queue \<times> 'a queue_output list \<Rightarrow> 'a queue_system \<Rightarrow> 'a queue_system" where
  "apply_push pid v r s =
     (let s' = apply_outputs r s in
      s'\<lparr>qs_suspended := (if PushSuspended pid \<in> set (snd r) then jmap_set pid v (qs_suspended s)
                          else jmap_delete pid (qs_suspended s)),
         qs_accepted := qs_accepted s @ (if PushResolved pid \<in> set (snd r) then [v] else [])\<rparr>)"

definition new_queue_system :: "int \<Rightarrow> int \<Rightarrow> 'a queue_system" where
  "new_queue_system items bytes = \<lparr>qs_queue = new_bounded_queue items bytes, qs_suspended = [],
     qs_woken = [], qs_accepted = [], qs_delivered = []\<rparr>"

text \<open>With \<open>multi\<close> false a producer starts a push only when no other push is in flight, the use the
  class documents.\<close>

inductive queue_reach :: "bool \<Rightarrow> ('a \<Rightarrow> int) \<Rightarrow> int \<Rightarrow> int \<Rightarrow> 'a queue_system \<Rightarrow> bool"
  for multi :: bool and size_of :: "'a \<Rightarrow> int" and items :: int and bytes :: int where
  qr_new: "queue_reach multi size_of items bytes (new_queue_system items bytes)"
| qr_push: "\<lbrakk>queue_reach multi size_of items bytes s; jmap_get (qs_suspended s) pid = None;
     multi \<or> qs_suspended s = []\<rbrakk> \<Longrightarrow>
     queue_reach multi size_of items bytes (apply_push pid v (push size_of pid v (qs_queue s)) s)"
| qr_resume: "\<lbrakk>queue_reach multi size_of items bytes s; pid \<in> set (qs_woken s);
     jmap_get (qs_suspended s) pid = Some v\<rbrakk> \<Longrightarrow>
     queue_reach multi size_of items bytes
       (apply_push pid v (push_loop pid (size_of v) v (qs_queue s))
          (s\<lparr>qs_woken := remove1 pid (qs_woken s)\<rparr>))"
| qr_claim: "\<lbrakk>queue_reach multi size_of items bytes s; claim_iterator (qs_queue s) = Inr q\<rbrakk> \<Longrightarrow>
     queue_reach multi size_of items bytes (s\<lparr>qs_queue := q\<rparr>)"
| qr_next: "\<lbrakk>queue_reach multi size_of items bytes s; bq_claimed (qs_queue s)\<rbrakk> \<Longrightarrow>
     queue_reach multi size_of items bytes (apply_outputs (next_value size_of nid (qs_queue s)) s)"
| qr_close: "queue_reach multi size_of items bytes s \<Longrightarrow>
     queue_reach multi size_of items bytes (apply_outputs (close_queue err (qs_queue s)) s)"

subsection \<open>Invariants\<close>

definition queue_inv :: "('a \<Rightarrow> int) \<Rightarrow> int \<Rightarrow> int \<Rightarrow> 'a bounded_queue \<Rightarrow> bool" where
  "queue_inv size_of items bytes q \<longleftrightarrow>
     bq_maximum_items q = items \<and> bq_maximum_bytes q = bytes \<and>
     bq_queued_bytes q = (\<Sum>v\<leftarrow>bq_values q. size_of v) \<and>
     (\<forall>v\<in>set (bq_values q). 0 \<le> size_of v) \<and>
     bq_queued_bytes q \<le> bytes \<and> int (length (bq_values q)) \<le> items \<and>
     (bq_waiters q \<noteq> [] \<longrightarrow> bq_values q = [] \<and> \<not> bq_closed q) \<and>
     (bq_error q \<noteq> None \<longrightarrow> bq_closed q \<and> bq_values q = []) \<and>
     (bq_capacity_waiter q \<noteq> None \<longrightarrow> \<not> bq_closed q)"

definition queue_logs :: "'a queue_system \<Rightarrow> bool" where
  "queue_logs s \<longleftrightarrow>
     (if bq_error (qs_queue s) = None
      then qs_delivered s @ bq_values (qs_queue s) = qs_accepted s
      else prefix (qs_delivered s) (qs_accepted s))"

text \<open>A suspended push is the one the queue will release, or was released.\<close>

definition suspended_ok :: "('a \<Rightarrow> int) \<Rightarrow> 'a queue_system \<Rightarrow> bool" where
  "suspended_ok size_of s \<longleftrightarrow>
     (\<exists>pid v. qs_suspended s = [(pid, v)] \<and> 0 \<le> size_of v \<and>
        size_of v \<le> bq_maximum_bytes (qs_queue s) \<and>
        (bq_capacity_waiter (qs_queue s) = Some pid \<and> qs_woken s = [] \<and>
           must_wait (size_of v) (qs_queue s) \<or>
         bq_capacity_waiter (qs_queue s) = None \<and> qs_woken s = [pid])) \<or>
     qs_suspended s = [] \<and> bq_capacity_waiter (qs_queue s) = None \<and> qs_woken s = []"

section \<open>Lemmas\<close>

lemmas queue_defs = push_loop_def push_def release_capacity_waiter_def close_queue_def
  claim_iterator_def next_value_def settle_waiter_def new_bounded_queue_def

lemma delivered_in_append [simp]: "delivered_in (a @ b) = delivered_in a @ delivered_in b"
  by (induction a rule: delivered_in.induct) auto

lemma released_in_append [simp]: "released_in (a @ b) = released_in a @ released_in b"
  by (induction a rule: released_in.induct) auto

lemma settle_waiters_silent [simp]:
  "delivered_in (map (settle_waiter err) ws) = []" "released_in (map (settle_waiter err) ws) = []"
  by (induction ws) (auto simp: settle_waiter_def split: option.splits)

lemma release_silent [simp]:
  "delivered_in (case c of None \<Rightarrow> [] | Some pid \<Rightarrow> [CapacityReleased pid]) = []"
  "released_in (case c of None \<Rightarrow> [] | Some pid \<Rightarrow> [CapacityReleased pid]) =
   (case c of None \<Rightarrow> [] | Some pid \<Rightarrow> [pid])"
  by (simp_all split: option.splits)

subsection \<open>Bounds\<close>

lemma queue_inv_new [sedes_inv]:
  "0 \<le> items \<Longrightarrow> 0 \<le> bytes \<Longrightarrow> queue_inv size_of items bytes (new_bounded_queue items bytes)"
  by (simp add: queue_inv_def new_bounded_queue_def)

lemma queue_inv_push_loop [sedes_inv]:
  "queue_inv size_of items bytes q \<Longrightarrow> 0 \<le> size_of v \<Longrightarrow>
   queue_inv size_of items bytes (fst (push_loop pid (size_of v) v q))"
  by (auto simp: queue_inv_def push_loop_def must_wait_def split: list.splits)

lemma queue_inv_push [sedes_inv]:
  "queue_inv size_of items bytes q \<Longrightarrow> queue_inv size_of items bytes (fst (push size_of pid v q))"
  by (auto simp: push_def Let_def intro: queue_inv_push_loop)

lemma queue_inv_close [sedes_inv]:
  "queue_inv size_of items bytes q \<Longrightarrow> 0 \<le> bytes \<Longrightarrow> 0 \<le> items \<Longrightarrow>
   queue_inv size_of items bytes (fst (close_queue err q))"
  by (auto simp: queue_inv_def close_queue_def release_capacity_waiter_def Let_def)

lemma queue_inv_claim [sedes_inv]:
  "queue_inv size_of items bytes q \<Longrightarrow> claim_iterator q = Inr q' \<Longrightarrow> queue_inv size_of items bytes q'"
  by (auto simp: queue_inv_def claim_iterator_def split: if_splits)

lemma queue_inv_next [sedes_inv]:
  "queue_inv size_of items bytes q \<Longrightarrow> queue_inv size_of items bytes (fst (next_value size_of nid q))"
  by (auto simp: queue_inv_def next_value_def release_capacity_waiter_def Let_def
      split: list.splits)

text \<open>What a push in flight carries was checked when the push began.\<close>

definition suspended_sizes :: "('a \<Rightarrow> int) \<Rightarrow> int \<Rightarrow> 'a queue_system \<Rightarrow> bool" where
  "suspended_sizes size_of bytes s \<longleftrightarrow>
     (\<forall>pid v. jmap_get (qs_suspended s) pid = Some v \<longrightarrow> 0 \<le> size_of v \<and> size_of v \<le> bytes)"

lemma suspended_push:
  "PushSuspended pid \<in> set (snd (push size_of pid v q)) \<Longrightarrow>
   0 \<le> size_of v \<and> size_of v \<le> bq_maximum_bytes q"
  by (auto simp: push_def Let_def split: if_splits)

lemma apply_outputs_sel [simp]:
  "qs_queue (apply_outputs r s) = fst r"
  "qs_suspended (apply_outputs r s) = qs_suspended s"
  "qs_woken (apply_outputs r s) = qs_woken s @ released_in (snd r)"
  "qs_accepted (apply_outputs r s) = qs_accepted s"
  "qs_delivered (apply_outputs r s) = qs_delivered s @ delivered_in (snd r)"
  by (simp_all add: apply_outputs_def)

lemma apply_push_sel [simp]:
  "qs_queue (apply_push pid v r s) = fst r"
  "qs_suspended (apply_push pid v r s) =
     (if PushSuspended pid \<in> set (snd r) then jmap_set pid v (qs_suspended s)
      else jmap_delete pid (qs_suspended s))"
  "qs_woken (apply_push pid v r s) = qs_woken s @ released_in (snd r)"
  "qs_accepted (apply_push pid v r s) =
     qs_accepted s @ (if PushResolved pid \<in> set (snd r) then [v] else [])"
  "qs_delivered (apply_push pid v r s) = qs_delivered s @ delivered_in (snd r)"
  by (simp_all add: apply_push_def Let_def)

lemma queue_reach_inv:
  assumes "queue_reach multi size_of items bytes s" and "0 \<le> items" and "0 \<le> bytes"
  shows "queue_inv size_of items bytes (qs_queue s) \<and> suspended_sizes size_of bytes s"
  using assms(1)
proof induction
  case qr_new
  with assms show ?case
    by (simp add: new_queue_system_def queue_inv_new suspended_sizes_def)
next
  case (qr_push s pid v)
  then have "bq_maximum_bytes (qs_queue s) = bytes" by (simp add: queue_inv_def)
  with qr_push suspended_push [of pid size_of v "qs_queue s"] show ?case
    by (auto simp: suspended_sizes_def intro: queue_inv_push)
next
  case (qr_resume s pid v)
  then show ?case by (auto simp: suspended_sizes_def intro: queue_inv_push_loop)
next
  case (qr_claim s q)
  then show ?case by (auto simp: suspended_sizes_def intro: queue_inv_claim)
next
  case (qr_next s nid)
  then show ?case by (auto simp: suspended_sizes_def intro: queue_inv_next)
next
  case (qr_close s err)
  with assms show ?case by (auto simp: suspended_sizes_def intro: queue_inv_close)
qed

subsection \<open>Order\<close>

lemma push_loop_logs:
  assumes "queue_inv size_of items bytes q"
  shows "bq_error (fst (push_loop pid n v q)) = bq_error q"
    and "delivered_in (snd (push_loop pid n v q)) @ bq_values (fst (push_loop pid n v q)) =
         bq_values q @ (if PushResolved pid \<in> set (snd (push_loop pid n v q)) then [v] else [])"
    and "bq_error q \<noteq> None \<Longrightarrow> delivered_in (snd (push_loop pid n v q)) = [] \<and>
         PushResolved pid \<notin> set (snd (push_loop pid n v q))"
  using assms by (auto simp: push_loop_def queue_inv_def must_wait_def split: list.splits)

lemma push_logs:
  assumes "queue_inv size_of items bytes q"
  shows "bq_error (fst (push size_of pid v q)) = bq_error q"
    and "delivered_in (snd (push size_of pid v q)) @ bq_values (fst (push size_of pid v q)) =
         bq_values q @ (if PushResolved pid \<in> set (snd (push size_of pid v q)) then [v] else [])"
    and "bq_error q \<noteq> None \<Longrightarrow> delivered_in (snd (push size_of pid v q)) = [] \<and>
         PushResolved pid \<notin> set (snd (push size_of pid v q))"
  using push_loop_logs [OF assms] by (auto simp: push_def Let_def)

lemma next_logs:
  assumes "queue_inv size_of items bytes q"
  shows "bq_error (fst (next_value size_of nid q)) = bq_error q"
    and "delivered_in (snd (next_value size_of nid q)) @ bq_values (fst (next_value size_of nid q)) =
         bq_values q"
  using assms
  by (auto simp: next_value_def release_capacity_waiter_def settle_waiter_def Let_def
      split: list.splits option.splits)

lemma close_logs:
  shows "delivered_in (snd (close_queue err q)) = []"
    and "bq_error (fst (close_queue err q)) = None \<Longrightarrow>
         bq_error q = None \<or> bq_closed q = False"
    and "bq_error (fst (close_queue err q)) = None \<Longrightarrow> bq_values (fst (close_queue err q)) = bq_values q"
  by (auto simp: close_queue_def release_capacity_waiter_def Let_def split: option.splits)

lemma queue_logs_apply_push:
  assumes "queue_logs s" and "qs_queue s = q"
    and "bq_error (fst r) = bq_error q"
    and "delivered_in (snd r) @ bq_values (fst r) =
         bq_values q @ (if PushResolved pid \<in> set (snd r) then [v] else [])"
    and "bq_error q \<noteq> None \<Longrightarrow> delivered_in (snd r) = [] \<and> PushResolved pid \<notin> set (snd r)"
  shows "queue_logs (apply_push pid v r s)"
proof (cases "bq_error q")
  case None
  with assms(1,2) have "qs_delivered s @ bq_values q = qs_accepted s" by (simp add: queue_logs_def)
  moreover from assms(4) have "(qs_delivered s @ delivered_in (snd r)) @ bq_values (fst r) =
      qs_delivered s @ bq_values q @ (if PushResolved pid \<in> set (snd r) then [v] else [])"
    by (simp only: append_assoc)
  ultimately show ?thesis using None assms(2,3) by (simp add: queue_logs_def)
next
  case (Some e)
  with assms show ?thesis by (simp add: queue_logs_def)
qed

lemma queue_reach_logs:
  assumes "queue_reach multi size_of items bytes s" and "0 \<le> items" and "0 \<le> bytes"
  shows "queue_logs s"
  using assms(1)
proof induction
  case qr_new
  show ?case by (simp add: queue_logs_def new_queue_system_def new_bounded_queue_def)
next
  case (qr_push s pid v)
  with queue_reach_inv assms(2,3) have "queue_inv size_of items bytes (qs_queue s)" by blast
  from push_logs [OF this] qr_push.IH show ?case by (intro queue_logs_apply_push) auto
next
  case (qr_resume s pid v)
  with queue_reach_inv assms(2,3) have "queue_inv size_of items bytes (qs_queue s)" by blast
  from push_loop_logs [OF this] qr_resume.IH show ?case
    by (intro queue_logs_apply_push) (auto simp: queue_logs_def)
next
  case (qr_claim s q)
  then show ?case by (auto simp: queue_logs_def claim_iterator_def split: if_splits)
next
  case (qr_next s nid)
  with queue_reach_inv assms(2,3) have inv: "queue_inv size_of items bytes (qs_queue s)" by blast
  from next_logs [OF this, of nid] inv qr_next.IH show ?case
    by (auto simp: queue_logs_def queue_inv_def)
next
  case (qr_close s err)
  with queue_reach_inv assms(2,3) have inv: "queue_inv size_of items bytes (qs_queue s)" by blast
  show ?case
  proof (cases "bq_closed (qs_queue s)")
    case True
    with qr_close.IH show ?thesis by (simp add: close_queue_def queue_logs_def)
  next
    case False
    with inv have "bq_error (qs_queue s) = None" by (auto simp: queue_inv_def)
    with qr_close.IH have "qs_accepted s = qs_delivered s @ bq_values (qs_queue s)"
      by (simp add: queue_logs_def)
    with False show ?thesis
      by (cases err)
        (simp_all add: close_queue_def release_capacity_waiter_def Let_def queue_logs_def)
  qed
qed

subsection \<open>Wake-ups\<close>

lemma suspended_ok_cases:
  assumes "suspended_ok size_of s"
  obtains (idle) "qs_suspended s = []" "bq_capacity_waiter (qs_queue s) = None" "qs_woken s = []"
  | (blocked) pid v where "qs_suspended s = [(pid, v)]" "bq_capacity_waiter (qs_queue s) = Some pid"
      "qs_woken s = []" "must_wait (size_of v) (qs_queue s)" "0 \<le> size_of v"
      "size_of v \<le> bq_maximum_bytes (qs_queue s)"
  | (woken) pid v where "qs_suspended s = [(pid, v)]" "bq_capacity_waiter (qs_queue s) = None"
      "qs_woken s = [pid]" "0 \<le> size_of v" "size_of v \<le> bq_maximum_bytes (qs_queue s)"
  using assms unfolding suspended_ok_def by auto

lemma push_loop_suspension:
  "bq_capacity_waiter q = None \<Longrightarrow>
   bq_maximum_bytes (fst (push_loop pid n v q)) = bq_maximum_bytes q \<and>
   released_in (snd (push_loop pid n v q)) = [] \<and>
   (if PushSuspended pid \<in> set (snd (push_loop pid n v q))
    then bq_capacity_waiter (fst (push_loop pid n v q)) = Some pid \<and>
         must_wait n (fst (push_loop pid n v q))
    else bq_capacity_waiter (fst (push_loop pid n v q)) = None)"
  by (auto simp: push_loop_def must_wait_def split: list.splits)

lemma suspended_ok_push:
  assumes "suspended_ok size_of s" and "qs_suspended s = []"
  shows "suspended_ok size_of (apply_push pid v (push size_of pid v (qs_queue s)) s)"
proof -
  from assms have idle: "bq_capacity_waiter (qs_queue s) = None" "qs_woken s = []"
    by (auto simp: suspended_ok_def)
  show ?thesis
  proof (cases "push size_of pid v (qs_queue s) = push_loop pid (size_of v) v (qs_queue s)")
    case True
    have "0 \<le> size_of v \<and> size_of v \<le> bq_maximum_bytes (qs_queue s)"
      if "PushSuspended pid \<in> set (snd (push size_of pid v (qs_queue s)))"
      using suspended_push [OF that] .
    with True push_loop_suspension [OF idle(1), of pid "size_of v" v] assms(2) idle show ?thesis
      by (auto simp: suspended_ok_def split: if_splits)
  next
    case False
    then have "fst (push size_of pid v (qs_queue s)) = qs_queue s"
      "\<exists>e. snd (push size_of pid v (qs_queue s)) = [PushRejected pid e]"
      by (auto simp: push_def Let_def split: if_splits)
    with assms(2) idle show ?thesis by (auto simp: suspended_ok_def)
  qed
qed

lemma suspended_ok_resume:
  assumes "suspended_ok size_of s" and "pid \<in> set (qs_woken s)"
    and "jmap_get (qs_suspended s) pid = Some v"
  shows "suspended_ok size_of (apply_push pid v (push_loop pid (size_of v) v (qs_queue s))
           (s\<lparr>qs_woken := remove1 pid (qs_woken s)\<rparr>))"
  using assms(1)
proof (cases rule: suspended_ok_cases)
  case (woken pid' v')
  with assms(2,3) have "pid' = pid" "v' = v" by auto
  with woken push_loop_suspension [of "qs_queue s" pid "size_of v" v] show ?thesis
    by (auto simp: suspended_ok_def split: if_splits)
qed (use assms in auto)

lemma suspended_ok_next:
  assumes "suspended_ok size_of s"
  shows "suspended_ok size_of (apply_outputs (next_value size_of nid (qs_queue s)) s)"
  using assms
  by (cases rule: suspended_ok_cases)
    (auto simp: suspended_ok_def next_value_def release_capacity_waiter_def settle_waiter_def
      must_wait_def Let_def split: list.splits option.splits)

lemma suspended_ok_close:
  assumes "suspended_ok size_of s"
  shows "suspended_ok size_of (apply_outputs (close_queue err (qs_queue s)) s)"
  using assms
  by (cases rule: suspended_ok_cases)
    (auto simp: suspended_ok_def close_queue_def release_capacity_waiter_def must_wait_def Let_def)

lemma queue_reach_suspended:
  assumes "queue_reach False size_of items bytes s"
  shows "suspended_ok size_of s"
  using assms
proof induction
  case qr_new
  show ?case by (simp add: suspended_ok_def new_queue_system_def new_bounded_queue_def)
next
  case (qr_push s pid v)
  then show ?case by (intro suspended_ok_push) auto
next
  case (qr_resume s pid v)
  then show ?case by (rule_tac suspended_ok_resume)
next
  case (qr_claim s q)
  then show ?case
    by (auto simp: suspended_ok_def claim_iterator_def must_wait_def split: if_splits)
next
  case (qr_next s nid)
  then show ?case by (rule_tac suspended_ok_next)
next
  case (qr_close s err)
  then show ?case by (rule_tac suspended_ok_close)
qed

text \<open>A consumer that keeps asking empties the queue, and a push suspended before is released.\<close>

definition take_next :: "('a \<Rightarrow> int) \<Rightarrow> nat \<Rightarrow> 'a queue_system \<Rightarrow> 'a queue_system" where
  "take_next size_of nid s = apply_outputs (next_value size_of nid (qs_queue s)) s"

lemma take_next_frame:
  assumes "bq_values (qs_queue s) = v # vs"
  shows "bq_values (qs_queue (take_next size_of nid s)) = vs"
    and "bq_waiters (qs_queue (take_next size_of nid s)) = bq_waiters (qs_queue s)"
    and "bq_closed (qs_queue (take_next size_of nid s)) = bq_closed (qs_queue s)"
    and "qs_suspended (take_next size_of nid s) = qs_suspended s"
    and "bq_capacity_waiter (qs_queue s) = Some pid \<Longrightarrow> qs_woken (take_next size_of nid s) = qs_woken s @ [pid]"
    and "bq_capacity_waiter (qs_queue s) = None \<Longrightarrow> qs_woken (take_next size_of nid s) = qs_woken s"
    and "bq_capacity_waiter (qs_queue (take_next size_of nid s)) = None"
    and "delivered_in (snd (next_value size_of nid (qs_queue s))) = [v]"
  using assms by (simp_all add: take_next_def next_value_def release_capacity_waiter_def Let_def)

lemma drain_queue:
  assumes "queue_inv size_of items bytes (qs_queue s)"
    and "length (bq_values (qs_queue s)) = n"
  shows "bq_values (qs_queue ((take_next size_of nid ^^ n) s)) = [] \<and>
     bq_closed (qs_queue ((take_next size_of nid ^^ n) s)) = bq_closed (qs_queue s) \<and>
     queue_inv size_of items bytes (qs_queue ((take_next size_of nid ^^ n) s)) \<and>
     set (qs_woken s) \<subseteq> set (qs_woken ((take_next size_of nid ^^ n) s)) \<and>
     (\<forall>pid. 0 < n \<longrightarrow> bq_capacity_waiter (qs_queue s) = Some pid \<longrightarrow>
        pid \<in> set (qs_woken ((take_next size_of nid ^^ n) s)))"
  using assms
proof (induction n arbitrary: s)
  case 0
  then show ?case by simp
next
  case (Suc n)
  then obtain v vs where vs: "bq_values (qs_queue s) = v # vs" "length vs = n"
    by (metis length_Suc_conv)
  define t where "t = take_next size_of nid s"
  have inv: "queue_inv size_of items bytes (qs_queue t)"
    unfolding t_def take_next_def using Suc.prems(1) by (simp add: queue_inv_next)
  note frame = take_next_frame [OF vs(1), where size_of = size_of and nid = nid, folded t_def]
  from inv frame(1) vs(2) have IH: "bq_values (qs_queue ((take_next size_of nid ^^ n) t)) = [] \<and>
     bq_closed (qs_queue ((take_next size_of nid ^^ n) t)) = bq_closed (qs_queue t) \<and>
     queue_inv size_of items bytes (qs_queue ((take_next size_of nid ^^ n) t)) \<and>
     set (qs_woken t) \<subseteq> set (qs_woken ((take_next size_of nid ^^ n) t))"
    using Suc.IH [of t] by simp
  have "(take_next size_of nid ^^ Suc n) s = (take_next size_of nid ^^ n) t"
    by (simp add: t_def funpow_swap1)
  moreover have "set (qs_woken s) \<subseteq> set (qs_woken t)"
    using frame(5,6) by (cases "bq_capacity_waiter (qs_queue s)") auto
  moreover have "bq_capacity_waiter (qs_queue s) = Some pid \<Longrightarrow> pid \<in> set (qs_woken t)" for pid
    using frame(5) by auto
  ultimately show ?case using IH frame(3) by auto
qed

section \<open>The channel contract\<close>

text \<open>What a reader and a consumer on the two ends of a queue rely on: an offer is taken or left, a
  poll hands out at most the head, and what is held stays within the bounds.\<close>

datatype 'a channel_op = Offer 'a | Poll

fun channel_run ::
  "('a \<Rightarrow> 's \<Rightarrow> 's \<times> 'a list \<times> bool) \<Rightarrow> ('s \<Rightarrow> 's \<times> 'a list) \<Rightarrow> 'a channel_op list \<Rightarrow> 's \<Rightarrow>
   's \<times> 'a list \<times> 'a list" where
  "channel_run offer poll [] s = (s, [], [])"
| "channel_run offer poll (Offer x # ops) s =
     (let (t, out, ok) = offer x s; (u, took, outs) = channel_run offer poll ops t
      in (u, (if ok then [x] else []) @ took, out @ outs))"
| "channel_run offer poll (Poll # ops) s =
     (let (t, out) = poll s; (u, took, outs) = channel_run offer poll ops t
      in (u, took, out @ outs))"

locale bounded_channel =
  fixes inv :: "'s \<Rightarrow> bool" and content :: "'s \<Rightarrow> 'a list"
    and offer :: "'a \<Rightarrow> 's \<Rightarrow> 's \<times> 'a list \<times> bool" and poll :: "'s \<Rightarrow> 's \<times> 'a list"
    and weight :: "'a \<Rightarrow> int" and items :: int and bytes :: int
  assumes offer_inv: "inv s \<Longrightarrow> 0 \<le> weight x \<Longrightarrow> inv (fst (offer x s))"
    and poll_inv: "inv s \<Longrightarrow> inv (fst (poll s))"
    and offer_order: "inv s \<Longrightarrow> offer x s = (t, out, ok) \<Longrightarrow>
          out @ content t = content s @ (if ok then [x] else [])"
    and poll_order: "inv s \<Longrightarrow> poll s = (t, out) \<Longrightarrow> out @ content t = content s"
    and within: "inv s \<Longrightarrow> int (length (content s)) \<le> items \<and> (\<Sum>x\<leftarrow>content s. weight x) \<le> bytes"
begin

lemma run_order:
  assumes "inv s" and "\<And>x. Offer x \<in> set ops \<Longrightarrow> 0 \<le> weight x"
    and "channel_run offer poll ops s = (t, took, outs)"
  shows "inv t \<and> outs @ content t = content s @ took"
  using assms
proof (induction ops arbitrary: s took outs)
  case Nil
  then show ?case by simp
next
  case (Cons op ops)
  show ?case
  proof (cases op)
    case (Offer x)
    obtain s1 out ok where o: "offer x s = (s1, out, ok)" by (cases "offer x s")
    obtain took1 outs1 where r: "channel_run offer poll ops s1 = (t, took1, outs1)"
      and eq: "took = (if ok then [x] else []) @ took1" "outs = out @ outs1"
      using Cons.prems(3) o Offer by (auto split: prod.splits)
    have "inv s1" using offer_inv [of s x] Cons.prems(1,2) o Offer by auto
    with Cons.IH [OF _ _ r] Cons.prems(2) have "inv t \<and> outs1 @ content t = content s1 @ took1" by auto
    moreover have "out @ content s1 = content s @ (if ok then [x] else [])"
      using offer_order Cons.prems(1) o by blast
    ultimately show ?thesis using eq by (metis append.assoc)
  next
    case Poll
    obtain s1 out where o: "poll s = (s1, out)" by (cases "poll s")
    obtain outs1 where r: "channel_run offer poll ops s1 = (t, took, outs1)"
      and eq: "outs = out @ outs1"
      using Cons.prems(3) o Poll by (auto split: prod.splits)
    have "inv s1" using poll_inv [of s] Cons.prems(1) o by auto
    with Cons.IH [OF _ _ r] Cons.prems(2) have "inv t \<and> outs1 @ content t = content s1 @ took" by auto
    moreover have "out @ content s1 = content s" using poll_order Cons.prems(1) o by blast
    ultimately show ?thesis using eq by (metis append.assoc)
  qed
qed

lemma run_delivers_prefix:
  assumes "inv s" and "content s = []" and "\<And>x. Offer x \<in> set ops \<Longrightarrow> 0 \<le> weight x"
    and "channel_run offer poll ops s = (t, took, outs)"
  shows "prefix outs took" and "int (length took) \<le> int (length outs) + items"
proof -
  from run_order [OF assms(1,3,4)] assms(2) have r: "inv t" "outs @ content t = took" by auto
  then show "prefix outs took" by (auto simp: prefix_def)
  from within [OF r(1)] have "int (length (content t)) \<le> items" by simp
  moreover from r(2) have "length took = length outs + length (content t)" by auto
  ultimately show "int (length took) \<le> int (length outs) + items" by simp
qed

end

definition queue_offer :: "('a \<Rightarrow> int) \<Rightarrow> 'a \<Rightarrow> 'a bounded_queue \<Rightarrow> 'a bounded_queue \<times> 'a list \<times> bool" where
  "queue_offer size_of v q =
     (let (q', outs) = push_loop 0 (size_of v) v q
      in (q', delivered_in outs, PushResolved 0 \<in> set outs))"

definition queue_poll :: "('a \<Rightarrow> int) \<Rightarrow> 'a bounded_queue \<Rightarrow> 'a bounded_queue \<times> 'a list" where
  "queue_poll size_of q = (let (q', outs) = next_value size_of 0 q in (q', delivered_in outs))"

interpretation bq: bounded_channel "queue_inv size_of items bytes" bq_values "queue_offer size_of"
  "queue_poll size_of" size_of items bytes
  for size_of :: "'a \<Rightarrow> int" and items bytes
proof
  fix q :: "'a bounded_queue" and v
  assume "queue_inv size_of items bytes q" and "0 \<le> size_of v"
  then show "queue_inv size_of items bytes (fst (queue_offer size_of v q))"
    using queue_inv_push_loop [of size_of items bytes q v 0] by (simp add: queue_offer_def split_def Let_def)
next
  fix q :: "'a bounded_queue"
  assume "queue_inv size_of items bytes q"
  then show "queue_inv size_of items bytes (fst (queue_poll size_of q))"
    using queue_inv_next [of size_of items bytes q 0] by (simp add: queue_poll_def split_def Let_def)
next
  fix q q' :: "'a bounded_queue" and v out ok
  assume "queue_inv size_of items bytes q" and "queue_offer size_of v q = (q', out, ok)"
  then show "out @ bq_values q' = bq_values q @ (if ok then [v] else [])"
    using push_loop_logs(2) [of size_of items bytes q 0 "size_of v" v]
    by (auto simp: queue_offer_def split_def Let_def)
next
  fix q q' :: "'a bounded_queue" and out
  assume "queue_inv size_of items bytes q" and "queue_poll size_of q = (q', out)"
  then show "out @ bq_values q' = bq_values q"
    using next_logs(2) [of size_of items bytes q 0] by (auto simp: queue_poll_def split_def Let_def)
next
  fix q :: "'a bounded_queue"
  assume "queue_inv size_of items bytes q"
  then show "int (length (bq_values q)) \<le> items \<and> (\<Sum>v\<leftarrow>bq_values q. size_of v) \<le> bytes"
    by (simp add: queue_inv_def)
qed

section \<open>Properties\<close>

text \<open>C30. Backpressure holds in every interleaving. Whatever producers, consumer and \<open>close_queue\<close>
  do, and even when several producers push at once, the queue never holds more than its maximum number
  of values nor more than its maximum of bytes, and its byte counter is the sum of their sizes.\<close>

theorem queue_bounded:
  assumes "queue_reach multi size_of items bytes s" and "0 \<le> items" and "0 \<le> bytes"
  shows "int (length (bq_values (qs_queue s))) \<le> items \<and>
    bq_queued_bytes (qs_queue s) = (\<Sum>v\<leftarrow>bq_values (qs_queue s). size_of v) \<and>
    bq_queued_bytes (qs_queue s) \<le> bytes"
  using queue_reach_inv [OF assms] by (simp add: queue_inv_def)

text \<open>C15. Delivery is first-in first-out and exactly once. In every interleaving the values handed to
  the consumer, followed by those still queued, are the values whose push resolved, in that order;
  after a close with an error, which drops the queue, they are a prefix of them.\<close>

theorem queue_delivers_fifo:
  assumes "queue_reach multi size_of items bytes s" and "0 \<le> items" and "0 \<le> bytes"
  shows "(if bq_error (qs_queue s) = None
      then qs_delivered s @ bq_values (qs_queue s) = qs_accepted s
      else prefix (qs_delivered s) (qs_accepted s))"
  using queue_reach_logs [OF assms] by (simp add: queue_logs_def)

text \<open>C31. No wake-up is lost. With a single producer, a push suspended on a full open queue is
  completed once the consumer has taken what is queued: after that many calls of \<open>next_value\<close> the
  push has been released, and running it on resolves it.\<close>

theorem suspended_push_completes:
  assumes reach: "queue_reach False size_of items bytes s" and "1 \<le> items" and "0 \<le> bytes"
    and susp: "jmap_get (qs_suspended s) pid = Some v" and "\<not> bq_closed (qs_queue s)"
  shows "let s' = (take_next size_of nid ^^ length (bq_values (qs_queue s))) s
         in pid \<in> set (qs_woken s') \<and>
            PushResolved pid \<in> set (snd (push_loop pid (size_of v) v (qs_queue s')))"
proof -
  let ?s' = "(take_next size_of nid ^^ length (bq_values (qs_queue s))) s"
  have inv: "queue_inv size_of items bytes (qs_queue s)" and sz: "size_of v \<le> bytes"
    using queue_reach_inv [OF reach] susp assms(2,3) by (auto simp: suspended_sizes_def)
  note d = drain_queue [OF inv refl, of nid]
  from queue_reach_suspended [OF reach] have "pid \<in> set (qs_woken ?s')"
  proof (cases rule: suspended_ok_cases)
    case (blocked pid' v')
    with susp have "pid' = pid" "v' = v" by (auto split: if_splits)
    with blocked sz inv assms(2) have "bq_values (qs_queue s) \<noteq> []"
      by (auto simp: must_wait_def queue_inv_def)
    with blocked \<open>pid' = pid\<close> d show ?thesis by auto
  next
    case (woken pid' v')
    with susp have "pid' = pid" by (auto split: if_splits)
    with woken d show ?thesis by auto
  qed (use susp in auto)
  moreover from d assms(2,5) sz have "\<not> must_wait (size_of v) (qs_queue ?s')" "\<not> bq_closed (qs_queue ?s')"
    by (auto simp: must_wait_def queue_inv_def)
  then have "PushResolved pid \<in> set (snd (push_loop pid (size_of v) v (qs_queue ?s')))"
    by (auto simp: push_loop_def split: list.splits)
  ultimately show ?thesis by (simp add: Let_def)
qed

section \<open>Witnesses\<close>

text \<open>A queue for one value and ten bytes, whose values are their own sizes: the first push is taken,
  the second suspends.\<close>

definition example_first :: "nat queue_system" where
  "example_first =
     (let s = new_queue_system 1 10 in apply_push 0 4 (push int 0 4 (qs_queue s)) s)"

definition example_blocked :: "nat queue_system" where
  "example_blocked =
     (let s = example_first in apply_push 1 7 (push int 1 7 (qs_queue s)) s)"

lemmas example_defs = example_first_def example_blocked_def Let_def apply_push_def apply_outputs_def
  new_queue_system_def queue_defs must_wait_def is_safe_integer_def max_safe_integer_def

lemma example_reach: "queue_reach False int 1 10 example_blocked"
proof -
  have "queue_reach False int 1 10 example_first"
    unfolding example_first_def Let_def
    by (intro qr_push qr_new) (simp_all add: new_queue_system_def)
  then show ?thesis
    unfolding example_blocked_def Let_def
    by (rule qr_push) (simp_all add: example_defs)
qed

theorem queue_bounded_witness:
  "int (length (bq_values (qs_queue example_blocked))) \<le> 1 \<and>
   bq_queued_bytes (qs_queue example_blocked) = (\<Sum>v\<leftarrow>bq_values (qs_queue example_blocked). int v) \<and>
   bq_queued_bytes (qs_queue example_blocked) \<le> 10"
  using queue_bounded [OF example_reach] by simp

theorem queue_delivers_fifo_witness:
  "qs_delivered example_blocked @ bq_values (qs_queue example_blocked) = qs_accepted example_blocked \<and>
   qs_accepted example_blocked = [4]"
  using queue_delivers_fifo [OF example_reach] by (simp add: example_defs)

theorem suspended_push_completes_witness:
  "jmap_get (qs_suspended example_blocked) 1 = Some 7 \<and>
   (let s' = (take_next int 5 ^^ length (bq_values (qs_queue example_blocked))) example_blocked
    in 1 \<in> set (qs_woken s') \<and>
       PushResolved 1 \<in> set (snd (push_loop 1 (int 7) 7 (qs_queue s'))))"
proof -
  have "jmap_get (qs_suspended example_blocked) 1 = Some 7" "\<not> bq_closed (qs_queue example_blocked)"
    by (simp_all add: example_defs)
  with suspended_push_completes [OF example_reach, of 1 7 5] show ?thesis by simp
qed

end
