(* ===== verification/FrameTransport.thy ===== *)
theory FrameTransport
  imports FrameCodec BoundedQueue
begin

text \<open>
  The length-prefixed frame transport
  (\<^verbatim>\<open>src/internal/sidecar-protocol/length-prefixed-frame-transport.ts\<close>): the class around the framing of
  \<^verbatim>\<open>FrameCodec\<close> and the inbound queue of \<^verbatim>\<open>BoundedQueue\<close>.

  The class runs three loops that interleave at their \<^verbatim>\<open>await\<close>s: the write pump, the reader and the
  consumer's frame iterator. Each loop's position is a field of the state (\<open>tr_pump\<close>, \<open>tr_reader\<close>,
  \<open>tr_consumer\<close>), and each continuation is one operation. A write entry is an object several slots
  refer to, so entries live in a store under a number. What a step does to the outside (settling a
  send, writing to or closing the byte stream, settling \<^verbatim>\<open>closed\<close>) is its output. The byte stream
  and the codec are the environment: their completions are operations with arbitrary results.
  Diagnostics observe only and are left out.
\<close>

section \<open>Definitions\<close>

datatype write_state = Queued | Preparing | Prepared | Writing

record write_entry =
  we_payload :: "bytes option"
  we_payload_bytes :: nat
  we_lane :: frame_lane
  we_settlement :: bool
  we_framed :: "bytes option"
  we_state :: write_state
  we_charged :: bool
  we_settled :: bool

record transport_closure =
  tc_reason :: string
  tc_cause :: "string option"

datatype pump_position = PumpIdle | PumpCompressing nat | PumpWriting nat

datatype reader_position =
    ReaderReading
  | ReaderPushing encoded_frame        \<comment> \<open>suspended on the capacity of the inbound queue\<close>
  | ReaderReleased encoded_frame       \<comment> \<open>released, the push runs on\<close>
  | ReaderPushed                       \<comment> \<open>the push resolved\<close>
  | ReaderPushFailed string
  | ReaderAwaitClosure
  | ReaderDone

datatype consumer_position =
    ConsumerUnclaimed
  | ConsumerWaiting
  | ConsumerReceived encoded_frame
  | ConsumerReceivedDone
  | ConsumerReceivedError string
  | ConsumerDecoding encoded_frame
  | ConsumerYielded encoded_frame
  | ConsumerDone

datatype close_promise = PerformClose string | AutonomousClose string | ClosedThen

record transport =
  tr_limits :: sidecar_protocol_limits
  tr_inbound :: "encoded_frame bounded_queue"
  tr_control :: "nat list"
  tr_operation :: "nat list"
  tr_buffer :: chunk_buffer
  tr_queued_bytes :: int
  tr_active :: "nat option"
  tr_preparing :: "nat option"
  tr_prepared :: "nat option"
  tr_pumping :: bool
  tr_accepting :: bool
  tr_close :: "close_promise option"
  tr_closed_settled :: bool
  tr_compression :: "frame_compression option"
  tr_decode_aborted :: bool
  tr_unconsumed :: int
  tr_clean_eof :: "transport_closure option"
  tr_entries :: "(nat, write_entry) jmap"
  tr_next_id :: nat
  tr_pump :: pump_position
  tr_reader :: reader_position
  tr_consumer :: consumer_position

datatype transport_output =
    SendRejected string write_delivery       \<comment> \<open>refused before an entry exists\<close>
  | EntryResolved nat
  | EntryRejected nat string write_delivery
  | StreamWrite nat bytes
  | CompressStart nat bytes
  | DecompressStart encoded_frame
  | StreamClose string
  | ClosedResolved transport_closure
  | ClosedRejected string
  | FrameYielded bytes
  | FramesEnded
  | FramesFailed string

definition new_transport :: "sidecar_protocol_limits \<Rightarrow> transport" where
  "new_transport limits = \<lparr>tr_limits = limits,
     tr_inbound = new_bounded_queue (maximum_inbound_queue_frames limits) (maximum_inbound_queue_bytes limits),
     tr_control = [], tr_operation = [], tr_buffer = empty_buffer, tr_queued_bytes = 0,
     tr_active = None, tr_preparing = None, tr_prepared = None, tr_pumping = False,
     tr_accepting = True, tr_close = None, tr_closed_settled = False, tr_compression = None,
     tr_decode_aborted = False, tr_unconsumed = 0, tr_clean_eof = None, tr_entries = [],
     tr_next_id = 0, tr_pump = PumpIdle, tr_reader = ReaderReading, tr_consumer = ConsumerUnclaimed\<rparr>"

definition construct_transport ::
  "string \<Rightarrow> int \<Rightarrow> limit_overrides \<Rightarrow> transport result" where
  "construct_transport kind carrier_generation overrides =
     (if kind = [] \<or> \<not> is_safe_integer carrier_generation \<or> carrier_generation \<le> 0
        then Inl ''sidecar_transport_assurance_invalid''
      else case resolve_sidecar_protocol_limits overrides of
        Inl e \<Rightarrow> Inl e
      | Inr limits \<Rightarrow> Inr (new_transport limits))"

definition commit_compression :: "frame_compression \<Rightarrow> transport \<Rightarrow> transport result" where
  "commit_compression mode t =
     (if tr_compression t \<noteq> None \<or> tr_decode_aborted t \<or> tr_closed_settled t
        then Inl ''sidecar_transport_compression_state_invalid''
      else Inr (t\<lparr>tr_compression := Some mode\<rparr>))"

subsection \<open>Write entries\<close>

definition upd_entry :: "nat \<Rightarrow> (write_entry \<Rightarrow> write_entry) \<Rightarrow> transport \<Rightarrow> transport" where
  "upd_entry i f t = (case jmap_get (tr_entries t) i of
     None \<Rightarrow> t | Some e \<Rightarrow> t\<lparr>tr_entries := jmap_set i (f e) (tr_entries t)\<rparr>)"

definition entry_settled :: "transport \<Rightarrow> nat \<Rightarrow> bool" where
  "entry_settled t i = (case jmap_get (tr_entries t) i of None \<Rightarrow> True | Some e \<Rightarrow> we_settled e)"

definition release_charge :: "nat \<Rightarrow> transport \<Rightarrow> transport" where
  "release_charge i t = (case jmap_get (tr_entries t) i of
     None \<Rightarrow> t
   | Some e \<Rightarrow>
       if \<not> we_charged e then t
       else (upd_entry i (\<lambda>e. e\<lparr>we_charged := False\<rparr>) t)
              \<lparr>tr_queued_bytes := tr_queued_bytes t - int (we_payload_bytes e)\<rparr>)"

definition finish_entry :: "nat \<Rightarrow> transport_output \<Rightarrow> transport \<Rightarrow> transport \<times> transport_output list" where
  "finish_entry i out t =
     (if entry_settled t i then (t, [])
      else (upd_entry i (\<lambda>e. e\<lparr>we_settled := True, we_payload := None, we_framed := None\<rparr>) t, [out]))"

definition settle_write :: "nat \<Rightarrow> transport \<Rightarrow> transport \<times> transport_output list" where
  "settle_write i = finish_entry i (EntryResolved i)"

definition reject_write ::
  "nat \<Rightarrow> string \<Rightarrow> write_delivery \<Rightarrow> transport \<Rightarrow> transport \<times> transport_output list" where
  "reject_write i code delivery = finish_entry i (EntryRejected i code delivery)"

definition reject_released :: "nat \<Rightarrow> transport \<Rightarrow> transport \<times> transport_output list" where
  "reject_released i t = reject_write i ''sidecar_transport_closed'' NotSent (release_charge i t)"

primrec reject_each :: "nat list \<Rightarrow> transport \<Rightarrow> transport \<times> transport_output list" where
  "reject_each [] t = (t, [])"
| "reject_each (i # is) t = then_do (reject_released i t) (reject_each is)"

definition stop_writes :: "transport \<Rightarrow> transport \<times> transport_output list" where
  "stop_writes t =
     (let t0 = t\<lparr>tr_accepting := False\<rparr>;
          r1 = (case tr_active t0 of
                  None \<Rightarrow> (t0, [])
                | Some i \<Rightarrow> reject_write i ''sidecar_transport_closed_during_write'' SentOutcomeUnknown t0);
          waiting = tr_control t @ tr_operation t @
            (case tr_preparing t of None \<Rightarrow> [] | Some i \<Rightarrow> [i]) @
            (case tr_prepared t of None \<Rightarrow> [] | Some i \<Rightarrow> [i])
      in then_do (then_do r1 (\<lambda>u. reject_each waiting (u\<lparr>tr_control := [], tr_operation := []\<rparr>)))
           (\<lambda>u. (u\<lparr>tr_prepared := None\<rparr>, [])))"

subsection \<open>Closing\<close>

definition perform_close :: "string \<Rightarrow> transport \<Rightarrow> transport \<times> transport_output list" where
  "perform_close reason t =
     then_do (stop_writes t)
       (\<lambda>u. (u\<lparr>tr_decode_aborted := True, tr_close := Some (PerformClose reason)\<rparr>, [StreamClose reason]))"

definition perform_autonomous_close :: "string \<Rightarrow> transport \<Rightarrow> transport \<times> transport_output list" where
  "perform_autonomous_close failure t =
     then_do (stop_writes t)
       (\<lambda>u. (u\<lparr>tr_decode_aborted := True, tr_close := Some (AutonomousClose failure)\<rparr>,
             [StreamClose failure]))"

definition close_transport :: "string \<Rightarrow> transport \<Rightarrow> transport \<times> transport_output list" where
  "close_transport reason t =
     (if tr_close t \<noteq> None then (t, [])
      else if tr_closed_settled t then (t\<lparr>tr_close := Some ClosedThen\<rparr>, [])
      else perform_close reason t)"

definition autonomous_close :: "string \<Rightarrow> transport \<Rightarrow> transport \<times> transport_output list" where
  "autonomous_close failure t =
     (if tr_close t \<noteq> None then (t, []) else perform_autonomous_close failure t)"

text \<open>What the inbound queue's outputs mean for the reader and the consumer.\<close>

fun inbound_output :: "encoded_frame queue_output \<Rightarrow> transport \<Rightarrow> transport" where
  "inbound_output (PushResolved _) t = t\<lparr>tr_reader := ReaderPushed\<rparr>"
| "inbound_output (PushRejected _ e) t = t\<lparr>tr_reader := ReaderPushFailed e\<rparr>"
| "inbound_output (PushSuspended _) t = t"
| "inbound_output (NextResolved _ f) t = t\<lparr>tr_consumer := ConsumerReceived f\<rparr>"
| "inbound_output (NextDone _) t = t\<lparr>tr_consumer := ConsumerReceivedDone\<rparr>"
| "inbound_output (NextRejected _ e) t = t\<lparr>tr_consumer := ConsumerReceivedError e\<rparr>"
| "inbound_output (NextSuspended _) t = t\<lparr>tr_consumer := ConsumerWaiting\<rparr>"
| "inbound_output (CapacityReleased _) t = (case tr_reader t of
     ReaderPushing f \<Rightarrow> t\<lparr>tr_reader := ReaderReleased f\<rparr> | _ \<Rightarrow> t)"

definition with_inbound ::
  "encoded_frame bounded_queue \<times> encoded_frame queue_output list \<Rightarrow> transport \<Rightarrow> transport" where
  "with_inbound r t = fold inbound_output (snd r) (t\<lparr>tr_inbound := fst r\<rparr>)"

definition settle_closed :: "transport_closure \<Rightarrow> transport \<Rightarrow> transport \<times> transport_output list" where
  "settle_closed c t =
     (if tr_closed_settled t then (t, [])
      else then_do (stop_writes (t\<lparr>tr_closed_settled := True\<rparr>))
        (\<lambda>u. (with_inbound (close_queue (tc_cause c) (tr_inbound u)) (u\<lparr>tr_decode_aborted := True\<rparr>),
              [ClosedResolved c])))"

definition settle_cleanup_failure :: "string \<Rightarrow> transport \<Rightarrow> transport \<times> transport_output list" where
  "settle_cleanup_failure e t =
     (if tr_closed_settled t then (t, [])
      else then_do (stop_writes (t\<lparr>tr_closed_settled := True\<rparr>))
        (\<lambda>u. (with_inbound (close_queue (Some e) (tr_inbound u)) (u\<lparr>tr_decode_aborted := True\<rparr>),
              [ClosedRejected e])))"

text \<open>The byte stream's \<^verbatim>\<open>close\<close> completed (\<open>None\<close>) or failed.\<close>

definition stream_close_done :: "string option \<Rightarrow> transport \<Rightarrow> transport \<times> transport_output list" where
  "stream_close_done failure t =
     (case tr_close t of
        Some (PerformClose reason) \<Rightarrow>
          (case failure of
             None \<Rightarrow> settle_closed \<lparr>tc_reason = reason, tc_cause = None\<rparr> t
           | Some _ \<Rightarrow> settle_cleanup_failure ''sidecar_transport_cleanup_failed'' t)
      | Some (AutonomousClose e) \<Rightarrow>
          (case failure of
             None \<Rightarrow> settle_closed \<lparr>tc_reason = e, tc_cause = Some e\<rparr> t
           | Some _ \<Rightarrow> settle_cleanup_failure ''sidecar_transport_cleanup_failed'' t)
      | _ \<Rightarrow> (t, []))"

definition finish_clean_eof :: "transport \<Rightarrow> transport \<times> transport_output list" where
  "finish_clean_eof t =
     (case tr_clean_eof t of
        Some c \<Rightarrow> if tr_unconsumed t = 0 then settle_closed c t else (t, [])
      | None \<Rightarrow> (t, []))"

subsection \<open>The write pump\<close>

definition sidecar_compression_minimum_bytes :: nat where
  "sidecar_compression_minimum_bytes = 1024"

definition pick_entry :: "transport \<Rightarrow> (nat \<times> transport) option" where
  "pick_entry t =
     (case tr_control t of
        i # is \<Rightarrow> Some (i, t\<lparr>tr_control := is\<rparr>)
      | [] \<Rightarrow>
        (case tr_prepared t of
           Some i \<Rightarrow> Some (i, t\<lparr>tr_prepared := None\<rparr>)
         | None \<Rightarrow>
           (case tr_operation t of
              i # is \<Rightarrow> Some (i, t\<lparr>tr_operation := is\<rparr>)
            | [] \<Rightarrow> None)))"

definition start_write :: "nat \<Rightarrow> bytes \<Rightarrow> transport \<Rightarrow> transport \<times> transport_output list" where
  "start_write i framed t =
     (let t1 = upd_entry i (\<lambda>e. e\<lparr>we_framed := Some framed, we_payload := None, we_state := Writing\<rparr>) t
      in ((release_charge i t1)\<lparr>tr_active := Some i, tr_pump := PumpWriting i\<rparr>, [StreamWrite i framed]))"

definition stop_pump :: "transport \<Rightarrow> transport" where
  "stop_pump t = t\<lparr>tr_pumping := False, tr_pump := PumpIdle\<rparr>"

definition waiting_count :: "transport \<Rightarrow> nat" where
  "waiting_count t = length (tr_control t) + length (tr_operation t) +
     (if tr_prepared t = None then 0 else 1)"

definition compressible :: "transport \<Rightarrow> write_entry \<Rightarrow> bool" where
  "compressible t e \<longleftrightarrow> tr_compression t = Some Zstd \<and> we_lane e \<noteq> ControlLane \<and>
     \<not> we_settlement e \<and> we_payload_bytes e \<ge> sidecar_compression_minimum_bytes"

lemma pick_entry_smaller: "pick_entry t = Some (i, t') \<Longrightarrow> waiting_count t' < waiting_count t"
  by (auto simp: pick_entry_def waiting_count_def split: list.splits option.splits)

text \<open>The loop up to its next suspension. A settled entry is skipped; otherwise the pass ends in a
  carrier write or in a compression job. An exception of \<open>frame_bytes\<close> leaves the loop.\<close>

function pump :: "transport \<Rightarrow> transport \<times> transport_output list" where
  "pump t =
     (if \<not> tr_accepting t then (stop_pump t, [])
      else case pick_entry t of
        None \<Rightarrow> (stop_pump t, [])
      | Some (i, t1) \<Rightarrow>
        (case jmap_get (tr_entries t1) i of
           None \<Rightarrow> pump t1
         | Some e \<Rightarrow>
             if we_settled e then pump t1
             else case (we_framed e, we_payload e) of
               (Some framed, _) \<Rightarrow> start_write i framed t1
             | (None, Some payload) \<Rightarrow>
                 if compressible t1 e
                 then ((upd_entry i (\<lambda>e. e\<lparr>we_state := Preparing\<rparr>) t1)
                         \<lparr>tr_preparing := Some i, tr_pump := PumpCompressing i\<rparr>,
                       [CompressStart i payload])
                 else (case frame_bytes payload 0 (we_payload_bytes e) of
                     Inl _ \<Rightarrow> (stop_pump t1, [])
                   | Inr framed \<Rightarrow> start_write i framed t1)
             | (None, None) \<Rightarrow> (stop_pump t1, [])))"
  by pat_completeness auto
termination
  by (relation "measure waiting_count") (auto intro: pick_entry_smaller)

declare pump.simps [simp del]

definition pump_writes :: "transport \<Rightarrow> transport \<times> transport_output list" where
  "pump_writes t = (if tr_pumping t then (t, []) else pump (t\<lparr>tr_pumping := True\<rparr>))"

subsection \<open>Sending\<close>

definition queued_count :: "transport \<Rightarrow> nat" where
  "queued_count t = length (tr_control t) + length (tr_operation t) +
     (case tr_preparing t of None \<Rightarrow> 0 | Some i \<Rightarrow> if entry_settled t i then 0 else 1) +
     (case tr_prepared t of None \<Rightarrow> 0 | Some _ \<Rightarrow> 1) +
     (case tr_active t of None \<Rightarrow> 0 | Some _ \<Rightarrow> 1)"

definition frame_capacity :: "sidecar_protocol_limits \<Rightarrow> bool \<Rightarrow> int" where
  "frame_capacity l settlement = maximum_outbound_queue_frames l +
     (if settlement then reserved_settlement_queue_frames l else 0)"

definition byte_capacity :: "sidecar_protocol_limits \<Rightarrow> bool \<Rightarrow> int" where
  "byte_capacity l settlement = maximum_outbound_queue_bytes l +
     (if settlement then reserved_settlement_queue_bytes l else 0)"

definition enqueue :: "bytes \<Rightarrow> frame_lane \<Rightarrow> bool \<Rightarrow> transport \<Rightarrow> transport" where
  "enqueue bs lane settlement t =
     (let i = tr_next_id t;
          e = \<lparr>we_payload = Some bs, we_payload_bytes = length bs, we_lane = lane,
               we_settlement = settlement, we_framed = None, we_state = Queued,
               we_charged = True, we_settled = False\<rparr>;
          t1 = t\<lparr>tr_entries := jmap_set i e (tr_entries t), tr_next_id := Suc i,
                 tr_queued_bytes := tr_queued_bytes t + int (length bs)\<rparr>
      in case lane of
           ControlLane \<Rightarrow> t1\<lparr>tr_control := tr_control t1 @ [i]\<rparr>
         | OperationLane \<Rightarrow> t1\<lparr>tr_operation := tr_operation t1 @ [i]\<rparr>)"

definition send :: "bytes \<Rightarrow> frame_lane \<Rightarrow> bool \<Rightarrow> bool \<Rightarrow> transport \<Rightarrow> transport \<times> transport_output list" where
  "send bs lane aborted settlement t =
     (if bs = [] \<or> int (length bs) > maximum_frame_bytes (tr_limits t)
        then (t, [SendRejected ''sidecar_frame_size_invalid'' NotSent])
      else if \<not> tr_accepting t then (t, [SendRejected ''sidecar_transport_closed'' NotSent])
      else if aborted then (t, [SendRejected ''sidecar_frame_send_aborted'' NotSent])
      else if int (queued_count t) \<ge> frame_capacity (tr_limits t) settlement \<or>
              tr_queued_bytes t + int (length bs) > byte_capacity (tr_limits t) settlement
        then (t, [SendRejected ''sidecar_outbound_queue_limit'' NotSent])
      else pump_writes (enqueue bs lane settlement t))"

text \<open>The compression job of the entry in preparation ended: with an error, with no codec slot
  (\<open>Inr None\<close>) or with compressed bytes.\<close>

definition compress_framed :: "nat \<Rightarrow> bytes option \<Rightarrow> transport \<Rightarrow> bytes result" where
  "compress_framed i compressed t =
     (case jmap_get (tr_entries t) i of
        None \<Rightarrow> Inl ''TypeError''
      | Some e \<Rightarrow>
        (case (compressed, we_payload e) of
           (Some c, payload) \<Rightarrow>
             if length c < we_payload_bytes e then frame_bytes c 1 (we_payload_bytes e)
             else (case payload of
                 Some p \<Rightarrow> frame_bytes p 0 (we_payload_bytes e) | None \<Rightarrow> Inl ''TypeError'')
         | (None, Some p) \<Rightarrow> frame_bytes p 0 (we_payload_bytes e)
         | (None, None) \<Rightarrow> Inl ''TypeError''))"

definition compress_result ::
  "nat \<Rightarrow> bytes option result \<Rightarrow> transport \<Rightarrow> transport \<times> transport_output list" where
  "compress_result i res t =
     (if entry_settled t i \<or> \<not> tr_accepting t then (t, [])
      else case (case res of Inl e \<Rightarrow> Inl e | Inr c \<Rightarrow> compress_framed i c t) of
        Inr framed \<Rightarrow>
          ((upd_entry i (\<lambda>e. e\<lparr>we_framed := Some framed, we_payload := None, we_state := Prepared\<rparr>) t)
             \<lparr>tr_prepared := Some i\<rparr>, [])
      | Inl _ \<Rightarrow>
          then_do (reject_write i ''sidecar_frame_compression_failed'' NotSent (release_charge i t))
            (close_transport ''sidecar_frame_compression_failed''))"

definition compress_done :: "bytes option result \<Rightarrow> transport \<Rightarrow> transport \<times> transport_output list" where
  "compress_done res t =
     (case tr_pump t of
        PumpCompressing i \<Rightarrow>
          then_do (then_do (compress_result i res t)
            (\<lambda>u. let r = (if \<not> entry_settled u i \<and> \<not> tr_accepting u then reject_released i u else (u, []))
                 in then_do r (\<lambda>v. (v\<lparr>tr_preparing := None\<rparr>, []))))
            pump
      | _ \<Rightarrow> (t, []))"

text \<open>The carrier write of the active entry ended; a failure carries the delivery the carrier reports.\<close>

definition write_done :: "write_delivery option \<Rightarrow> transport \<Rightarrow> transport \<times> transport_output list" where
  "write_done failure t =
     (case tr_pump t of
        PumpWriting i \<Rightarrow>
          (case failure of
             None \<Rightarrow> then_do (then_do (settle_write i t) (\<lambda>u. (u\<lparr>tr_active := None\<rparr>, []))) pump
           | Some delivery \<Rightarrow>
               then_do (then_do (reject_write i ''sidecar_stream_write_failed'' delivery t)
                 (close_transport ''sidecar_stream_write_failed''))
                 (\<lambda>u. (stop_pump (u\<lparr>tr_active := None\<rparr>), [])))
      | _ \<Rightarrow> (t, []))"

definition abort_write :: "nat \<Rightarrow> transport \<Rightarrow> transport \<times> transport_output list" where
  "abort_write i t =
     (case jmap_get (tr_entries t) i of
        None \<Rightarrow> (t, [])
      | Some e \<Rightarrow>
          if we_settled e then (t, [])
          else if we_state e = Writing
            then then_do (reject_write i ''sidecar_frame_send_aborted'' SentOutcomeUnknown t)
                   (close_transport ''sidecar_active_write_aborted'')
          else
            let t1 = release_charge i t;
                t2 = (if tr_prepared t1 = Some i then t1\<lparr>tr_prepared := None\<rparr> else t1);
                t3 = (if i \<in> set (tr_control t2) then t2\<lparr>tr_control := remove1 i (tr_control t2)\<rparr>
                      else t2\<lparr>tr_operation := remove1 i (tr_operation t2)\<rparr>)
            in reject_write i ''sidecar_frame_send_aborted'' NotSent t3)"

subsection \<open>The reader\<close>

definition frame_weight :: "encoded_frame \<Rightarrow> int" where
  "frame_weight f = int (ef_decoded_length f)"

definition reader_failed :: "string \<Rightarrow> transport \<Rightarrow> transport \<times> transport_output list" where
  "reader_failed e t = autonomous_close e (t\<lparr>tr_reader := ReaderDone\<rparr>)"

text \<open>One pass of the frame loop: take the next complete frame and push it, or go back to reading.\<close>

definition read_frame :: "transport \<Rightarrow> transport \<times> transport_output list" where
  "read_frame t =
     (case take_frame (tr_limits t) (tr_closed_settled t) (tr_buffer t) of
        Inl e \<Rightarrow> reader_failed e t
      | Inr None \<Rightarrow> (t\<lparr>tr_reader := ReaderReading\<rparr>, [])
      | Inr (Some (f, b)) \<Rightarrow>
          (let t1 = t\<lparr>tr_buffer := b, tr_unconsumed := tr_unconsumed t + 1, tr_reader := ReaderPushing f\<rparr>
           in (with_inbound (push frame_weight 0 f (tr_inbound t1)) t1, [])))"

definition read_chunk :: "bytes \<Rightarrow> transport \<Rightarrow> transport \<times> transport_output list" where
  "read_chunk chunk t =
     (if tr_closed_settled t then (t, [])
      else case append_chunk (tr_limits t) chunk (tr_buffer t) of
        Inl e \<Rightarrow> reader_failed e t
      | Inr b \<Rightarrow> read_frame (t\<lparr>tr_buffer := b\<rparr>))"

text \<open>The reader runs on after its push was released, resolved or refused.\<close>

definition reader_continue :: "transport \<Rightarrow> transport \<times> transport_output list" where
  "reader_continue t =
     (case tr_reader t of
        ReaderReleased f \<Rightarrow>
          (let t1 = t\<lparr>tr_reader := ReaderPushing f\<rparr>
           in (with_inbound (push_loop 0 (frame_weight f) f (tr_inbound t1)) t1, []))
      | ReaderPushed \<Rightarrow> read_frame t
      | ReaderPushFailed e \<Rightarrow> reader_failed e t
      | _ \<Rightarrow> (t, []))"

definition read_eof :: "transport \<Rightarrow> transport \<times> transport_output list" where
  "read_eof t =
     (if tr_decode_aborted t \<or> tr_closed_settled t then (t\<lparr>tr_reader := ReaderDone\<rparr>, [])
      else if cb_bytes (tr_buffer t) \<noteq> 0 then reader_failed ''sidecar_stream_partial_frame'' t
      else (t\<lparr>tr_reader := ReaderAwaitClosure\<rparr>, []))"

text \<open>The byte stream reported how it closed, or rejected its \<^verbatim>\<open>closed\<close> promise.\<close>

definition read_closure :: "transport_closure result \<Rightarrow> transport \<Rightarrow> transport \<times> transport_output list" where
  "read_closure res t =
     (case res of
        Inl e \<Rightarrow> reader_failed e t
      | Inr c \<Rightarrow>
          (let t1 = t\<lparr>tr_reader := ReaderDone, tr_clean_eof := Some c\<rparr>
           in if tc_cause c \<noteq> None then settle_closed c t1
              else let t2 = t1\<lparr>tr_accepting := False\<rparr>
                   in finish_clean_eof (with_inbound (close_queue None (tr_inbound t2)) t2)))"

subsection \<open>The consumer\<close>

definition claim_frames :: "transport \<Rightarrow> transport result" where
  "claim_frames t =
     (if tr_consumer t \<noteq> ConsumerUnclaimed then Inl ''sidecar_queue_already_consumed''
      else case claim_iterator (tr_inbound t) of
        Inl e \<Rightarrow> Inl e
      | Inr q \<Rightarrow> Inr (t\<lparr>tr_inbound := q, tr_consumer := ConsumerWaiting\<rparr>))"

definition consumer_next :: "transport \<Rightarrow> transport" where
  "consumer_next t = with_inbound (next_value frame_weight 0 (tr_inbound t)) t"

text \<open>The iterator ended by a return (\<open>None\<close>) or an exception before the queue was drained.\<close>

definition consumer_stop :: "string option \<Rightarrow> transport \<Rightarrow> transport \<times> transport_output list" where
  "consumer_stop failure t =
     (let t1 = t\<lparr>tr_consumer := ConsumerDone\<rparr>;
          r = (case failure of
                 Some e \<Rightarrow> if tr_closed_settled t1 then (t1, []) else autonomous_close e t1
               | None \<Rightarrow> (t1, []));
          r2 = then_do r (\<lambda>u. if tr_closed_settled u then (u, [])
                               else close_transport ''sidecar_frame_consumer_closed'' u)
      in then_do r2 (\<lambda>u. (u, [case failure of Some e \<Rightarrow> FramesFailed e | None \<Rightarrow> FramesEnded])))"

definition consumer_dropped :: "string option \<Rightarrow> transport \<Rightarrow> transport \<times> transport_output list" where
  "consumer_dropped failure t = consumer_stop failure (t\<lparr>tr_unconsumed := tr_unconsumed t - 1\<rparr>)"

definition consumer_frame :: "encoded_frame \<Rightarrow> transport \<Rightarrow> transport \<times> transport_output list" where
  "consumer_frame f t =
     (if tr_closed_settled t \<or> tr_decode_aborted t then consumer_dropped None t
      else if ef_encoding f = 1 \<and> tr_compression t \<noteq> Some Zstd
        then consumer_dropped (Some ''sidecar_stream_compression_not_negotiated'') t
      else if ef_encoding f = 0 then (t\<lparr>tr_consumer := ConsumerYielded f\<rparr>, [FrameYielded (ef_bytes f)])
      else (t\<lparr>tr_consumer := ConsumerDecoding f\<rparr>, [DecompressStart f]))"

text \<open>The consumer runs on after its call of \<open>next_value\<close> was answered.\<close>

definition consumer_continue :: "transport \<Rightarrow> transport \<times> transport_output list" where
  "consumer_continue t =
     (case tr_consumer t of
        ConsumerReceived f \<Rightarrow> consumer_frame f t
      | ConsumerReceivedDone \<Rightarrow> (t\<lparr>tr_consumer := ConsumerDone\<rparr>, [FramesEnded])
      | ConsumerReceivedError e \<Rightarrow> consumer_stop (Some e) t
      | _ \<Rightarrow> (t, []))"

definition decompress_done :: "bytes result \<Rightarrow> transport \<Rightarrow> transport \<times> transport_output list" where
  "decompress_done res t =
     (case tr_consumer t of
        ConsumerDecoding f \<Rightarrow>
          (case res of
             Inl e \<Rightarrow> consumer_dropped (Some e) t
           | Inr bs \<Rightarrow>
               if tr_closed_settled t \<or> tr_decode_aborted t then consumer_dropped None t
               else (t\<lparr>tr_consumer := ConsumerYielded f\<rparr>, [FrameYielded bs]))
      | _ \<Rightarrow> (t, []))"

text \<open>The consumer asks for the next frame, which marks the previous one consumed, or abandons the
  iteration.\<close>

definition consumer_advance :: "transport \<Rightarrow> transport \<times> transport_output list" where
  "consumer_advance t =
     (case tr_consumer t of
        ConsumerYielded f \<Rightarrow>
          then_do (finish_clean_eof (t\<lparr>tr_unconsumed := tr_unconsumed t - 1\<rparr>))
            (\<lambda>u. (consumer_next u, []))
      | _ \<Rightarrow> (t, []))"

definition consumer_return :: "transport \<Rightarrow> transport \<times> transport_output list" where
  "consumer_return t =
     (case tr_consumer t of
        ConsumerYielded f \<Rightarrow> consumer_dropped None t
      | _ \<Rightarrow> (t, []))"

subsection \<open>Interleavings\<close>

datatype transport_op =
    OpCommit frame_compression
  | OpSend bytes frame_lane bool bool
  | OpCompressDone "bytes option result"
  | OpWriteDone "write_delivery option"
  | OpAbort nat
  | OpClose string
  | OpStreamClosed "string option"
  | OpChunk bytes
  | OpReaderContinue
  | OpEof
  | OpClosure "transport_closure result"
  | OpClaim
  | OpConsumerContinue
  | OpDecompressed "bytes result"
  | OpAdvance
  | OpReturn

fun transport_step :: "transport_op \<Rightarrow> transport \<Rightarrow> transport \<times> transport_output list" where
  "transport_step (OpCommit mode) t =
     (case commit_compression mode t of Inl _ \<Rightarrow> (t, []) | Inr t' \<Rightarrow> (t', []))"
| "transport_step (OpSend bs lane aborted settlement) t = send bs lane aborted settlement t"
| "transport_step (OpCompressDone res) t = compress_done res t"
| "transport_step (OpWriteDone failure) t = write_done failure t"
| "transport_step (OpAbort i) t = abort_write i t"
| "transport_step (OpClose reason) t = close_transport reason t"
| "transport_step (OpStreamClosed failure) t = stream_close_done failure t"
| "transport_step (OpChunk chunk) t =
     (if tr_reader t = ReaderReading then read_chunk chunk t else (t, []))"
| "transport_step OpReaderContinue t = reader_continue t"
| "transport_step OpEof t = (if tr_reader t = ReaderReading then read_eof t else (t, []))"
| "transport_step (OpClosure res) t =
     (if tr_reader t = ReaderAwaitClosure then read_closure res t else (t, []))"
| "transport_step OpClaim t =
     (case claim_frames t of Inl _ \<Rightarrow> (t, []) | Inr t' \<Rightarrow> (consumer_next t', []))"
| "transport_step OpConsumerContinue t = consumer_continue t"
| "transport_step (OpDecompressed res) t = decompress_done res t"
| "transport_step OpAdvance t = consumer_advance t"
| "transport_step OpReturn t = consumer_return t"

fun transport_run :: "transport_op list \<Rightarrow> transport \<Rightarrow> transport \<times> transport_output list" where
  "transport_run [] t = (t, [])"
| "transport_run (p # ops) t = then_do (transport_step p t) (transport_run ops)"

end
