(* ===== verification/TransportWrites.thy ===== *)
theory TransportWrites
  imports FrameTransport
begin

text \<open>
  The write side of the frame transport: where every accepted entry is, what it is charged, and the
  bounds. \<open>out_inv\<close> is the invariant; each operation of \<^verbatim>\<open>FrameTransport\<close> keeps it. The proofs rest
  on equations that say what an operation does to the entry store: \<open>stop_writes_map\<close>, \<open>pump_cases\<close>,
  \<open>abort_write_map\<close>.
\<close>

section \<open>The invariant\<close>

subsection \<open>The write-side invariant\<close>

definition opt_list :: "'a option \<Rightarrow> 'a list" where
  "opt_list x = (case x of None \<Rightarrow> [] | Some y \<Rightarrow> [y])"

definition charge_sum :: "(nat, write_entry) jmap \<Rightarrow> int" where
  "charge_sum m = (\<Sum>p\<leftarrow>m. if we_charged (snd p) then int (we_payload_bytes (snd p)) else 0)"

definition has_payload :: "write_entry \<Rightarrow> bool" where
  "has_payload e \<longleftrightarrow> (\<exists>p. we_payload e = Some p \<and> length p = we_payload_bytes e)"

text \<open>An unsettled entry sits in the slot its state names; it is charged until it is being written.\<close>

definition entry_ok :: "transport \<Rightarrow> nat \<Rightarrow> write_entry \<Rightarrow> bool" where
  "entry_ok t i e \<longleftrightarrow>
     (we_charged e \<longleftrightarrow> \<not> we_settled e \<and> we_state e \<noteq> Writing) \<and>
     int (we_payload_bytes e) \<le> maximum_frame_bytes (tr_limits t) \<and>
     (we_state e \<in> {Preparing, Prepared} \<longrightarrow> we_lane e = OperationLane) \<and>
     (\<not> we_settled e \<longrightarrow>
       (we_state e = Queued \<longrightarrow>
          (we_lane e = ControlLane \<longrightarrow> i \<in> set (tr_control t)) \<and>
          (we_lane e = OperationLane \<longrightarrow> i \<in> set (tr_operation t)) \<and>
          we_framed e = None \<and> has_payload e) \<and>
       (we_state e = Preparing \<longrightarrow> tr_preparing t = Some i \<and> we_framed e = None \<and> has_payload e) \<and>
       (we_state e = Prepared \<longrightarrow> tr_prepared t = Some i \<and> we_framed e \<noteq> None) \<and>
       (we_state e = Writing \<longrightarrow> tr_active t = Some i))"

definition slot_ok :: "transport \<Rightarrow> bool" where
  "slot_ok t \<longleftrightarrow>
     (\<forall>i\<in>set (tr_control t). \<exists>e. jmap_get (tr_entries t) i = Some e \<and> \<not> we_settled e \<and>
        we_state e = Queued \<and> we_lane e = ControlLane) \<and>
     (\<forall>i\<in>set (tr_operation t). \<exists>e. jmap_get (tr_entries t) i = Some e \<and> \<not> we_settled e \<and>
        we_state e = Queued \<and> we_lane e = OperationLane) \<and>
     (\<forall>i. tr_preparing t = Some i \<longrightarrow> (\<exists>e. jmap_get (tr_entries t) i = Some e \<and> we_state e = Preparing)) \<and>
     (\<forall>i. tr_prepared t = Some i \<longrightarrow> (\<exists>e. jmap_get (tr_entries t) i = Some e \<and> \<not> we_settled e \<and>
        we_state e = Prepared)) \<and>
     (\<forall>i. tr_active t = Some i \<longrightarrow> (\<exists>e. jmap_get (tr_entries t) i = Some e \<and> we_state e = Writing))"

definition out_core :: "transport \<Rightarrow> bool" where
  "out_core t \<longleftrightarrow> jmap_wf (tr_entries t) \<and> (\<forall>i\<in>fst ` set (tr_entries t). i < tr_next_id t) \<and>
     (\<forall>i e. jmap_get (tr_entries t) i = Some e \<longrightarrow> entry_ok t i e) \<and> slot_ok t \<and>
     distinct (tr_control t) \<and> distinct (tr_operation t) \<and>
     tr_queued_bytes t = charge_sum (tr_entries t)"

definition pump_ok :: "transport \<Rightarrow> bool" where
  "pump_ok t \<longleftrightarrow>
     (tr_pump t = PumpIdle \<longrightarrow> \<not> tr_pumping t \<and> tr_preparing t = None \<and> tr_active t = None \<and>
        (tr_accepting t \<longrightarrow> tr_control t = [] \<and> tr_operation t = [] \<and> tr_prepared t = None)) \<and>
     (\<forall>i. tr_pump t = PumpCompressing i \<longrightarrow> tr_pumping t \<and> tr_preparing t = Some i \<and>
        tr_active t = None \<and> tr_prepared t = None) \<and>
     (\<forall>i. tr_pump t = PumpWriting i \<longrightarrow> tr_pumping t \<and> tr_active t = Some i \<and> tr_preparing t = None)"

definition closed_ok :: "transport \<Rightarrow> bool" where
  "closed_ok t \<longleftrightarrow> (tr_close t \<noteq> None \<or> tr_closed_settled t \<longrightarrow>
     \<not> tr_accepting t \<and> tr_control t = [] \<and> tr_operation t = [] \<and> tr_prepared t = None \<and>
     (\<forall>i e. jmap_get (tr_entries t) i = Some e \<longrightarrow> we_settled e))"

definition bound_ok :: "transport \<Rightarrow> bool" where
  "bound_ok t \<longleftrightarrow> tr_queued_bytes t \<le> byte_capacity (tr_limits t) True \<and>
     int (queued_count t) \<le> frame_capacity (tr_limits t) True"

text \<open>The admissible limits: those of the resolver, with frames whose length fits the header.\<close>

definition transport_limits :: "sidecar_protocol_limits \<Rightarrow> bool" where
  "transport_limits l \<longleftrightarrow> limits_ok l \<and> maximum_frame_bytes l < 2 ^ 32"

definition out_inv :: "transport \<Rightarrow> bool" where
  "out_inv t \<longleftrightarrow> out_core t \<and> pump_ok t \<and> closed_ok t \<and> bound_ok t \<and> transport_limits (tr_limits t)"

section \<open>Lemmas\<close>

subsection \<open>Entries as a map\<close>

definition map_entries :: "(nat \<Rightarrow> write_entry \<Rightarrow> write_entry) \<Rightarrow> transport \<Rightarrow> transport" where
  "map_entries g t = t\<lparr>tr_entries := jmap_map g (tr_entries t)\<rparr>"

definition at_entry :: "nat \<Rightarrow> (write_entry \<Rightarrow> write_entry) \<Rightarrow> nat \<Rightarrow> write_entry \<Rightarrow> write_entry" where
  "at_entry i f k e = (if k = i then f e else e)"

lemma jmap_map_at_absent: "jmap_get m i = None \<Longrightarrow> jmap_map (at_entry i f) m = m"
  unfolding at_entry_def [abs_def] by (rule jmap_map_absent)

lemma jmap_map_at_fix:
  "jmap_wf m \<Longrightarrow> jmap_get m i = Some e \<Longrightarrow> f e = e \<Longrightarrow> jmap_map (at_entry i f) m = m"
  by (rule jmap_map_id) (metis at_entry_def map_of_is_SomeI option.inject)

lemma jmap_set_at:
  "jmap_wf m \<Longrightarrow> jmap_get m i = Some e \<Longrightarrow> jmap_set i (f e) m = jmap_map (at_entry i f) m"
  using jmap_set_map [of m i e f] by (simp add: at_entry_def [abs_def])

lemma jmap_get_at:
  "jmap_get (jmap_map (at_entry i f) m) j = (if j = i then map_option f (jmap_get m j) else jmap_get m j)"
  by (cases "jmap_get m j") (auto simp: at_entry_def)

lemma upd_entry_map: "jmap_wf (tr_entries t) \<Longrightarrow> upd_entry i f t = map_entries (at_entry i f) t"
  by (cases "jmap_get (tr_entries t) i")
    (simp_all add: upd_entry_def map_entries_def jmap_map_at_absent jmap_set_at)

lemma map_entries_sel [simp]:
  "tr_entries (map_entries g t) = jmap_map g (tr_entries t)"
  "tr_limits (map_entries g t) = tr_limits t" "tr_inbound (map_entries g t) = tr_inbound t"
  "tr_control (map_entries g t) = tr_control t" "tr_operation (map_entries g t) = tr_operation t"
  "tr_buffer (map_entries g t) = tr_buffer t" "tr_queued_bytes (map_entries g t) = tr_queued_bytes t"
  "tr_active (map_entries g t) = tr_active t" "tr_preparing (map_entries g t) = tr_preparing t"
  "tr_prepared (map_entries g t) = tr_prepared t" "tr_pumping (map_entries g t) = tr_pumping t"
  "tr_accepting (map_entries g t) = tr_accepting t" "tr_close (map_entries g t) = tr_close t"
  "tr_closed_settled (map_entries g t) = tr_closed_settled t"
  "tr_next_id (map_entries g t) = tr_next_id t" "tr_pump (map_entries g t) = tr_pump t"
  "tr_compression (map_entries g t) = tr_compression t"
  "tr_reader (map_entries g t) = tr_reader t" "tr_consumer (map_entries g t) = tr_consumer t"
  "tr_unconsumed (map_entries g t) = tr_unconsumed t" "tr_clean_eof (map_entries g t) = tr_clean_eof t"
  "tr_decode_aborted (map_entries g t) = tr_decode_aborted t"
  by (simp_all add: map_entries_def)

definition uncharge :: "write_entry \<Rightarrow> write_entry" where
  "uncharge e = e\<lparr>we_charged := False\<rparr>"

definition finish :: "write_entry \<Rightarrow> write_entry" where
  "finish e = (if we_settled e then e
     else e\<lparr>we_settled := True, we_payload := None, we_framed := None\<rparr>)"

lemma finish_sel [simp]:
  "we_charged (finish e) = we_charged e" "we_payload_bytes (finish e) = we_payload_bytes e"
  "we_state (finish e) = we_state e" "we_lane (finish e) = we_lane e" "we_settled (finish e)"
  by (simp_all add: finish_def)

lemma uncharge_sel [simp]:
  "\<not> we_charged (uncharge e)" "we_payload_bytes (uncharge e) = we_payload_bytes e"
  "we_state (uncharge e) = we_state e" "we_lane (uncharge e) = we_lane e"
  "we_settled (uncharge e) = we_settled e" "we_payload (uncharge e) = we_payload e"
  "we_framed (uncharge e) = we_framed e"
  by (simp_all add: uncharge_def)

text \<open>The sum of the charges when an entry is released.\<close>

definition charge_of :: "(nat, write_entry) jmap \<Rightarrow> nat \<Rightarrow> int" where
  "charge_of m i = (case jmap_get m i of
     Some e \<Rightarrow> if we_charged e then int (we_payload_bytes e) else 0 | None \<Rightarrow> 0)"

lemma charge_sum_simps [simp]:
  "charge_sum [] = 0"
  "charge_sum ((k, e) # m) = (if we_charged e then int (we_payload_bytes e) else 0) + charge_sum m"
  by (simp_all add: charge_sum_def)

lemma release_charge_map:
  assumes "jmap_wf (tr_entries t)"
  shows "release_charge i t = (map_entries (at_entry i uncharge) t)
     \<lparr>tr_queued_bytes := tr_queued_bytes t - charge_of (tr_entries t) i\<rparr>"
proof (cases "jmap_get (tr_entries t) i")
  case None
  then show ?thesis
    by (simp add: release_charge_def charge_of_def map_entries_def jmap_map_at_absent)
next
  case (Some e)
  show ?thesis
  proof (cases "we_charged e")
    case True
    with Some assms show ?thesis
      by (simp add: release_charge_def charge_of_def upd_entry_map map_entries_def uncharge_def [abs_def])
  next
    case False
    then have "uncharge e = e" by (simp add: uncharge_def)
    from jmap_map_at_fix [OF assms Some, of uncharge, OF this] Some False show ?thesis
      by (simp add: release_charge_def charge_of_def map_entries_def)
  qed
qed

lemma charge_sum_release:
  assumes "jmap_wf m" and "\<And>e. \<not> we_charged (f e)"
  shows "charge_sum (jmap_map (at_entry i f) m) = charge_sum m - charge_of m i"
  using assms(1)
proof (induction m)
  case (Cons p m)
  obtain k e where p: "p = (k, e)" by (cases p)
  show ?case
  proof (cases "k = i")
    case True
    with Cons.prems p have "jmap_get m i = None" by (auto simp: map_of_eq_None_iff)
    with True p assms(2) show ?thesis
      by (simp add: jmap_map_at_absent charge_of_def) (simp add: at_entry_def)
  next
    case False
    with Cons p show ?thesis by (simp add: charge_of_def) (simp add: at_entry_def)
  qed
qed (simp add: charge_of_def)

lemma charge_sum_same:
  assumes "\<And>k e. we_charged (g k e) = we_charged e" and "\<And>k e. we_payload_bytes (g k e) = we_payload_bytes e"
  shows "charge_sum (jmap_map g m) = charge_sum m"
  by (induction m) (auto simp: assms)

lemma charge_sum_zero: "\<forall>(k, e)\<in>set m. \<not> we_charged e \<Longrightarrow> charge_sum m = 0"
  by (induction m) auto

definition accounted :: "transport \<Rightarrow> bool" where
  "accounted t \<longleftrightarrow> tr_queued_bytes t = charge_sum (tr_entries t)"

lemma accounted_release:
  "jmap_wf (tr_entries t) \<Longrightarrow> accounted t \<Longrightarrow> accounted (release_charge i t)"
  by (simp add: accounted_def release_charge_map charge_sum_release)

lemma accounted_map:
  assumes "\<And>k e. we_charged (g k e) = we_charged e" and "\<And>k e. we_payload_bytes (g k e) = we_payload_bytes e"
  shows "accounted (map_entries g t) = accounted t"
  using charge_sum_same [of g, OF assms] by (simp add: accounted_def)

lemma finish_entry_map:
  assumes "jmap_wf (tr_entries t)"
  shows "finish_entry i out t =
    (map_entries (at_entry i finish) t, if entry_settled t i then [] else [out])"
proof (cases "jmap_get (tr_entries t) i")
  case None
  then show ?thesis by (simp add: finish_entry_def entry_settled_def map_entries_def jmap_map_at_absent)
next
  case (Some e)
  show ?thesis
  proof (cases "we_settled e")
    case True
    then have "finish e = e" by (simp add: finish_def)
    from jmap_map_at_fix [OF assms Some, of finish, OF this] True Some show ?thesis
      by (simp add: finish_entry_def entry_settled_def map_entries_def)
  next
    case False
    then have "e\<lparr>we_settled := True, we_payload := None, we_framed := None\<rparr> = finish e"
      by (simp add: finish_def)
    with jmap_set_at [OF assms Some, of finish] False Some show ?thesis
      by (simp add: finish_entry_def entry_settled_def upd_entry_def map_entries_def)
  qed
qed

definition drop_entry :: "write_entry \<Rightarrow> write_entry" where
  "drop_entry e = finish (uncharge e)"

lemma drop_entry_sel [simp]:
  "\<not> we_charged (drop_entry e)" "we_payload_bytes (drop_entry e) = we_payload_bytes e"
  "we_state (drop_entry e) = we_state e" "we_lane (drop_entry e) = we_lane e"
  "we_settled (drop_entry e)"
  by (simp_all add: drop_entry_def)

lemma drop_entry_idem [simp]: "drop_entry (drop_entry e) = drop_entry e"
  by (simp add: drop_entry_def finish_def uncharge_def)

text \<open>The transport with the entries of a set released and settled, and its byte count recomputed.\<close>

definition drop_in :: "nat set \<Rightarrow> nat \<Rightarrow> write_entry \<Rightarrow> write_entry" where
  "drop_in A k e = (if k \<in> A then drop_entry e else e)"

definition dropped :: "nat set \<Rightarrow> transport \<Rightarrow> transport" where
  "dropped A t = (let m = jmap_map (drop_in A) (tr_entries t)
     in t\<lparr>tr_entries := m, tr_queued_bytes := charge_sum m\<rparr>)"

lemma dropped_sel [simp]:
  "tr_entries (dropped A t) = jmap_map (drop_in A) (tr_entries t)"
  "accounted (dropped A t)"
  "tr_limits (dropped A t) = tr_limits t" "tr_inbound (dropped A t) = tr_inbound t"
  "tr_control (dropped A t) = tr_control t" "tr_operation (dropped A t) = tr_operation t"
  "tr_buffer (dropped A t) = tr_buffer t" "tr_active (dropped A t) = tr_active t"
  "tr_preparing (dropped A t) = tr_preparing t"
  "tr_prepared (dropped A t) = tr_prepared t" "tr_pumping (dropped A t) = tr_pumping t"
  "tr_accepting (dropped A t) = tr_accepting t" "tr_close (dropped A t) = tr_close t"
  "tr_closed_settled (dropped A t) = tr_closed_settled t"
  "tr_next_id (dropped A t) = tr_next_id t" "tr_pump (dropped A t) = tr_pump t"
  "tr_compression (dropped A t) = tr_compression t"
  "tr_reader (dropped A t) = tr_reader t" "tr_consumer (dropped A t) = tr_consumer t"
  "tr_unconsumed (dropped A t) = tr_unconsumed t" "tr_clean_eof (dropped A t) = tr_clean_eof t"
  "tr_decode_aborted (dropped A t) = tr_decode_aborted t"
  by (simp_all add: dropped_def accounted_def Let_def)

lemma drop_in_sel [simp]:
  "we_state (drop_in A k e) = we_state e" "we_lane (drop_in A k e) = we_lane e"
  "we_payload_bytes (drop_in A k e) = we_payload_bytes e" "k \<notin> A \<Longrightarrow> drop_in A k e = e"
  by (simp_all add: drop_in_def)

lemma drop_in_drop_in: "drop_in A k (drop_in B k e) = drop_in (A \<union> B) k e"
  by (simp add: drop_in_def)

lemma dropped_dropped: "dropped A (dropped B t) = dropped (A \<union> B) t"
  by (simp add: dropped_def Let_def drop_in_drop_in)

lemma dropped_empty: "accounted t \<Longrightarrow> dropped {} t = t"
  by (simp add: dropped_def accounted_def Let_def jmap_map_id drop_in_def)

lemma entry_settled_dropped: "entry_settled (dropped A t) i \<longleftrightarrow> i \<in> A \<or> entry_settled t i"
  by (auto simp: entry_settled_def drop_in_def split: option.splits)

lemma drop_in_single: "at_entry i finish k (at_entry i uncharge k e) = drop_in {i} k e"
  by (simp add: at_entry_def drop_in_def drop_entry_def)

lemma reject_released_map:
  assumes "jmap_wf (tr_entries t)" and "accounted t"
  shows "reject_released i t = (dropped {i} t,
     if entry_settled t i then [] else [EntryRejected i ''sidecar_transport_closed'' NotSent])"
proof -
  let ?u = "release_charge i t"
  note u = release_charge_map [OF assms(1), of i]
  have wf: "jmap_wf (tr_entries ?u)" using assms(1) by (simp add: u)
  have acc: "accounted (map_entries (at_entry i finish) ?u)"
    using accounted_release [OF assms, of i] by (subst accounted_map) (simp_all add: at_entry_def)
  have set: "entry_settled ?u i = entry_settled t i"
    by (simp add: entry_settled_def u at_entry_def split: option.splits)
  have "map_entries (at_entry i finish) ?u = dropped {i} t"
    using acc by (simp add: accounted_def u dropped_def Let_def map_entries_def drop_in_single)
  then show ?thesis
    using finish_entry_map [OF wf] set by (simp add: reject_released_def reject_write_def)
qed

lemma reject_each_map:
  assumes "jmap_wf (tr_entries t)" and "accounted t" and "distinct is"
  shows "reject_each is t = (dropped (set is) t,
     map (\<lambda>i. EntryRejected i ''sidecar_transport_closed'' NotSent)
       (filter (\<lambda>i. \<not> entry_settled t i) is))"
  using assms
proof (induction "is" arbitrary: t)
  case Nil
  then show ?case by (simp add: dropped_empty)
next
  case (Cons i "is")
  have "reject_each is (dropped {i} t) = (dropped (set is) (dropped {i} t),
     map (\<lambda>i. EntryRejected i ''sidecar_transport_closed'' NotSent)
       (filter (\<lambda>j. \<not> entry_settled (dropped {i} t) j) is))"
    using Cons.prems by (intro Cons.IH) simp_all
  moreover have "filter (\<lambda>j. \<not> entry_settled (dropped {i} t) j) is = filter (\<lambda>j. \<not> entry_settled t j) is"
    using Cons.prems(3) by (intro filter_cong) (auto simp: entry_settled_dropped)
  ultimately show ?case
    using reject_released_map [OF Cons.prems(1,2), of i]
    by (simp add: then_do_def dropped_dropped)
qed

subsection \<open>What stopping the writes does\<close>

text \<open>The unsettled entries, in the order they are rejected.\<close>

definition waiting_ids :: "transport \<Rightarrow> nat list" where
  "waiting_ids t = tr_control t @ tr_operation t @ opt_list (tr_preparing t) @ opt_list (tr_prepared t)"

definition stop_outputs :: "transport \<Rightarrow> transport_output list" where
  "stop_outputs t =
     map (\<lambda>i. EntryRejected i ''sidecar_transport_closed_during_write'' SentOutcomeUnknown)
       (filter (\<lambda>i. \<not> entry_settled t i) (opt_list (tr_active t))) @
     map (\<lambda>i. EntryRejected i ''sidecar_transport_closed'' NotSent)
       (filter (\<lambda>i. \<not> entry_settled t i) (waiting_ids t))"

definition stopped :: "transport \<Rightarrow> transport" where
  "stopped t = (dropped UNIV t)\<lparr>tr_accepting := False, tr_control := [], tr_operation := [],
     tr_prepared := None\<rparr>"

lemma out_coreD:
  assumes "out_core t"
  shows "jmap_wf (tr_entries t)" and "accounted t"
    and "jmap_get (tr_entries t) i = Some e \<Longrightarrow> entry_ok t i e" and "slot_ok t"
    and "distinct (tr_control t)" and "distinct (tr_operation t)"
    and "i \<in> fst ` set (tr_entries t) \<Longrightarrow> i < tr_next_id t"
  using assms by (auto simp: out_core_def accounted_def)

lemma slot_okD:
  assumes "slot_ok t"
  shows "i \<in> set (tr_control t) \<Longrightarrow> \<exists>e. jmap_get (tr_entries t) i = Some e \<and> \<not> we_settled e \<and>
           we_state e = Queued \<and> we_lane e = ControlLane"
    and "i \<in> set (tr_operation t) \<Longrightarrow> \<exists>e. jmap_get (tr_entries t) i = Some e \<and> \<not> we_settled e \<and>
           we_state e = Queued \<and> we_lane e = OperationLane"
    and "tr_preparing t = Some i \<Longrightarrow> \<exists>e. jmap_get (tr_entries t) i = Some e \<and> we_state e = Preparing"
    and "tr_prepared t = Some i \<Longrightarrow> \<exists>e. jmap_get (tr_entries t) i = Some e \<and> \<not> we_settled e \<and>
           we_state e = Prepared"
    and "tr_active t = Some i \<Longrightarrow> \<exists>e. jmap_get (tr_entries t) i = Some e \<and> we_state e = Writing"
  using assms by (simp_all add: slot_ok_def)

lemma waiting_ids_distinct:
  assumes "out_core t"
  shows "distinct (waiting_ids t)"
proof -
  note s = slot_okD [OF out_coreD(4) [OF assms]]
  have "i \<notin> set (tr_operation t)" if "i \<in> set (tr_control t)" for i
    using s(1) [OF that] s(2) [of i] by auto
  moreover have "i \<notin> set (tr_control t) \<and> i \<notin> set (tr_operation t)" if "tr_preparing t = Some i" for i
    using s(3) [OF that] s(1,2) [of i] by auto
  moreover have "i \<notin> set (tr_control t) \<and> i \<notin> set (tr_operation t) \<and> tr_preparing t \<noteq> Some i"
    if "tr_prepared t = Some i" for i
    using s(4) [OF that] s(1-3) [of i] by auto
  ultimately show ?thesis
    using out_coreD(5,6) [OF assms]
    by (auto simp: waiting_ids_def opt_list_def split: option.splits)
qed

lemma waiting_state:
  assumes "slot_ok t" and "i \<in> set (waiting_ids t)"
  shows "\<exists>e. jmap_get (tr_entries t) i = Some e \<and> we_state e \<noteq> Writing"
proof -
  from assms(2) consider "i \<in> set (tr_control t)" | "i \<in> set (tr_operation t)"
    | "tr_preparing t = Some i" | "tr_prepared t = Some i"
    by (auto simp: waiting_ids_def opt_list_def split: option.splits)
  then show ?thesis using slot_okD [OF assms(1), of i] by cases auto
qed

lemma active_not_waiting: "slot_ok t \<Longrightarrow> tr_active t = Some i \<Longrightarrow> i \<notin> set (waiting_ids t)"
  using slot_okD(5) [of t i] waiting_state [of t i] by auto

lemma unsettled_somewhere:
  assumes "out_core t" and "jmap_get (tr_entries t) i = Some e" and "\<not> we_settled e"
  shows "i \<in> set (waiting_ids t) \<or> tr_active t = Some i"
  using out_coreD(3) [OF assms(1,2)] assms(3)
  by (cases "we_state e"; cases "we_lane e") (auto simp: entry_ok_def waiting_ids_def opt_list_def)

lemma uncharge_fix: "\<not> we_charged e \<Longrightarrow> uncharge e = e"
  by (simp add: uncharge_def)

lemma drop_entry_fix: "we_settled e \<Longrightarrow> \<not> we_charged e \<Longrightarrow> drop_entry e = e"
  by (simp add: drop_entry_def finish_def uncharge_def)

lemma dropped_cong:
  assumes "\<And>k e. (k, e) \<in> set (tr_entries t) \<Longrightarrow> drop_in A k e = drop_in B k e"
  shows "dropped A t = dropped B t"
  using jmap_map_cong [of "tr_entries t" "drop_in A" "drop_in B"] assms
  by (simp add: dropped_def Let_def)

lemma reject_uncharged_map:
  assumes "jmap_wf (tr_entries t)" and "accounted t"
    and "\<And>e. jmap_get (tr_entries t) i = Some e \<Longrightarrow> \<not> we_charged e"
  shows "reject_write i code d t = (dropped {i} t, if entry_settled t i then [] else [EntryRejected i code d])"
    and "settle_write i t = (dropped {i} t, if entry_settled t i then [] else [EntryResolved i])"
proof -
  have "jmap_map (at_entry i finish) (tr_entries t) = jmap_map (drop_in {i}) (tr_entries t)"
  proof (rule jmap_map_cong)
    fix k e assume "(k, e) \<in> set (tr_entries t)"
    with assms(1,3) have "k = i \<Longrightarrow> \<not> we_charged e" by (auto dest: map_of_is_SomeI)
    then show "at_entry i finish k e = drop_in {i} k e"
      by (auto simp: at_entry_def drop_in_def drop_entry_def uncharge_fix)
  qed
  moreover have "accounted (map_entries (at_entry i finish) t)"
    using assms(2) by (subst accounted_map) (simp_all add: at_entry_def)
  ultimately have "map_entries (at_entry i finish) t = dropped {i} t"
    by (simp add: dropped_def Let_def map_entries_def accounted_def)
  with finish_entry_map [OF assms(1)]
  show "reject_write i code d t = (dropped {i} t, if entry_settled t i then [] else [EntryRejected i code d])"
    and "settle_write i t = (dropped {i} t, if entry_settled t i then [] else [EntryResolved i])"
    by (simp_all add: reject_write_def settle_write_def)
qed

lemma accounted_upd [simp]:
  "accounted (t\<lparr>tr_accepting := a\<rparr>) = accounted t" "accounted (t\<lparr>tr_control := c, tr_operation := p\<rparr>) = accounted t"
  "accounted (t\<lparr>tr_control := c\<rparr>) = accounted t" "accounted (t\<lparr>tr_operation := c\<rparr>) = accounted t"
  "accounted (t\<lparr>tr_prepared := q\<rparr>) = accounted t" "accounted (t\<lparr>tr_preparing := q\<rparr>) = accounted t"
  "accounted (t\<lparr>tr_active := q\<rparr>) = accounted t"
  by (simp_all add: accounted_def)

lemma dropped_upd:
  "dropped A (t\<lparr>tr_accepting := a\<rparr>) = (dropped A t)\<lparr>tr_accepting := a\<rparr>"
  "dropped A (t\<lparr>tr_control := c\<rparr>) = (dropped A t)\<lparr>tr_control := c\<rparr>"
  "dropped A (t\<lparr>tr_operation := c\<rparr>) = (dropped A t)\<lparr>tr_operation := c\<rparr>"
  "dropped A (t\<lparr>tr_prepared := q\<rparr>) = (dropped A t)\<lparr>tr_prepared := q\<rparr>"
  "dropped A (t\<lparr>tr_closed_settled := a\<rparr>) = (dropped A t)\<lparr>tr_closed_settled := a\<rparr>"
  by (simp_all add: dropped_def Let_def)

lemma entry_settled_upd [simp]:
  "entry_settled (t\<lparr>tr_accepting := a\<rparr>) i = entry_settled t i"
  "entry_settled (t\<lparr>tr_control := c\<rparr>) i = entry_settled t i"
  "entry_settled (t\<lparr>tr_operation := c\<rparr>) i = entry_settled t i"
  "entry_settled (t\<lparr>tr_prepared := q\<rparr>) i = entry_settled t i"
  "entry_settled (t\<lparr>tr_preparing := q\<rparr>) i = entry_settled t i"
  by (simp_all add: entry_settled_def)

lemma active_uncharged:
  assumes "out_core t" and "tr_active t = Some i" and "jmap_get (tr_entries t) i = Some e"
  shows "\<not> we_charged e"
  using out_coreD(3) [OF assms(1,3)] slot_okD(5) [OF out_coreD(4) [OF assms(1)] assms(2)] assms(3)
  by (auto simp: entry_ok_def)

lemma dropped_all:
  assumes "out_core t"
  shows "dropped (set (waiting_ids t) \<union> set (opt_list (tr_active t))) t = dropped UNIV t"
proof (rule dropped_cong)
  fix k e assume "(k, e) \<in> set (tr_entries t)"
  with out_coreD(1) [OF assms] have g: "jmap_get (tr_entries t) k = Some e" by (simp add: map_of_is_SomeI)
  show "drop_in (set (waiting_ids t) \<union> set (opt_list (tr_active t))) k e = drop_in UNIV k e"
  proof (cases "we_settled e")
    case True
    with out_coreD(3) [OF assms g] have "\<not> we_charged e" by (simp add: entry_ok_def)
    with True show ?thesis by (simp add: drop_in_def drop_entry_fix)
  next
    case False
    with unsettled_somewhere [OF assms g] show ?thesis by (auto simp: drop_in_def opt_list_def)
  qed
qed

lemma stop_writes_map:
  assumes "out_core t"
  shows "stop_writes t = (stopped t, stop_outputs t)"
proof -
  note c = out_coreD(1,2) [OF assms]
  let ?A = "set (opt_list (tr_active t))"
  let ?t0 = "t\<lparr>tr_accepting := False\<rparr>"
  have r1: "(case tr_active t of None \<Rightarrow> (?t0, [])
      | Some i \<Rightarrow> reject_write i ''sidecar_transport_closed_during_write'' SentOutcomeUnknown ?t0) =
      (dropped ?A ?t0, map (\<lambda>i. EntryRejected i ''sidecar_transport_closed_during_write'' SentOutcomeUnknown)
        (filter (\<lambda>i. \<not> entry_settled t i) (opt_list (tr_active t))))"
  proof (cases "tr_active t")
    case None
    with c show ?thesis by (simp add: opt_list_def dropped_empty)
  next
    case (Some i)
    have "jmap_get (tr_entries ?t0) i = Some e \<Longrightarrow> \<not> we_charged e" for e
      using active_uncharged [OF assms Some] by simp
    with reject_uncharged_map(1) [of ?t0 i] c Some show ?thesis by (simp add: opt_list_def)
  qed
  let ?t1 = "(dropped ?A ?t0)\<lparr>tr_control := [], tr_operation := []\<rparr>"
  have "\<not> entry_settled ?t1 i \<longleftrightarrow> \<not> entry_settled t i" if "i \<in> set (waiting_ids t)" for i
    using active_not_waiting [OF out_coreD(4) [OF assms]] that
    by (auto simp: entry_settled_dropped opt_list_def split: option.splits)
  then have f: "filter (\<lambda>i. \<not> entry_settled ?t1 i) (waiting_ids t) = filter (\<lambda>i. \<not> entry_settled t i) (waiting_ids t)"
    by (intro filter_cong) auto
  have r2: "reject_each (waiting_ids t) ?t1 = (dropped (set (waiting_ids t)) ?t1,
      map (\<lambda>i. EntryRejected i ''sidecar_transport_closed'' NotSent)
        (filter (\<lambda>i. \<not> entry_settled t i) (waiting_ids t)))"
    using reject_each_map [of ?t1 "waiting_ids t"] c waiting_ids_distinct [OF assms] f by simp
  have fin: "(dropped (set (waiting_ids t)) ?t1)\<lparr>tr_prepared := None\<rparr> = stopped t"
    using dropped_all [OF assms] by (simp add: stopped_def dropped_upd dropped_dropped)
  have w: "tr_control t @ tr_operation t @ (case tr_preparing t of None \<Rightarrow> [] | Some i \<Rightarrow> [i]) @
      (case tr_prepared t of None \<Rightarrow> [] | Some i \<Rightarrow> [i]) = waiting_ids t"
    by (simp add: waiting_ids_def opt_list_def)
  show ?thesis
    unfolding stop_writes_def Let_def w
    using r1 r2 fin by (simp add: then_do_def stop_outputs_def)
qed

lemma stopped_sel [simp]:
  "tr_entries (stopped t) = jmap_map (drop_in UNIV) (tr_entries t)"
  "tr_limits (stopped t) = tr_limits t" "tr_inbound (stopped t) = tr_inbound t"
  "tr_control (stopped t) = []" "tr_operation (stopped t) = []"
  "tr_buffer (stopped t) = tr_buffer t" "tr_active (stopped t) = tr_active t"
  "tr_preparing (stopped t) = tr_preparing t" "tr_prepared (stopped t) = None"
  "tr_pumping (stopped t) = tr_pumping t" "\<not> tr_accepting (stopped t)" "tr_close (stopped t) = tr_close t"
  "tr_closed_settled (stopped t) = tr_closed_settled t"
  "tr_next_id (stopped t) = tr_next_id t" "tr_pump (stopped t) = tr_pump t"
  "tr_compression (stopped t) = tr_compression t"
  "tr_reader (stopped t) = tr_reader t" "tr_consumer (stopped t) = tr_consumer t"
  "tr_unconsumed (stopped t) = tr_unconsumed t" "tr_clean_eof (stopped t) = tr_clean_eof t"
  "tr_decode_aborted (stopped t) = tr_decode_aborted t"
  by (simp_all add: stopped_def)

lemma stopped_queued [simp]: "tr_queued_bytes (stopped t) = 0"
proof -
  have "charge_sum (jmap_map (drop_in UNIV) m) = 0" for m
    by (induction m) (auto simp: drop_in_def)
  then show ?thesis by (simp add: stopped_def dropped_def Let_def)
qed

subsection \<open>The part of the state the write side depends on\<close>

definition write_view :: "transport \<Rightarrow> _" where
  "write_view t = ((tr_limits t, tr_control t, tr_operation t, tr_queued_bytes t),
     (tr_active t, tr_preparing t, tr_prepared t, tr_pumping t, tr_accepting t),
     (tr_close t, tr_closed_settled t, tr_entries t, tr_next_id t, tr_pump t))"

lemma write_view_simps:
  assumes "write_view u = write_view t"
  shows "tr_limits u = tr_limits t" "tr_control u = tr_control t" "tr_operation u = tr_operation t"
    "tr_queued_bytes u = tr_queued_bytes t" "tr_active u = tr_active t" "tr_preparing u = tr_preparing t"
    "tr_prepared u = tr_prepared t" "tr_pumping u = tr_pumping t" "tr_accepting u = tr_accepting t"
    "tr_close u = tr_close t" "tr_closed_settled u = tr_closed_settled t" "tr_entries u = tr_entries t"
    "tr_next_id u = tr_next_id t" "tr_pump u = tr_pump t"
  using assms by (simp_all add: write_view_def)

lemma out_inv_view:
  assumes "write_view u = write_view t"
  shows "out_core u = out_core t" and "out_inv u = out_inv t"
  by (simp_all only: out_core_def out_inv_def slot_ok_def entry_ok_def pump_ok_def closed_ok_def
      bound_ok_def queued_count_def entry_settled_def write_view_simps [OF assms])

lemma write_view_upd [simp]:
  "write_view (t\<lparr>tr_inbound := q\<rparr>) = write_view t" "write_view (t\<lparr>tr_buffer := b\<rparr>) = write_view t"
  "write_view (t\<lparr>tr_compression := c\<rparr>) = write_view t"
  "write_view (t\<lparr>tr_decode_aborted := d\<rparr>) = write_view t"
  "write_view (t\<lparr>tr_unconsumed := n\<rparr>) = write_view t" "write_view (t\<lparr>tr_clean_eof := e\<rparr>) = write_view t"
  "write_view (t\<lparr>tr_reader := r\<rparr>) = write_view t" "write_view (t\<lparr>tr_consumer := k\<rparr>) = write_view t"
  by (simp_all add: write_view_def)

lemma write_view_inbound [simp]: "write_view (inbound_output out t) = write_view t"
  by (cases out) (simp_all split: reader_position.splits)

lemma write_view_with_inbound [simp]: "write_view (with_inbound r t) = write_view t"
proof -
  have "write_view (fold inbound_output outs u) = write_view u" for outs u
    by (induction outs arbitrary: u) simp_all
  then show ?thesis by (simp add: with_inbound_def)
qed

subsection \<open>Stopping and closing keep the invariant\<close>

lemma out_core_stopped:
  assumes "out_core t"
  shows "out_core (stopped t)"
proof -
  have "entry_ok (stopped t) i (drop_in UNIV i e)" if "jmap_get (tr_entries t) i = Some e" for i e
    using out_coreD(3) [OF assms that] by (auto simp: entry_ok_def drop_in_def)
  moreover have "slot_ok (stopped t)"
    using out_coreD(4) [OF assms] by (auto simp: slot_ok_def drop_in_def)
  moreover have "charge_sum (tr_entries (stopped t)) = 0"
    using stopped_queued [of t] dropped_sel(2) [of UNIV t] by (simp add: stopped_def accounted_def)
  ultimately show ?thesis
    using assms by (auto simp: out_core_def)
qed

lemma frame_capacity_positive:
  assumes "limits_ok l"
  shows "1 \<le> frame_capacity l s" and "0 \<le> byte_capacity l s" and "frame_capacity l s \<le> frame_capacity l True"
    and "byte_capacity l s \<le> byte_capacity l True"
  using assms by (auto simp: limits_ok_def limit_values_def frame_capacity_def byte_capacity_def)

lemma out_inv_stopped:
  assumes "out_inv t"
  shows "out_inv (stopped t)"
proof -
  have inv: "out_core t" "pump_ok t" "transport_limits (tr_limits t)"
    using assms by (simp_all add: out_inv_def)
  have "pump_ok (stopped t)" using inv(2) by (auto simp: pump_ok_def)
  moreover have "closed_ok (stopped t)" by (auto simp: closed_ok_def drop_in_def)
  moreover have "bound_ok (stopped t)"
  proof -
    have "tr_preparing t = Some i \<Longrightarrow> entry_settled (stopped t) i" for i
      using slot_okD(3) [OF out_coreD(4) [OF inv(1)]] by (auto simp: entry_settled_def drop_in_def)
    then have "queued_count (stopped t) \<le> 1" by (auto simp: queued_count_def split: option.splits)
    moreover have "1 \<le> frame_capacity (tr_limits t) True" "0 \<le> byte_capacity (tr_limits t) True"
      using frame_capacity_positive inv(3) by (auto simp: transport_limits_def)
    ultimately show ?thesis by (simp add: bound_ok_def)
  qed
  ultimately show ?thesis using out_core_stopped [OF inv(1)] inv(3) by (simp add: out_inv_def)
qed

lemma close_flag_upd:
  "out_core (t\<lparr>tr_close := c\<rparr>) = out_core t" "pump_ok (t\<lparr>tr_close := c\<rparr>) = pump_ok t"
  "bound_ok (t\<lparr>tr_close := c\<rparr>) = bound_ok t"
  "out_core (t\<lparr>tr_closed_settled := x\<rparr>) = out_core t" "pump_ok (t\<lparr>tr_closed_settled := x\<rparr>) = pump_ok t"
  "bound_ok (t\<lparr>tr_closed_settled := x\<rparr>) = bound_ok t"
  by (simp_all add: out_core_def slot_ok_def entry_ok_def pump_ok_def bound_ok_def queued_count_def
      entry_settled_def cong: option.case_cong)

lemma view_upd:
  "out_core (t\<lparr>tr_decode_aborted := d\<rparr>) = out_core t" "pump_ok (t\<lparr>tr_decode_aborted := d\<rparr>) = pump_ok t"
  "bound_ok (t\<lparr>tr_decode_aborted := d\<rparr>) = bound_ok t"
  by (simp_all add: out_core_def slot_ok_def entry_ok_def pump_ok_def bound_ok_def queued_count_def
      entry_settled_def cong: option.case_cong)

lemma out_inv_close_flags:
  "out_inv (stopped t) \<Longrightarrow> out_inv ((stopped t)\<lparr>tr_decode_aborted := d, tr_close := c\<rparr>)"
  "out_inv (stopped t) \<Longrightarrow> out_inv ((stopped t)\<lparr>tr_closed_settled := x\<rparr>)"
  by (auto simp: out_inv_def close_flag_upd view_upd closed_ok_def drop_in_def)

lemma perform_close_map:
  assumes "out_core t"
  shows "perform_close reason t = ((stopped t)\<lparr>tr_decode_aborted := True, tr_close := Some (PerformClose reason)\<rparr>,
      stop_outputs t @ [StreamClose reason])"
    and "perform_autonomous_close reason t =
      ((stopped t)\<lparr>tr_decode_aborted := True, tr_close := Some (AutonomousClose reason)\<rparr>,
       stop_outputs t @ [StreamClose reason])"
  by (simp_all add: perform_close_def perform_autonomous_close_def stop_writes_map [OF assms] then_do_def)

lemma out_inv_autonomous [sedes_inv]: "out_inv t \<Longrightarrow> out_inv (fst (autonomous_close e t))"
  using perform_close_map(2) [of t e] out_inv_close_flags(1) [OF out_inv_stopped, of t]
  by (simp add: autonomous_close_def out_inv_def)

lemma closed_ok_flag:
  "closed_ok t \<Longrightarrow> tr_closed_settled t \<Longrightarrow> closed_ok (t\<lparr>tr_close := c\<rparr>)"
  by (simp add: closed_ok_def)

lemma out_inv_close [sedes_inv]:
  assumes "out_inv t"
  shows "out_inv (fst (close_transport reason t))"
proof -
  consider "tr_close t \<noteq> None" | "tr_close t = None" "tr_closed_settled t"
    | "tr_close t = None" "\<not> tr_closed_settled t" by blast
  then show ?thesis
  proof cases
    case 1
    with assms show ?thesis by (simp add: close_transport_def)
  next
    case 2
    with assms show ?thesis by (simp add: close_transport_def out_inv_def close_flag_upd closed_ok_flag)
  next
    case 3
    with assms perform_close_map(1) [of t reason] out_inv_close_flags(1) [OF out_inv_stopped, of t]
    show ?thesis by (simp add: close_transport_def out_inv_def)
  qed
qed

lemma settle_closed_map:
  assumes "out_core t" and "\<not> tr_closed_settled t"
  shows "settle_closed c t =
      (with_inbound (close_queue (tc_cause c) (tr_inbound t))
         ((stopped t)\<lparr>tr_closed_settled := True, tr_decode_aborted := True\<rparr>), stop_outputs t @ [ClosedResolved c])"
    and "settle_cleanup_failure e t =
      (with_inbound (close_queue (Some e) (tr_inbound t))
         ((stopped t)\<lparr>tr_closed_settled := True, tr_decode_aborted := True\<rparr>), stop_outputs t @ [ClosedRejected e])"
proof -
  let ?t = "t\<lparr>tr_closed_settled := True\<rparr>"
  have c: "out_core ?t" using assms(1) by (simp add: close_flag_upd)
  have st: "stopped ?t = (stopped t)\<lparr>tr_closed_settled := True\<rparr>" by (simp add: stopped_def dropped_upd)
  have so: "stop_outputs ?t = stop_outputs t"
    by (simp add: stop_outputs_def waiting_ids_def entry_settled_def)
  show
    "settle_closed c t = (with_inbound (close_queue (tc_cause c) (tr_inbound t))
       ((stopped t)\<lparr>tr_closed_settled := True, tr_decode_aborted := True\<rparr>), stop_outputs t @ [ClosedResolved c])"
    "settle_cleanup_failure e t = (with_inbound (close_queue (Some e) (tr_inbound t))
       ((stopped t)\<lparr>tr_closed_settled := True, tr_decode_aborted := True\<rparr>), stop_outputs t @ [ClosedRejected e])"
    using assms(2) by (simp_all add: settle_closed_def settle_cleanup_failure_def stop_writes_map [OF c] then_do_def st so)
qed

lemma out_inv_settle [sedes_inv]:
  assumes "out_inv t"
  shows "out_inv (fst (settle_closed c t))" and "out_inv (fst (settle_cleanup_failure e t))"
proof -
  have core: "out_core t" using assms by (simp add: out_inv_def)
  have "out_inv ((stopped t)\<lparr>tr_closed_settled := True\<rparr>)"
    by (rule out_inv_close_flags(2) [OF out_inv_stopped [OF assms]])
  then have "out_inv ((stopped t)\<lparr>tr_closed_settled := True, tr_decode_aborted := True\<rparr>)"
    using out_inv_view(2) [OF write_view_upd(4)] by simp
  with settle_closed_map [OF core] assms out_inv_view(2) [OF write_view_with_inbound]
  show "out_inv (fst (settle_closed c t))" and "out_inv (fst (settle_cleanup_failure e t))"
    by (cases "tr_closed_settled t"; simp add: settle_closed_def settle_cleanup_failure_def)+
qed

lemma out_inv_stream_close [sedes_inv]: "out_inv t \<Longrightarrow> out_inv (fst (stream_close_done f t))"
  by (auto simp: stream_close_done_def intro: out_inv_settle split: option.splits close_promise.splits)

lemma out_inv_eof [sedes_inv]: "out_inv t \<Longrightarrow> out_inv (fst (finish_clean_eof t))"
  by (auto simp: finish_clean_eof_def intro: out_inv_settle split: option.splits)

subsection \<open>The pump keeps the invariant\<close>

text \<open>A state whose lanes and prepared slot no longer hold the picked entry.\<close>

definition unslotted :: "nat \<Rightarrow> transport \<Rightarrow> transport \<Rightarrow> bool" where
  "unslotted i t u \<longleftrightarrow>
     (\<exists>c p q. u = t\<lparr>tr_control := c, tr_operation := p, tr_prepared := q\<rparr> \<and>
        set c = set (tr_control t) - {i} \<and> distinct c \<and>
        set p = set (tr_operation t) - {i} \<and> distinct p \<and>
        q = (if tr_prepared t = Some i then None else tr_prepared t) \<and>
        Suc (length c + length p + length (opt_list q)) =
          length (tr_control t) + length (tr_operation t) + length (opt_list (tr_prepared t)))"

lemma unslotted_sel:
  assumes "unslotted i t u"
  shows "tr_limits u = tr_limits t" and "tr_preparing u = tr_preparing t" and "tr_pumping u = tr_pumping t"
    and "tr_close u = tr_close t" and "tr_closed_settled u = tr_closed_settled t"
    and "tr_queued_bytes u = tr_queued_bytes t" and "tr_active u = tr_active t"
    and "tr_entries u = tr_entries t" and "tr_accepting u = tr_accepting t"
    and "tr_prepared t = None \<Longrightarrow> tr_prepared u = None"
    and "Suc (length (tr_control u) + length (tr_operation u) + length (opt_list (tr_prepared u))) =
      length (tr_control t) + length (tr_operation t) + length (opt_list (tr_prepared t))"
proof -
  obtain c p q where "u = t\<lparr>tr_control := c, tr_operation := p, tr_prepared := q\<rparr>"
    "q = (if tr_prepared t = Some i then None else tr_prepared t)"
    "Suc (length c + length p + length (opt_list q)) =
      length (tr_control t) + length (tr_operation t) + length (opt_list (tr_prepared t))"
    using assms unfolding unslotted_def by blast
  then show "tr_limits u = tr_limits t" "tr_preparing u = tr_preparing t" "tr_pumping u = tr_pumping t"
    "tr_close u = tr_close t" "tr_closed_settled u = tr_closed_settled t"
    "tr_queued_bytes u = tr_queued_bytes t" "tr_active u = tr_active t"
    "tr_entries u = tr_entries t" "tr_accepting u = tr_accepting t"
    "tr_prepared t = None \<Longrightarrow> tr_prepared u = None"
    "Suc (length (tr_control u) + length (tr_operation u) + length (opt_list (tr_prepared u))) =
      length (tr_control t) + length (tr_operation t) + length (opt_list (tr_prepared t))"
    by simp_all
qed

lemma pick_entry_Some:
  assumes core: "out_core t" and pick: "pick_entry t = Some (i, u)"
  obtains e where "jmap_get (tr_entries t) i = Some e" "\<not> we_settled e" "we_state e \<in> {Queued, Prepared}"
    "unslotted i t u" "we_state e = Queued \<and> we_lane e = OperationLane \<longrightarrow> tr_prepared t = None"
proof -
  note s = slot_okD [OF out_coreD(4) [OF core]]
  note d = out_coreD(5,6) [OF core]
  consider (control) cs where "tr_control t = i # cs" "u = t\<lparr>tr_control := cs\<rparr>"
    | (prepared) "tr_control t = []" "tr_prepared t = Some i" "u = t\<lparr>tr_prepared := None\<rparr>"
    | (operation) cs where "tr_control t = []" "tr_prepared t = None" "tr_operation t = i # cs"
        "u = t\<lparr>tr_operation := cs\<rparr>"
    using pick by (auto simp: pick_entry_def split: list.splits option.splits)
  then show thesis
  proof cases
    case control
    obtain e where e: "jmap_get (tr_entries t) i = Some e" "\<not> we_settled e" "we_state e = Queued"
      "we_lane e = ControlLane" using s(1) [of i] control by auto
    have "i \<notin> set (tr_operation t)" "tr_prepared t \<noteq> Some i" using s(2,4) [of i] e by auto
    with control d have "unslotted i t u"
      unfolding unslotted_def
      by (intro exI [of _ cs] exI [of _ "tr_operation t"] exI [of _ "tr_prepared t"]) auto
    with e that show thesis by auto
  next
    case prepared
    obtain e where e: "jmap_get (tr_entries t) i = Some e" "\<not> we_settled e" "we_state e = Prepared"
      using s(4) [of i] prepared by auto
    have "i \<notin> set (tr_operation t)" using s(2) [of i] e by auto
    with prepared d have "unslotted i t u"
      unfolding unslotted_def
      by (intro exI [of _ "[]"] exI [of _ "tr_operation t"] exI [of _ None]) (auto simp: opt_list_def)
    with e that show thesis by auto
  next
    case operation
    obtain e where e: "jmap_get (tr_entries t) i = Some e" "\<not> we_settled e" "we_state e = Queued"
      "we_lane e = OperationLane" using s(2) [of i] operation by auto
    from operation d have "unslotted i t u"
      unfolding unslotted_def
      by (intro exI [of _ "[]"] exI [of _ cs] exI [of _ None]) (auto simp: opt_list_def)
    with e operation that show thesis by auto
  qed
qed

definition begin_write :: "bytes \<Rightarrow> write_entry \<Rightarrow> write_entry" where
  "begin_write framed e =
     e\<lparr>we_framed := Some framed, we_payload := None, we_state := Writing, we_charged := False\<rparr>"

lemma begin_write_sel [simp]:
  "\<not> we_charged (begin_write framed e)" "we_state (begin_write framed e) = Writing"
  "we_settled (begin_write framed e) = we_settled e" "we_lane (begin_write framed e) = we_lane e"
  "we_payload_bytes (begin_write framed e) = we_payload_bytes e"
  by (simp_all add: begin_write_def)

lemma start_write_map:
  assumes "jmap_wf (tr_entries t)"
  shows "start_write i framed t = (t\<lparr>tr_entries := jmap_map (at_entry i (begin_write framed)) (tr_entries t),
     tr_queued_bytes := tr_queued_bytes t - charge_of (tr_entries t) i,
     tr_active := Some i, tr_pump := PumpWriting i\<rparr>, [StreamWrite i framed])"
proof -
  let ?f = "\<lambda>e. e\<lparr>we_framed := Some framed, we_payload := None, we_state := Writing\<rparr>"
  let ?u = "map_entries (at_entry i ?f) t"
  have "jmap_wf (tr_entries ?u)" using assms by simp
  moreover have "charge_of (tr_entries ?u) i = charge_of (tr_entries t) i"
    by (simp add: charge_of_def at_entry_def split: option.splits)
  moreover have "at_entry i uncharge k (at_entry i ?f k e) = at_entry i (begin_write framed) k e" for k e
    by (simp add: at_entry_def uncharge_def begin_write_def)
  ultimately show ?thesis
    using assms by (simp add: start_write_def upd_entry_map release_charge_map map_entries_def Let_def)
qed

lemma out_core_start_write:
  assumes core: "out_core t" and e: "jmap_get (tr_entries t) i = Some e" "\<not> we_settled e"
    "we_state e \<noteq> Writing" and u: "unslotted i t u" and idle: "tr_active t = None"
    and prep: "tr_preparing t \<noteq> Some i"
  shows "out_core (fst (start_write i framed u))"
proof -
  let ?v = "fst (start_write i framed u)"
  obtain c p q where u': "u = t\<lparr>tr_control := c, tr_operation := p, tr_prepared := q\<rparr>"
    "set c = set (tr_control t) - {i}" "distinct c" "set p = set (tr_operation t) - {i}" "distinct p"
    "q = (if tr_prepared t = Some i then None else tr_prepared t)"
    using u unfolding unslotted_def by blast
  note wf = out_coreD(1) [OF core]
  have v: "?v = t\<lparr>tr_entries := jmap_map (at_entry i (begin_write framed)) (tr_entries t),
     tr_control := c, tr_operation := p, tr_prepared := q,
     tr_queued_bytes := tr_queued_bytes t - charge_of (tr_entries t) i,
     tr_active := Some i, tr_pump := PumpWriting i\<rparr>"
    using start_write_map [of u i framed] wf by (simp add: u'(1))
  have ok: "entry_ok ?v k (at_entry i (begin_write framed) k x)" if "jmap_get (tr_entries t) k = Some x" for k x
  proof (cases "k = i")
    case True
    with that e out_coreD(3) [OF core that] show ?thesis by (simp add: entry_ok_def at_entry_def v)
  next
    case False
    with out_coreD(3) [OF core that] idle u'(2,4,6) show ?thesis
      by (simp add: entry_ok_def at_entry_def v)
  qed
  have slot: "slot_ok ?v"
    unfolding slot_ok_def v using slot_okD [OF out_coreD(4) [OF core]] u'(2,4,6) e prep
    by (auto simp: at_entry_def split: if_splits)
  have "charge_sum (tr_entries ?v) = tr_queued_bytes ?v"
    using out_coreD(2) [OF core] charge_sum_release [OF wf, of "begin_write framed" i]
    by (simp add: v accounted_def)
  with ok slot u'(3,5) core show ?thesis
    unfolding out_core_def v by auto
qed

definition begin_prepare :: "write_entry \<Rightarrow> write_entry" where
  "begin_prepare e = e\<lparr>we_state := Preparing\<rparr>"

lemma begin_prepare_sel [simp]:
  "we_charged (begin_prepare e) = we_charged e" "we_state (begin_prepare e) = Preparing"
  "we_settled (begin_prepare e) = we_settled e" "we_lane (begin_prepare e) = we_lane e"
  "we_payload_bytes (begin_prepare e) = we_payload_bytes e" "we_framed (begin_prepare e) = we_framed e"
  "has_payload (begin_prepare e) = has_payload e"
  by (simp_all add: begin_prepare_def has_payload_def)

definition preparing_state :: "nat \<Rightarrow> transport \<Rightarrow> transport" where
  "preparing_state i t = (map_entries (at_entry i begin_prepare) t)
     \<lparr>tr_preparing := Some i, tr_pump := PumpCompressing i\<rparr>"

lemma out_core_prepare:
  assumes core: "out_core t" and e: "jmap_get (tr_entries t) i = Some e" "\<not> we_settled e"
    "we_state e = Queued" "we_lane e = OperationLane" and u: "unslotted i t u"
    and idle: "tr_preparing t = None" "tr_prepared t = None" "tr_active t = None"
  shows "out_core (preparing_state i u)"
proof -
  let ?v = "preparing_state i u"
  obtain c p q where u': "u = t\<lparr>tr_control := c, tr_operation := p, tr_prepared := q\<rparr>"
    "set c = set (tr_control t) - {i}" "distinct c" "set p = set (tr_operation t) - {i}" "distinct p"
    "q = (if tr_prepared t = Some i then None else tr_prepared t)"
    using u unfolding unslotted_def by blast
  have v: "?v = t\<lparr>tr_entries := jmap_map (at_entry i begin_prepare) (tr_entries t),
     tr_control := c, tr_operation := p, tr_prepared := None,
     tr_preparing := Some i, tr_pump := PumpCompressing i\<rparr>"
    using u'(6) idle(2) by (simp add: u'(1) preparing_state_def map_entries_def)
  have ok: "entry_ok ?v k (at_entry i begin_prepare k x)" if "jmap_get (tr_entries t) k = Some x" for k x
  proof (cases "k = i")
    case True
    with that e out_coreD(3) [OF core that] show ?thesis by (simp add: entry_ok_def at_entry_def v)
  next
    case False
    with out_coreD(3) [OF core that] idle u'(2,4) show ?thesis
      by (simp add: entry_ok_def at_entry_def v)
  qed
  have slot: "slot_ok ?v"
    unfolding slot_ok_def v using slot_okD [OF out_coreD(4) [OF core]] u'(2,4) e idle(3)
    by (auto simp: at_entry_def split: if_splits)
  have "charge_sum (jmap_map (at_entry i begin_prepare) (tr_entries t)) = charge_sum (tr_entries t)"
    by (rule charge_sum_same) (simp_all add: at_entry_def)
  with out_coreD(2) [OF core] have "charge_sum (tr_entries ?v) = tr_queued_bytes ?v"
    by (simp add: v accounted_def)
  with ok slot u'(3,5) core show ?thesis
    unfolding out_core_def v by auto
qed

lemma frame_bytes_fits:
  "length p < 2 ^ 32 \<Longrightarrow> n < 2 ^ 32 \<Longrightarrow> \<exists>framed. frame_bytes p b n = Inr framed"
  by (simp add: frame_bytes_def)

lemma pump_cases:
  assumes core: "out_core t" and lim: "transport_limits (tr_limits t)"
  obtains (idle) "pump t = (stop_pump t, [])"
      "tr_accepting t \<Longrightarrow> tr_control t = [] \<and> tr_operation t = [] \<and> tr_prepared t = None"
  | (writes) i e u framed where "pump t = start_write i framed u" "pick_entry t = Some (i, u)"
      "jmap_get (tr_entries t) i = Some e" "\<not> we_settled e" "we_state e \<noteq> Writing" "unslotted i t u"
      "tr_accepting t" "we_state e \<noteq> Preparing"
  | (compress) i e u payload where "pump t = (preparing_state i u, [CompressStart i payload])"
      "pick_entry t = Some (i, u)" "jmap_get (tr_entries t) i = Some e" "\<not> we_settled e"
      "we_state e = Queued" "we_lane e = OperationLane" "unslotted i t u" "tr_prepared t = None"
      "tr_accepting t"
proof (cases "tr_accepting t \<and> pick_entry t \<noteq> None")
  case False
  then have "pump t = (stop_pump t, [])" by (subst pump.simps) (auto split: option.splits)
  moreover have "tr_accepting t \<Longrightarrow> tr_control t = [] \<and> tr_operation t = [] \<and> tr_prepared t = None"
    using False by (auto simp: pick_entry_def split: list.splits option.splits)
  ultimately show ?thesis using idle by blast
next
  case True
  then obtain i u where pick: "pick_entry t = Some (i, u)" by auto
  obtain e where e: "jmap_get (tr_entries t) i = Some e" "\<not> we_settled e" "we_state e \<in> {Queued, Prepared}"
    "unslotted i t u" "we_state e = Queued \<and> we_lane e = OperationLane \<longrightarrow> tr_prepared t = None"
    by (rule pick_entry_Some [OF core pick]) blast
  note ok = out_coreD(3) [OF core e(1)]
  have u: "tr_entries u = tr_entries t" "tr_limits u = tr_limits t" "tr_accepting u = tr_accepting t"
    using unslotted_sel [OF e(4)] by simp_all
  show ?thesis
  proof (cases "we_framed e")
    case (Some framed)
    with True pick e u have "pump t = start_write i framed u"
      by (subst pump.simps) simp
    with writes [OF this pick e(1,2) _ e(4)] e(3) True show ?thesis by auto
  next
    case None
    with ok e(2,3) have q: "we_state e = Queued" "has_payload e" by (auto simp: entry_ok_def)
    then obtain p where p: "we_payload e = Some p" "length p = we_payload_bytes e"
      by (auto simp: has_payload_def)
    show ?thesis
    proof (cases "compressible u e")
      case c: True
      then have "we_lane e = OperationLane" by (cases "we_lane e") (auto simp: compressible_def)
      moreover have "pump t = (preparing_state i u, [CompressStart i p])"
        using True pick e u None p c out_coreD(1) [OF core]
        by (subst pump.simps)
          (simp add: preparing_state_def upd_entry_map begin_prepare_def [abs_def])
      ultimately show ?thesis using compress [OF _ pick e(1,2) q(1) _ e(4)] e(5) q(1) True by auto
    next
      case c: False
      have "we_payload_bytes e < 2 ^ 32"
        using ok lim by (auto simp: entry_ok_def transport_limits_def)
      then obtain framed where "frame_bytes p 0 (we_payload_bytes e) = Inr framed"
        using frame_bytes_fits [of p "we_payload_bytes e" 0] p(2) by auto
      with True pick e u None p c have "pump t = start_write i framed u"
        by (subst pump.simps) simp
      with writes [OF this pick e(1,2) _ e(4)] q(1) True show ?thesis by auto
    qed
  qed
qed

lemma queued_count_alt:
  "queued_count t = length (tr_control t) + length (tr_operation t) +
     length (filter (\<lambda>i. \<not> entry_settled t i) (opt_list (tr_preparing t))) +
     length (opt_list (tr_prepared t)) + length (opt_list (tr_active t))"
  by (simp add: queued_count_def opt_list_def split: option.splits)

lemma queued_count_pump:
  assumes "unslotted i t u" and "tr_active t = None" and "tr_preparing t = None"
    and "jmap_wf (tr_entries t)"
  shows "queued_count (fst (start_write i framed u)) = queued_count t"
    and "queued_count (preparing_state i u) \<le> queued_count t"
proof -
  note s = unslotted_sel [OF assms(1)]
  have wf: "jmap_wf (tr_entries u)" using s(8) assms(4) by simp
  have "opt_list (None :: nat option) = []" "\<And>x :: nat. opt_list (Some x) = [x]" by (simp_all add: opt_list_def)
  with s assms(2,3) start_write_map [OF wf, of i framed]
  show "queued_count (fst (start_write i framed u)) = queued_count t"
    and "queued_count (preparing_state i u) \<le> queued_count t"
    by (simp_all add: queued_count_alt preparing_state_def)
qed

lemma charge_of_nonneg: "0 \<le> charge_of m i"
  by (simp add: charge_of_def split: option.splits)

text \<open>The pump restores the invariant from any state in which no entry is being prepared or written.\<close>

definition pump_ready :: "transport \<Rightarrow> bool" where
  "pump_ready t \<longleftrightarrow> out_core t \<and> closed_ok t \<and> bound_ok t \<and> transport_limits (tr_limits t) \<and>
     tr_pumping t \<and> tr_active t = None \<and> tr_preparing t = None"

lemma stop_pump_ready:
  assumes "pump_ready t"
    and "tr_accepting t \<Longrightarrow> tr_control t = [] \<and> tr_operation t = [] \<and> tr_prepared t = None"
  shows "out_inv (stop_pump t)"
proof -
  have "out_core (stop_pump t) = out_core t" "bound_ok (stop_pump t) = bound_ok t"
    "closed_ok (stop_pump t) = closed_ok t"
    by (simp_all add: out_core_def slot_ok_def entry_ok_def bound_ok_def closed_ok_def queued_count_alt
        entry_settled_def stop_pump_def)
  moreover have "pump_ok (stop_pump t)" using assms by (simp add: pump_ok_def stop_pump_def pump_ready_def)
  moreover have "tr_limits (stop_pump t) = tr_limits t" by (simp add: stop_pump_def)
  ultimately show ?thesis using assms(1) by (simp add: pump_ready_def out_inv_def)
qed

lemma out_inv_pump:
  assumes "pump_ready t"
  shows "out_inv (fst (pump t))"
proof -
  have r: "out_core t" "closed_ok t" "bound_ok t" "transport_limits (tr_limits t)" "tr_pumping t"
    "tr_active t = None" "tr_preparing t = None"
    using assms by (simp_all add: pump_ready_def)
  note wf = out_coreD(1) [OF r(1)]
  from r(1,4) show ?thesis
  proof (cases rule: pump_cases)
    case idle
    with stop_pump_ready [OF assms] show ?thesis by simp
  next
    case (writes i e u framed)
    note s = unslotted_sel [OF writes(6)]
    let ?v = "fst (start_write i framed u)"
    have v: "?v = u\<lparr>tr_entries := jmap_map (at_entry i (begin_write framed)) (tr_entries u),
       tr_queued_bytes := tr_queued_bytes u - charge_of (tr_entries u) i,
       tr_active := Some i, tr_pump := PumpWriting i\<rparr>"
      using start_write_map [of u i framed] wf s(8) by simp
    have "out_core ?v" using out_core_start_write [OF r(1) writes(3-6) r(6)] r(7) by simp
    moreover have "pump_ok ?v" using r s by (simp add: v pump_ok_def)
    moreover have "closed_ok ?v" using r(2) writes(7) s by (auto simp: v closed_ok_def)
    moreover have "bound_ok ?v"
      using r(3) s queued_count_pump(1) [OF writes(6) r(6,7) wf, of framed] charge_of_nonneg [of "tr_entries u" i]
      by (simp add: bound_ok_def v)
    ultimately show ?thesis using r(4) s writes(1) by (simp add: out_inv_def v)
  next
    case (compress i e u payload)
    note s = unslotted_sel [OF compress(7)]
    let ?v = "preparing_state i u"
    have "out_core ?v"
      using out_core_prepare [OF r(1) compress(3-7) r(7) compress(8) r(6)] .
    moreover have "pump_ok ?v" using r s compress(8) by (simp add: preparing_state_def pump_ok_def)
    moreover have "closed_ok ?v" using r(2) compress(9) s by (auto simp: preparing_state_def closed_ok_def)
    moreover have "bound_ok ?v"
      using r(3) s queued_count_pump(2) [OF compress(7) r(6,7) wf] by (simp add: bound_ok_def preparing_state_def)
    ultimately show ?thesis using r(4) s compress(1) by (simp add: out_inv_def preparing_state_def)
  qed
qed

subsection \<open>Dropping one entry keeps the invariant\<close>

definition without_entry :: "nat \<Rightarrow> transport \<Rightarrow> transport" where
  "without_entry i t = t\<lparr>tr_control := filter (\<lambda>j. j \<noteq> i) (tr_control t),
     tr_operation := filter (\<lambda>j. j \<noteq> i) (tr_operation t),
     tr_prepared := (if tr_prepared t = Some i then None else tr_prepared t)\<rparr>"

lemma without_entry_sel [simp]:
  "tr_control (without_entry i t) = filter (\<lambda>j. j \<noteq> i) (tr_control t)"
  "tr_operation (without_entry i t) = filter (\<lambda>j. j \<noteq> i) (tr_operation t)"
  "tr_prepared (without_entry i t) = (if tr_prepared t = Some i then None else tr_prepared t)"
  "tr_entries (without_entry i t) = tr_entries t" "tr_limits (without_entry i t) = tr_limits t"
  "tr_active (without_entry i t) = tr_active t" "tr_preparing (without_entry i t) = tr_preparing t"
  "tr_pumping (without_entry i t) = tr_pumping t" "tr_accepting (without_entry i t) = tr_accepting t"
  "tr_close (without_entry i t) = tr_close t" "tr_closed_settled (without_entry i t) = tr_closed_settled t"
  "tr_next_id (without_entry i t) = tr_next_id t" "tr_pump (without_entry i t) = tr_pump t"
  "tr_queued_bytes (without_entry i t) = tr_queued_bytes t"
  by (simp_all add: without_entry_def)

lemma without_entry_same:
  "(without_entry i t)\<lparr>tr_preparing := tr_preparing t, tr_active := tr_active t\<rparr> = without_entry i t"
  by (simp add: without_entry_def)

lemma out_core_drop:
  assumes core: "out_core t"
    and p: "p = tr_preparing t \<or> tr_preparing t = Some i \<and> p = None"
    and a: "a = tr_active t \<or> tr_active t = Some i \<and> a = None"
  shows "out_core (dropped {i} ((without_entry i t)\<lparr>tr_preparing := p, tr_active := a\<rparr>))"
proof -
  let ?v = "dropped {i} ((without_entry i t)\<lparr>tr_preparing := p, tr_active := a\<rparr>)"
  have sel: "tr_entries ?v = jmap_map (drop_in {i}) (tr_entries t)" "tr_limits ?v = tr_limits t"
    "tr_control ?v = filter (\<lambda>j. j \<noteq> i) (tr_control t)"
    "tr_operation ?v = filter (\<lambda>j. j \<noteq> i) (tr_operation t)"
    "tr_prepared ?v = (if tr_prepared t = Some i then None else tr_prepared t)"
    "tr_preparing ?v = p" "tr_active ?v = a" "tr_next_id ?v = tr_next_id t"
    by (simp_all add: without_entry_def)
  have ok: "entry_ok ?v k (drop_in {i} k x)" if "jmap_get (tr_entries t) k = Some x" for k x
  proof (cases "k = i")
    case True
    with out_coreD(3) [OF core that] show ?thesis by (simp add: entry_ok_def drop_in_def sel)
  next
    case False
    with out_coreD(3) [OF core that] p a show ?thesis
      unfolding entry_ok_def sel by (auto simp: drop_in_def)
  qed
  have slot: "slot_ok ?v"
  proof -
    note s = slot_okD [OF out_coreD(4) [OF core]]
    have pa: "p = Some j \<Longrightarrow> tr_preparing t = Some j" "a = Some j \<Longrightarrow> tr_active t = Some j" for j
      using p a by auto
    show ?thesis unfolding slot_ok_def sel
    proof (intro conjI ballI allI impI)
      fix j assume "j \<in> set (filter (\<lambda>j. j \<noteq> i) (tr_control t))"
      with s(1) [of j] show "\<exists>e. jmap_get (jmap_map (drop_in {i}) (tr_entries t)) j = Some e \<and>
          \<not> we_settled e \<and> we_state e = Queued \<and> we_lane e = ControlLane" by auto
    next
      fix j assume "j \<in> set (filter (\<lambda>j. j \<noteq> i) (tr_operation t))"
      with s(2) [of j] show "\<exists>e. jmap_get (jmap_map (drop_in {i}) (tr_entries t)) j = Some e \<and>
          \<not> we_settled e \<and> we_state e = Queued \<and> we_lane e = OperationLane" by auto
    next
      fix j assume "p = Some j"
      with pa(1) s(3) [of j] show "\<exists>e. jmap_get (jmap_map (drop_in {i}) (tr_entries t)) j = Some e \<and>
          we_state e = Preparing" by auto
    next
      fix j assume "(if tr_prepared t = Some i then None else tr_prepared t) = Some j"
      with s(4) [of j] show "\<exists>e. jmap_get (jmap_map (drop_in {i}) (tr_entries t)) j = Some e \<and>
          \<not> we_settled e \<and> we_state e = Prepared" by (auto split: if_splits)
    next
      fix j assume "a = Some j"
      with pa(2) s(5) [of j] show "\<exists>e. jmap_get (jmap_map (drop_in {i}) (tr_entries t)) j = Some e \<and>
          we_state e = Writing" by auto
    qed
  qed
  have "tr_queued_bytes ?v = charge_sum (tr_entries ?v)"
    using dropped_sel(2) [of "{i}"] by (simp add: accounted_def)
  with ok slot core show ?thesis
    unfolding out_core_def sel by auto
qed

lemma without_entry_idle:
  assumes "out_core t" and "jmap_get (tr_entries t) i = Some e"
    and "we_state e = Writing \<or> we_state e = Preparing"
  shows "without_entry i t = t"
proof -
  note s = slot_okD [OF out_coreD(4) [OF assms(1)]]
  have "i \<notin> set (tr_control t)" "i \<notin> set (tr_operation t)" "tr_prepared t \<noteq> Some i"
    using s(1,2,4) [of i] assms(2,3) by auto
  then have "filter (\<lambda>j. j \<noteq> i) (tr_control t) = tr_control t"
    "filter (\<lambda>j. j \<noteq> i) (tr_operation t) = tr_operation t"
    by (auto simp: filter_id_conv)
  with \<open>tr_prepared t \<noteq> Some i\<close> show ?thesis by (simp add: without_entry_def)
qed

lemma charge_sum_drop_le: "charge_sum (jmap_map (drop_in A) m) \<le> charge_sum m"
  by (induction m) (auto simp: drop_in_def)

lemma queued_count_drop:
  assumes "p = tr_preparing t \<or> p = None" and "a = tr_active t \<or> a = None"
  shows "queued_count (dropped {i} ((without_entry i t)\<lparr>tr_preparing := p, tr_active := a\<rparr>)) \<le> queued_count t"
proof -
  define v where "v = dropped {i} ((without_entry i t)\<lparr>tr_preparing := p, tr_active := a\<rparr>)"
  have sel: "tr_control v = filter (\<lambda>j. j \<noteq> i) (tr_control t)"
    "tr_operation v = filter (\<lambda>j. j \<noteq> i) (tr_operation t)"
    "tr_prepared v = (if tr_prepared t = Some i then None else tr_prepared t)"
    "tr_preparing v = p" "tr_active v = a"
    by (simp_all add: v_def)
  have "entry_settled t j \<Longrightarrow> entry_settled v j" for j
    unfolding v_def entry_settled_dropped by (simp add: entry_settled_def)
  then have "length (filter (\<lambda>j. \<not> entry_settled v j) (opt_list p)) \<le>
      length (filter (\<lambda>j. \<not> entry_settled t j) (opt_list (tr_preparing t)))"
    using assms(1) by (cases "tr_preparing t") (auto simp: opt_list_def)
  moreover have "length (opt_list a) \<le> length (opt_list (tr_active t))"
    using assms(2) by (auto simp: opt_list_def)
  moreover have "length (opt_list (if tr_prepared t = Some i then None else tr_prepared t)) \<le>
      length (opt_list (tr_prepared t))"
    by (auto simp: opt_list_def)
  moreover have "length (filter (\<lambda>j. j \<noteq> i) (tr_control t)) \<le> length (tr_control t)"
    "length (filter (\<lambda>j. j \<noteq> i) (tr_operation t)) \<le> length (tr_operation t)"
    by (rule length_filter_le)+
  ultimately have "queued_count v \<le> queued_count t" unfolding queued_count_alt sel by linarith
  then show ?thesis by (simp add: v_def)
qed

lemma bound_ok_drop:
  assumes "out_core t" and "bound_ok t"
    and "p = tr_preparing t \<or> p = None" and "a = tr_active t \<or> a = None"
  shows "bound_ok (dropped {i} ((without_entry i t)\<lparr>tr_preparing := p, tr_active := a\<rparr>))"
proof -
  let ?v = "dropped {i} ((without_entry i t)\<lparr>tr_preparing := p, tr_active := a\<rparr>)"
  have "tr_queued_bytes ?v = charge_sum (jmap_map (drop_in {i}) (tr_entries t))"
    using dropped_sel(2) [of "{i}"] by (simp add: accounted_def without_entry_def)
  with charge_sum_drop_le [of "{i}" "tr_entries t"] out_coreD(2) [OF assms(1)]
  have "tr_queued_bytes ?v \<le> tr_queued_bytes t" by (simp add: accounted_def)
  moreover have "tr_limits ?v = tr_limits t" by (simp add: without_entry_def)
  ultimately show ?thesis
    using assms(2) queued_count_drop [OF assms(3,4), of i] by (simp add: bound_ok_def)
qed

lemma closed_ok_drop:
  assumes "closed_ok t"
  shows "closed_ok (dropped {i} ((without_entry i t)\<lparr>tr_preparing := p, tr_active := a\<rparr>))"
  using assms by (auto simp: closed_ok_def without_entry_def drop_in_def)

text \<open>An entry is dropped from its lane, or while it is being prepared or written.\<close>

lemma out_inv_drop:
  assumes "out_inv t"
  shows "out_inv (dropped {i} (without_entry i t))"
proof -
  have inv: "out_core t" "bound_ok t" "closed_ok t" "transport_limits (tr_limits t)"
    using assms by (simp_all add: out_inv_def)
  have "pump_ok (dropped {i} (without_entry i t))"
    using assms by (auto simp: out_inv_def pump_ok_def)
  moreover have "out_core (dropped {i} (without_entry i t))"
    using out_core_drop [OF inv(1), of "tr_preparing t" i "tr_active t"] by (simp add: without_entry_same)
  moreover have "bound_ok (dropped {i} (without_entry i t))"
    using bound_ok_drop [OF inv(1,2), of "tr_preparing t" "tr_active t" i] by (simp add: without_entry_same)
  moreover have "closed_ok (dropped {i} (without_entry i t))"
    using closed_ok_drop [OF inv(3), where i = i and p = "tr_preparing t" and a = "tr_active t"]
    by (simp add: without_entry_same)
  ultimately show ?thesis using inv(4) by (simp add: out_inv_def)
qed

lemma active_entry:
  assumes "out_inv t" and "tr_pump t = PumpWriting i"
  obtains e where "jmap_get (tr_entries t) i = Some e" "we_state e = Writing" "tr_active t = Some i"
    "tr_preparing t = None" "tr_pumping t" "without_entry i t = t" "\<not> we_charged e"
proof -
  have a: "tr_active t = Some i" "tr_preparing t = None" "tr_pumping t" and core: "out_core t"
    using assms by (auto simp: out_inv_def pump_ok_def)
  obtain e where e: "jmap_get (tr_entries t) i = Some e" "we_state e = Writing"
    using slot_okD(5) [OF out_coreD(4) [OF core] a(1)] by blast
  with a core active_uncharged [OF core a(1)] without_entry_idle [OF core e(1)] that show thesis by blast
qed

lemma dropped_active_upd: "(dropped A t)\<lparr>tr_active := a\<rparr> = dropped A (t\<lparr>tr_active := a\<rparr>)"
  "(dropped A t)\<lparr>tr_preparing := p\<rparr> = dropped A (t\<lparr>tr_preparing := p\<rparr>)"
  by (simp_all add: dropped_def Let_def)

text \<open>The completed entry leaves the active or the preparing slot.\<close>

lemma pump_ready_drop:
  assumes inv: "out_inv t" and w: "without_entry i t = t" and "tr_pumping t"
    and "tr_active t = Some i \<and> tr_preparing t = None \<or> tr_preparing t = Some i \<and> tr_active t = None"
  shows "pump_ready (dropped {i} (t\<lparr>tr_preparing := None, tr_active := None\<rparr>))"
proof -
  have "out_core t" "bound_ok t" "closed_ok t" "transport_limits (tr_limits t)"
    using inv by (simp_all add: out_inv_def)
  then show ?thesis
    using out_core_drop [of t None i None] bound_ok_drop [of t None None i]
      closed_ok_drop [of t i None None] assms(3,4)
    by (auto simp: pump_ready_def w)
qed

lemma close_keeps_pump:
  assumes "out_inv t"
  shows "tr_pump (fst (close_transport r t)) = tr_pump t"
    and "tr_close (fst (close_transport r t)) \<noteq> None"
  using perform_close_map(1) [of t r] assms by (auto simp: close_transport_def out_inv_def)

lemma stop_pump_closed:
  assumes inv: "out_inv t" and "tr_pump t = PumpWriting i" and closed: "tr_close t \<noteq> None"
  shows "out_inv (stop_pump (t\<lparr>tr_active := None\<rparr>))"
proof -
  obtain e where a: "jmap_get (tr_entries t) i = Some e" "we_state e = Writing" "tr_active t = Some i"
    "tr_preparing t = None" "tr_pumping t" "without_entry i t = t" "\<not> we_charged e"
    using active_entry [OF assms(1,2)] .
  have c: "\<not> tr_accepting t" and all: "\<And>k x. jmap_get (tr_entries t) k = Some x \<Longrightarrow> we_settled x"
    using inv closed by (auto simp: out_inv_def closed_ok_def)
  have m: "jmap_map (drop_in {i}) (tr_entries t) = tr_entries t"
  proof (rule jmap_map_id)
    fix k x assume "(k, x) \<in> set (tr_entries t)"
    then have "jmap_get (tr_entries t) k = Some x"
      using inv by (auto simp: out_inv_def out_core_def intro: map_of_is_SomeI)
    with all a(1,7) show "drop_in {i} k x = x" by (auto simp: drop_in_def drop_entry_fix)
  qed
  have "charge_sum (tr_entries t) = tr_queued_bytes t" using inv by (simp add: out_inv_def out_core_def)
  with m a(4) have "dropped {i} (t\<lparr>tr_preparing := None, tr_active := None\<rparr>) = t\<lparr>tr_active := None\<rparr>"
    by (simp add: dropped_def Let_def)
  with pump_ready_drop [OF inv a(6,5)] a(3,4) have "pump_ready (t\<lparr>tr_active := None\<rparr>)" by simp
  with stop_pump_ready [of "t\<lparr>tr_active := None\<rparr>"] c show ?thesis by simp
qed

lemma out_inv_write_done [sedes_inv]:
  assumes inv: "out_inv t"
  shows "out_inv (fst (write_done failure t))"
proof (cases "tr_pump t")
  case (PumpWriting i)
  obtain e where a: "jmap_get (tr_entries t) i = Some e" "we_state e = Writing" "tr_active t = Some i"
    "tr_preparing t = None" "tr_pumping t" "without_entry i t = t" "\<not> we_charged e"
    using active_entry [OF inv PumpWriting] .
  have wf: "jmap_wf (tr_entries t)" "accounted t"
    using inv by (simp_all add: out_inv_def out_core_def accounted_def)
  have un: "\<And>x. jmap_get (tr_entries t) i = Some x \<Longrightarrow> \<not> we_charged x" using a by simp
  note fin = reject_uncharged_map [OF wf un]
  have d: "out_inv (dropped {i} t)" using out_inv_drop [OF inv, of i] a(6) by simp
  show ?thesis
  proof (cases failure)
    case None
    have "(dropped {i} t)\<lparr>tr_active := None\<rparr> = dropped {i} (t\<lparr>tr_preparing := None, tr_active := None\<rparr>)"
      using a(4) by (simp add: dropped_def Let_def)
    with None PumpWriting fin(2) out_inv_pump [OF pump_ready_drop [OF inv a(6,5)]] a(3,4) show ?thesis
      by (simp add: write_done_def then_do_def)
  next
    case (Some delivery)
    have "tr_pump (dropped {i} t) = PumpWriting i" using PumpWriting by simp
    with d have "out_inv (stop_pump ((fst (close_transport ''sidecar_stream_write_failed'' (dropped {i} t)))
        \<lparr>tr_active := None\<rparr>))"
      by (intro stop_pump_closed [of _ i]) (simp_all add: out_inv_close close_keeps_pump)
    with Some PumpWriting fin(1) show ?thesis by (simp add: write_done_def then_do_def)
  qed
qed (use inv in \<open>simp_all add: write_done_def\<close>)

lemma reject_after_release:
  assumes "jmap_wf (tr_entries t)" and "accounted t"
  shows "reject_write i code d (release_charge i t) =
    (dropped {i} t, if entry_settled t i then [] else [EntryRejected i code d])"
proof -
  have "fst (reject_write i code d (release_charge i t)) = fst (reject_released i t)"
    by (simp add: reject_released_def reject_write_def finish_entry_def)
  moreover have "entry_settled (release_charge i t) i = entry_settled t i"
    by (simp add: entry_settled_def release_charge_map [OF assms(1)] at_entry_def split: option.splits)
  then have "snd (reject_write i code d (release_charge i t)) =
      (if entry_settled t i then [] else [EntryRejected i code d])"
    by (simp add: reject_write_def finish_entry_def)
  ultimately show ?thesis
    using reject_released_map [OF assms, of i] by (simp add: prod_eq_iff)
qed

lemma remove1_filter: "distinct xs \<Longrightarrow> remove1 i xs = filter (\<lambda>j. j \<noteq> i) xs"
proof (induction xs)
  case (Cons x xs)
  then show ?case
  proof (cases "x = i")
    case True
    with Cons.prems have "filter (\<lambda>j. j \<noteq> i) xs = xs" by (auto simp: filter_id_conv)
    with True show ?thesis by simp
  qed simp
qed simp

lemma remove1_lanes:
  assumes "out_core t" and "jmap_get (tr_entries t) i = Some e"
  shows "(if i \<in> set (tr_control t) then t\<lparr>tr_control := remove1 i (tr_control t)\<rparr>
          else t\<lparr>tr_operation := remove1 i (tr_operation t)\<rparr>) =
         t\<lparr>tr_control := filter (\<lambda>j. j \<noteq> i) (tr_control t),
           tr_operation := filter (\<lambda>j. j \<noteq> i) (tr_operation t)\<rparr>"
proof -
  note s = slot_okD [OF out_coreD(4) [OF assms(1)]]
  have "i \<in> set (tr_control t) \<Longrightarrow> i \<notin> set (tr_operation t)" using s(1,2) [of i] by auto
  then have "i \<in> set (tr_control t) \<Longrightarrow> filter (\<lambda>j. j \<noteq> i) (tr_operation t) = tr_operation t"
    by (auto simp: filter_id_conv)
  moreover have "i \<notin> set (tr_control t) \<Longrightarrow> filter (\<lambda>j. j \<noteq> i) (tr_control t) = tr_control t"
    by (auto simp: filter_id_conv)
  moreover have "remove1 i (tr_control t) = filter (\<lambda>j. j \<noteq> i) (tr_control t)"
    "remove1 i (tr_operation t) = filter (\<lambda>j. j \<noteq> i) (tr_operation t)"
    using out_coreD(5,6) [OF assms(1)] by (simp_all add: remove1_filter)
  ultimately show ?thesis by simp
qed

lemma release_charge_lanes:
  "jmap_wf (tr_entries t) \<Longrightarrow> release_charge i (t\<lparr>tr_control := c, tr_operation := p, tr_prepared := q\<rparr>) =
     (release_charge i t)\<lparr>tr_control := c, tr_operation := p, tr_prepared := q\<rparr>"
  by (simp add: release_charge_map map_entries_def)

lemma abort_write_map:
  assumes core: "out_core t" and e: "jmap_get (tr_entries t) i = Some e" "\<not> we_settled e"
    "we_state e \<noteq> Writing"
  shows "abort_write i t = (dropped {i} (without_entry i t),
    [EntryRejected i ''sidecar_frame_send_aborted'' NotSent])"
proof -
  note wf = out_coreD(1,2) [OF core]
  let ?c = "filter (\<lambda>j. j \<noteq> i) (tr_control t)" and ?p = "filter (\<lambda>j. j \<noteq> i) (tr_operation t)"
  let ?q = "if tr_prepared t = Some i then None else tr_prepared t"
  have sel: "tr_control (release_charge i t) = tr_control t" "tr_operation (release_charge i t) = tr_operation t"
    "tr_prepared (release_charge i t) = tr_prepared t"
    by (simp_all add: release_charge_map [OF wf(1)])
  have "(let t1 = release_charge i t;
       t2 = (if tr_prepared t1 = Some i then t1\<lparr>tr_prepared := None\<rparr> else t1);
       t3 = (if i \<in> set (tr_control t2) then t2\<lparr>tr_control := remove1 i (tr_control t2)\<rparr>
             else t2\<lparr>tr_operation := remove1 i (tr_operation t2)\<rparr>)
     in t3) = (release_charge i t)\<lparr>tr_control := ?c, tr_operation := ?p, tr_prepared := ?q\<rparr>"
    using arg_cong [OF remove1_lanes [OF core e(1)], of tr_control]
      arg_cong [OF remove1_lanes [OF core e(1)], of tr_operation]
    by (simp add: Let_def sel split: if_splits)
  also have "\<dots> = release_charge i (without_entry i t)"
    by (simp add: without_entry_def release_charge_lanes [OF wf(1)])
  finally have t3: "(let t1 = release_charge i t;
       t2 = (if tr_prepared t1 = Some i then t1\<lparr>tr_prepared := None\<rparr> else t1);
       t3 = (if i \<in> set (tr_control t2) then t2\<lparr>tr_control := remove1 i (tr_control t2)\<rparr>
             else t2\<lparr>tr_operation := remove1 i (tr_operation t2)\<rparr>)
     in t3) = release_charge i (without_entry i t)" .
  have "accounted (without_entry i t)" using wf(2) by (simp add: accounted_def)
  with reject_after_release [of "without_entry i t" i] wf(1) e
  have "reject_write i ''sidecar_frame_send_aborted'' NotSent (release_charge i (without_entry i t)) =
      (dropped {i} (without_entry i t), [EntryRejected i ''sidecar_frame_send_aborted'' NotSent])"
    by (simp add: entry_settled_def)
  with e t3 show ?thesis by (simp add: abort_write_def Let_def)
qed

lemma abort_writing_map:
  assumes inv: "out_inv t" and e: "jmap_get (tr_entries t) i = Some e" "\<not> we_settled e" "we_state e = Writing"
  shows "abort_write i t = then_do (dropped {i} t, [EntryRejected i ''sidecar_frame_send_aborted'' SentOutcomeUnknown])
      (close_transport ''sidecar_active_write_aborted'')"
    and "out_inv (dropped {i} t)"
proof -
  have core: "out_core t" using inv by (simp add: out_inv_def)
  have "\<not> we_charged e" using out_coreD(3) [OF core e(1)] e(3) by (simp add: entry_ok_def)
  with e reject_uncharged_map(1) [OF out_coreD(1,2) [OF core], of i] show
    "abort_write i t = then_do (dropped {i} t, [EntryRejected i ''sidecar_frame_send_aborted'' SentOutcomeUnknown])
      (close_transport ''sidecar_active_write_aborted'')"
    by (simp add: abort_write_def entry_settled_def)
  show "out_inv (dropped {i} t)"
    using out_inv_drop [OF inv, of i] without_entry_idle [OF core e(1)] e(3) by simp
qed

lemma out_inv_abort [sedes_inv]:
  assumes inv: "out_inv t"
  shows "out_inv (fst (abort_write i t))"
proof (cases "jmap_get (tr_entries t) i")
  case None
  with inv show ?thesis by (simp add: abort_write_def)
next
  case (Some e)
  have core: "out_core t" using inv by (simp add: out_inv_def)
  consider "we_settled e" | "\<not> we_settled e" "we_state e = Writing" | "\<not> we_settled e" "we_state e \<noteq> Writing"
    by blast
  then show ?thesis
  proof cases
    case 1
    with inv Some show ?thesis by (simp add: abort_write_def)
  next
    case 2
    from abort_writing_map [OF inv Some 2] out_inv_close show ?thesis by (simp add: then_do_def)
  next
    case 3
    from abort_write_map [OF core Some 3] out_inv_drop [OF inv] show ?thesis by simp
  qed
qed

lemma preparing_entry:
  assumes "out_inv t" and "tr_pump t = PumpCompressing i"
  obtains e where "jmap_get (tr_entries t) i = Some e" "we_state e = Preparing" "tr_preparing t = Some i"
    "tr_active t = None" "tr_prepared t = None" "tr_pumping t" "without_entry i t = t"
proof -
  have a: "tr_preparing t = Some i" "tr_active t = None" "tr_prepared t = None" "tr_pumping t"
    and core: "out_core t"
    using assms by (auto simp: out_inv_def pump_ok_def)
  obtain e where e: "jmap_get (tr_entries t) i = Some e" "we_state e = Preparing"
    using slot_okD(3) [OF out_coreD(4) [OF core] a(1)] by blast
  with a without_entry_idle [OF core e(1)] that show thesis by blast
qed

lemma dropped_settled:
  assumes "out_core t" and "entry_settled t i"
  shows "dropped {i} t = t"
proof -
  have "jmap_map (drop_in {i}) (tr_entries t) = tr_entries t"
  proof (rule jmap_map_id)
    fix k x assume "(k, x) \<in> set (tr_entries t)"
    then have g: "jmap_get (tr_entries t) k = Some x"
      using out_coreD(1) [OF assms(1)] by (simp add: map_of_is_SomeI)
    from out_coreD(3) [OF assms(1) g] g assms(2) show "drop_in {i} k x = x"
      by (auto simp: drop_in_def drop_entry_fix entry_ok_def entry_settled_def)
  qed
  with out_coreD(2) [OF assms(1)] show ?thesis by (simp add: dropped_def Let_def accounted_def)
qed

lemma pump_ready_settled:
  assumes inv: "out_inv t" and pump: "tr_pump t = PumpCompressing i" and "entry_settled t i"
  shows "pump_ready (t\<lparr>tr_preparing := None\<rparr>)"
proof -
  obtain e where a: "jmap_get (tr_entries t) i = Some e" "we_state e = Preparing" "tr_preparing t = Some i"
    "tr_active t = None" "tr_prepared t = None" "tr_pumping t" "without_entry i t = t"
    using preparing_entry [OF inv pump] .
  have "(dropped {i} t)\<lparr>tr_preparing := None, tr_active := None\<rparr> =
      dropped {i} (t\<lparr>tr_preparing := None, tr_active := None\<rparr>)"
    by (simp add: dropped_def Let_def)
  with dropped_settled [of t i] inv assms(3) a(4)
  have "dropped {i} (t\<lparr>tr_preparing := None, tr_active := None\<rparr>) = t\<lparr>tr_preparing := None\<rparr>"
    by (simp add: out_inv_def)
  with pump_ready_drop [OF inv a(7,6)] a(3,4) show ?thesis by simp
qed

definition end_prepare :: "bytes \<Rightarrow> write_entry \<Rightarrow> write_entry" where
  "end_prepare framed e = e\<lparr>we_framed := Some framed, we_payload := None, we_state := Prepared\<rparr>"

lemma pump_ready_prepared:
  assumes inv: "out_inv t" and pump: "tr_pump t = PumpCompressing i" and "\<not> entry_settled t i" "tr_accepting t"
  shows "pump_ready ((map_entries (at_entry i (end_prepare framed)) t)
    \<lparr>tr_prepared := Some i, tr_preparing := None\<rparr>)" (is "pump_ready ?v")
proof -
  obtain e where a: "jmap_get (tr_entries t) i = Some e" "we_state e = Preparing" "tr_preparing t = Some i"
    "tr_active t = None" "tr_prepared t = None" "tr_pumping t" "without_entry i t = t"
    using preparing_entry [OF inv pump] .
  have core: "out_core t" and rest: "bound_ok t" "closed_ok t" "transport_limits (tr_limits t)"
    using inv by (simp_all add: out_inv_def)
  have un: "\<not> we_settled e" using assms(3) a(1) by (simp add: entry_settled_def)
  have ep: "we_charged (end_prepare framed x) = we_charged x" "we_state (end_prepare framed x) = Prepared"
    "we_settled (end_prepare framed x) = we_settled x" "we_lane (end_prepare framed x) = we_lane x"
    "we_payload_bytes (end_prepare framed x) = we_payload_bytes x"
    "we_framed (end_prepare framed x) = Some framed" for x
    by (simp_all add: end_prepare_def)
  have ok: "entry_ok ?v k (at_entry i (end_prepare framed) k x)" if "jmap_get (tr_entries t) k = Some x" for k x
  proof (cases "k = i")
    case True
    with that a out_coreD(3) [OF core that] show ?thesis by (simp add: entry_ok_def at_entry_def ep)
  next
    case False
    with out_coreD(3) [OF core that] a show ?thesis by (auto simp: entry_ok_def at_entry_def)
  qed
  have slot: "slot_ok ?v"
  proof -
    note sl = slot_okD [OF out_coreD(4) [OF core]]
    have "i \<notin> set (tr_control t)" "i \<notin> set (tr_operation t)" using sl(1,2) [of i] a by auto
    then have "j \<noteq> i" if "j \<in> set (tr_control t) \<or> j \<in> set (tr_operation t)" for j using that by auto
    with sl a un show ?thesis
      unfolding slot_ok_def by (auto simp: jmap_get_at ep simp del: jmap_get_map)
  qed
  have "charge_sum (jmap_map (at_entry i (end_prepare framed)) (tr_entries t)) = charge_sum (tr_entries t)"
    by (rule charge_sum_same) (simp_all add: at_entry_def ep)
  with ok slot core have "out_core ?v" unfolding out_core_def by auto
  moreover have "closed_ok ?v" using rest(2) assms(4) by (auto simp: closed_ok_def)
  moreover have "bound_ok ?v"
    using rest(1) a un by (simp add: bound_ok_def queued_count_alt opt_list_def entry_settled_def)
  ultimately show ?thesis using rest(3) a by (simp add: pump_ready_def)
qed

lemma compress_result_ready:
  fixes res :: "bytes option result"
  assumes inv: "out_inv t" and pump: "tr_pump t = PumpCompressing i"
  defines "r \<equiv> compress_result i res t"
  shows "pump_ready ((fst (if \<not> entry_settled (fst r) i \<and> \<not> tr_accepting (fst r)
    then reject_released i (fst r) else (fst r, [])))\<lparr>tr_preparing := None\<rparr>)"
proof -
  obtain e where a: "jmap_get (tr_entries t) i = Some e" "we_state e = Preparing" "tr_preparing t = Some i"
    "tr_active t = None" "tr_prepared t = None" "tr_pumping t" "without_entry i t = t"
    using preparing_entry [OF inv pump] .
  have core: "out_core t" using inv by (simp add: out_inv_def)
  note wf = out_coreD(1,2) [OF core]
  have d: "out_inv (dropped {i} t)" "entry_settled (dropped {i} t) i" "tr_pump (dropped {i} t) = PumpCompressing i"
    using out_inv_drop [OF inv, of i] a(7) pump by (simp_all add: entry_settled_dropped)
  consider (settled) "entry_settled t i" | (stopped) "\<not> entry_settled t i" "\<not> tr_accepting t"
    | (live) "\<not> entry_settled t i" "tr_accepting t" by blast
  then show ?thesis
  proof cases
    case settled
    with pump_ready_settled [OF inv pump] show ?thesis by (simp add: r_def compress_result_def)
  next
    case stopped
    with reject_released_map [OF wf, of i] pump_ready_settled [OF d(1,3,2)] show ?thesis
      by (simp add: r_def compress_result_def)
  next
    case live
    show ?thesis
    proof (cases "case res of Inl e \<Rightarrow> Inl e | Inr c \<Rightarrow> compress_framed i c t")
      case (Inr framed)
      have f: "fst r = (map_entries (at_entry i (end_prepare framed)) t)\<lparr>tr_prepared := Some i\<rparr>"
        using live Inr by (simp add: r_def compress_result_def upd_entry_map [OF wf(1)] end_prepare_def [abs_def])
      then have "tr_accepting (fst r)" using live by simp
      with f pump_ready_prepared [OF inv pump live, of framed] show ?thesis by simp
    next
      case (Inl x)
      let ?u = "fst (close_transport ''sidecar_frame_compression_failed'' (dropped {i} t))"
      have f: "fst r = ?u"
        using live Inl by (simp add: r_def compress_result_def reject_after_release [OF wf])
      have "out_inv ?u" "tr_pump ?u = PumpCompressing i"
        using out_inv_close [OF d(1)] close_keeps_pump(1) [OF d(1)] d(3) by simp_all
      moreover have "entry_settled ?u i"
        using close_keeps_pump(2) [OF d(1)] \<open>out_inv ?u\<close>
        by (auto simp: out_inv_def closed_ok_def entry_settled_def split: option.splits)
      ultimately show ?thesis using pump_ready_settled f by simp
    qed
  qed
qed

lemma out_inv_compress [sedes_inv]:
  assumes inv: "out_inv t"
  shows "out_inv (fst (compress_done res t))"
proof (cases "tr_pump t")
  case (PumpCompressing i)
  from out_inv_pump [OF compress_result_ready [OF inv PumpCompressing, of res]] PumpCompressing show ?thesis
    by (simp add: compress_done_def Let_def)
qed (use inv in \<open>simp_all add: compress_done_def\<close>)

subsection \<open>Sending keeps the invariant\<close>

lemma enqueue_sel:
  "tr_entries (enqueue bs lane st t) = jmap_set (tr_next_id t)
     \<lparr>we_payload = Some bs, we_payload_bytes = length bs, we_lane = lane, we_settlement = st,
      we_framed = None, we_state = Queued, we_charged = True, we_settled = False\<rparr> (tr_entries t)"
  "tr_control (enqueue bs lane st t) = tr_control t @ (if lane = ControlLane then [tr_next_id t] else [])"
  "tr_operation (enqueue bs lane st t) = tr_operation t @ (if lane = OperationLane then [tr_next_id t] else [])"
  "tr_queued_bytes (enqueue bs lane st t) = tr_queued_bytes t + int (length bs)"
  "tr_next_id (enqueue bs lane st t) = Suc (tr_next_id t)"
  "tr_limits (enqueue bs lane st t) = tr_limits t" "tr_active (enqueue bs lane st t) = tr_active t"
  "tr_preparing (enqueue bs lane st t) = tr_preparing t" "tr_prepared (enqueue bs lane st t) = tr_prepared t"
  "tr_pumping (enqueue bs lane st t) = tr_pumping t" "tr_accepting (enqueue bs lane st t) = tr_accepting t"
  "tr_close (enqueue bs lane st t) = tr_close t"
  "tr_closed_settled (enqueue bs lane st t) = tr_closed_settled t" "tr_pump (enqueue bs lane st t) = tr_pump t"
  by (cases lane; simp add: enqueue_def Let_def)+

lemma fresh_id:
  assumes "out_core t"
  shows "jmap_get (tr_entries t) (tr_next_id t) = None"
  using out_coreD(7) [OF assms, of "tr_next_id t"] by (auto simp: map_of_eq_None_iff)

lemma fresh_slots:
  assumes "out_core t"
  shows "tr_next_id t \<notin> set (tr_control t)" "tr_next_id t \<notin> set (tr_operation t)"
    "tr_preparing t \<noteq> Some (tr_next_id t)" "tr_prepared t \<noteq> Some (tr_next_id t)"
    "tr_active t \<noteq> Some (tr_next_id t)"
  using slot_okD [OF out_coreD(4) [OF assms], of "tr_next_id t"] fresh_id [OF assms] by auto

lemma out_core_enqueue:
  assumes core: "out_core t" and len: "int (length bs) \<le> maximum_frame_bytes (tr_limits t)"
  shows "out_core (enqueue bs lane st t)"
proof -
  let ?v = "enqueue bs lane st t" and ?i = "tr_next_id t"
  note fr = fresh_id [OF core] and fs = fresh_slots [OF core]
  have ok: "entry_ok ?v k x" if "jmap_get (tr_entries ?v) k = Some x" for k x
  proof (cases "k = ?i")
    case True
    with that len show ?thesis by (cases lane) (auto simp: entry_ok_def enqueue_sel has_payload_def)
  next
    case False
    with that have "jmap_get (tr_entries t) k = Some x" by (simp add: enqueue_sel)
    from out_coreD(3) [OF core this] show ?thesis by (auto simp: entry_ok_def enqueue_sel)
  qed
  have slot: "slot_ok ?v"
    unfolding slot_ok_def enqueue_sel using slot_okD [OF out_coreD(4) [OF core]] fs
    by (cases lane) auto
  have "charge_sum (tr_entries ?v) = charge_sum (tr_entries t) + int (length bs)"
    using fr by (simp add: enqueue_sel jmap_set_absent charge_sum_def)
  with ok slot core fs show ?thesis
    unfolding out_core_def enqueue_sel
    by (auto simp: keys_jmap_set less_Suc_eq)
qed

lemma queued_count_enqueue:
  assumes "out_core t"
  shows "queued_count (enqueue bs lane st t) = Suc (queued_count t)"
proof -
  have "entry_settled (enqueue bs lane st t) j = entry_settled t j" if "tr_preparing t = Some j" for j
    using fresh_slots(3) [OF assms] that by (auto simp: entry_settled_def enqueue_sel)
  then show ?thesis
    by (cases lane; cases "tr_preparing t") (simp_all add: queued_count_alt enqueue_sel opt_list_def)
qed

lemma pumping_upd:
  "out_core (t\<lparr>tr_pumping := b\<rparr>) = out_core t" "bound_ok (t\<lparr>tr_pumping := b\<rparr>) = bound_ok t"
  "closed_ok (t\<lparr>tr_pumping := b\<rparr>) = closed_ok t"
  by (simp_all add: out_core_def slot_ok_def entry_ok_def bound_ok_def closed_ok_def queued_count_alt
      entry_settled_def)

definition admits :: "bytes \<Rightarrow> bool \<Rightarrow> bool \<Rightarrow> transport \<Rightarrow> bool" where
  "admits bs aborted st t \<longleftrightarrow> bs \<noteq> [] \<and> int (length bs) \<le> maximum_frame_bytes (tr_limits t) \<and>
     tr_accepting t \<and> \<not> aborted \<and> int (queued_count t) < frame_capacity (tr_limits t) st \<and>
     tr_queued_bytes t + int (length bs) \<le> byte_capacity (tr_limits t) st"

lemma send_cases:
  "admits bs aborted st t \<Longrightarrow> send bs lane aborted st t = pump_writes (enqueue bs lane st t)"
  "\<not> admits bs aborted st t \<Longrightarrow> \<exists>code. send bs lane aborted st t = (t, [SendRejected code NotSent])"
  by (auto simp: send_def admits_def)

lemma enqueue_ok:
  assumes inv: "out_inv t" and adm: "admits bs aborted st t"
  shows "out_core (enqueue bs lane st t)" and "bound_ok (enqueue bs lane st t)" and "closed_ok (enqueue bs lane st t)"
proof -
  have core: "out_core t" and lim: "limits_ok (tr_limits t)"
    using inv by (simp_all add: out_inv_def transport_limits_def)
  show "out_core (enqueue bs lane st t)" using out_core_enqueue [OF core] adm by (simp add: admits_def)
  show "bound_ok (enqueue bs lane st t)"
    using adm queued_count_enqueue [OF core, of bs lane st] frame_capacity_positive(3,4) [OF lim, of st]
    by (simp add: bound_ok_def enqueue_sel admits_def)
  show "closed_ok (enqueue bs lane st t)"
    using inv adm by (auto simp: out_inv_def closed_ok_def enqueue_sel admits_def)
qed

lemma enqueue_ready:
  assumes inv: "out_inv t" and adm: "admits bs aborted st t" and idle: "\<not> tr_pumping t"
  shows "pump_ready ((enqueue bs lane st t)\<lparr>tr_pumping := True\<rparr>)"
proof -
  have "tr_pump t = PumpIdle" using inv idle by (cases "tr_pump t") (auto simp: out_inv_def pump_ok_def)
  then have "tr_active t = None" "tr_preparing t = None" using inv by (auto simp: out_inv_def pump_ok_def)
  with enqueue_ok [OF inv adm, of lane] inv show ?thesis
    by (simp add: pump_ready_def enqueue_sel pumping_upd out_inv_def)
qed

lemma out_inv_send [sedes_inv]:
  assumes inv: "out_inv t"
  shows "out_inv (fst (send bs lane aborted st t))"
proof (cases "admits bs aborted st t")
  case False
  with send_cases(2) [OF False, of lane] inv show ?thesis by auto
next
  case adm: True
  show ?thesis
  proof (cases "tr_pumping t")
    case True
    then have "pump_ok (enqueue bs lane st t)" using inv by (auto simp: out_inv_def pump_ok_def enqueue_sel)
    with True enqueue_ok [OF inv adm, of lane] inv show ?thesis
      by (simp add: send_cases(1) [OF adm] pump_writes_def enqueue_sel out_inv_def)
  next
    case False
    with out_inv_pump [OF enqueue_ready [OF inv adm False, of lane]] show ?thesis
      by (simp add: send_cases(1) [OF adm] pump_writes_def enqueue_sel)
  qed
qed

subsection \<open>The reader and the consumer keep the write side\<close>

lemma out_inv_same: "write_view u = write_view t \<Longrightarrow> out_inv t \<Longrightarrow> out_inv u"
  using out_inv_view(2) by blast

lemmas out_inv_upd [simp] = write_view_upd [THEN out_inv_view(2)]
  write_view_with_inbound [THEN out_inv_view(2)]

lemma out_inv_reader_failed [sedes_inv]: "out_inv t \<Longrightarrow> out_inv (fst (reader_failed e t))"
  unfolding reader_failed_def by (intro out_inv_autonomous) (auto intro: out_inv_same)

lemma out_inv_read_frame [sedes_inv]: "out_inv t \<Longrightarrow> out_inv (fst (read_frame t))"
  by (auto simp: read_frame_def Let_def intro: out_inv_reader_failed out_inv_same
      split: sum.splits option.splits)

lemma out_inv_read_chunk [sedes_inv]: "out_inv t \<Longrightarrow> out_inv (fst (read_chunk c t))"
  unfolding read_chunk_def
  by (auto intro: out_inv_reader_failed out_inv_read_frame out_inv_same split: sum.splits)

lemma out_inv_reader_continue [sedes_inv]: "out_inv t \<Longrightarrow> out_inv (fst (reader_continue t))"
  by (auto simp: reader_continue_def Let_def
      intro: out_inv_reader_failed out_inv_read_frame out_inv_same split: reader_position.splits)

lemma out_inv_read_eof [sedes_inv]: "out_inv t \<Longrightarrow> out_inv (fst (read_eof t))"
  by (auto simp: read_eof_def intro: out_inv_reader_failed out_inv_same)

lemma accepting_upd:
  "out_core (t\<lparr>tr_accepting := b\<rparr>) = out_core t" "bound_ok (t\<lparr>tr_accepting := b\<rparr>) = bound_ok t"
  "closed_ok t \<Longrightarrow> closed_ok (t\<lparr>tr_accepting := False\<rparr>)" "pump_ok t \<Longrightarrow> pump_ok (t\<lparr>tr_accepting := False\<rparr>)"
  by (simp_all add: out_core_def slot_ok_def entry_ok_def bound_ok_def closed_ok_def queued_count_alt
      entry_settled_def pump_ok_def)

lemma out_inv_not_accepting: "out_inv t \<Longrightarrow> out_inv (t\<lparr>tr_accepting := False\<rparr>)"
  by (simp add: out_inv_def accepting_upd)

lemma out_inv_read_closure [sedes_inv]:
  assumes inv: "out_inv t"
  shows "out_inv (fst (read_closure res t))"
proof (cases res)
  case (Inl e)
  with inv show ?thesis by (simp add: read_closure_def out_inv_reader_failed)
next
  case (Inr c)
  let ?t = "t\<lparr>tr_reader := ReaderDone, tr_clean_eof := Some c\<rparr>"
  have t1: "out_inv ?t" using inv by simp
  from out_inv_not_accepting [OF t1]
  have "out_inv (with_inbound (close_queue None (tr_inbound t)) (?t\<lparr>tr_accepting := False\<rparr>))"
    by simp
  with Inr t1 show ?thesis by (simp add: read_closure_def Let_def out_inv_settle out_inv_eof del: out_inv_upd)
qed

lemma out_inv_consumer_stop [sedes_inv]:
  assumes inv: "out_inv t"
  shows "out_inv (fst (consumer_stop failure t))"
proof (cases failure)
  case None
  with inv show ?thesis by (simp add: consumer_stop_def out_inv_close)
next
  case (Some e)
  have "out_inv (fst (autonomous_close e (t\<lparr>tr_consumer := ConsumerDone\<rparr>)))"
    using inv by (simp add: out_inv_autonomous)
  with Some inv show ?thesis by (simp add: consumer_stop_def out_inv_close Let_def)
qed

lemma out_inv_consumer_dropped [sedes_inv]: "out_inv t \<Longrightarrow> out_inv (fst (consumer_dropped failure t))"
  by (simp add: consumer_dropped_def out_inv_consumer_stop)

lemma out_inv_consumer_continue [sedes_inv]: "out_inv t \<Longrightarrow> out_inv (fst (consumer_continue t))"
  by (auto simp: consumer_continue_def consumer_frame_def
      intro: out_inv_consumer_dropped out_inv_consumer_stop split: consumer_position.splits)

lemma out_inv_decompress [sedes_inv]: "out_inv t \<Longrightarrow> out_inv (fst (decompress_done res t))"
  by (auto simp: decompress_done_def intro: out_inv_consumer_dropped split: consumer_position.splits sum.splits)

lemma out_inv_consumer_next [sedes_inv]: "out_inv t \<Longrightarrow> out_inv (consumer_next t)"
  by (simp add: consumer_next_def)

lemma out_inv_advance [sedes_inv]: "out_inv t \<Longrightarrow> out_inv (fst (consumer_advance t))"
  by (auto simp: consumer_advance_def intro!: out_inv_consumer_next out_inv_eof
      split: consumer_position.splits)

lemma out_inv_return [sedes_inv]: "out_inv t \<Longrightarrow> out_inv (fst (consumer_return t))"
  by (auto simp: consumer_return_def intro: out_inv_consumer_dropped split: consumer_position.splits)

lemma out_inv_claim [sedes_inv]: "out_inv t \<Longrightarrow> claim_frames t = Inr u \<Longrightarrow> out_inv u"
  by (auto simp: claim_frames_def split: if_splits sum.splits)

lemma out_inv_commit [sedes_inv]: "out_inv t \<Longrightarrow> commit_compression m t = Inr u \<Longrightarrow> out_inv u"
  by (auto simp: commit_compression_def split: if_splits)

lemma out_inv_step:
  assumes "out_inv t"
  shows "out_inv (fst (transport_step p t))"
  using assms by (cases p) (auto intro: sedes_inv split: sum.splits)

lemma out_inv_run: "out_inv t \<Longrightarrow> out_inv (fst (transport_run ops t))"
  by (induction ops arbitrary: t) (simp_all add: out_inv_step)

lemma out_inv_new: "transport_limits limits \<Longrightarrow> out_inv (new_transport limits)"
  using frame_capacity_positive [of limits True]
  by (auto simp: out_inv_def out_core_def slot_ok_def pump_ok_def closed_ok_def bound_ok_def
      queued_count_def new_transport_def transport_limits_def)

end
