(* ===== verification/TransportLog.thy ===== *)
theory TransportLog
  imports TransportWrites "HOL-Library.Sublist"
begin

text \<open>
  What a run of the frame transport tells the outside: each accepted frame is settled at most once,
  a frame reported as not sent was never handed to the carrier, and each lane is written in order.
\<close>

section \<open>The log\<close>

subsection \<open>The log of writes and settlements\<close>

fun written :: "transport_output list \<Rightarrow> nat list" where
  "written [] = []"
| "written (StreamWrite i _ # outs) = i # written outs"
| "written (_ # outs) = written outs"

fun finished :: "transport_output list \<Rightarrow> nat list" where
  "finished [] = []"
| "finished (EntryResolved i # outs) = i # finished outs"
| "finished (EntryRejected i _ _ # outs) = i # finished outs"
| "finished (_ # outs) = finished outs"

lemma written_append [simp]: "written (a @ b) = written a @ written b"
  by (induction a rule: written.induct) auto

lemma finished_append [simp]: "finished (a @ b) = finished a @ finished b"
  by (induction a rule: finished.induct) auto

text \<open>A rejection that claims the frame was not sent, other than one relayed from the carrier.\<close>

definition claims_not_sent :: "transport_output list \<Rightarrow> nat \<Rightarrow> bool" where
  "claims_not_sent outs i \<longleftrightarrow>
     (\<exists>code. EntryRejected i code NotSent \<in> set outs \<and> code \<noteq> ''sidecar_stream_write_failed'')"

definition wmark :: "transport \<Rightarrow> nat \<Rightarrow> nat" where
  "wmark t i = (case jmap_get (tr_entries t) i of
     Some e \<Rightarrow> if we_state e = Writing then 1 else 0 | None \<Rightarrow> 0)"

definition smark :: "transport \<Rightarrow> nat \<Rightarrow> nat" where
  "smark t i = (case jmap_get (tr_entries t) i of
     Some e \<Rightarrow> if we_settled e then 1 else 0 | None \<Rightarrow> 0)"

text \<open>The log of a run tells for each entry how often it was written and settled.\<close>

definition log_ok :: "transport \<Rightarrow> transport_output list \<Rightarrow> bool" where
  "log_ok t outs \<longleftrightarrow> (\<forall>i. count_list (written outs) i = wmark t i \<and>
     count_list (finished outs) i = smark t i \<and>
     (EntryResolved i \<in> set outs \<longrightarrow> wmark t i = 1) \<and>
     (claims_not_sent outs i \<longrightarrow> wmark t i = 0 \<and> smark t i = 1))"

definition keeps_log :: "transport \<Rightarrow> transport \<times> transport_output list \<Rightarrow> bool" where
  "keeps_log t r \<longleftrightarrow> (\<forall>outs. log_ok t outs \<longrightarrow> log_ok (fst r) (outs @ snd r))"

lemma keeps_log_then: "keeps_log t r \<Longrightarrow> keeps_log (fst r) (f (fst r)) \<Longrightarrow> keeps_log t (then_do r f)"
  by (simp add: keeps_log_def then_do_def) (metis append_assoc)

lemma keeps_log_refl [simp]: "keeps_log t (t, [])"
  by (simp add: keeps_log_def)

lemma smark_le: "smark t i \<le> 1"
  by (simp add: smark_def split: option.splits)

lemma keeps_logI:
  assumes "\<And>i. wmark u i = wmark t i + count_list (written outs) i"
    and "\<And>i. smark u i = smark t i + count_list (finished outs) i"
    and "\<And>i. EntryResolved i \<in> set outs \<Longrightarrow> wmark u i = 1"
    and "\<And>i. claims_not_sent outs i \<Longrightarrow> wmark u i = 0 \<and> smark u i = 1"
    and "\<And>i. smark t i = 1 \<Longrightarrow> count_list (written outs) i = 0"
  shows "keeps_log t (u, outs)"
  unfolding keeps_log_def
proof (intro allI impI)
  fix old assume old: "log_ok t old"
  have "count_list (written (old @ outs)) i = wmark u i \<and> count_list (finished (old @ outs)) i = smark u i \<and>
     (EntryResolved i \<in> set (old @ outs) \<longrightarrow> wmark u i = 1) \<and>
     (claims_not_sent (old @ outs) i \<longrightarrow> wmark u i = 0 \<and> smark u i = 1)" for i
  proof -
    have ok: "count_list (written old) i = wmark t i" "count_list (finished old) i = smark t i"
      "EntryResolved i \<in> set old \<Longrightarrow> wmark t i = 1"
      "claims_not_sent old i \<Longrightarrow> wmark t i = 0 \<and> smark t i = 1"
      using old by (simp_all add: log_ok_def)
    have le: "wmark u i \<le> 1" "smark u i \<le> 1" by (simp_all add: wmark_def smark_def split: option.splits)
    have "claims_not_sent (old @ outs) i \<Longrightarrow> claims_not_sent old i \<or> claims_not_sent outs i"
      by (auto simp: claims_not_sent_def)
    moreover have "wmark u i = 0 \<and> smark u i = 1" if "claims_not_sent old i"
      using ok(4) [OF that] assms(1,2,5) [of i] le by simp
    moreover have "wmark u i = 1" if "EntryResolved i \<in> set old" using ok(3) [OF that] assms(1) [of i] le by simp
    ultimately show ?thesis
      using ok(1,2) assms(1-4) [of i] by auto
  qed
  then show "log_ok (fst (u, outs)) (old @ snd (u, outs))" by (simp add: log_ok_def)
qed

text \<open>Steps that neither write nor settle.\<close>

definition log_silent :: "transport_output list \<Rightarrow> bool" where
  "log_silent outs \<longleftrightarrow> written outs = [] \<and> finished outs = []"

lemma finished_mem:
  "i \<in> set (finished outs) \<longleftrightarrow> EntryResolved i \<in> set outs \<or> (\<exists>c d. EntryRejected i c d \<in> set outs)"
  by (induction outs rule: finished.induct) auto

lemma keeps_log_silent:
  assumes "\<And>i. wmark u i = wmark t i" and "\<And>i. smark u i = smark t i" and "log_silent outs"
  shows "keeps_log t (u, outs)"
proof -
  have "EntryResolved i \<notin> set outs" "\<not> claims_not_sent outs i" for i
    using assms(3) finished_mem [of i outs] by (auto simp: log_silent_def claims_not_sent_def)
  with assms show ?thesis by (intro keeps_logI) (simp_all add: log_silent_def)
qed

lemma marks_entries:
  "tr_entries u = tr_entries t \<Longrightarrow> wmark u i = wmark t i \<and> smark u i = smark t i"
  by (simp add: wmark_def smark_def)

lemma keeps_log_same: "tr_entries u = tr_entries t \<Longrightarrow> log_silent outs \<Longrightarrow> keeps_log t (u, outs)"
  using marks_entries [of u t] by (intro keeps_log_silent) simp_all

lemma marks_dropped:
  assumes "jmap_get (tr_entries t) i = Some e"
  shows "wmark (dropped {i} t) j = wmark t j"
    and "smark (dropped {i} t) j = (if j = i then 1 else smark t j)"
  using assms by (auto simp: wmark_def smark_def drop_in_def split: option.splits)

lemma smark_settled: "jmap_get (tr_entries t) i = Some e \<Longrightarrow> smark t i = (if we_settled e then 1 else 0)"
  by (simp add: smark_def)

lemma wmark_writing: "jmap_get (tr_entries t) i = Some e \<Longrightarrow> wmark t i = (if we_state e = Writing then 1 else 0)"
  by (simp add: wmark_def)

lemma keeps_log_reject:
  assumes e: "jmap_get (tr_entries t) i = Some e" and un: "\<not> we_settled e"
    and claim: "d = NotSent \<Longrightarrow> we_state e \<noteq> Writing \<or> code = ''sidecar_stream_write_failed''"
    and ent: "tr_entries u = tr_entries (dropped {i} t)"
  shows "keeps_log t (u, [EntryRejected i code d])"
proof -
  note m = marks_dropped [OF e]
  have u: "wmark u j = wmark t j" "smark u j = (if j = i then 1 else smark t j)" for j
    using marks_entries [OF ent, of j] m by simp_all
  have "smark t i = 0" "wmark t i = (if we_state e = Writing then 1 else 0)"
    using e un by (simp_all add: smark_settled wmark_writing)
  with u claim show ?thesis by (intro keeps_logI) (auto simp: claims_not_sent_def)
qed

lemma keeps_log_resolve:
  assumes e: "jmap_get (tr_entries t) i = Some e" and un: "\<not> we_settled e" and "we_state e = Writing"
  shows "keeps_log t (dropped {i} t, [EntryResolved i])"
proof -
  have "smark t i = 0" "wmark t i = 1"
    using assms by (simp_all add: smark_settled wmark_writing)
  with marks_dropped [OF e] show ?thesis by (intro keeps_logI) (auto simp: claims_not_sent_def)
qed

lemma keeps_log_released:
  assumes "jmap_wf (tr_entries t)" and "accounted t" and e: "jmap_get (tr_entries t) i = Some e"
    and "we_state e \<noteq> Writing" and "code \<noteq> []"
  shows "keeps_log t (dropped {i} t, if entry_settled t i then [] else [EntryRejected i code d])"
proof (cases "we_settled e")
  case True
  with e have "smark t i = 1" by (simp add: smark_settled)
  with marks_dropped [OF e] True e show ?thesis
    by (intro keeps_log_silent) (auto simp: entry_settled_def log_silent_def)
next
  case False
  with e assms(4) keeps_log_reject [OF e False, of d code "dropped {i} t"] show ?thesis
    by (simp add: entry_settled_def)
qed

definition waiting_entry :: "transport \<Rightarrow> nat \<Rightarrow> bool" where
  "waiting_entry t i \<longleftrightarrow> (\<exists>e. jmap_get (tr_entries t) i = Some e \<and> we_state e \<noteq> Writing)"

lemma waiting_entry_dropped: "waiting_entry (dropped A t) i = waiting_entry t i"
  by (auto simp: waiting_entry_def)

lemma keeps_log_reject_each:
  assumes "jmap_wf (tr_entries t)" and "accounted t" and "\<forall>i\<in>set is. waiting_entry t i"
  shows "keeps_log t (reject_each is t)"
  using assms
proof (induction "is" arbitrary: t)
  case (Cons i "is")
  from Cons.prems(3) obtain e where e: "jmap_get (tr_entries t) i = Some e" "we_state e \<noteq> Writing"
    by (auto simp: waiting_entry_def)
  note r = reject_released_map [OF Cons.prems(1,2), of i]
  have "keeps_log t (reject_released i t)"
    unfolding r by (rule keeps_log_released [OF Cons.prems(1,2) e]) simp
  moreover have "keeps_log (dropped {i} t) (reject_each is (dropped {i} t))"
    using Cons.prems by (intro Cons.IH) (simp_all add: waiting_entry_dropped)
  ultimately show ?case by (auto intro!: keeps_log_then simp: r)
qed simp

lemma keeps_log_stop:
  assumes core: "out_core t"
  shows "keeps_log t (stop_writes t)"
proof -
  note wf = out_coreD(1,2) [OF core]
  let ?t0 = "t\<lparr>tr_accepting := False\<rparr>"
  let ?r1 = "case tr_active ?t0 of None \<Rightarrow> (?t0, [])
    | Some i \<Rightarrow> reject_write i ''sidecar_transport_closed_during_write'' SentOutcomeUnknown ?t0"
  let ?A = "set (opt_list (tr_active t))"
  have r1: "keeps_log t ?r1 \<and> tr_entries (fst ?r1) = tr_entries (dropped ?A t) \<and> accounted (fst ?r1)"
  proof (cases "tr_active t")
    case None
    then show ?thesis using wf(2) dropped_empty [OF wf(2)]
      by (simp add: opt_list_def keeps_log_same log_silent_def)
  next
    case (Some i)
    obtain e where e: "jmap_get (tr_entries t) i = Some e" "we_state e = Writing"
      using slot_okD(5) [OF out_coreD(4) [OF core] Some] by blast
    have un: "\<And>x. jmap_get (tr_entries ?t0) i = Some x \<Longrightarrow> \<not> we_charged x"
      using active_uncharged [OF core Some] by simp
    have eq: "?r1 = (dropped {i} ?t0, if entry_settled t i then []
        else [EntryRejected i ''sidecar_transport_closed_during_write'' SentOutcomeUnknown])"
      using reject_uncharged_map(1) [of ?t0 i, OF _ _ un] wf Some by simp
    have "keeps_log t ?r1"
    proof (cases "we_settled e")
      case True
      with e have s: "smark t i = 1" "entry_settled t i" by (simp_all add: smark_settled entry_settled_def)
      have "wmark (dropped {i} ?t0) j = wmark t j" "smark (dropped {i} ?t0) j = smark t j" for j
        using marks_entries [of "dropped {i} ?t0" "dropped {i} t" j] marks_dropped [OF e(1), of j] s by auto
      then show ?thesis using s unfolding eq by (intro keeps_log_silent) (simp_all add: log_silent_def)
    next
      case False
      then show ?thesis
        using keeps_log_reject [OF e(1) False, of SentOutcomeUnknown _ "dropped {i} ?t0"] e
        unfolding eq by (simp add: entry_settled_def)
    qed
    then show ?thesis using Some eq by (simp add: opt_list_def)
  qed
  let ?u = "(fst ?r1)\<lparr>tr_control := [], tr_operation := []\<rparr>"
  have w: "\<forall>i\<in>set (waiting_ids t). waiting_entry ?u i"
  proof
    fix i assume "i \<in> set (waiting_ids t)"
    with waiting_state [OF out_coreD(4) [OF core]] have "waiting_entry (dropped ?A t) i"
      by (simp add: waiting_entry_dropped) (simp add: waiting_entry_def)
    with r1 show "waiting_entry ?u i" by (simp add: waiting_entry_def)
  qed
  have "keeps_log ?u (reject_each (waiting_ids t) ?u)"
    by (rule keeps_log_reject_each) (use r1 wf w in auto)
  moreover have "log_ok ?u outs = log_ok (fst ?r1) outs" for outs
    by (simp add: log_ok_def wmark_def smark_def)
  ultimately have k: "keeps_log (fst ?r1) (reject_each (waiting_ids t) ?u)"
    unfolding keeps_log_def by blast
  have ids: "tr_control t @ tr_operation t @ (case tr_preparing t of None \<Rightarrow> [] | Some i \<Rightarrow> [i]) @
      (case tr_prepared t of None \<Rightarrow> [] | Some i \<Rightarrow> [i]) = waiting_ids t"
    by (simp add: waiting_ids_def opt_list_def)
  show ?thesis
    unfolding stop_writes_def Let_def ids
    by (intro keeps_log_then) (use r1 k in \<open>simp_all add: keeps_log_same log_silent_def\<close>)
qed

lemma keeps_log_from:
  "keeps_log u r \<Longrightarrow> tr_entries u = tr_entries t \<Longrightarrow> keeps_log t r"
  by (simp add: keeps_log_def log_ok_def wmark_def smark_def)

subsection \<open>Order of the lanes\<close>

definition lane_at :: "transport \<Rightarrow> nat \<Rightarrow> frame_lane option" where
  "lane_at t i = map_option we_lane (jmap_get (tr_entries t) i)"

definition lane_ids :: "frame_lane \<Rightarrow> transport \<Rightarrow> nat list" where
  "lane_ids lane t = (case lane of
     ControlLane \<Rightarrow> tr_control t
   | OperationLane \<Rightarrow> opt_list (tr_preparing t) @ opt_list (tr_prepared t) @ tr_operation t)"

definition lane_written :: "transport \<Rightarrow> frame_lane \<Rightarrow> transport_output list \<Rightarrow> nat list" where
  "lane_written t lane outs = filter (\<lambda>i. lane_at t i = Some lane) (written outs)"

text \<open>A step writes, per lane, entries from the front of what waits there, and adds none.\<close>

definition keeps_order :: "transport \<Rightarrow> transport \<times> transport_output list \<Rightarrow> bool" where
  "keeps_order t r \<longleftrightarrow> tr_next_id (fst r) = tr_next_id t \<and> lane_at (fst r) = lane_at t \<and>
     (\<forall>lane. subseq (lane_written t lane (snd r) @ lane_ids lane (fst r)) (lane_ids lane t))"

lemma lane_written_append [simp]: "lane_written t lane (a @ b) = lane_written t lane a @ lane_written t lane b"
  by (simp add: lane_written_def)

lemma lane_ids_simps:
  "lane_ids ControlLane t = tr_control t"
  "lane_ids OperationLane t = opt_list (tr_preparing t) @ opt_list (tr_prepared t) @ tr_operation t"
  by (simp_all add: lane_ids_def)

lemma keeps_order_then:
  assumes "keeps_order t r" and "keeps_order (fst r) (f (fst r))"
  shows "keeps_order t (then_do r f)"
proof -
  let ?s = "f (fst r)"
  have "subseq (lane_written t lane (snd r) @ lane_written t lane (snd ?s) @ lane_ids lane (fst ?s))
      (lane_ids lane t)" for lane
  proof -
    have "subseq (lane_written t lane (snd ?s) @ lane_ids lane (fst ?s)) (lane_ids lane (fst r))"
      using assms by (simp add: keeps_order_def lane_written_def)
    then have "subseq (lane_written t lane (snd r) @ lane_written t lane (snd ?s) @ lane_ids lane (fst ?s))
        (lane_written t lane (snd r) @ lane_ids lane (fst r))"
      by (intro list_emb_append_mono) simp_all
    also have "subseq \<dots> (lane_ids lane t)" using assms(1) by (simp add: keeps_order_def)
    finally show ?thesis .
  qed
  with assms show ?thesis by (simp add: keeps_order_def)
qed

lemma keeps_order_silent:
  assumes "tr_next_id u = tr_next_id t" and "lane_at u = lane_at t" and "written outs = []"
    and "\<And>lane. subseq (lane_ids lane u) (lane_ids lane t)"
  shows "keeps_order t (u, outs)"
  using assms by (simp add: keeps_order_def lane_written_def)

lemma lane_at_map:
  assumes "\<And>k e. we_lane (g k e) = we_lane e" and "tr_entries u = jmap_map g (tr_entries t)"
  shows "lane_at u = lane_at t"
  by (rule ext) (simp add: lane_at_def assms option.map_comp comp_def)

lemma lane_at_same: "tr_entries u = tr_entries t \<Longrightarrow> lane_at u = lane_at t"
  by (rule ext) (simp add: lane_at_def)

text \<open>Both contracts together, which the operations keep.\<close>

definition coherent :: "transport \<Rightarrow> transport \<times> transport_output list \<Rightarrow> bool" where
  "coherent t r \<longleftrightarrow> keeps_log t r \<and> keeps_order t r"

lemma coherent_then: "coherent t r \<Longrightarrow> coherent (fst r) (f (fst r)) \<Longrightarrow> coherent t (then_do r f)"
  by (simp add: coherent_def keeps_log_then keeps_order_then)

definition store_view :: "transport \<Rightarrow> _" where
  "store_view t = (tr_entries t, tr_next_id t, lane_ids ControlLane t, lane_ids OperationLane t)"

lemma store_view_write: "write_view u = write_view t \<Longrightarrow> store_view u = store_view t"
  by (simp add: store_view_def lane_ids_simps write_view_def)

lemmas store_view_view [simp] = write_view_upd [THEN store_view_write]
  write_view_with_inbound [THEN store_view_write]

lemma store_viewD:
  assumes "store_view u = store_view t"
  shows "tr_entries u = tr_entries t" "tr_next_id u = tr_next_id t" "lane_ids lane u = lane_ids lane t"
  using assms by (cases lane; simp add: store_view_def)+

lemma coherent_same:
  assumes "store_view u = store_view t" and "log_silent outs"
  shows "coherent t (u, outs)"
proof -
  note v = store_viewD [OF assms(1)]
  have "keeps_log t (u, outs)" by (rule keeps_log_same [OF v(1) assms(2)])
  moreover have "keeps_order t (u, outs)"
    by (rule keeps_order_silent) (use v(2,3) lane_at_same [OF v(1)] assms(2) in \<open>simp_all add: log_silent_def\<close>)
  ultimately show ?thesis by (simp add: coherent_def)
qed

lemma coherent_from:
  assumes "coherent u r" and "store_view u = store_view t"
  shows "coherent t r"
proof -
  note v = store_viewD [OF assms(2)]
  from assms(1) show ?thesis
    using keeps_log_from [OF _ v(1), of r] lane_at_same [OF v(1)] v(2,3)
    by (simp add: coherent_def keeps_order_def lane_written_def)
qed

lemma written_stop [simp]: "written (stop_outputs t) = []"
proof -
  have "written (map (\<lambda>i. EntryRejected i c d) xs) = []" for c d xs by (induction xs) simp_all
  then show ?thesis by (simp add: stop_outputs_def)
qed

lemma keeps_order_stop:
  assumes "out_core t"
  shows "keeps_order t (stop_writes t)"
proof -
  have "lane_at (stopped t) = lane_at t"
    by (rule lane_at_map [of "drop_in UNIV"]) simp_all
  moreover have "subseq (lane_ids lane (stopped t)) (lane_ids lane t)" for lane
    by (cases lane) (simp_all add: lane_ids_simps opt_list_def split: option.splits)
  ultimately show ?thesis
    unfolding stop_writes_map [OF assms] by (intro keeps_order_silent) simp_all
qed

lemma coherent_stop: "out_core t \<Longrightarrow> coherent t (stop_writes t)"
  by (simp add: coherent_def keeps_log_stop keeps_order_stop)

lemma store_view_upd [simp]:
  "store_view (t\<lparr>tr_close := c\<rparr>) = store_view t" "store_view (t\<lparr>tr_closed_settled := x\<rparr>) = store_view t"
  "store_view (t\<lparr>tr_accepting := a\<rparr>) = store_view t" "store_view (t\<lparr>tr_active := i\<rparr>) = store_view t"
  "store_view (t\<lparr>tr_pumping := b\<rparr>) = store_view t" "store_view (t\<lparr>tr_pump := p\<rparr>) = store_view t"
  "store_view (t\<lparr>tr_queued_bytes := n\<rparr>) = store_view t" "store_view (stop_pump t) = store_view t"
  by (simp_all add: store_view_def lane_ids_simps stop_pump_def)

lemma log_silent_simps [simp]:
  "log_silent []" "log_silent [StreamClose r]" "log_silent [ClosedResolved c]" "log_silent [ClosedRejected e]"
  "log_silent [SendRejected e d]" "log_silent [CompressStart i b]" "log_silent [DecompressStart f]"
  "log_silent [FrameYielded b]" "log_silent [FramesEnded]" "log_silent [FramesFailed e]"
  by (simp_all add: log_silent_def)

lemma coherent_perform:
  assumes "out_core t"
  shows "coherent t (perform_close r t)" and "coherent t (perform_autonomous_close r t)"
  unfolding perform_close_def perform_autonomous_close_def
  by (intro coherent_then coherent_stop assms coherent_same; simp)+

lemma coherent_close: "out_core t \<Longrightarrow> coherent t (close_transport r t)"
  by (simp add: close_transport_def coherent_perform coherent_same)

lemma coherent_autonomous: "out_core t \<Longrightarrow> coherent t (autonomous_close r t)"
  by (simp add: autonomous_close_def coherent_perform coherent_same)

lemma coherent_settle:
  assumes "out_core t"
  shows "coherent t (settle_closed c t)" and "coherent t (settle_cleanup_failure e t)"
proof -
  have "coherent t (stop_writes (t\<lparr>tr_closed_settled := True\<rparr>))"
    by (rule coherent_from [OF coherent_stop]) (use assms in \<open>simp_all add: close_flag_upd\<close>)
  then show "coherent t (settle_closed c t)" "coherent t (settle_cleanup_failure e t)"
    unfolding settle_closed_def settle_cleanup_failure_def
    by (simp_all add: coherent_then coherent_same)
qed

lemma coherent_stream_close: "out_core t \<Longrightarrow> coherent t (stream_close_done f t)"
  by (auto simp: stream_close_done_def coherent_settle coherent_same split: option.splits close_promise.splits)

lemma coherent_eof: "out_core t \<Longrightarrow> coherent t (finish_clean_eof t)"
  by (auto simp: finish_clean_eof_def coherent_settle coherent_same split: option.splits)

subsection \<open>The pump\<close>

lemma unslotted_order:
  assumes "pick_entry t = Some (i, u)" and "tr_preparing t = None"
    and lane: "\<And>j. j \<in> set (tr_control t) \<Longrightarrow> lane_at t j = Some ControlLane"
      "\<And>j. j \<in> set (tr_operation t) \<or> tr_prepared t = Some j \<Longrightarrow> lane_at t j = Some OperationLane"
  shows "filter (\<lambda>j. lane_at t j = Some l) [i] @ lane_ids l u = lane_ids l t"
    and "tr_control t = [] \<or> lane_at t i = Some ControlLane"
  using assms by (cases l; auto simp: pick_entry_def lane_ids_simps opt_list_def split: list.splits option.splits)+

lemma slot_lanes:
  assumes "out_core t"
  shows "j \<in> set (tr_control t) \<Longrightarrow> lane_at t j = Some ControlLane"
    and "j \<in> set (tr_operation t) \<or> tr_prepared t = Some j \<Longrightarrow> lane_at t j = Some OperationLane"
proof -
  note s = slot_okD [OF out_coreD(4) [OF assms]]
  show "lane_at t j = Some ControlLane" if "j \<in> set (tr_control t)"
    using s(1) [OF that] by (auto simp: lane_at_def)
  show "lane_at t j = Some OperationLane" if "j \<in> set (tr_operation t) \<or> tr_prepared t = Some j"
    using that
  proof
    assume "j \<in> set (tr_operation t)"
    from s(2) [OF this] show ?thesis by (auto simp: lane_at_def)
  next
    assume "tr_prepared t = Some j"
    from s(4) [OF this] obtain e where e: "jmap_get (tr_entries t) j = Some e" "we_state e = Prepared" by blast
    from out_coreD(3) [OF assms e(1)] e show ?thesis by (simp add: entry_ok_def lane_at_def)
  qed
qed

lemma coherent_start:
  assumes core: "out_core t" and pick: "pick_entry t = Some (i, u)" and prep: "tr_preparing t = None"
    and e: "jmap_get (tr_entries t) i = Some e" "\<not> we_settled e" "we_state e \<noteq> Writing" and un: "unslotted i t u"
  shows "coherent t (start_write i framed u)"
proof -
  note s = unslotted_sel [OF un]
  have wf: "jmap_wf (tr_entries u)" using out_coreD(1) [OF core] s(8) by simp
  obtain v where v: "start_write i framed u = (v, [StreamWrite i framed])"
      "tr_entries v = jmap_map (at_entry i (begin_write framed)) (tr_entries t)"
      "tr_next_id v = tr_next_id t" "\<And>l. lane_ids l v = lane_ids l u"
  proof -
    have "tr_next_id u = tr_next_id t" using pick by (auto simp: pick_entry_def split: list.splits option.splits)
    with start_write_map [OF wf, of i framed] s(8) show thesis
      by (intro that [of "fst (start_write i framed u)"]) (simp_all add: lane_ids_def split: frame_lane.splits)
  qed
  have lane: "lane_at v = lane_at t"
    by (rule lane_at_map [OF _ v(2)]) (simp add: at_entry_def)
  have marks: "wmark t i = 0" "smark t i = 0" "wmark v j = (if j = i then 1 else wmark t j)" "smark v j = smark t j" for j
    using e by (auto simp: wmark_def smark_def v(2) at_entry_def split: option.splits)
  have "keeps_log t (v, [StreamWrite i framed])"
    by (rule keeps_logI) (use marks in \<open>auto simp: claims_not_sent_def\<close>)
  moreover have "keeps_order t (v, [StreamWrite i framed])"
    using unslotted_order(1) [OF pick prep slot_lanes [OF core]] v(3,4) lane
    by (auto simp: keeps_order_def lane_written_def)
  ultimately show ?thesis by (simp add: coherent_def v(1))
qed

lemma coherent_pump:
  assumes ready: "pump_ready t"
  shows "coherent t (pump t)"
proof -
  have r: "out_core t" "transport_limits (tr_limits t)" "tr_active t = None" "tr_preparing t = None"
    using ready by (simp_all add: pump_ready_def)
  from r(1,2) show ?thesis
  proof (cases rule: pump_cases)
    case idle
    then show ?thesis by (simp add: coherent_same)
  next
    case (writes i e u framed)
    from coherent_start [OF r(1) writes(2) r(4) writes(3-6)] writes(1) show ?thesis by simp
  next
    case (compress i e u payload)
    note s = unslotted_sel [OF compress(7)]
    let ?v = "preparing_state i u"
    have lane: "lane_at ?v = lane_at t"
      by (rule lane_at_map [of "at_entry i begin_prepare"]) (simp_all add: at_entry_def preparing_state_def s(8))
    have marks: "wmark ?v j = wmark t j" "smark ?v j = smark t j" for j
      using compress(3-5)
      by (auto simp: wmark_def smark_def preparing_state_def s(8) at_entry_def split: option.splits)
    have c: "tr_control t = []" "tr_operation t = i # tr_operation u" "tr_control u = []"
      "tr_next_id u = tr_next_id t" "tr_prepared u = None"
      using compress(2,5,6,8) slot_okD(1) [OF out_coreD(4) [OF r(1)], of i] compress(3)
      by (auto simp: pick_entry_def split: list.splits option.splits)
    have "keeps_log t (?v, [CompressStart i payload])"
      by (rule keeps_log_silent) (use marks in simp_all)
    moreover have "keeps_order t (?v, [CompressStart i payload])"
    proof (rule keeps_order_silent [OF _ lane])
      show "subseq (lane_ids l ?v) (lane_ids l t)" for l
        using c r(4) compress(8) by (cases l) (simp_all add: lane_ids_simps preparing_state_def opt_list_def)
    qed (use c in \<open>simp_all add: preparing_state_def\<close>)
    ultimately show ?thesis using compress(1) by (simp add: coherent_def)
  qed
qed

subsection \<open>Settling one entry\<close>

lemma lane_at_dropped: "lane_at (dropped A t) = lane_at t"
  by (rule lane_at_map [of "drop_in A"]) simp_all

lemma order_dropped:
  assumes "written outs = []"
  shows "keeps_order t (dropped {i} t, outs)"
  by (rule keeps_order_silent) (use assms in \<open>simp_all add: lane_at_dropped lane_ids_def split: frame_lane.splits\<close>)

lemma coherent_resolve:
  assumes core: "out_core t" and e: "jmap_get (tr_entries t) i = Some e" "we_state e = Writing"
  shows "coherent t (dropped {i} t, if entry_settled t i then [] else [EntryResolved i])"
proof (cases "we_settled e")
  case True
  with e dropped_settled [OF core, of i] show ?thesis by (simp add: entry_settled_def coherent_same)
next
  case False
  with e keeps_log_resolve [OF e(1) False e(2)] order_dropped [of "[EntryResolved i]" t i] show ?thesis
    by (simp add: coherent_def entry_settled_def)
qed

lemma coherent_reject:
  assumes core: "out_core t" and e: "jmap_get (tr_entries t) i = Some e"
    and claim: "d = NotSent \<Longrightarrow> we_state e \<noteq> Writing \<or> code = ''sidecar_stream_write_failed''"
  shows "coherent t (dropped {i} t, if entry_settled t i then [] else [EntryRejected i code d])"
proof (cases "we_settled e")
  case True
  with e dropped_settled [OF core, of i] show ?thesis by (simp add: entry_settled_def coherent_same)
next
  case False
  with e keeps_log_reject [OF e False claim, where u = "dropped {i} t"] order_dropped [of "[EntryRejected i code d]" t i]
  show ?thesis by (simp add: coherent_def entry_settled_def)
qed

lemma coherent_write_done:
  assumes inv: "out_inv t"
  shows "coherent t (write_done failure t)"
proof (cases "tr_pump t")
  case (PumpWriting i)
  obtain e where a: "jmap_get (tr_entries t) i = Some e" "we_state e = Writing" "tr_active t = Some i"
    "tr_preparing t = None" "tr_pumping t" "without_entry i t = t" "\<not> we_charged e"
    using active_entry [OF inv PumpWriting] .
  have core: "out_core t" using inv by (simp add: out_inv_def)
  have un: "\<And>x. jmap_get (tr_entries t) i = Some x \<Longrightarrow> \<not> we_charged x" using a by simp
  note fin = reject_uncharged_map [OF out_coreD(1,2) [OF core] un]
  have d: "out_inv (dropped {i} t)" using out_inv_drop [OF inv, of i] a(6) by simp
  show ?thesis
  proof (cases failure)
    case None
    have "(dropped {i} t)\<lparr>tr_active := None\<rparr> = dropped {i} (t\<lparr>tr_preparing := None, tr_active := None\<rparr>)"
      using a(4) by (simp add: dropped_def Let_def)
    then have "pump_ready ((dropped {i} t)\<lparr>tr_active := None\<rparr>)"
      using pump_ready_drop [OF inv a(6,5)] a(3,4) by simp
    then show ?thesis
      using PumpWriting None coherent_resolve [OF core a(1,2)]
      by (simp add: write_done_def fin(2) coherent_then coherent_same coherent_pump)
  next
    case (Some delivery)
    with PumpWriting coherent_reject [OF core a(1), of delivery "''sidecar_stream_write_failed''"] d show ?thesis
      by (simp add: write_done_def fin(1) coherent_then coherent_same coherent_close out_inv_def)
  qed
qed (simp_all add: write_done_def coherent_same)

lemma coherent_without: "coherent t (without_entry i t, [])"
proof -
  have "subseq (lane_ids l (without_entry i t)) (lane_ids l t)" for l
    by (cases l) (auto simp: lane_ids_simps opt_list_def intro!: list_emb_append_mono subseq_filter_left
        split: option.splits)
  then show ?thesis
    by (simp add: coherent_def keeps_log_same keeps_order_silent lane_at_def fun_eq_iff)
qed

lemma coherent_abort:
  assumes inv: "out_inv t"
  shows "coherent t (abort_write i t)"
proof (cases "jmap_get (tr_entries t) i")
  case None
  then show ?thesis by (simp add: abort_write_def coherent_same)
next
  case (Some e)
  have core: "out_core t" using inv by (simp add: out_inv_def)
  consider "we_settled e" | "\<not> we_settled e" "we_state e = Writing" | "\<not> we_settled e" "we_state e \<noteq> Writing"
    by blast
  then show ?thesis
  proof cases
    case 1
    with Some show ?thesis by (simp add: abort_write_def coherent_same)
  next
    case 2
    note m = abort_writing_map [OF inv Some 2]
    from m(2) 2 Some coherent_reject [OF core Some, of SentOutcomeUnknown "''sidecar_frame_send_aborted''"]
    show ?thesis by (simp add: m(1) coherent_then coherent_close out_inv_def entry_settled_def)
  next
    case 3
    let ?out = "[EntryRejected i ''sidecar_frame_send_aborted'' NotSent]"
    have get: "jmap_get (tr_entries (without_entry i t)) i = Some e" using Some by simp
    have "keeps_log (without_entry i t) (dropped {i} (without_entry i t), ?out)"
      by (rule keeps_log_reject [OF get 3(1)]) (use 3(2) in simp_all)
    with order_dropped [of ?out "without_entry i t" i]
    have "coherent (without_entry i t) (dropped {i} (without_entry i t), ?out)" by (simp add: coherent_def)
    then have "coherent t (then_do (without_entry i t, []) (\<lambda>u. (dropped {i} u, ?out)))"
      by (simp add: coherent_then coherent_without)
    with abort_write_map [OF core Some 3] show ?thesis by (simp add: then_do_def)
  qed
qed

lemma reject_released_coherent:
  assumes core: "out_core t" and e: "jmap_get (tr_entries t) i = Some e" "we_state e \<noteq> Writing"
  shows "coherent t (reject_released i t)"
  using reject_released_map [OF out_coreD(1,2) [OF core], of i] coherent_reject [OF core e(1), of NotSent] e(2)
  by simp

lemma coherent_end_prepare:
  assumes core: "out_core t" and e: "jmap_get (tr_entries t) i = Some e" "we_state e = Preparing"
    and a: "tr_preparing t = Some i" "tr_prepared t = None"
  shows "coherent t ((map_entries (at_entry i (end_prepare framed)) t)\<lparr>tr_prepared := Some i, tr_preparing := None\<rparr>, [])"
    (is "coherent t (?v, [])")
proof -
  have lane: "lane_at ?v = lane_at t"
    by (rule lane_at_map [of "at_entry i (end_prepare framed)"]) (simp_all add: at_entry_def end_prepare_def)
  have marks: "wmark ?v j = wmark t j" "smark ?v j = smark t j" for j
    using e by (auto simp: wmark_def smark_def at_entry_def end_prepare_def split: option.splits)
  have "keeps_log t (?v, [])" by (rule keeps_log_silent) (use marks in simp_all)
  moreover have "keeps_order t (?v, [])"
  proof (rule keeps_order_silent [OF _ lane])
    show "subseq (lane_ids l ?v) (lane_ids l t)" for l
      using a by (cases l) (simp_all add: lane_ids_simps opt_list_def)
  qed simp_all
  ultimately show ?thesis by (simp add: coherent_def)
qed

lemma coherent_unprepare: "coherent t (t\<lparr>tr_preparing := None\<rparr>, [])"
proof -
  have "subseq (lane_ids l (t\<lparr>tr_preparing := None\<rparr>)) (lane_ids l t)" for l
    by (cases l) (simp_all add: lane_ids_simps list_emb_append2 opt_list_def [of None])
  then show ?thesis by (simp add: coherent_def keeps_log_same keeps_order_silent lane_at_def fun_eq_iff)
qed

text \<open>The compression job's continuation up to the next turn of the pump.\<close>

lemma coherent_compress_result:
  fixes res :: "bytes option result"
  assumes inv: "out_inv t" and pump: "tr_pump t = PumpCompressing i"
  shows "coherent t (then_do (compress_result i res t)
            (\<lambda>u. let r = (if \<not> entry_settled u i \<and> \<not> tr_accepting u then reject_released i u else (u, []))
                 in then_do r (\<lambda>v. (v\<lparr>tr_preparing := None\<rparr>, []))))"
proof -
  obtain e where a: "jmap_get (tr_entries t) i = Some e" "we_state e = Preparing" "tr_preparing t = Some i"
    "tr_active t = None" "tr_prepared t = None" "tr_pumping t" "without_entry i t = t"
    using preparing_entry [OF inv pump] .
  have core: "out_core t" using inv by (simp add: out_inv_def)
  note wf = out_coreD(1,2) [OF core]
  have d: "out_inv (dropped {i} t)" "entry_settled (dropped {i} t) i"
    using out_inv_drop [OF inv, of i] a(7) by (simp_all add: entry_settled_dropped)
  consider (settled) "entry_settled t i" | (stopped) "\<not> entry_settled t i" "\<not> tr_accepting t"
    | (live) "\<not> entry_settled t i" "tr_accepting t" by blast
  then show ?thesis
  proof cases
    case settled
    then show ?thesis by (simp add: compress_result_def then_do_pair coherent_unprepare)
  next
    case stopped
    with reject_released_coherent [OF core a(1)] a(2)
    have "coherent t (then_do (reject_released i t) (\<lambda>v. (v\<lparr>tr_preparing := None\<rparr>, [])))"
      by (intro coherent_then coherent_unprepare) simp
    with stopped show ?thesis by (simp add: compress_result_def then_do_def Let_def)
  next
    case live
    show ?thesis
    proof (cases "case res of Inl e \<Rightarrow> Inl e | Inr c \<Rightarrow> compress_framed i c t")
      case (Inr framed)
      with live coherent_end_prepare [OF core a(1,2,3,5), of framed] show ?thesis
        by (simp add: compress_result_def upd_entry_map [OF wf(1)] end_prepare_def [abs_def] then_do_pair)
    next
      case (Inl x)
      let ?r = "then_do (dropped {i} t, [EntryRejected i ''sidecar_frame_compression_failed'' NotSent])
          (close_transport ''sidecar_frame_compression_failed'')"
      have c: "compress_result i res t = ?r"
        using live Inl by (simp add: compress_result_def reject_after_release [OF wf])
      have "coherent t ?r"
        using live coherent_reject [OF core a(1), of NotSent "''sidecar_frame_compression_failed''"] a(2) d(1)
        by (simp add: coherent_then coherent_close out_inv_def)
      moreover have "entry_settled (fst ?r) i"
        using close_keeps_pump(2) [OF d(1)] out_inv_close [OF d(1)]
        by (auto simp: out_inv_def closed_ok_def entry_settled_def split: option.splits)
      ultimately show ?thesis
        unfolding c by (intro coherent_then [of t ?r]) (simp_all add: then_do_pair coherent_unprepare)
    qed
  qed
qed

lemma coherent_compress:
  assumes inv: "out_inv t"
  shows "coherent t (compress_done res t)"
proof (cases "tr_pump t")
  case (PumpCompressing i)
  then show ?thesis
    using coherent_pump [OF compress_result_ready [OF inv PumpCompressing, of res]]
      coherent_compress_result [OF inv PumpCompressing, of res]
    by (simp add: compress_done_def coherent_then Let_def)
qed (simp_all add: compress_done_def coherent_same)

subsection \<open>The reader and the consumer\<close>

lemma coherent_upd:
  assumes "coherent u r" and "write_view u = write_view t"
  shows "coherent t r"
  by (rule coherent_from [OF assms(1) store_view_write [OF assms(2)]])

lemma coherent_reader_failed [sedes_inv]: "out_inv t \<Longrightarrow> coherent t (reader_failed e t)"
  unfolding reader_failed_def
  by (rule coherent_upd [OF coherent_autonomous]) (simp_all add: out_inv_view(1) [OF write_view_upd(7)] out_inv_def)

lemma coherent_read_frame [sedes_inv]: "out_inv t \<Longrightarrow> coherent t (read_frame t)"
  by (auto simp: read_frame_def Let_def coherent_same intro: coherent_reader_failed split: sum.splits option.splits)

lemma coherent_read_chunk [sedes_inv]: "out_inv t \<Longrightarrow> coherent t (read_chunk c t)"
  by (auto simp: read_chunk_def coherent_same intro: coherent_reader_failed
      coherent_upd [OF coherent_read_frame] split: sum.splits)

lemma coherent_reader_continue [sedes_inv]: "out_inv t \<Longrightarrow> coherent t (reader_continue t)"
  by (auto simp: reader_continue_def Let_def coherent_same
      intro: coherent_reader_failed coherent_read_frame split: reader_position.splits)

lemma coherent_read_eof [sedes_inv]: "out_inv t \<Longrightarrow> coherent t (read_eof t)"
  by (auto simp: read_eof_def coherent_same intro: coherent_reader_failed)

lemma coherent_read_closure [sedes_inv]:
  assumes inv: "out_inv t"
  shows "coherent t (read_closure res t)"
proof (cases res)
  case (Inl e)
  with inv show ?thesis by (simp add: read_closure_def coherent_reader_failed)
next
  case (Inr c)
  let ?t = "t\<lparr>tr_reader := ReaderDone, tr_clean_eof := Some c\<rparr>"
  let ?u = "with_inbound (close_queue None (tr_inbound t)) (?t\<lparr>tr_accepting := False\<rparr>)"
  have t: "out_inv ?t" using inv by simp
  from out_inv_not_accepting [OF t] have "out_inv ?u" by simp
  then have "coherent t (finish_clean_eof ?u)"
    by (intro coherent_from [OF coherent_eof]) (simp_all add: out_inv_def)
  moreover have "coherent t (settle_closed c ?t)"
    using t by (intro coherent_from [OF coherent_settle(1)]) (simp_all add: out_inv_def)
  ultimately show ?thesis using Inr by (simp add: read_closure_def Let_def)
qed

lemma coherent_consumer_stop [sedes_inv]:
  assumes inv: "out_inv t"
  shows "coherent t (consumer_stop failure t)"
proof -
  let ?t = "t\<lparr>tr_consumer := ConsumerDone\<rparr>"
  let ?r = "case failure of Some e \<Rightarrow> if tr_closed_settled ?t then (?t, []) else autonomous_close e ?t
     | None \<Rightarrow> (?t, [])"
  have t: "out_inv ?t" using inv by simp
  then have core: "out_core ?t" by (simp add: out_inv_def del: out_inv_upd)
  have r: "coherent t ?r" "out_inv (fst ?r)"
    using t coherent_upd [OF coherent_autonomous [OF core], of t]
    by (auto simp: coherent_same out_inv_autonomous split: option.splits)
  have "coherent (fst ?r) (if tr_closed_settled (fst ?r) then (fst ?r, [])
      else close_transport ''sidecar_frame_consumer_closed'' (fst ?r))"
    using r(2) by (simp add: coherent_same coherent_close out_inv_def)
  then show ?thesis
    unfolding consumer_stop_def Let_def using r(1)
    by (intro coherent_then coherent_same) (simp_all split: option.splits)
qed

lemma coherent_consumer_dropped [sedes_inv]: "out_inv t \<Longrightarrow> coherent t (consumer_dropped failure t)"
  unfolding consumer_dropped_def by (rule coherent_upd [OF coherent_consumer_stop]) simp_all

lemma coherent_consumer_continue [sedes_inv]: "out_inv t \<Longrightarrow> coherent t (consumer_continue t)"
  by (auto simp: consumer_continue_def consumer_frame_def coherent_same
      intro: coherent_consumer_dropped coherent_consumer_stop split: consumer_position.splits)

lemma coherent_decompress [sedes_inv]: "out_inv t \<Longrightarrow> coherent t (decompress_done res t)"
  by (auto simp: decompress_done_def coherent_same intro: coherent_consumer_dropped
      split: consumer_position.splits sum.splits)

lemma coherent_advance [sedes_inv]:
  assumes "out_inv t"
  shows "coherent t (consumer_advance t)"
proof -
  have "coherent t (finish_clean_eof (t\<lparr>tr_unconsumed := n\<rparr>))" for n
    using assms out_inv_view(1) [OF write_view_upd(5)] by (intro coherent_upd [OF coherent_eof]) (simp_all add: out_inv_def)
  then show ?thesis
    by (auto simp: consumer_advance_def consumer_next_def coherent_same coherent_then split: consumer_position.splits)
qed

lemma coherent_return [sedes_inv]: "out_inv t \<Longrightarrow> coherent t (consumer_return t)"
  by (auto simp: consumer_return_def coherent_same intro: coherent_consumer_dropped split: consumer_position.splits)

lemma coherent_claim: "claim_frames t = Inr u \<Longrightarrow> coherent t (consumer_next u, [])"
  by (auto simp: claim_frames_def consumer_next_def intro!: coherent_same split: if_splits sum.splits)

lemma coherent_commit: "commit_compression m t = Inr u \<Longrightarrow> coherent t (u, [])"
  by (auto simp: commit_compression_def intro!: coherent_same split: if_splits)

subsection \<open>Runs\<close>

text \<open>What a run maintains of the log of all its outputs.\<close>

definition traced :: "transport \<Rightarrow> transport_output list \<Rightarrow> bool" where
  "traced t outs \<longleftrightarrow> log_ok t outs \<and> (\<forall>i. lane_at t i = None \<longleftrightarrow> tr_next_id t \<le> i) \<and>
     (\<forall>lane. sorted_wrt (<) (lane_written t lane outs @ lane_ids lane t))"

lemma sorted_wrt_subseq: "subseq xs ys \<Longrightarrow> sorted_wrt P ys \<Longrightarrow> sorted_wrt P xs"
proof (induction rule: list_emb.induct)
  case (list_emb_Cons2 x y xs ys)
  then have "set xs \<subseteq> set ys" by (auto dest: list_emb_set)
  with list_emb_Cons2 show ?case by auto
qed simp_all

lemma traced_coherent:
  assumes run: "traced t outs" and step: "coherent t r"
  shows "traced (fst r) (outs @ snd r)"
proof -
  have o: "tr_next_id (fst r) = tr_next_id t" "lane_at (fst r) = lane_at t"
    "\<And>l. subseq (lane_written t l (snd r) @ lane_ids l (fst r)) (lane_ids l t)"
    using step by (simp_all add: coherent_def keeps_order_def)
  have lw: "lane_written (fst r) l x = lane_written t l x" for l x by (simp add: lane_written_def o(2))
  have "sorted_wrt (<) (lane_written t l outs @ lane_written t l (snd r) @ lane_ids l (fst r))" for l
  proof (rule sorted_wrt_subseq)
    show "sorted_wrt (<) (lane_written t l outs @ lane_ids l t)" using run by (simp add: traced_def)
  qed (intro list_emb_append_mono o(3), simp)
  moreover have "log_ok (fst r) (outs @ snd r)"
    using run step by (simp add: traced_def coherent_def keeps_log_def)
  ultimately show ?thesis using run by (simp add: traced_def o lw)
qed

lemma written_known:
  assumes "log_ok t outs" and "i \<in> set (written outs)"
  shows "lane_at t i \<noteq> None"
proof -
  have "count_list (written outs) i = wmark t i" using assms(1) by (simp add: log_ok_def)
  with assms(2) have "wmark t i \<noteq> 0" by (metis count_list_0_iff)
  then show ?thesis by (auto simp: wmark_def lane_at_def split: option.splits)
qed

lemma traced_enqueue:
  assumes run: "traced t outs" and core: "out_core t"
  shows "traced (enqueue bs lane st t) outs"
proof -
  let ?n = "tr_next_id t" and ?v = "enqueue bs lane st t"
  have log: "log_ok t outs" and known: "\<And>i. lane_at t i = None \<longleftrightarrow> ?n \<le> i"
    using run by (simp_all add: traced_def)
  have lane: "lane_at ?v i = (if i = ?n then Some lane else lane_at t i)" for i
    by (simp add: lane_at_def enqueue_sel)
  have "wmark ?v i = wmark t i" "smark ?v i = smark t i" for i
    using fresh_id [OF core] by (auto simp: wmark_def smark_def enqueue_sel)
  with log have "log_ok ?v outs" by (simp add: log_ok_def)
  moreover have "lane_at ?v i = None \<longleftrightarrow> tr_next_id ?v \<le> i" for i
    using known [of i] by (auto simp: lane enqueue_sel)
  moreover have "sorted_wrt (<) (lane_written ?v l outs @ lane_ids l ?v)" for l
  proof -
    have old: "i < ?n" if "i \<in> set (written outs)" for i
      using written_known [OF log that] known [of i] by simp
    have lw: "lane_written ?v l outs = lane_written t l outs"
      unfolding lane_written_def by (rule filter_cong [OF refl]) (use old lane in force)
    have ids: "lane_ids l ?v = lane_ids l t @ (if l = lane then [?n] else [])"
      by (cases l; cases lane) (simp_all add: lane_ids_simps enqueue_sel)
    have below: "j < ?n" if "j \<in> set (lane_ids l t)" for j
    proof -
      have "lane_at t j \<noteq> None"
        using that slot_okD [OF out_coreD(4) [OF core], of j]
        by (cases l) (auto simp: lane_ids_simps lane_at_def opt_list_def split: option.splits)
      with known [of j] show ?thesis by simp
    qed
    have "sorted_wrt (<) (lane_written t l outs @ lane_ids l t)" using run by (simp add: traced_def)
    with below old show ?thesis
      unfolding lw ids by (auto simp: sorted_wrt_append lane_written_def)
  qed
  ultimately show ?thesis by (simp add: traced_def)
qed

lemma traced_send:
  assumes run: "traced t outs" and inv: "out_inv t"
  shows "traced (fst (send bs lane aborted st t)) (outs @ snd (send bs lane aborted st t))"
proof (cases "admits bs aborted st t")
  case False
  then obtain code where "send bs lane aborted st t = (t, [SendRejected code NotSent])"
    using send_cases(2) by blast
  with traced_coherent [OF run coherent_same, of t "[SendRejected code NotSent]"] show ?thesis by simp
next
  case adm: True
  let ?v = "enqueue bs lane st t"
  have v: "traced ?v outs" using traced_enqueue [OF run] inv by (simp add: out_inv_def)
  have "coherent ?v (pump_writes ?v)"
  proof (cases "tr_pumping t")
    case False
    from coherent_from [OF coherent_pump [OF enqueue_ready [OF inv adm False, of lane]], of ?v] False
    show ?thesis by (simp add: pump_writes_def enqueue_sel)
  qed (simp add: pump_writes_def enqueue_sel coherent_same)
  from traced_coherent [OF v this] show ?thesis by (simp add: send_cases(1) [OF adm])
qed

lemma traced_step:
  assumes run: "traced t outs" and inv: "out_inv t"
  shows "traced (fst (transport_step p t)) (outs @ snd (transport_step p t))"
proof (cases "\<exists>bs lane aborted st. p = OpSend bs lane aborted st")
  case True
  with traced_send [OF run inv] show ?thesis by auto
next
  case False
  have "out_core t" using inv by (simp add: out_inv_def)
  with inv False have "coherent t (transport_step p t)"
    by (cases p) (auto intro: coherent_compress coherent_write_done coherent_abort coherent_close
        coherent_stream_close coherent_claim coherent_commit sedes_inv simp: coherent_same split: sum.splits)
  from traced_coherent [OF run this] show ?thesis .
qed

lemma traced_run:
  "traced t outs \<Longrightarrow> out_inv t \<Longrightarrow> traced (fst (transport_run ops t)) (outs @ snd (transport_run ops t))"
proof (induction ops arbitrary: t outs)
  case (Cons p ops)
  from Cons.IH [OF traced_step [OF Cons.prems, of p] out_inv_step [OF Cons.prems(2)]] show ?case by simp
qed simp

lemma traced_new: "traced (new_transport limits) []"
  by (simp add: traced_def log_ok_def lane_at_def lane_written_def lane_ids_def new_transport_def wmark_def smark_def
      claims_not_sent_def opt_list_def split: frame_lane.splits)

text \<open>A run of a new transport satisfies both the invariant and the log's contract.\<close>

lemma transport_run_ok:
  assumes "transport_limits limits" and "transport_run ops (new_transport limits) = (t, outs)"
  shows "out_inv t" and "traced t outs"
  using out_inv_run [OF out_inv_new [OF assms(1)], of ops] traced_run [OF traced_new out_inv_new [OF assms(1)], of ops]
    assms(2) by simp_all

text \<open>Only the pump writes, and it prefers the control lane.\<close>

definition control_first :: "transport \<times> transport_output list \<Rightarrow> bool" where
  "control_first r \<longleftrightarrow> (\<forall>i framed. StreamWrite i framed \<in> set (snd r) \<longrightarrow>
     lane_at (fst r) i = Some OperationLane \<longrightarrow> tr_control (fst r) = [])"

lemma control_first_pump:
  assumes core: "out_core t" and lim: "transport_limits (tr_limits t)"
  shows "control_first (pump t)"
  using core lim
proof (cases rule: pump_cases)
  case (writes i e v framed)
  have wf: "jmap_wf (tr_entries v)" using out_coreD(1) [OF core] unslotted_sel(8) [OF writes(6)] by simp
  have l: "lane_at (fst (pump t)) = lane_at t"
    by (rule lane_at_map [of "at_entry i (begin_write framed)"])
      (simp_all add: at_entry_def writes(1) start_write_map [OF wf] unslotted_sel(8) [OF writes(6)])
  have "tr_control t = [] \<and> tr_control v = [] \<or> lane_at t i = Some ControlLane"
    using writes(2) slot_lanes [OF core, of i]
    by (auto simp: pick_entry_def split: list.splits option.splits)
  with l show ?thesis by (auto simp: control_first_def writes(1) start_write_map [OF wf])
qed (simp_all add: control_first_def)

subsection \<open>Control frames go first\<close>

lemma written_close:
  assumes "out_core t"
  shows "written (snd (close_transport r t)) = []" and "written (snd (autonomous_close r t)) = []"
    and "written (snd (settle_closed c t)) = []" and "written (snd (settle_cleanup_failure e t)) = []"
proof -
  show "written (snd (close_transport r t)) = []" "written (snd (autonomous_close r t)) = []"
    using perform_close_map [OF assms] by (simp_all add: close_transport_def autonomous_close_def)
  show "written (snd (settle_closed c t)) = []" "written (snd (settle_cleanup_failure e t)) = []"
    using settle_closed_map [OF assms] by (cases "tr_closed_settled t"; simp add: settle_closed_def settle_cleanup_failure_def)+
qed

lemma written_finish [simp]: "written (snd (reject_write i code d t)) = []" "written (snd (settle_write i t)) = []"
  by (simp_all add: reject_write_def settle_write_def finish_entry_def)

lemma written_eof: "out_core t \<Longrightarrow> written (snd (finish_clean_eof t)) = []"
  "out_core t \<Longrightarrow> written (snd (stream_close_done f t)) = []"
  by (auto simp: finish_clean_eof_def stream_close_done_def written_close split: option.splits close_promise.splits)

lemma core_upd [simp]:
  "out_core (t\<lparr>tr_reader := r\<rparr>) = out_core t" "out_core (t\<lparr>tr_consumer := k\<rparr>) = out_core t"
  "out_core (t\<lparr>tr_unconsumed := n\<rparr>) = out_core t" "out_core (t\<lparr>tr_buffer := b\<rparr>) = out_core t"
  "out_core (t\<lparr>tr_clean_eof := c\<rparr>) = out_core t" "out_core (with_inbound q t) = out_core t"
  by (rule out_inv_view(1); simp)+

lemma written_reader:
  assumes "out_core t"
  shows "written (snd (reader_failed e t)) = []" and "written (snd (read_frame t)) = []"
    and "written (snd (read_chunk c t)) = []" and "written (snd (reader_continue t)) = []"
    and "written (snd (read_eof t)) = []" and "written (snd (read_closure res t)) = []"
proof -
  have f: "written (snd (reader_failed e t)) = []" if "out_core t" for e t
    using that by (simp add: reader_failed_def written_close)
  have rf: "written (snd (read_frame t)) = []" if "out_core t" for t
    using that by (auto simp: read_frame_def f Let_def split: sum.splits option.splits)
  show "written (snd (reader_failed e t)) = []" "written (snd (read_frame t)) = []"
    using assms by (simp_all add: f rf)
  show "written (snd (read_chunk c t)) = []" "written (snd (reader_continue t)) = []" "written (snd (read_eof t)) = []"
    using assms by (auto simp: read_chunk_def reader_continue_def read_eof_def f rf Let_def
        split: sum.splits option.splits reader_position.splits)
  show "written (snd (read_closure res t)) = []"
    using assms by (auto simp: read_closure_def f Let_def written_close written_eof accepting_upd split: sum.splits)
qed

lemma written_consumer_stop:
  assumes "out_inv t"
  shows "written (snd (consumer_stop failure t)) = []"
proof -
  let ?t = "t\<lparr>tr_consumer := ConsumerDone\<rparr>"
  have t: "out_inv ?t" using assms by simp
  then have "written (snd (autonomous_close e ?t)) = []"
    "out_core (fst (autonomous_close e ?t))" "out_core ?t" for e
    using out_inv_autonomous [OF t, of e] by (simp_all add: out_inv_def written_close del: out_inv_upd)
  then show ?thesis
    by (auto simp: consumer_stop_def Let_def written_close split: option.splits)
qed

lemma written_consumer:
  assumes "out_inv t"
  shows "written (snd (consumer_continue t)) = []" and "written (snd (decompress_done res t)) = []"
    and "written (snd (consumer_advance t)) = []" and "written (snd (consumer_return t)) = []"
  using assms
  by (auto simp: consumer_continue_def consumer_frame_def decompress_done_def consumer_advance_def consumer_return_def
      consumer_dropped_def written_consumer_stop written_eof out_inv_def [of t]
      split: consumer_position.splits sum.splits)

lemma written_mem: "StreamWrite i f \<in> set outs \<Longrightarrow> i \<in> set (written outs)"
  by (induction outs rule: written.induct) auto

lemma control_first_silent: "written (snd r) = [] \<Longrightarrow> control_first r"
  using written_mem by (force simp: control_first_def)

lemma control_first_after:
  assumes "written (snd r) = []" and "control_first (f (fst r))"
  shows "control_first (then_do r f)"
  using assms written_mem [of _ _ "snd r"] by (auto simp: control_first_def)

lemma control_first_send:
  assumes inv: "out_inv t"
  shows "control_first (send bs lane aborted st t)"
proof (cases "admits bs aborted st t")
  case False
  with send_cases(2) [OF False, of lane] show ?thesis by (auto simp: control_first_def)
next
  case adm: True
  show ?thesis
  proof (cases "tr_pumping t")
    case True
    then show ?thesis by (simp add: send_cases(1) [OF adm] pump_writes_def enqueue_sel control_first_def)
  next
    case False
    with enqueue_ready [OF inv adm False, of lane] show ?thesis
      by (simp add: send_cases(1) [OF adm] pump_writes_def enqueue_sel pump_ready_def control_first_pump)
  qed
qed

lemma control_first_compress:
  assumes inv: "out_inv t"
  shows "control_first (compress_done res t)"
proof (cases "tr_pump t")
  case (PumpCompressing i)
  obtain e where a: "jmap_get (tr_entries t) i = Some e" "we_state e = Preparing" "tr_preparing t = Some i"
    "tr_active t = None" "tr_prepared t = None" "tr_pumping t" "without_entry i t = t"
    using preparing_entry [OF inv PumpCompressing] .
  have core: "out_core t" "out_core (dropped {i} t)"
    using inv out_inv_drop [OF inv, of i] a(7) by (simp_all add: out_inv_def)
  have "written (snd (compress_result i res t)) = []"
    by (auto simp: compress_result_def reject_after_release [OF out_coreD(1,2) [OF core(1)]] written_close core
        split: sum.splits)
  then show ?thesis
    using compress_result_ready [OF inv PumpCompressing, of res] PumpCompressing
    by (auto simp: compress_done_def Let_def reject_released_def pump_ready_def
        intro!: control_first_after control_first_pump)
qed (simp_all add: compress_done_def control_first_def)

lemma control_first_write_done:
  assumes inv: "out_inv t"
  shows "control_first (write_done failure t)"
proof (cases "tr_pump t")
  case (PumpWriting i)
  obtain e where a: "jmap_get (tr_entries t) i = Some e" "we_state e = Writing" "tr_active t = Some i"
    "tr_preparing t = None" "tr_pumping t" "without_entry i t = t" "\<not> we_charged e"
    using active_entry [OF inv PumpWriting] .
  have core: "out_core t" using inv by (simp add: out_inv_def)
  have un: "\<And>x. jmap_get (tr_entries t) i = Some x \<Longrightarrow> \<not> we_charged x" using a by simp
  note fin = reject_uncharged_map [OF out_coreD(1,2) [OF core] un]
  have d: "out_core (dropped {i} t)" using out_inv_drop [OF inv, of i] a(6) by (simp add: out_inv_def)
  have "(dropped {i} t)\<lparr>tr_active := None\<rparr> = dropped {i} (t\<lparr>tr_preparing := None, tr_active := None\<rparr>)"
    using a(4) by (simp add: dropped_def Let_def)
  then have "pump_ready ((dropped {i} t)\<lparr>tr_active := None\<rparr>)"
    using pump_ready_drop [OF inv a(6,5)] a(3,4) by simp
  then show ?thesis
    using PumpWriting d
    by (cases failure) (auto simp: write_done_def fin written_close pump_ready_def control_first_silent
        intro!: control_first_after control_first_pump)
qed (simp_all add: write_done_def control_first_def)

lemma written_abort:
  assumes inv: "out_inv t"
  shows "written (snd (abort_write i t)) = []"
proof (cases "\<exists>e. jmap_get (tr_entries t) i = Some e \<and> \<not> we_settled e \<and> we_state e = Writing")
  case True
  then obtain e where "jmap_get (tr_entries t) i = Some e" "\<not> we_settled e" "we_state e = Writing" by blast
  from abort_writing_map [OF inv this] written_close(1) [of "dropped {i} t"] show ?thesis by (simp add: out_inv_def)
qed (auto simp: abort_write_def Let_def split: option.splits)

lemma control_first_step:
  assumes "out_inv t"
  shows "control_first (transport_step p t)"
proof -
  have "out_core t" using assms by (simp add: out_inv_def)
  with assms show ?thesis
    by (cases p) (auto simp: control_first_send control_first_compress control_first_write_done control_first_silent
        written_close written_eof written_reader written_consumer written_abort split: sum.splits)
qed

section \<open>Properties\<close>

text \<open>C20. In every reachable state of a transport, whatever the interleaving of sends, aborts, carrier
  completions, reads and closes, the queued-byte counter is the total payload of the entries that are
  neither settled nor being written, it stays within the byte limit with its settlement reserve, and
  the queued frames stay within the frame limit with its reserve.\<close>

theorem outbound_accounting:
  assumes "transport_limits limits" and "transport_run ops (new_transport limits) = (t, outs)"
  shows "tr_queued_bytes t = (\<Sum>e\<leftarrow>map snd (tr_entries t).
      if \<not> we_settled e \<and> we_state e \<noteq> Writing then int (we_payload_bytes e) else 0) \<and>
    tr_queued_bytes t \<le> maximum_outbound_queue_bytes (tr_limits t) + reserved_settlement_queue_bytes (tr_limits t) \<and>
    int (queued_count t) \<le> maximum_outbound_queue_frames (tr_limits t) + reserved_settlement_queue_frames (tr_limits t)"
proof -
  have inv: "out_inv t" using transport_run_ok [OF assms] by simp
  then have core: "out_core t" by (simp add: out_inv_def)
  have "we_charged e \<longleftrightarrow> \<not> we_settled e \<and> we_state e \<noteq> Writing" if "(k, e) \<in> set (tr_entries t)" for k e
    using out_coreD(3) [OF core, of k e] map_of_is_SomeI [OF out_coreD(1) [OF core] that] by (simp add: entry_ok_def)
  then have "charge_sum (tr_entries t) = (\<Sum>e\<leftarrow>map snd (tr_entries t).
      if \<not> we_settled e \<and> we_state e \<noteq> Writing then int (we_payload_bytes e) else 0)"
    unfolding charge_sum_def by (auto simp: comp_def intro!: arg_cong [of _ _ sum_list] map_cong)
  with out_coreD(2) [OF core] inv show ?thesis
    by (simp add: accounted_def out_inv_def bound_ok_def byte_capacity_def frame_capacity_def)
qed

text \<open>C4. Over a whole run every accepted frame is handed to the carrier at most once and its send is
  settled at most once; a send that resolves was handed to the carrier; one the transport itself
  rejects as not sent never was; and once a close has begun or the transport has settled, every
  accepted send has been settled exactly once.\<close>

theorem sends_settle_once:
  assumes "transport_limits limits" and "transport_run ops (new_transport limits) = (t, outs)"
  shows "count_list (written outs) i \<le> 1 \<and> count_list (finished outs) i \<le> 1 \<and>
    (EntryResolved i \<in> set outs \<longrightarrow> i \<in> set (written outs)) \<and>
    (claims_not_sent outs i \<longrightarrow> i \<notin> set (written outs)) \<and>
    (i < tr_next_id t \<and> (tr_close t \<noteq> None \<or> tr_closed_settled t) \<longrightarrow> count_list (finished outs) i = 1)"
proof -
  have inv: "out_inv t" and tr: "log_ok t outs" "lane_at t i = None \<longleftrightarrow> tr_next_id t \<le> i"
    using transport_run_ok [OF assms] by (simp_all add: traced_def)
  have m: "count_list (written outs) i = wmark t i" "count_list (finished outs) i = smark t i"
    "EntryResolved i \<in> set outs \<Longrightarrow> wmark t i = 1" "claims_not_sent outs i \<Longrightarrow> wmark t i = 0"
    using tr(1) by (simp_all add: log_ok_def)
  have "wmark t i \<le> 1" "smark t i \<le> 1" by (simp_all add: wmark_def smark_def split: option.splits)
  moreover have "smark t i = 1" if "i < tr_next_id t" "tr_close t \<noteq> None \<or> tr_closed_settled t"
    using tr(2) inv that by (auto simp: out_inv_def closed_ok_def smark_def lane_at_def split: option.splits)
  moreover have "i \<in> set (written outs) \<longleftrightarrow> wmark t i \<noteq> 0" using m(1) by (metis count_list_0_iff)
  ultimately show ?thesis using m by auto
qed

text \<open>C21. Each lane is written in the order its frames were accepted, compression included, and what
  waits in a lane comes after everything already written from it.\<close>

theorem lanes_fifo:
  assumes "transport_limits limits" and "transport_run ops (new_transport limits) = (t, outs)"
  shows "sorted_wrt (<) (filter (\<lambda>i. map_option we_lane (jmap_get (tr_entries t) i) = Some ControlLane) (written outs)
      @ tr_control t) \<and>
    sorted_wrt (<) (filter (\<lambda>i. map_option we_lane (jmap_get (tr_entries t) i) = Some OperationLane) (written outs)
      @ opt_list (tr_preparing t) @ opt_list (tr_prepared t) @ tr_operation t)"
proof -
  have "sorted_wrt (<) (lane_written t lane outs @ lane_ids lane t)" for lane
    using transport_run_ok(2) [OF assms] by (simp add: traced_def)
  from this [of ControlLane] this [of OperationLane] show ?thesis
    by (simp add: lane_written_def lane_at_def lane_ids_simps)
qed

text \<open>C22. Whenever a step of a reachable transport hands an operation frame to the carrier, no control
  frame is waiting: control frames, those queued during a compression too, go first.\<close>

theorem control_overtakes:
  assumes "transport_limits limits" and "transport_run ops (new_transport limits) = (t, outs)"
    and "transport_step p t = (t', new)" and "StreamWrite i framed \<in> set new"
    and "jmap_get (tr_entries t') i = Some e" and "we_lane e = OperationLane"
  shows "tr_control t' = []"
  using control_first_step [OF transport_run_ok(1) [OF assms(1,2)], of p] assms(3-6)
  by (auto simp: control_first_def lane_at_def)

section \<open>Witnesses\<close>

definition example_framed :: "byte \<Rightarrow> bytes" where
  "example_framed x = magic @ [0] @ [0, 0, 0] @ write_be 4 1 @ write_be 4 1 @ [x]"

definition example_ops :: "transport_op list" where
  "example_ops = [OpSend [7] OperationLane False False, OpSend [8] OperationLane False False,
     OpSend [9] ControlLane False False, OpWriteDone None]"

definition example_run :: "transport \<times> transport_output list" where
  "example_run = transport_run example_ops (new_transport default_sidecar_protocol_limits)"

definition example_closed :: "transport \<times> transport_output list" where
  "example_closed = transport_run (example_ops @ [OpClose ''done'']) (new_transport default_sidecar_protocol_limits)"

definition example_entry :: "frame_lane \<Rightarrow> bytes option \<Rightarrow> write_entry" where
  "example_entry lane payload = \<lparr>we_payload = payload, we_payload_bytes = 1, we_lane = lane, we_settlement = False,
     we_framed = None, we_state = Queued, we_charged = True, we_settled = False\<rparr>"

definition example_state :: transport where
  "example_state = (new_transport default_sidecar_protocol_limits)
     \<lparr>tr_operation := [1], tr_queued_bytes := 1, tr_active := Some 2, tr_pumping := True, tr_next_id := 3,
      tr_pump := PumpWriting 2, tr_entries :=
        [(0, (example_entry OperationLane None)\<lparr>we_state := Writing, we_charged := False, we_settled := True\<rparr>),
         (1, example_entry OperationLane (Some [8])),
         (2, (example_entry ControlLane None)\<lparr>we_framed := Some (example_framed 9), we_state := Writing,
            we_charged := False\<rparr>)]\<rparr>"

lemma default_transport_limits: "transport_limits default_sidecar_protocol_limits"
  by (simp add: transport_limits_def limits_ok_def limit_values_def default_sidecar_protocol_limits_def
      workspace_file_write_json_limit_bytes_def is_safe_integer_def max_safe_integer_def)

lemma example_framing: "frame_bytes [x] 0 1 = Inr (example_framed x)"
  by (simp add: frame_bytes_def example_framed_def)

lemma then_do_case: "then_do r f = (case r of (s, outs) \<Rightarrow> case f s of (s', outs') \<Rightarrow> (s', outs @ outs'))"
  by (simp add: then_do_def split: prod.splits)

lemmas example_eval = then_do_case send_def new_transport_def default_sidecar_protocol_limits_def
  workspace_file_write_json_limit_bytes_def queued_count_def frame_capacity_def byte_capacity_def
  pump_writes_def enqueue_def pump.simps pick_entry_def compressible_def example_framing [unfolded One_nat_def]
  start_write_def upd_entry_def release_charge_def write_done_def settle_write_def reject_write_def finish_entry_def
  entry_settled_def close_transport_def perform_close_def stop_writes_def reject_released_def example_entry_def
  eval_nat_numeral

lemma example_run_eq: "example_run = (example_state,
    [StreamWrite 0 (example_framed 7), EntryResolved 0, StreamWrite 2 (example_framed 9)])"
  unfolding example_run_def example_ops_def example_state_def
  by (simp add: example_eval)

lemma transport_run_append:
  "transport_run (a @ b) t = then_do (transport_run a t) (transport_run b)"
  by (induction a arbitrary: t) (simp_all add: then_do_def)

lemma example_closing: "\<exists>u. transport_step (OpClose ''done'') example_state = (u,
    [EntryRejected 2 ''sidecar_transport_closed_during_write'' SentOutcomeUnknown,
     EntryRejected 1 ''sidecar_transport_closed'' NotSent, StreamClose ''done'']) \<and>
   tr_next_id u = 3 \<and> tr_close u \<noteq> None"
  unfolding example_state_def by (simp add: example_eval)

lemma example_closed_facts:
  "tr_next_id (fst example_closed) = 3" "tr_close (fst example_closed) \<noteq> None"
  "claims_not_sent (snd example_closed) 1"
  using example_closing
  by (auto simp: example_closed_def transport_run_append example_run_eq [unfolded example_run_def] then_do_def
      claims_not_sent_def)

theorem outbound_accounting_witness:
  "tr_queued_bytes (fst example_run) = 1 \<and>
   int (queued_count (fst example_run)) \<le> maximum_outbound_queue_frames (tr_limits (fst example_run)) +
     reserved_settlement_queue_frames (tr_limits (fst example_run))"
  using outbound_accounting [OF default_transport_limits, of example_ops "fst example_run" "snd example_run"]
  by (simp add: example_run_def [symmetric]) (simp add: example_run_eq example_state_def)

theorem sends_settle_once_witness:
  "count_list (finished (snd example_closed)) 1 = 1 \<and> 1 \<notin> set (written (snd example_closed))"
  using sends_settle_once [OF default_transport_limits, of "example_ops @ [OpClose ''done'']" "fst example_closed"
      "snd example_closed" 1] example_closed_facts
  by (simp add: example_closed_def [symmetric])

theorem lanes_fifo_witness:
  "sorted_wrt (<) (filter (\<lambda>i. map_option we_lane (jmap_get (tr_entries (fst example_run)) i) = Some OperationLane)
     (written (snd example_run)) @ opt_list (tr_preparing (fst example_run)) @ opt_list (tr_prepared (fst example_run)) @
     tr_operation (fst example_run)) \<and> tr_operation (fst example_run) = [1] \<and> written (snd example_run) = [0, 2]"
  using lanes_fifo [OF default_transport_limits, of example_ops "fst example_run" "snd example_run"]
  by (simp add: example_run_def [symmetric]) (simp add: example_run_eq example_state_def)

lemma example_next: "\<exists>u e. transport_step (OpWriteDone None) example_state =
    (u, [EntryResolved 2, StreamWrite 1 (example_framed 8)]) \<and>
    jmap_get (tr_entries u) 1 = Some e \<and> we_lane e = OperationLane"
  unfolding example_state_def by (simp add: example_eval)

theorem control_overtakes_witness:
  "tr_control (fst (transport_step (OpWriteDone None) example_state)) = []"
proof -
  obtain u e where u: "transport_step (OpWriteDone None) example_state =
      (u, [EntryResolved 2, StreamWrite 1 (example_framed 8)])"
    and e: "jmap_get (tr_entries u) 1 = Some e" "we_lane e = OperationLane"
    using example_next by blast
  have "StreamWrite 1 (example_framed 8) \<in> set [EntryResolved 2, StreamWrite 1 (example_framed 8)]" by simp
  from control_overtakes [OF default_transport_limits example_run_eq [unfolded example_run_def] u this e] u
  show ?thesis by simp
qed

end
