(* ===== verification/OperationRegistry.thy ===== *)
theory OperationRegistry
  imports Envelopes "HOL-Library.List_Lexorder" "HOL-Library.Char_ord" "HOL-Library.Multiset"
begin

text \<open>
  The operation registry of a protocol endpoint
  (\<^verbatim>\<open>src/internal/sidecar-protocol/operation-registry.ts\<close>): validation of definitions, registration,
  lookup, forking, the advertised inventory, and the inventory's reading on the other side
  (\<^verbatim>\<open>negotiatedInventory\<close> of \<^verbatim>\<open>protocol-peer.ts\<close>).

  A payload is a value of \<open>'p\<close> and a zod schema the partial function of its \<^verbatim>\<open>safeParse\<close>. A handler is
  an opaque \<open>'h\<close>; \<^verbatim>\<open>register\<close> wraps it with the registry's \<^verbatim>\<open>beforeDispatch\<close> hook. Locale-sensitive
  comparison of strings is a parameter.
\<close>

section \<open>Definitions\<close>

datatype deadline_bound = FiniteBound int | CallerAbortBound

record operation_ref =
  op_capability_id :: string
  op_major_version :: int
  op_operation :: string

record 'p operation_definition = operation_ref +
  od_request_schema :: "'p \<Rightarrow> 'p option"
  od_response_schema :: "'p \<Rightarrow> 'p option"
  od_maximum_deadline :: deadline_bound
  od_lane :: frame_lane

text \<open>A handler as registered: \<open>Wrapped hook h\<close> calls the hook, if there is one, before \<open>h\<close>.\<close>

datatype 'h handler = Handler 'h | Wrapped "nat option" "'h handler"

fun handler_hooks :: "'h handler \<Rightarrow> nat list" where
  "handler_hooks (Handler _) = []"
| "handler_hooks (Wrapped None h) = handler_hooks h"
| "handler_hooks (Wrapped (Some b) h) = b # handler_hooks h"

fun handler_body :: "'h handler \<Rightarrow> 'h" where
  "handler_body (Handler h) = h"
| "handler_body (Wrapped _ h) = handler_body h"

record ('p, 'h) registered_operation =
  ro_definition :: "'p operation_definition"
  ro_handler :: "'h handler"

record ('p, 'h) operation_registry =
  or_operations :: "(string, ('p, 'h) registered_operation) jmap"
  or_before_dispatch :: "nat option"

definition new_registry :: "nat option \<Rightarrow> ('p, 'h) operation_registry" where
  "new_registry before = \<lparr>or_operations = [], or_before_dispatch = before\<rparr>"

definition nul :: char where
  "nul = CHR 0x00"

definition show_int :: "int \<Rightarrow> string" where
  "show_int v = (if v < 0 then CHR ''-'' # show_nat (nat (- v)) else show_nat (nat v))"

definition read_int :: "string \<Rightarrow> int" where
  "read_int s = (case s of
     c # ds \<Rightarrow> if c = CHR ''-'' then - int (read_nat ds) else int (read_nat s) | [] \<Rightarrow> 0)"

definition capability_prefix :: "string \<Rightarrow> int \<Rightarrow> string" where
  "capability_prefix capability_id major_version = capability_id @ [nul] @ show_int major_version"

definition operation_key :: "('a) operation_ref_scheme \<Rightarrow> string" where
  "operation_key k = op_capability_id k @ [nul] @ show_int (op_major_version k) @ [nul] @ op_operation k"

definition caller_abort_allowed :: "'p operation_definition \<Rightarrow> bool" where
  "caller_abort_allowed d \<longleftrightarrow>
     (op_capability_id d = ''opencode_tools'' \<and> op_major_version d = 3 \<and>
      op_operation d = ''tools.invoke'' \<and> od_lane d = OperationLane) \<or>
     (op_capability_id d = ''agent_tools_cli'' \<and> op_major_version d = 6 \<and>
      op_operation d = ''tool.invoke'' \<and> od_lane d = OperationLane) \<or>
     (op_capability_id d = ''claude_runtime'' \<and> op_major_version d = 4 \<and>
      op_operation d \<in> {''query.can_use_tool'', ''query.open'', ''runtime.initialize'', ''runtime.probe''})"

definition definition_ok :: "'p operation_definition \<Rightarrow> bool" where
  "definition_ok d \<longleftrightarrow> identifier_ok (op_capability_id d) \<and> identifier_ok (op_operation d) \<and>
     is_safe_integer (op_major_version d) \<and> 0 < op_major_version d \<and> op_major_version d \<le> 65535 \<and>
     (case od_maximum_deadline d of
        FiniteBound ms \<Rightarrow> is_safe_integer ms \<and> 0 < ms \<and> ms \<le> 605000
      | CallerAbortBound \<Rightarrow> caller_abort_allowed d)"

definition validate_definition :: "'p operation_definition \<Rightarrow> unit result" where
  "validate_definition d =
     (if definition_ok d then Inr () else Inl ''sidecar_operation_definition_invalid'')"

definition define_sidecar_operation :: "'p operation_definition \<Rightarrow> 'p operation_definition result" where
  "define_sidecar_operation d = (case validate_definition d of Inl e \<Rightarrow> Inl e | Inr _ \<Rightarrow> Inr d)"

definition register ::
  "'p operation_definition \<Rightarrow> 'h handler \<Rightarrow> ('p, 'h) operation_registry \<Rightarrow> ('p, 'h) operation_registry result" where
  "register d h r =
     (case validate_definition d of
        Inl e \<Rightarrow> Inl e
      | Inr _ \<Rightarrow>
          let key = operation_key d
          in if jmap_has (or_operations r) key then Inl ''sidecar_operation_already_registered''
             else Inr (r\<lparr>or_operations := jmap_set key
               \<lparr>ro_definition = d, ro_handler = Wrapped (or_before_dispatch r) h\<rparr> (or_operations r)\<rparr>))"

definition resolve :: "'a operation_ref_scheme \<Rightarrow> ('p, 'h) operation_registry \<Rightarrow> ('p, 'h) registered_operation option" where
  "resolve k r = jmap_get (or_operations r) (operation_key k)"

fun register_all ::
  "('p, 'h) registered_operation list \<Rightarrow> ('p, 'h) operation_registry \<Rightarrow> ('p, 'h) operation_registry result" where
  "register_all [] r = Inr r"
| "register_all (ro # ros) r =
     (case register (ro_definition ro) (ro_handler ro) r of Inl e \<Rightarrow> Inl e | Inr r' \<Rightarrow> register_all ros r')"

definition fork :: "('p, 'h) operation_registry \<Rightarrow> ('p, 'h) operation_registry result" where
  "fork r = register_all (map snd (or_operations r)) (new_registry None)"

subsection \<open>The inventory\<close>

record capability_inventory =
  ci_capability_id :: string
  ci_major_version :: int
  ci_operations :: "string list"

definition group_operation :: "'p operation_definition \<Rightarrow> (string, string jset) jmap \<Rightarrow> (string, string jset) jmap" where
  "group_operation d grouped =
     (let key = capability_prefix (op_capability_id d) (op_major_version d);
          values = (case jmap_get grouped key of None \<Rightarrow> [] | Some s \<Rightarrow> s)
      in jmap_set key (jset_add (op_operation d) values) grouped)"

fun split_nul :: "string \<Rightarrow> string list" where
  "split_nul [] = [[]]"
| "split_nul (c # cs) = (if c = nul then [] # split_nul cs
     else (case split_nul cs of [] \<Rightarrow> [[c]] | w # ws \<Rightarrow> (c # w) # ws))"

definition inventory_entry :: "string \<times> string jset \<Rightarrow> capability_inventory" where
  "inventory_entry e =
     (let parts = split_nul (fst e)
      in \<lparr>ci_capability_id = parts ! 0, ci_major_version = read_int (parts ! 1), ci_operations = sort (snd e)\<rparr>)"

definition compare_inventory :: "(string \<Rightarrow> string \<Rightarrow> int) \<Rightarrow> capability_inventory \<Rightarrow> capability_inventory \<Rightarrow> int" where
  "compare_inventory collate left right =
     (if ci_capability_id left = ci_capability_id right
      then ci_major_version left - ci_major_version right
      else collate (ci_capability_id left) (ci_capability_id right))"

text \<open>A stable sort by a comparator.\<close>

fun insert_by :: "('a \<Rightarrow> 'a \<Rightarrow> int) \<Rightarrow> 'a \<Rightarrow> 'a list \<Rightarrow> 'a list" where
  "insert_by cmp x [] = [x]"
| "insert_by cmp x (y # ys) = (if cmp x y \<le> 0 then x # y # ys else y # insert_by cmp x ys)"

definition sort_by :: "('a \<Rightarrow> 'a \<Rightarrow> int) \<Rightarrow> 'a list \<Rightarrow> 'a list" where
  "sort_by cmp xs = foldr (insert_by cmp) xs []"

definition capabilities :: "(string \<Rightarrow> string \<Rightarrow> int) \<Rightarrow> ('p, 'h) operation_registry \<Rightarrow> capability_inventory list" where
  "capabilities collate r =
     sort_by (compare_inventory collate)
       (map inventory_entry (fold group_operation (map (ro_definition \<circ> snd) (or_operations r)) []))"

subsection \<open>Errors of operations\<close>

datatype operation_error = OperationError string bool

definition sidecar_operation_error :: "string \<Rightarrow> bool \<Rightarrow> operation_error result" where
  "sidecar_operation_error code retryable =
     (if identifier_ok code then Inr (OperationError code retryable)
      else Inl ''sidecar_operation_error_code_invalid'')"

subsection \<open>Reading an inventory\<close>

fun add_operations :: "string \<Rightarrow> string list \<Rightarrow> string jset \<Rightarrow> string jset result" where
  "add_operations pre [] operations = Inr operations"
| "add_operations pre (op # ops) operations =
     (let key = pre @ [nul] @ op
      in if key \<in> set operations then Inl ''sidecar_protocol_operation_duplicate''
         else add_operations pre ops (jset_add key operations))"

fun negotiated_loop ::
  "capability_inventory list \<Rightarrow> string jset \<Rightarrow> string jset \<Rightarrow> (string jset \<times> string jset) result" where
  "negotiated_loop [] keys operations = Inr (keys, operations)"
| "negotiated_loop (c # cs) keys operations =
     (let pre = capability_prefix (ci_capability_id c) (ci_major_version c)
      in if pre \<in> set keys then Inl ''sidecar_protocol_capability_duplicate''
         else case add_operations pre (ci_operations c) operations of
           Inl e \<Rightarrow> Inl e
         | Inr operations' \<Rightarrow> negotiated_loop cs (jset_add pre keys) operations')"

definition negotiated_inventory :: "capability_inventory list \<Rightarrow> (string jset \<times> string jset) result" where
  "negotiated_inventory cs = negotiated_loop cs [] []"

section \<open>Lemmas\<close>

subsection \<open>Keys\<close>

lemma nul_no_digit: "\<not> is_digit nul"
  by (simp add: nul_def is_digit_def)

lemma nul_no_lower: "\<not> is_lower nul" "nul \<notin> set ''_.-''"
  by (simp_all add: nul_def is_lower_def)

lemma identifier_no_nul: "identifier_ok s \<Longrightarrow> nul \<notin> set s"
  using nul_no_digit nul_no_lower by (auto simp: identifier_ok_def list_all_iff split: list.splits)

lemma show_nat_no_nul: "nul \<notin> set (show_nat n)"
  using show_nat_digits [of n] nul_no_digit by (auto simp: list_all_iff)

lemma show_int_no_nul: "nul \<notin> set (show_int v)"
  using show_nat_no_nul by (auto simp: show_int_def nul_def)

lemma read_show_int [simp]: "read_int (show_int v) = v"
proof -
  have "read_int (show_nat n) = int n" for n
  proof (cases "show_nat n")
    case (Cons c ds)
    with show_nat_digits [of n] have "c \<noteq> CHR ''-''" by (auto simp: is_digit_def)
    with Cons read_show_nat [of n] show ?thesis by (simp add: read_int_def)
  qed simp
  then show ?thesis by (auto simp: show_int_def) (auto simp: read_int_def)
qed

lemma show_int_inject [simp]: "show_int a = show_int b \<longleftrightarrow> a = b"
  by (metis read_show_int)

text \<open>A string splits at its first or at its last separator in one way only.\<close>

lemma split_first:
  "a @ [z] @ b = c @ [z] @ d \<Longrightarrow> z \<notin> set a \<Longrightarrow> z \<notin> set c \<Longrightarrow> a = c \<and> b = d"
  by (induction a arbitrary: c) (auto simp: Cons_eq_append_conv append_eq_Cons_conv)

lemma split_last:
  assumes "a @ [z] @ b = c @ [z] @ d" and "z \<notin> set b" and "z \<notin> set d"
  shows "a = c \<and> b = d"
proof -
  have "rev b @ [z] @ rev a = rev d @ [z] @ rev c" using arg_cong [OF assms(1), of rev] by simp
  with split_first [of "rev b" z "rev a" "rev d" "rev c"] assms(2,3) show ?thesis by simp
qed

definition ref_ok :: "'a operation_ref_scheme \<Rightarrow> bool" where
  "ref_ok k \<longleftrightarrow> identifier_ok (op_capability_id k) \<and> identifier_ok (op_operation k)"

lemma operation_key_prefix: "operation_key k = capability_prefix (op_capability_id k) (op_major_version k) @ [nul] @ op_operation k"
  by (simp add: operation_key_def capability_prefix_def)

lemma capability_prefix_inject:
  "nul \<notin> set a \<Longrightarrow> nul \<notin> set b \<Longrightarrow> capability_prefix a v = capability_prefix b w \<longleftrightarrow> a = b \<and> v = w"
  using split_first [of a nul "show_int v" b "show_int w"] by (auto simp: capability_prefix_def)

lemma operation_key_inject:
  assumes "ref_ok a" and "ref_ok b"
  shows "operation_key a = operation_key b \<longleftrightarrow> op_capability_id a = op_capability_id b \<and>
    op_major_version a = op_major_version b \<and> op_operation a = op_operation b"
proof -
  have "nul \<notin> set (op_capability_id a)" "nul \<notin> set (op_capability_id b)"
    "nul \<notin> set (op_operation a)" "nul \<notin> set (op_operation b)"
    using assms by (simp_all add: ref_ok_def identifier_no_nul)
  with split_last [of "capability_prefix (op_capability_id a) (op_major_version a)" nul "op_operation a"
      "capability_prefix (op_capability_id b) (op_major_version b)" "op_operation b"] show ?thesis
    by (auto simp: operation_key_prefix capability_prefix_inject)
qed

subsection \<open>The registry invariant\<close>

definition registry_ok :: "('p, 'h) operation_registry \<Rightarrow> bool" where
  "registry_ok r \<longleftrightarrow> jmap_wf (or_operations r) \<and>
     (\<forall>(k, ro)\<in>set (or_operations r). k = operation_key (ro_definition ro) \<and> definition_ok (ro_definition ro))"

lemma definition_ref_ok: "definition_ok d \<Longrightarrow> ref_ok d"
  by (simp add: definition_ok_def ref_ok_def)

lemma registry_ok_new: "registry_ok (new_registry before)"
  by (simp add: registry_ok_def new_registry_def)

lemma register_Inr:
  "register d h r = Inr r' \<longleftrightarrow> definition_ok d \<and> resolve d r = None \<and>
     r' = r\<lparr>or_operations := or_operations r @ [(operation_key d, \<lparr>ro_definition = d, ro_handler = Wrapped (or_before_dispatch r) h\<rparr>)]\<rparr>"
  by (auto simp: register_def validate_definition_def Let_def resolve_def jmap_has_def jmap_set_absent
      split: if_splits)

lemma registry_ok_register: "registry_ok r \<Longrightarrow> register d h r = Inr r' \<Longrightarrow> registry_ok r'"
  by (auto simp: register_Inr registry_ok_def resolve_def map_of_eq_None_iff)

lemma register_all_ok:
  assumes "\<forall>ro\<in>set ros. definition_ok (ro_definition ro)"
    and "distinct (map fst (or_operations r) @ map (operation_key \<circ> ro_definition) ros)"
  shows "register_all ros r = Inr (r\<lparr>or_operations := or_operations r @
    map (\<lambda>ro. (operation_key (ro_definition ro), ro\<lparr>ro_handler := Wrapped (or_before_dispatch r) (ro_handler ro)\<rparr>)) ros\<rparr>)"
  using assms
proof (induction ros arbitrary: r)
  case (Cons ro ros)
  have "resolve (ro_definition ro) r = None" using Cons.prems by (auto simp: resolve_def map_of_eq_None_iff)
  with Cons.prems(1) have "register (ro_definition ro) (ro_handler ro) r = Inr (r\<lparr>or_operations := or_operations r @
      [(operation_key (ro_definition ro), ro\<lparr>ro_handler := Wrapped (or_before_dispatch r) (ro_handler ro)\<rparr>)]\<rparr>)"
    by (auto simp: register_Inr intro: registered_operation.equality)
  with Cons show ?case by simp
qed simp

subsection \<open>The inventory\<close>

lemma mset_insert_by: "mset (insert_by cmp x xs) = add_mset x (mset xs)"
  by (induction xs) auto

lemma mset_sort_by [simp]: "mset (sort_by cmp xs) = mset xs"
  by (induction xs) (simp_all add: sort_by_def mset_insert_by)

lemma set_sort_by [simp]: "set (sort_by cmp xs) = set xs"
  by (metis mset_sort_by set_mset_mset)

lemma split_nul_plain: "nul \<notin> set a \<Longrightarrow> split_nul a = [a]"
  by (induction a) auto

lemma split_nul_two: "nul \<notin> set a \<Longrightarrow> nul \<notin> set b \<Longrightarrow> split_nul (a @ nul # b) = [a, b]"
  by (induction a) (auto simp: split_nul_plain)

lemma inventory_entry_prefix:
  assumes "nul \<notin> set a"
  shows "inventory_entry (capability_prefix a v, ops) =
    \<lparr>ci_capability_id = a, ci_major_version = v, ci_operations = sort ops\<rparr>"
  using split_nul_two [OF assms show_int_no_nul [of v]] by (simp add: inventory_entry_def capability_prefix_def)

abbreviation definition_prefix :: "'p operation_definition \<Rightarrow> string" where
  "definition_prefix d \<equiv> capability_prefix (op_capability_id d) (op_major_version d)"

text \<open>What the grouping holds after some definitions.\<close>

definition grouped_ok :: "'p operation_definition list \<Rightarrow> (string, string jset) jmap \<Rightarrow> bool" where
  "grouped_ok ds m \<longleftrightarrow> jmap_wf m \<and>
     (\<forall>k. jmap_get m k = None \<longleftrightarrow> k \<notin> definition_prefix ` set ds) \<and>
     (\<forall>k vs. jmap_get m k = Some vs \<longrightarrow> distinct vs \<and> set vs = op_operation ` {d\<in>set ds. definition_prefix d = k})"

lemma grouped_okD:
  assumes "grouped_ok ds m"
  shows "jmap_wf m" and "jmap_get m k = None \<Longrightarrow> k \<notin> definition_prefix ` set ds"
    and "jmap_get m k = Some vs \<Longrightarrow> k \<in> definition_prefix ` set ds"
    and "jmap_get m k = Some vs \<Longrightarrow> distinct vs"
    and "jmap_get m k = Some vs \<Longrightarrow> set vs = op_operation ` {d\<in>set ds. definition_prefix d = k}"
proof -
  show "jmap_wf m" using assms unfolding grouped_ok_def by blast
  have k: "jmap_get m k = None \<longleftrightarrow> k \<notin> definition_prefix ` set ds" using assms unfolding grouped_ok_def by blast
  then show "jmap_get m k = None \<Longrightarrow> k \<notin> definition_prefix ` set ds"
    and "jmap_get m k = Some vs \<Longrightarrow> k \<in> definition_prefix ` set ds" by auto
  show "jmap_get m k = Some vs \<Longrightarrow> distinct vs"
    and "jmap_get m k = Some vs \<Longrightarrow> set vs = op_operation ` {d\<in>set ds. definition_prefix d = k}"
    using assms unfolding grouped_ok_def by blast+
qed

lemma grouped_ok_step:
  assumes "grouped_ok ds m"
  shows "grouped_ok (ds @ [d]) (group_operation d m)"
proof -
  let ?k = "definition_prefix d"
  let ?vs = "case jmap_get m ?k of None \<Rightarrow> [] | Some s \<Rightarrow> s"
  have vs: "distinct ?vs" "set ?vs = op_operation ` {x\<in>set ds. definition_prefix x = ?k}"
  proof -
    show "distinct ?vs" using grouped_okD(4) [OF assms, of ?k] by (cases "jmap_get m ?k") simp_all
    show "set ?vs = op_operation ` {x\<in>set ds. definition_prefix x = ?k}"
    proof (cases "jmap_get m ?k")
      case None
      with grouped_okD(2) [OF assms None] have "{x\<in>set ds. definition_prefix x = ?k} = {}"
        by (metis (mono_tags, lifting) Collect_empty_eq image_eqI)
      with None show ?thesis by simp
    next
      case (Some s)
      with grouped_okD(5) [OF assms Some] show ?thesis by simp
    qed
  qed
  have "group_operation d m = jmap_set ?k (jset_add (op_operation d) ?vs) m"
    by (simp add: group_operation_def Let_def)
  moreover have "grouped_ok (ds @ [d]) (jmap_set ?k (jset_add (op_operation d) ?vs) m)"
    unfolding grouped_ok_def
  proof (intro conjI allI impI)
    show "jmap_wf (jmap_set ?k (jset_add (op_operation d) ?vs) m)" using assms by (simp add: grouped_ok_def)
    show "jmap_get (jmap_set ?k (jset_add (op_operation d) ?vs) m) k = None \<longleftrightarrow> k \<notin> definition_prefix ` set (ds @ [d])" for k
      using assms by (simp add: grouped_ok_def)
    fix k ws assume "jmap_get (jmap_set ?k (jset_add (op_operation d) ?vs) m) k = Some ws"
    then consider "k = ?k" "ws = jset_add (op_operation d) ?vs" | "k \<noteq> ?k" "jmap_get m k = Some ws"
      by (auto split: if_splits)
    then have "distinct ws \<and> set ws = op_operation ` {x\<in>set (ds @ [d]). definition_prefix x = k}"
    proof cases
      case 1
      have "{x\<in>set (ds @ [d]). definition_prefix x = k} = insert d {x\<in>set ds. definition_prefix x = k}"
        using 1(1) by auto
      with 1 vs show ?thesis by simp
    next
      case 2
      have "{x\<in>set (ds @ [d]). definition_prefix x = k} = {x\<in>set ds. definition_prefix x = k}"
        using 2(1) by auto
      with 2 grouped_okD(4,5) [OF assms 2(2)] show ?thesis by simp
    qed
    then show "distinct ws" "set ws = op_operation ` {x\<in>set (ds @ [d]). definition_prefix x = k}" by simp_all
  qed
  ultimately show ?thesis by simp
qed

lemma grouped_ok_fold: "grouped_ok ds m \<Longrightarrow> grouped_ok (ds @ es) (fold group_operation es m)"
proof (induction es arbitrary: ds m)
  case (Cons e es)
  from Cons.IH [OF grouped_ok_step [OF Cons.prems, of e]] show ?case by simp
qed simp

lemma grouped_ok_registry: "grouped_ok ds (fold group_operation ds [])"
proof -
  have "grouped_ok [] []" by (simp add: grouped_ok_def)
  from grouped_ok_fold [OF this, of ds] show ?thesis by simp
qed

subsection \<open>Reading the inventory\<close>

lemma add_operations_ok:
  assumes "distinct ops" and "\<forall>op\<in>set ops. p @ [nul] @ op \<notin> set acc"
  shows "\<exists>acc'. add_operations p ops acc = Inr acc' \<and> set acc' = set acc \<union> (\<lambda>op. p @ [nul] @ op) ` set ops"
  using assms
proof (induction ops arbitrary: acc)
  case (Cons op ops)
  from Cons.IH [of "jset_add (p @ [nul] @ op) acc"] Cons.prems show ?case by (auto simp: Let_def)
qed simp

definition inventory_prefix :: "capability_inventory \<Rightarrow> string" where
  "inventory_prefix c = capability_prefix (ci_capability_id c) (ci_major_version c)"

definition inventory_keys :: "capability_inventory \<Rightarrow> string set" where
  "inventory_keys c = (\<lambda>op. inventory_prefix c @ [nul] @ op) ` set (ci_operations c)"

lemma negotiated_loop_ok:
  assumes "distinct (map inventory_prefix cs)" and "set keys \<inter> inventory_prefix ` set cs = {}"
    and "\<forall>c\<in>set cs. distinct (ci_operations c) \<and> (\<forall>op\<in>set (ci_operations c). nul \<notin> set op)"
    and "\<forall>x\<in>set acc. \<exists>p\<in>set keys. \<exists>op. x = p @ [nul] @ op \<and> nul \<notin> set op"
  shows "\<exists>keys' acc'. negotiated_loop cs keys acc = Inr (keys', acc') \<and>
    set keys' = set keys \<union> inventory_prefix ` set cs \<and> set acc' = set acc \<union> (\<Union>c\<in>set cs. inventory_keys c)"
  using assms
proof (induction cs arbitrary: keys acc)
  case (Cons c cs)
  let ?p = "inventory_prefix c"
  have ops: "distinct (ci_operations c)" "\<And>op. op \<in> set (ci_operations c) \<Longrightarrow> nul \<notin> set op"
    using Cons.prems(3) by auto
  have "?p @ [nul] @ op \<notin> set acc" if "op \<in> set (ci_operations c)" for op
  proof
    assume "?p @ [nul] @ op \<in> set acc"
    then obtain q o' where "q \<in> set keys" "?p @ [nul] @ op = q @ [nul] @ o'" "nul \<notin> set o'"
      using Cons.prems(4) by blast
    with split_last [OF this(2) ops(2) [OF that]] Cons.prems(2) show False by auto
  qed
  with add_operations_ok [OF ops(1), of ?p acc] obtain acc1 where
    a: "add_operations ?p (ci_operations c) acc = Inr acc1" "set acc1 = set acc \<union> inventory_keys c"
    by (auto simp: inventory_keys_def)
  have "\<forall>x\<in>set acc1. \<exists>p\<in>set (jset_add ?p keys). \<exists>op. x = p @ [nul] @ op \<and> nul \<notin> set op"
    using a(2) ops(2) Cons.prems(4) by (fastforce simp: inventory_keys_def)
  with Cons.IH [of "jset_add ?p keys" acc1] Cons.prems a obtain keys' acc' where
    "negotiated_loop cs (jset_add ?p keys) acc1 = Inr (keys', acc')"
    "set keys' = insert ?p (set keys) \<union> inventory_prefix ` set cs"
    "set acc' = set acc1 \<union> (\<Union>c\<in>set cs. inventory_keys c)"
    by auto
  moreover have "?p \<notin> set keys" using Cons.prems(2) by auto
  ultimately show ?case using a by (auto simp: Let_def inventory_prefix_def)
qed simp

lemma inventory_entries:
  assumes ok: "\<forall>d\<in>set ds. definition_ok d"
  defines "cs \<equiv> map inventory_entry (fold group_operation ds [])"
  shows "distinct (map inventory_prefix cs)" and "inventory_prefix ` set cs = definition_prefix ` set ds"
    and "\<forall>c\<in>set cs. distinct (ci_operations c) \<and> (\<forall>op\<in>set (ci_operations c). nul \<notin> set op)"
    and "(\<Union>c\<in>set cs. inventory_keys c) = operation_key ` set ds"
proof -
  let ?m = "fold group_operation ds []"
  note g = grouped_okD [OF grouped_ok_registry [of ds]]
  have mem: "(k, vs) \<in> set ?m \<longleftrightarrow> jmap_get ?m k = Some vs" for k vs using g(1) by simp
  have nn: "nul \<notin> set (op_capability_id d)" "nul \<notin> set (op_operation d)" if "d \<in> set ds" for d
    using ok that by (auto simp: definition_ok_def identifier_no_nul)
  have entry: "inventory_prefix (inventory_entry (k, vs)) = k" "ci_operations (inventory_entry (k, vs)) = sort vs"
    if "(k, vs) \<in> set ?m" for k vs
  proof -
    from that mem have "k \<in> definition_prefix ` set ds" by (intro g(3)) simp
    then obtain d where "d \<in> set ds" "k = definition_prefix d" by auto
    with inventory_entry_prefix [OF nn(1), of d "op_major_version d" vs]
    show "inventory_prefix (inventory_entry (k, vs)) = k" "ci_operations (inventory_entry (k, vs)) = sort vs"
      by (simp_all add: inventory_prefix_def)
  qed
  have p: "map inventory_prefix cs = map fst ?m"
    unfolding cs_def map_map by (rule map_cong [OF refl]) (use entry(1) in auto)
  then show "distinct (map inventory_prefix cs)" using g(1) by simp
  have "inventory_prefix ` set cs = fst ` set ?m" using p by (metis set_map)
  also have "\<dots> = definition_prefix ` set ds" 
  proof (intro equalityI subsetI)
    fix k assume "k \<in> fst ` set ?m"
    then obtain vs where "jmap_get ?m k = Some vs" using mem by auto
    then show "k \<in> definition_prefix ` set ds" by (rule g(3))
  next
    fix k assume "k \<in> definition_prefix ` set ds"
    with g(2) [of k] show "k \<in> fst ` set ?m" by (meson map_of_eq_None_iff)
  qed
  finally show "inventory_prefix ` set cs = definition_prefix ` set ds" .
  show "\<forall>c\<in>set cs. distinct (ci_operations c) \<and> (\<forall>op\<in>set (ci_operations c). nul \<notin> set op)"
  proof
    fix c assume "c \<in> set cs"
    then obtain k vs where c: "(k, vs) \<in> set ?m" "c = inventory_entry (k, vs)" by (auto simp: cs_def)
    then have vs: "jmap_get ?m k = Some vs" using mem by simp
    have "set vs \<subseteq> op_operation ` set ds" using g(5) [OF vs] by auto
    with nn(2) g(4) [OF vs] entry(2) [OF c(1)] c(2)
    show "distinct (ci_operations c) \<and> (\<forall>op\<in>set (ci_operations c). nul \<notin> set op)" by auto
  qed
  have "(\<Union>c\<in>set cs. inventory_keys c) = (\<Union>(k, vs)\<in>set ?m. (\<lambda>op. k @ [nul] @ op) ` set vs)"
    using entry by (auto simp: cs_def inventory_keys_def)
  also have "\<dots> = operation_key ` set ds"
  proof (intro equalityI subsetI)
    fix x assume "x \<in> (\<Union>(k, vs)\<in>set ?m. (\<lambda>op. k @ [nul] @ op) ` set vs)"
    then obtain k vs op where x: "(k, vs) \<in> set ?m" "op \<in> set vs" "x = k @ [nul] @ op" by auto
    then obtain d where "d \<in> set ds" "definition_prefix d = k" "op_operation d = op"
      using g(5) [of k vs] mem by auto
    with x(3) show "x \<in> operation_key ` set ds" by (auto simp: operation_key_prefix)
  next
    fix x assume "x \<in> operation_key ` set ds"
    then obtain d where d: "d \<in> set ds" "x = definition_prefix d @ [nul] @ op_operation d"
      by (auto simp: operation_key_prefix)
    then obtain vs where vs: "jmap_get ?m (definition_prefix d) = Some vs"
      using g(2) [of "definition_prefix d"] by (cases "jmap_get ?m (definition_prefix d)") auto
    have "op_operation d \<in> set vs" using g(5) [OF vs] d(1) by simp
    moreover have "(definition_prefix d, vs) \<in> set ?m" using vs mem by simp
    ultimately show "x \<in> (\<Union>(k, vs)\<in>set ?m. (\<lambda>op. k @ [nul] @ op) ` set vs)" using d(2) by blast
  qed
  finally show "(\<Union>c\<in>set cs. inventory_keys c) = operation_key ` set ds" .
qed

section \<open>Properties\<close>

text \<open>Registering an operation succeeds only for a valid definition whose key is free; it then
  resolves to exactly that definition behind the registry's own hook, every operation with other
  coordinates resolves as before, and the registry stays well formed: each entry is a valid
  definition stored under its own key.\<close>

theorem register_resolve:
  assumes "registry_ok r" and "register d h r = Inr r'"
  shows "registry_ok r' \<and> definition_ok d \<and> resolve d r = None \<and>
    resolve d r' = Some \<lparr>ro_definition = d, ro_handler = Wrapped (or_before_dispatch r) h\<rparr> \<and>
    (\<forall>k :: operation_ref. ref_ok k \<longrightarrow>
      (op_capability_id k, op_major_version k, op_operation k) \<noteq>
      (op_capability_id d, op_major_version d, op_operation d) \<longrightarrow> resolve k r' = resolve k r)"
proof -
  have d: "definition_ok d" "resolve d r = None"
    and r': "r' = r\<lparr>or_operations := or_operations r @
      [(operation_key d, \<lparr>ro_definition = d, ro_handler = Wrapped (or_before_dispatch r) h\<rparr>)]\<rparr>"
    using assms(2) by (simp_all add: register_Inr)
  have "resolve k r' = resolve k r" if "ref_ok k" "(op_capability_id k, op_major_version k, op_operation k) \<noteq>
      (op_capability_id d, op_major_version d, op_operation d)" for k :: operation_ref
    using operation_key_inject [OF that(1) definition_ref_ok [OF d(1)]] that(2)
    by (auto simp: resolve_def r' map_add_def split: option.splits)
  moreover have "resolve d r' = Some \<lparr>ro_definition = d, ro_handler = Wrapped (or_before_dispatch r) h\<rparr>"
    using d(2) by (auto simp: resolve_def r' map_add_def)
  ultimately show ?thesis using registry_ok_register [OF assms] d by blast
qed

text \<open>A fork of a well-formed registry never fails, has the same operations in the same order under
  the same definitions, and runs the same hooks and handler for each of them.\<close>

theorem fork_faithful:
  assumes "registry_ok r"
  shows "\<exists>r'. fork r = Inr r' \<and> registry_ok r' \<and> or_before_dispatch r' = None \<and>
    map (\<lambda>(k, ro). (k, ro_definition ro, handler_hooks (ro_handler ro), handler_body (ro_handler ro))) (or_operations r') =
    map (\<lambda>(k, ro). (k, ro_definition ro, handler_hooks (ro_handler ro), handler_body (ro_handler ro))) (or_operations r)"
proof -
  let ?ros = "map snd (or_operations r)"
  have k: "map (operation_key \<circ> ro_definition) ?ros = map fst (or_operations r)"
    using assms by (auto simp: registry_ok_def)
  have ok: "\<forall>ro\<in>set ?ros. definition_ok (ro_definition ro)" using assms by (auto simp: registry_ok_def)
  let ?r' = "(new_registry None :: ('a, 'b) operation_registry)\<lparr>or_operations :=
    map (\<lambda>ro. (operation_key (ro_definition ro), ro\<lparr>ro_handler := Wrapped None (ro_handler ro)\<rparr>)) ?ros\<rparr>"
  have "distinct (map (operation_key \<circ> ro_definition) ?ros)" using assms unfolding k by (simp add: registry_ok_def)
  with register_all_ok [OF ok, of "new_registry None"] have f: "fork r = Inr ?r'"
    by (simp add: fork_def new_registry_def)
  have "map fst (or_operations ?r') = map fst (or_operations r)" using k by (simp add: comp_def)
  with assms ok have "registry_ok ?r'" by (auto simp: registry_ok_def simp del: map_map)
  moreover have "map (\<lambda>(k, ro). (k, ro_definition ro, handler_hooks (ro_handler ro), handler_body (ro_handler ro)))
      (or_operations ?r') =
    map (\<lambda>(k, ro). (k, ro_definition ro, handler_hooks (ro_handler ro), handler_body (ro_handler ro))) (or_operations r)"
    using assms by (auto simp: registry_ok_def)
  ultimately show ?thesis using f by (auto simp: new_registry_def)
qed

text \<open>C40. The inventory a well-formed registry advertises is accepted by the other side's reading of it,
  and what the other side then takes as negotiated is exactly the set of registered operations.\<close>

theorem inventory_negotiates:
  assumes "registry_ok r"
  shows "\<exists>keys operations. negotiated_inventory (capabilities collate r) = Inr (keys, operations) \<and>
    set operations = fst ` set (or_operations r)"
proof -
  let ?ds = "map (ro_definition \<circ> snd) (or_operations r)"
  let ?cs = "map inventory_entry (fold group_operation ?ds [])"
  let ?sorted = "sort_by (compare_inventory collate) ?cs"
  have ok: "\<forall>d\<in>set ?ds. definition_ok d" and keys: "operation_key ` set ?ds = fst ` set (or_operations r)"
    using assms by (force simp: registry_ok_def)+
  note e = inventory_entries [OF ok]
  have "mset (map inventory_prefix ?sorted) = mset (map inventory_prefix ?cs)" by (simp only: mset_map mset_sort_by)
  then have "distinct (map inventory_prefix ?sorted)" using e(1) mset_eq_imp_distinct_iff by blast
  with e(3) have "\<exists>keys' acc'. negotiated_loop ?sorted [] [] = Inr (keys', acc') \<and>
      set acc' = (\<Union>c\<in>set ?sorted. inventory_keys c)"
    using negotiated_loop_ok [of ?sorted "[]" "[]"] by auto
  with e(4) keys show ?thesis by (auto simp: negotiated_inventory_def capabilities_def)
qed

section \<open>Witnesses\<close>

definition example_definition :: "string \<Rightarrow> unit operation_definition" where
  "example_definition name = \<lparr>op_capability_id = ''control'', op_major_version = 2, op_operation = name,
     od_request_schema = Some, od_response_schema = Some, od_maximum_deadline = FiniteBound 5000, od_lane = ControlLane\<rparr>"

definition example_registry :: "(unit, nat) operation_registry" where
  "example_registry = (new_registry (Some 7))\<lparr>or_operations :=
     [(operation_key (example_definition ''ping''),
       \<lparr>ro_definition = example_definition ''ping'', ro_handler = Wrapped (Some 7) (Handler 1)\<rparr>)]\<rparr>"

lemma example_definition_ok: "definition_ok (example_definition ''ping'')" "definition_ok (example_definition ''go_away'')"
  by (simp_all add: definition_ok_def example_definition_def identifier_ok_def is_lower_def is_safe_integer_def
      max_safe_integer_def)

lemma example_registry_ok: "registry_ok example_registry"
  using example_definition_ok by (simp add: registry_ok_def example_registry_def)

lemma example_register:
  "\<exists>r'. register (example_definition ''go_away'') (Handler 2) example_registry = Inr r'"
proof -
  have "operation_key (example_definition ''go_away'') \<noteq> operation_key (example_definition ''ping'')"
    by (simp add: operation_key_def example_definition_def)
  then show ?thesis
    using example_definition_ok by (simp add: register_Inr resolve_def example_registry_def)
qed

theorem register_resolve_witness:
  "\<exists>r'. register (example_definition ''go_away'') (Handler 2) example_registry = Inr r' \<and>
    resolve (example_definition ''go_away'') r' =
      Some \<lparr>ro_definition = example_definition ''go_away'', ro_handler = Wrapped (Some 7) (Handler 2)\<rparr>"
  using register_resolve [OF example_registry_ok] example_register
  by (auto simp: example_registry_def new_registry_def)

theorem fork_faithful_witness:
  "\<exists>r'. fork example_registry = Inr r' \<and>
    map (\<lambda>(k, ro). (k, ro_definition ro, handler_hooks (ro_handler ro), handler_body (ro_handler ro))) (or_operations r') =
      [(operation_key (example_definition ''ping''), example_definition ''ping'', [7], 1)]"
  using fork_faithful [OF example_registry_ok] by (auto simp: example_registry_def)

theorem inventory_negotiates_witness:
  "\<exists>keys operations. negotiated_inventory (capabilities (\<lambda>_ _. 0) example_registry) = Inr (keys, operations) \<and>
    set operations = {operation_key (example_definition ''ping'')}"
  using inventory_negotiates [OF example_registry_ok, of "\<lambda>_ _. 0"] by (simp add: example_registry_def)

end
