(* ===== verification/ProtocolPeer.thy ===== *)
theory ProtocolPeer
  imports OperationRegistry
begin

text \<open>
  One endpoint of the sidecar protocol (\<^verbatim>\<open>src/internal/sidecar-protocol/protocol-peer.ts\<close>): calls and
  their cancellation, requests from the other side, the hello handshake, events, byte streams with
  credit in both directions, and closing.

  A piece of the class between two suspensions is one operation on the record \<open>peer\<close>. Objects the code
  keeps a reference to while they are in no map any more (stream states, running handlers) live in
  stores under a number. A frame handed to the transport is an output with a token, and \<open>pe_sends\<close>
  holds what runs when that send settles; \<open>pe_pauses\<close> the same for congestion pauses. Outputs are what
  callers, handlers and the transport see. A pending request is settled exactly when it leaves
  \<^verbatim>\<open>#outbound\<close>, so the \<^verbatim>\<open>settled\<close> flag of the code is the absence of its handle there.

  Parameters: uuid recognition, JSON, hashing, the hello schemas, and which callbacks throw. Times are
  readings of \<open>pe_now\<close>. Heartbeat diagnostics observe only and are left out.
\<close>

section \<open>Definitions\<close>

datatype peer_error = PlainError string | DeliveryError string write_delivery | RemoteError string bool

datatype handler_error = HandlerOperationError string bool | HandlerError

record hello_response =
  hr_compression :: frame_compression
  hr_sidecar_capabilities :: "capability_inventory list"
  hr_sedes_capabilities :: "capability_inventory list"
  hr_agent_tool_cli :: bool

record 'p pending_request =
  pr_handle :: nat
  pr_definition :: "'p operation_definition"
  pr_requested_compression :: "frame_compression option"
  pr_late_success :: "nat option"
  pr_timer :: bool
  pr_signal :: bool
  pr_send_token :: nat
  pr_cancellation_code :: "string option"
  pr_sent :: bool

record active_request =
  ar_execution :: nat
  ar_lane :: frame_lane

text \<open>A running handler, with its abort signal, its deadline timer and the winner of the race between
  the two.\<close>

record 'p execution =
  ex_request_id :: string
  ex_namespace :: request_namespace
  ex_definition :: "'p operation_definition"
  ex_request :: 'p
  ex_hello :: bool
  ex_deadline :: "int option"
  ex_abort :: "string option"
  ex_outcome :: "(handler_error + 'p) option"

record 'p event_registration =
  er_listener :: nat
  er_schema :: "'p \<Rightarrow> 'p option"

record 'p incoming_stream =
  ist_stream_id :: string
  ist_capability_id :: string
  ist_major_version :: int
  ist_terminal_schema :: "'p \<Rightarrow> 'p option"
  ist_credit_window :: int
  ist_expected_sequence :: int
  ist_remaining_credit :: int
  ist_terminal_received :: bool
  ist_owed_credit :: int
  ist_repaying :: bool

datatype 'p stream_task =
    SendTask nat stream_channel bytes bool     \<comment> \<open>promise, channel, bytes, signal aborted\<close>
  | TerminalTask nat 'p

datatype task_position = TaskReady | TaskWaiting | TaskWoken | TaskSending | TaskPaused

record 'p outgoing_stream =
  ost_stream_id :: string
  ost_capability_id :: string
  ost_major_version :: int
  ost_sequence :: int
  ost_credit :: int
  ost_terminal_requested :: bool
  ost_terminal :: bool
  ost_chain :: "'p stream_task list"
  ost_position :: task_position

datatype 'p outgoing_frame = EnvelopeFrame "'p sidecar_envelope" | DataFrame stream_data_frame

datatype send_continuation =
    RequestSend string nat
  | CancelSend
  | ResponseSend bool
  | ErrorSend
  | EventSend nat
  | CreditSend nat nat int
  | RepaySend string nat int int
  | DataSend nat
  | TerminalSend nat int

datatype congestion_pause = RepayPause string nat int | TerminalPause nat int

datatype 'p callback =
    CallListener nat 'p
  | CallData nat stream_data_frame
  | CallTerminal nat 'p
  | CallReady

record 'p peer_env =
  env_is_uuid :: "string \<Rightarrow> bool"
  env_stringify :: "'p sidecar_envelope \<Rightarrow> bytes"
  env_sha256 :: "string \<Rightarrow> bytes"
  env_hello_request :: "'p \<Rightarrow> frame_compression option"
  env_hello_response :: "'p \<Rightarrow> hello_response option"
  env_callback_fails :: "'p callback \<Rightarrow> string option"

record ('p, 'h) peer =
  pe_role :: request_namespace
  pe_session_nonce :: string
  pe_registry :: "('p, 'h) operation_registry"
  pe_limits :: sidecar_protocol_limits
  pe_outbound :: "(string, 'p pending_request) jmap"
  pe_inbound :: "(string, active_request) jmap"
  pe_received :: "string jset"
  pe_cancelled :: "string jset"
  pe_late :: "(string, 'p operation_definition \<times> nat) jmap"
  pe_events :: "(string, 'p event_registration list) jmap"
  pe_incoming :: "(string, nat) jmap"
  pe_retired :: "(string, nat) jmap"
  pe_outgoing :: "(string, nat) jmap"
  pe_terminal_outgoing :: "string jset"
  pe_local_capabilities :: "string jset"
  pe_remote_capabilities :: "string jset"
  pe_local_operations :: "string jset"
  pe_remote_operations :: "string jset"
  pe_last_activity :: int
  pe_last_inbound :: int
  pe_last_outbound :: int
  pe_hello_complete :: bool
  pe_hello_in_progress :: bool
  pe_started :: bool
  pe_closed :: bool
  pe_reading :: bool
  pe_now :: int
  pe_in_streams :: "(nat, 'p incoming_stream) jmap"
  pe_out_streams :: "(nat, 'p outgoing_stream) jmap"
  pe_executions :: "(nat, 'p execution) jmap"
  pe_sends :: "(nat, send_continuation) jmap"
  pe_pauses :: "(nat, congestion_pause) jmap"
  pe_next :: nat

datatype 'p peer_output =
    CallRefused string                   \<comment> \<open>a call that threw before its request was pending\<close>
  | CallResolved nat 'p
  | CallRejected nat peer_error
  | SendFrame nat "'p outgoing_frame" frame_lane bool bool  \<comment> \<open>token, frame, lane, signal aborted, settlement\<close>
  | AbortSend nat
  | HandlerStarted nat
  | LateSuccess nat 'p
  | EventDelivered nat 'p
  | StreamDelivered nat stream_data_frame
  | StreamTerminated nat 'p
  | StreamDrained nat
  | PromiseResolved nat
  | PromiseRejected nat string
  | CompressionCommitted frame_compression
  | PeerReady
  | PeerClosing
  | TransportClose string

type_synonym ('p, 'h) peer_step = "('p, 'h) peer \<times> 'p peer_output list"

definition remote_role :: "('p, 'h) peer \<Rightarrow> request_namespace" where
  "remote_role p = (case pe_role p of Sedes \<Rightarrow> Sidecar | Sidecar \<Rightarrow> Sedes)"

definition new_peer ::
  "request_namespace \<Rightarrow> string \<Rightarrow> ('p, 'h) operation_registry \<Rightarrow> limit_overrides \<Rightarrow> int \<Rightarrow> ('p, 'h) peer result" where
  "new_peer role nonce registry overrides now =
     (if length nonce < 32 \<or> length nonce > 160 then Inl ''sidecar_session_nonce_invalid''
      else case resolve_sidecar_protocol_limits overrides of
        Inl e \<Rightarrow> Inl e
      | Inr limits \<Rightarrow> Inr \<lparr>pe_role = role, pe_session_nonce = nonce, pe_registry = registry, pe_limits = limits,
          pe_outbound = [], pe_inbound = [], pe_received = [], pe_cancelled = [], pe_late = [], pe_events = [],
          pe_incoming = [], pe_retired = [], pe_outgoing = [], pe_terminal_outgoing = [],
          pe_local_capabilities = [], pe_remote_capabilities = [], pe_local_operations = [],
          pe_remote_operations = [], pe_last_activity = now, pe_last_inbound = now, pe_last_outbound = now,
          pe_hello_complete = False, pe_hello_in_progress = False, pe_started = False, pe_closed = False,
          pe_reading = False, pe_now = now, pe_in_streams = [], pe_out_streams = [], pe_executions = [],
          pe_sends = [], pe_pauses = [], pe_next = 0\<rparr>)"

definition start_peer :: "('p, 'h) peer \<Rightarrow> ('p, 'h) peer result" where
  "start_peer p = (if pe_started p then Inl ''sidecar_protocol_peer_already_started''
     else Inr (p\<lparr>pe_started := True, pe_reading := True\<rparr>))"

definition supports_operation :: "'a operation_ref_scheme \<Rightarrow> ('p, 'h) peer \<Rightarrow> bool" where
  "supports_operation d p \<longleftrightarrow> pe_hello_complete p \<and> \<not> pe_closed p \<and> operation_key d \<in> set (pe_remote_operations p)"

definition supports_incoming_operation :: "'a operation_ref_scheme \<Rightarrow> ('p, 'h) peer \<Rightarrow> bool" where
  "supports_incoming_operation d p \<longleftrightarrow>
     pe_hello_complete p \<and> \<not> pe_closed p \<and> operation_key d \<in> set (pe_local_operations p)"

definition assert_ready :: "('p, 'h) peer \<Rightarrow> unit result" where
  "assert_ready p =
     (if pe_closed p then Inl ''sidecar_protocol_peer_closed''
      else if \<not> pe_started p then Inl ''sidecar_protocol_peer_not_started''
      else if \<not> pe_hello_complete p then Inl ''sidecar_protocol_hello_required''
      else Inr ())"

definition mark_inbound_activity :: "('p, 'h) peer \<Rightarrow> ('p, 'h) peer" where
  "mark_inbound_activity p = p\<lparr>pe_last_activity := pe_now p, pe_last_inbound := pe_now p\<rparr>"

definition mark_outbound_activity :: "('p, 'h) peer \<Rightarrow> ('p, 'h) peer" where
  "mark_outbound_activity p = p\<lparr>pe_last_activity := pe_now p, pe_last_outbound := pe_now p\<rparr>"

subsection \<open>Sending\<close>

definition encode_frame :: "'p peer_env \<Rightarrow> 'p outgoing_frame \<Rightarrow> bytes result" where
  "encode_frame env f = (case f of
     EnvelopeFrame e \<Rightarrow> encode_sidecar_envelope (env_is_uuid env) (env_stringify env) e
   | DataFrame d \<Rightarrow> encode_sidecar_stream_data_frame (env_is_uuid env) (env_sha256 env) d)"

definition post_frame ::
  "send_continuation \<Rightarrow> 'p outgoing_frame \<Rightarrow> frame_lane \<Rightarrow> bool \<Rightarrow> bool \<Rightarrow> ('p, 'h) peer \<Rightarrow> ('p, 'h) peer_step" where
  "post_frame cont f lane aborted settlement p =
     (p\<lparr>pe_sends := jmap_set (pe_next p) cont (pe_sends p), pe_next := Suc (pe_next p)\<rparr>,
      [SendFrame (pe_next p) f lane aborted settlement])"

fun trim_set :: "int \<Rightarrow> 'a jset \<Rightarrow> 'a jset" where
  "trim_set maximum [] = []"
| "trim_set maximum (x # xs) = (if int (length (x # xs)) > maximum then trim_set maximum xs else x # xs)"

subsection \<open>Deadlines\<close>

definition resolve_outbound_deadline ::
  "'p operation_definition \<Rightarrow> bool \<Rightarrow> int option \<Rightarrow> int \<Rightarrow> request_deadline result" where
  "resolve_outbound_deadline d has_signal deadline maximum =
     (case od_maximum_deadline d of
        CallerAbortBound \<Rightarrow>
          if \<not> has_signal \<or> deadline \<noteq> None then Inl ''sidecar_caller_abort_signal_required'' else Inr CallerAbort
      | FiniteBound bound \<Rightarrow>
          (let requested = (case deadline of Some ms \<Rightarrow> ms | None \<Rightarrow> bound)
           in if \<not> is_safe_integer requested \<or> requested \<le> 0 then Inl ''sidecar_request_deadline_invalid''
              else Inr (FiniteDeadline (min requested (min bound maximum)))))"

definition resolve_inbound_deadline ::
  "'p operation_definition \<Rightarrow> request_deadline \<Rightarrow> int \<Rightarrow> int option result" where
  "resolve_inbound_deadline d deadline maximum =
     (case od_maximum_deadline d of
        CallerAbortBound \<Rightarrow>
          (case deadline of CallerAbort \<Rightarrow> Inr None | _ \<Rightarrow> Inl ''sidecar_request_deadline_mode_invalid'')
      | FiniteBound bound \<Rightarrow>
          (case deadline of
             FiniteDeadline ms \<Rightarrow> Inr (Some (min ms (min bound maximum)))
           | CallerAbort \<Rightarrow> Inl ''sidecar_request_deadline_mode_invalid''))"

subsection \<open>The hello handshake\<close>

definition control_hello_ref :: operation_ref where
  "control_hello_ref = \<lparr>op_capability_id = ''control'', op_major_version = 2, op_operation = ''hello''\<rparr>"

definition is_hello :: "'a operation_ref_scheme \<Rightarrow> bool" where
  "is_hello d \<longleftrightarrow> operation_key d = operation_key control_hello_ref"

definition agent_tool_cli_accepted :: "hello_response \<Rightarrow> bool" where
  "agent_tool_cli_accepted hello \<longleftrightarrow> (\<exists>c\<in>set (hr_sedes_capabilities hello).
     ci_capability_id c = ''agent_tools_cli'' \<and> ci_major_version c = 6)"

definition key_resolves :: "('p, 'h) operation_registry \<Rightarrow> string \<Rightarrow> bool" where
  "key_resolves r key =
     (case split_nul key of
        capability_id # major # op # _ \<Rightarrow> capability_id \<noteq> [] \<and> major \<noteq> [] \<and> op \<noteq> [] \<and>
          resolve \<lparr>op_capability_id = capability_id, op_major_version = read_int major, op_operation = op\<rparr> r \<noteq> None
      | _ \<Rightarrow> False)"

definition commit_hello ::
  "'p peer_env \<Rightarrow> request_namespace \<Rightarrow> 'p \<Rightarrow> frame_compression option \<Rightarrow> bool \<Rightarrow> ('p, 'h) peer \<Rightarrow>
   ('p, 'h) peer_step result" where
  "commit_hello env role payload requested commit_ok p =
     (if pe_role p \<noteq> role \<or> pe_hello_complete p then Inl ''sidecar_protocol_hello_state_invalid''
      else case env_hello_response env payload of
        None \<Rightarrow> Inl ''ZodError''
      | Some hello \<Rightarrow>
          if Some (hr_compression hello) \<noteq> requested then Inl ''sidecar_protocol_compression_mismatch''
          else if agent_tool_cli_accepted hello \<noteq> hr_agent_tool_cli hello
            then Inl ''sidecar_protocol_agent_tool_cli_metadata_mismatch''
          else case negotiated_inventory (hr_sidecar_capabilities hello) of
            Inl e \<Rightarrow> Inl e
          | Inr sidecar \<Rightarrow>
            (case negotiated_inventory (hr_sedes_capabilities hello) of
               Inl e \<Rightarrow> Inl e
             | Inr sedes \<Rightarrow>
                 (let loc = (if role = Sidecar then sidecar else sedes);
                      rem = (if role = Sidecar then sedes else sidecar)
                  in if \<not> list_all (key_resolves (pe_registry p)) (snd loc)
                       then Inl ''sidecar_protocol_local_capability_mismatch''
                     else if \<not> commit_ok then Inl ''sidecar_transport_compression_state_invalid''
                     else Inr (p\<lparr>pe_local_capabilities := fst loc, pe_remote_capabilities := fst rem,
                                 pe_local_operations := snd loc, pe_remote_operations := snd rem,
                                 pe_hello_complete := True\<rparr>,
                               [CompressionCommitted (hr_compression hello)]))))"

subsection \<open>Outbound requests\<close>

definition settle_outbound :: "string \<Rightarrow> peer_error + 'p \<Rightarrow> ('p, 'h) peer \<Rightarrow> ('p, 'h) peer_step" where
  "settle_outbound request_id outcome p =
     (case jmap_get (pe_outbound p) request_id of
        None \<Rightarrow> (p, [])
      | Some pending \<Rightarrow>
          (p\<lparr>pe_outbound := jmap_delete request_id (pe_outbound p),
             pe_hello_in_progress := (if is_hello (pr_definition pending) then False else pe_hello_in_progress p)\<rparr>,
           [case outcome of Inl e \<Rightarrow> CallRejected (pr_handle pending) e
                          | Inr v \<Rightarrow> CallResolved (pr_handle pending) v]))"

definition remember_cancelled :: "string \<Rightarrow> ('p, 'h) peer \<Rightarrow> ('p, 'h) peer" where
  "remember_cancelled request_id p =
     (let cancelled = trim_set (maximum_outbound_requests (pe_limits p) * 2) (jset_add request_id (pe_cancelled p))
      in p\<lparr>pe_cancelled := cancelled, pe_late := dropWhile (\<lambda>l. fst l \<notin> set cancelled) (pe_late p)\<rparr>)"

definition send_cancel :: "string \<Rightarrow> ('p, 'h) peer \<Rightarrow> ('p, 'h) peer_step" where
  "send_cancel request_id p =
     post_frame CancelSend (EnvelopeFrame (CancelEnvelope \<lparr>cx_session_nonce = pe_session_nonce p,
       cx_namespace = pe_role p, cx_request_id = request_id\<rparr>)) ControlLane False False p"

definition cancel_outbound :: "string \<Rightarrow> string \<Rightarrow> ('p, 'h) peer \<Rightarrow> ('p, 'h) peer_step" where
  "cancel_outbound request_id code p =
     (case jmap_get (pe_outbound p) request_id of
        None \<Rightarrow> (p, [])
      | Some pending \<Rightarrow>
          if pr_cancellation_code pending \<noteq> None then (p, [])
          else
            let p1 = remember_cancelled request_id (p\<lparr>pe_outbound :=
                  jmap_set request_id (pending\<lparr>pr_cancellation_code := Some code\<rparr>) (pe_outbound p)\<rparr>);
                p2 = (case pr_late_success pending of
                    None \<Rightarrow> p1
                  | Some h \<Rightarrow> p1\<lparr>pe_late := jmap_set request_id (pr_definition pending, h) (pe_late p1)\<rparr>)
            in if pr_sent pending
               then then_do (settle_outbound request_id (Inl (DeliveryError code SentOutcomeUnknown)) p2)
                      (send_cancel request_id)
               else (p2, [AbortSend (pr_send_token pending)]))"

definition request_frame ::
  "'p operation_definition \<Rightarrow> string \<Rightarrow> request_deadline \<Rightarrow> 'p \<Rightarrow> ('p, 'h) peer \<Rightarrow> 'p outgoing_frame" where
  "request_frame d request_id deadline payload p =
     EnvelopeFrame (RequestEnvelope \<lparr>rq_session_nonce = pe_session_nonce p, rq_namespace = pe_role p,
       rq_request_id = request_id, rq_capability_id = op_capability_id d, rq_major_version = op_major_version d,
       rq_operation = op_operation d, rq_deadline = deadline, rq_payload = payload\<rparr>)"

definition start_call ::
  "'p operation_definition \<Rightarrow> frame_compression option \<Rightarrow> bool \<Rightarrow> bool \<Rightarrow> nat option \<Rightarrow> request_deadline \<Rightarrow> string \<Rightarrow>
   'p outgoing_frame \<Rightarrow> ('p, 'h) peer \<Rightarrow> ('p, 'h) peer_step" where
  "start_call d compression has_signal aborted late deadline request_id frame p =
     (let pending = \<lparr>pr_handle = pe_next p, pr_definition = d, pr_requested_compression = compression,
            pr_late_success = late, pr_timer = (deadline \<noteq> CallerAbort), pr_signal = has_signal,
            pr_send_token = Suc (pe_next p), pr_cancellation_code = None, pr_sent = False\<rparr>;
          p1 = p\<lparr>pe_outbound := jmap_set request_id pending (pe_outbound p), pe_next := Suc (pe_next p)\<rparr>;
          r = (if has_signal \<and> aborted then cancel_outbound request_id ''sidecar_request_cancelled'' p1 else (p1, []))
      in then_do r (post_frame (RequestSend request_id (pe_next p)) frame (od_lane d) (has_signal \<and> aborted) False))"

definition peer_call ::
  "'p peer_env \<Rightarrow> 'p operation_definition \<Rightarrow> 'p \<Rightarrow> bool \<Rightarrow> bool \<Rightarrow> int option \<Rightarrow> nat option \<Rightarrow> string \<Rightarrow>
   ('p, 'h) peer \<Rightarrow> ('p, 'h) peer_step" where
  "peer_call env d request has_signal aborted deadline_ms late request_id p =
     (let refuse = (\<lambda>e. (p, [CallRefused e])); hello = is_hello d
      in if \<not> pe_started p then refuse ''sidecar_protocol_peer_not_started''
         else if pe_closed p then refuse ''sidecar_protocol_peer_closed''
         else if \<not> pe_hello_complete p \<and> (pe_role p \<noteq> Sedes \<or> \<not> hello \<or> pe_hello_in_progress p)
           then refuse ''sidecar_protocol_hello_required''
         else if pe_hello_complete p \<and> operation_key d \<notin> set (pe_remote_operations p)
           then refuse ''sidecar_operation_not_negotiated''
         else if int (length (pe_outbound p)) \<ge> maximum_outbound_requests (pe_limits p)
           then refuse ''sidecar_protocol_outbound_request_limit''
         else case od_request_schema d request of
           None \<Rightarrow> refuse ''ZodError''
         | Some payload \<Rightarrow>
           (case resolve_outbound_deadline d has_signal deadline_ms
                   (maximum_request_deadline_milliseconds (pe_limits p)) of
              Inl e \<Rightarrow> refuse e
            | Inr deadline \<Rightarrow>
                if \<not> env_is_uuid env request_id \<or> jmap_has (pe_outbound p) request_id
                  then refuse ''sidecar_request_id_invalid''
                else let frame = request_frame d request_id deadline payload p in
                (case encode_frame env frame of
                   Inl e \<Rightarrow> refuse e
                 | Inr _ \<Rightarrow>
                     if \<not> hello
                       then start_call d None has_signal aborted late deadline request_id frame p
                     else
                       let p1 = p\<lparr>pe_hello_in_progress := True\<rparr>
                       in case env_hello_request env payload of
                            None \<Rightarrow> (p1, [CallRefused ''ZodError''])
                          | Some c \<Rightarrow> start_call d (Some c) has_signal aborted late deadline request_id frame p1)))"

text \<open>The send of a request settled; \<open>res\<close> is its error message and delivery.\<close>

definition request_sent ::
  "string \<Rightarrow> nat \<Rightarrow> (string \<times> write_delivery) + unit \<Rightarrow> ('p, 'h) peer \<Rightarrow> ('p, 'h) peer_step" where
  "request_sent request_id h res p =
     (case jmap_get (pe_outbound p) request_id of
        None \<Rightarrow> (p, [])
      | Some pending \<Rightarrow>
          if pr_handle pending \<noteq> h then (p, [])
          else case res of
            Inr _ \<Rightarrow>
              (let p1 = mark_outbound_activity (p\<lparr>pe_outbound :=
                     jmap_set request_id (pending\<lparr>pr_sent := True\<rparr>) (pe_outbound p)\<rparr>)
               in if pe_closed p1
                    then settle_outbound request_id
                           (Inl (DeliveryError ''sidecar_protocol_peer_closed'' SentOutcomeUnknown)) p1
                  else case pr_cancellation_code pending of
                    Some code \<Rightarrow>
                      then_do (settle_outbound request_id (Inl (DeliveryError code SentOutcomeUnknown)) p1)
                        (send_cancel request_id)
                  | None \<Rightarrow> (p1, []))
          | Inl (message, delivery) \<Rightarrow>
              settle_outbound request_id (Inl (DeliveryError
                (case pr_cancellation_code pending of Some code \<Rightarrow> code | None \<Rightarrow> message) delivery)) p)"

text \<open>The deadline timer of a request fires, or its caller's signal is aborted; both are removed when
  the request settles.\<close>

definition request_timeout :: "string \<Rightarrow> ('p, 'h) peer \<Rightarrow> ('p, 'h) peer_step" where
  "request_timeout request_id p = (case jmap_get (pe_outbound p) request_id of
     Some pending \<Rightarrow> if pr_timer pending then cancel_outbound request_id ''sidecar_request_timeout'' p else (p, [])
   | None \<Rightarrow> (p, []))"

definition request_aborted :: "string \<Rightarrow> ('p, 'h) peer \<Rightarrow> ('p, 'h) peer_step" where
  "request_aborted request_id p = (case jmap_get (pe_outbound p) request_id of
     Some pending \<Rightarrow> if pr_signal pending then cancel_outbound request_id ''sidecar_request_cancelled'' p else (p, [])
   | None \<Rightarrow> (p, []))"

definition activity_counts :: "('p, 'h) peer \<Rightarrow> nat \<times> nat" where
  "activity_counts p =
     (let operations = filter (\<lambda>r. od_lane (pr_definition (snd r)) = OperationLane) (pe_outbound p)
      in (length operations + length (filter (\<lambda>r. ar_lane (snd r) = OperationLane) (pe_inbound p)),
          length (filter (\<lambda>r. \<not> pr_sent (snd r)) operations)))"

subsection \<open>Streams the other side produces\<close>

definition stream_credit_ok :: "int \<Rightarrow> bool" where
  "stream_credit_ok n \<longleftrightarrow> is_safe_integer n \<and> 0 < n \<and> n \<le> 16 * 1024 * 1024"

definition congestion_retry_milliseconds :: int where "congestion_retry_milliseconds = 50"
definition maximum_congestion_retry_milliseconds :: int where "maximum_congestion_retry_milliseconds = 1000"

definition refused_by_congestion :: "string \<times> write_delivery \<Rightarrow> bool" where
  "refused_by_congestion e \<longleftrightarrow> snd e = NotSent \<and> fst e = ''sidecar_outbound_queue_limit''"

definition upd_in :: "nat \<Rightarrow> ('p incoming_stream \<Rightarrow> 'p incoming_stream) \<Rightarrow> ('p, 'h) peer \<Rightarrow> ('p, 'h) peer" where
  "upd_in h f p = (case jmap_get (pe_in_streams p) h of
     None \<Rightarrow> p | Some s \<Rightarrow> p\<lparr>pe_in_streams := jmap_set h (f s) (pe_in_streams p)\<rparr>)"

definition register_incoming_stream ::
  "'p peer_env \<Rightarrow> string \<Rightarrow> string \<Rightarrow> int \<Rightarrow> int \<Rightarrow> ('p \<Rightarrow> 'p option) \<Rightarrow> ('p, 'h) peer \<Rightarrow> (nat \<times> ('p, 'h) peer) result" where
  "register_incoming_stream env stream_id capability_id major_version credit schema p =
     (if \<not> env_is_uuid env stream_id then Inl ''sidecar_stream_id_invalid''
      else if \<not> stream_credit_ok credit then Inl ''sidecar_stream_credit_invalid''
      else if jmap_has (pe_incoming p) stream_id \<or> jmap_has (pe_retired p) stream_id
        then Inl ''sidecar_stream_already_registered''
      else
        let h = pe_next p;
            st = \<lparr>ist_stream_id = stream_id, ist_capability_id = capability_id, ist_major_version = major_version,
              ist_terminal_schema = schema, ist_credit_window = credit, ist_expected_sequence = 0,
              ist_remaining_credit = credit, ist_terminal_received = False, ist_owed_credit = 0, ist_repaying = False\<rparr>
        in Inr (h, p\<lparr>pe_in_streams := jmap_set h st (pe_in_streams p),
             pe_incoming := jmap_set stream_id h (pe_incoming p), pe_next := Suc h\<rparr>))"

definition credit_frame :: "string \<Rightarrow> int \<Rightarrow> ('p, 'h) peer \<Rightarrow> 'p outgoing_frame" where
  "credit_frame stream_id n p = EnvelopeFrame (StreamCreditEnvelope \<lparr>sc_session_nonce = pe_session_nonce p,
     sc_origin = pe_role p, sc_stream_id = stream_id, sc_bytes = n\<rparr>)"

text \<open>The part of \<^verbatim>\<open>#sendStreamCredit\<close> before its \<^verbatim>\<open>await\<close>; \<open>credit_landed\<close> is the part after it.\<close>

definition send_stream_credit ::
  "'p peer_env \<Rightarrow> send_continuation \<Rightarrow> string \<Rightarrow> int \<Rightarrow> int \<Rightarrow> ('p, 'h) peer \<Rightarrow> ('p, 'h) peer_step result" where
  "send_stream_credit env cont stream_id remaining n p =
     (if remaining + n > max_safe_integer then Inl ''sidecar_stream_credit_overflow''
      else case encode_frame env (credit_frame stream_id n p) of
        Inl e \<Rightarrow> Inl e
      | Inr _ \<Rightarrow> Inr (post_frame cont (credit_frame stream_id n p) ControlLane False False p))"

definition credit_landed :: "nat \<Rightarrow> int \<Rightarrow> ('p, 'h) peer \<Rightarrow> ('p, 'h) peer" where
  "credit_landed h n p = mark_outbound_activity
     (upd_in h (\<lambda>st. st\<lparr>ist_remaining_credit := ist_remaining_credit st + n\<rparr>) p)"

definition add_credit :: "'p peer_env \<Rightarrow> nat \<Rightarrow> int \<Rightarrow> ('p, 'h) peer \<Rightarrow> ('p, 'h) peer_step" where
  "add_credit env h n p =
     (let promise = pe_next p; p0 = p\<lparr>pe_next := Suc promise\<rparr>
      in case jmap_get (pe_in_streams p) h of
        None \<Rightarrow> (p, [])
      | Some st \<Rightarrow>
          if \<not> stream_credit_ok n then (p0, [PromiseRejected promise ''sidecar_stream_credit_invalid''])
          else if ist_terminal_received st then (p0, [PromiseResolved promise])
          else if jmap_get (pe_incoming p) (ist_stream_id st) \<noteq> Some h
            then (p0, [PromiseRejected promise ''sidecar_stream_not_registered''])
          else case send_stream_credit env (CreditSend promise h n) (ist_stream_id st) (ist_remaining_credit st) n p0 of
            Inl e \<Rightarrow> (p0, [PromiseRejected promise e])
          | Inr r \<Rightarrow> r)"

definition unregister_stream :: "nat \<Rightarrow> ('p, 'h) peer \<Rightarrow> ('p, 'h) peer" where
  "unregister_stream h p = (case jmap_get (pe_in_streams p) h of
     None \<Rightarrow> p
   | Some st \<Rightarrow> if jmap_get (pe_incoming p) (ist_stream_id st) = Some h
       then p\<lparr>pe_incoming := jmap_delete (ist_stream_id st) (pe_incoming p)\<rparr> else p)"

text \<open>One turn of the repayment loop of a retired stream.\<close>

definition repay_loop :: "'p peer_env \<Rightarrow> string \<Rightarrow> nat \<Rightarrow> int \<Rightarrow> ('p, 'h) peer \<Rightarrow> ('p, 'h) peer_step" where
  "repay_loop env stream_id h delay p =
     (let stop = (upd_in h (\<lambda>st. st\<lparr>ist_repaying := False\<rparr>) p, [])
      in case jmap_get (pe_in_streams p) h of
        None \<Rightarrow> (p, [])
      | Some st \<Rightarrow>
          if ist_owed_credit st > 0 \<and> \<not> pe_closed p \<and> jmap_get (pe_retired p) stream_id = Some h
          then (case send_stream_credit env (RepaySend stream_id h (ist_owed_credit st) delay) stream_id
                       (ist_remaining_credit st) (ist_owed_credit st) p of
                  Inl _ \<Rightarrow> stop
                | Inr r \<Rightarrow> r)
          else stop)"

definition repay_retired_credit :: "'p peer_env \<Rightarrow> string \<Rightarrow> nat \<Rightarrow> int \<Rightarrow> ('p, 'h) peer \<Rightarrow> ('p, 'h) peer_step" where
  "repay_retired_credit env stream_id h n p =
     (let p1 = upd_in h (\<lambda>st. st\<lparr>ist_owed_credit := ist_owed_credit st + n\<rparr>) p
      in case jmap_get (pe_in_streams p1) h of
        None \<Rightarrow> (p1, [])
      | Some st \<Rightarrow>
          if ist_repaying st \<or> ist_owed_credit st = 0 then (p1, [])
          else repay_loop env stream_id h congestion_retry_milliseconds
                 (upd_in h (\<lambda>st. st\<lparr>ist_repaying := True\<rparr>) p1))"

definition repay_sent ::
  "'p peer_env \<Rightarrow> string \<Rightarrow> nat \<Rightarrow> int \<Rightarrow> int \<Rightarrow> (string \<times> write_delivery) + unit \<Rightarrow> ('p, 'h) peer \<Rightarrow> ('p, 'h) peer_step" where
  "repay_sent env stream_id h owed delay res p =
     (case res of
        Inr _ \<Rightarrow> repay_loop env stream_id h congestion_retry_milliseconds
          (upd_in h (\<lambda>st. st\<lparr>ist_owed_credit := ist_owed_credit st - owed\<rparr>) (credit_landed h owed p))
      | Inl e \<Rightarrow>
          if \<not> refused_by_congestion e then (upd_in h (\<lambda>st. st\<lparr>ist_repaying := False\<rparr>) p, [])
          else (p\<lparr>pe_pauses := jmap_set (pe_next p) (RepayPause stream_id h delay) (pe_pauses p),
                  pe_next := Suc (pe_next p)\<rparr>, []))"

definition retire_stream :: "'p peer_env \<Rightarrow> nat \<Rightarrow> ('p, 'h) peer \<Rightarrow> ('p, 'h) peer_step" where
  "retire_stream env h p = (case jmap_get (pe_in_streams p) h of
     None \<Rightarrow> (p, [])
   | Some st \<Rightarrow>
       if jmap_get (pe_incoming p) (ist_stream_id st) \<noteq> Some h then (p, [StreamDrained h])
       else repay_retired_credit env (ist_stream_id st) h
              (max 0 (ist_credit_window st - ist_remaining_credit st))
              (p\<lparr>pe_incoming := jmap_delete (ist_stream_id st) (pe_incoming p),
                 pe_retired := jmap_set (ist_stream_id st) h (pe_retired p)\<rparr>))"

subsection \<open>Streams this side produces\<close>

definition upd_out :: "nat \<Rightarrow> ('p outgoing_stream \<Rightarrow> 'p outgoing_stream) \<Rightarrow> ('p, 'h) peer \<Rightarrow> ('p, 'h) peer" where
  "upd_out h f p = (case jmap_get (pe_out_streams p) h of
     None \<Rightarrow> p | Some s \<Rightarrow> p\<lparr>pe_out_streams := jmap_set h (f s) (pe_out_streams p)\<rparr>)"

definition wake_stream :: "'p outgoing_stream \<Rightarrow> 'p outgoing_stream" where
  "wake_stream s = (if ost_position s = TaskWaiting then s\<lparr>ost_position := TaskWoken\<rparr> else s)"

definition open_outgoing_stream ::
  "'p peer_env \<Rightarrow> string \<Rightarrow> string \<Rightarrow> int \<Rightarrow> int \<Rightarrow> ('p, 'h) peer \<Rightarrow> (nat \<times> ('p, 'h) peer) result" where
  "open_outgoing_stream env stream_id capability_id major_version credit p =
     (if \<not> env_is_uuid env stream_id then Inl ''sidecar_stream_id_invalid''
      else if \<not> stream_credit_ok credit then Inl ''sidecar_stream_credit_invalid''
      else if \<not> pe_hello_complete p \<or> pe_closed p then Inl ''sidecar_protocol_session_not_ready''
      else if capability_prefix capability_id major_version \<notin> set (pe_local_capabilities p)
        then Inl ''sidecar_stream_capability_unauthorized''
      else if jmap_has (pe_outgoing p) stream_id \<or> stream_id \<in> set (pe_terminal_outgoing p)
        then Inl ''sidecar_stream_already_registered''
      else
        let h = pe_next p;
            st = \<lparr>ost_stream_id = stream_id, ost_capability_id = capability_id, ost_major_version = major_version,
              ost_sequence = 0, ost_credit = credit, ost_terminal_requested = False, ost_terminal = False,
              ost_chain = [], ost_position = TaskReady\<rparr>
        in Inr (h, p\<lparr>pe_out_streams := jmap_set h st (pe_out_streams p),
             pe_outgoing := jmap_set stream_id h (pe_outgoing p), pe_next := Suc h\<rparr>))"

definition stream_send :: "nat \<Rightarrow> stream_channel \<Rightarrow> bytes \<Rightarrow> bool \<Rightarrow> ('p, 'h) peer \<Rightarrow> ('p, 'h) peer_step" where
  "stream_send h channel bs aborted p =
     (let promise = pe_next p; p0 = p\<lparr>pe_next := Suc promise\<rparr>
      in if bs = [] \<or> length bs > 1024 * 1024
           then (p0, [PromiseRejected promise ''sidecar_stream_chunk_size_invalid''])
         else (upd_out h (\<lambda>s. s\<lparr>ost_chain := ost_chain s @ [SendTask promise channel bs aborted]\<rparr>) p0, []))"

definition stream_terminal :: "nat \<Rightarrow> 'p \<Rightarrow> ('p \<Rightarrow> 'p option) \<Rightarrow> ('p, 'h) peer \<Rightarrow> ('p, 'h) peer_step" where
  "stream_terminal h payload schema p =
     (let promise = pe_next p; p0 = p\<lparr>pe_next := Suc promise\<rparr>
      in case jmap_get (pe_out_streams p) h of
        None \<Rightarrow> (p, [])
      | Some s \<Rightarrow>
          (case schema payload of
             None \<Rightarrow> (p0, [PromiseRejected promise ''ZodError''])
           | Some parsed \<Rightarrow>
               if ost_terminal_requested s then (p0, [PromiseRejected promise ''sidecar_stream_already_terminal''])
               else (upd_out h (\<lambda>s. wake_stream (s\<lparr>ost_terminal_requested := True,
                       ost_chain := ost_chain s @ [TerminalTask promise parsed]\<rparr>)) p0, [])))"

text \<open>The head of the chain is done: the next task becomes ready.\<close>

definition task_done :: "nat \<Rightarrow> 'p peer_output \<Rightarrow> ('p, 'h) peer \<Rightarrow> ('p, 'h) peer_step" where
  "task_done h out p = (upd_out h (\<lambda>s. s\<lparr>ost_chain := tl (ost_chain s), ost_position := TaskReady\<rparr>) p, [out])"

definition terminal_frame :: "'p outgoing_stream \<Rightarrow> 'p \<Rightarrow> ('p, 'h) peer \<Rightarrow> 'p outgoing_frame" where
  "terminal_frame s payload p = EnvelopeFrame (StreamTerminalEnvelope \<lparr>st_session_nonce = pe_session_nonce p,
     st_origin = pe_role p, st_stream_id = ost_stream_id s, st_sequence = ost_sequence s,
     st_capability_id = ost_capability_id s, st_major_version = ost_major_version s, st_payload = payload\<rparr>)"

definition data_frame :: "'p outgoing_stream \<Rightarrow> stream_channel \<Rightarrow> bytes \<Rightarrow> ('p, 'h) peer \<Rightarrow> stream_data_frame" where
  "data_frame s channel bs p = \<lparr>sd_session_nonce = pe_session_nonce p, sd_origin = pe_role p,
     sd_stream_id = ost_stream_id s, sd_sequence = ost_sequence s, sd_channel = channel, sd_bytes = bs\<rparr>"

definition run_send_task ::
  "'p peer_env \<Rightarrow> nat \<Rightarrow> 'p outgoing_stream \<Rightarrow> nat \<Rightarrow> stream_channel \<Rightarrow> bytes \<Rightarrow> bool \<Rightarrow> ('p, 'h) peer \<Rightarrow>
   ('p, 'h) peer_step" where
  "run_send_task env h s promise channel bs aborted p =
     (let frame = DataFrame (data_frame s channel bs p);
          p1 = upd_out h (\<lambda>s. s\<lparr>ost_credit := ost_credit s - int (length bs)\<rparr>) p
      in if ost_credit s < int (length bs) \<and> \<not> ost_terminal_requested s
           then if aborted then task_done h (PromiseRejected promise ''AbortError'') p
                else (upd_out h (\<lambda>s. s\<lparr>ost_position := TaskWaiting\<rparr>) p, [])
         else if aborted then task_done h (PromiseRejected promise ''AbortError'') p
         else if ost_terminal_requested s \<or> pe_closed p
           then task_done h (PromiseRejected promise ''sidecar_stream_closed'') p
         else case encode_frame env frame of
           Inl e \<Rightarrow> task_done h (PromiseRejected promise e) p1
         | Inr _ \<Rightarrow> post_frame (DataSend h) frame OperationLane False False
                     (upd_out h (\<lambda>s. s\<lparr>ost_position := TaskSending\<rparr>) p1))"

definition run_terminal_task ::
  "'p peer_env \<Rightarrow> nat \<Rightarrow> 'p outgoing_stream \<Rightarrow> nat \<Rightarrow> 'p \<Rightarrow> int \<Rightarrow> ('p, 'h) peer \<Rightarrow> ('p, 'h) peer_step" where
  "run_terminal_task env h s promise payload delay p =
     (let frame = terminal_frame s payload p;
          p1 = upd_out h (\<lambda>s. s\<lparr>ost_terminal := True\<rparr>) p
      in case encode_frame env frame of
           Inl e \<Rightarrow> task_done h (PromiseRejected promise e) p1
         | Inr _ \<Rightarrow> post_frame (TerminalSend h delay) frame OperationLane False True
                     (upd_out h (\<lambda>s. s\<lparr>ost_position := TaskSending\<rparr>) p1))"

text \<open>The head of the chain starts, or goes on after its wait for credit was answered. A send that has
  not started yet when the terminal is requested reports that; one that waited reports the close.\<close>

definition stream_turn :: "'p peer_env \<Rightarrow> nat \<Rightarrow> ('p, 'h) peer \<Rightarrow> ('p, 'h) peer_step" where
  "stream_turn env h p =
     (case jmap_get (pe_out_streams p) h of
        None \<Rightarrow> (p, [])
      | Some s \<Rightarrow>
          if ost_position s \<noteq> TaskReady \<and> ost_position s \<noteq> TaskWoken then (p, [])
          else case ost_chain s of
            [] \<Rightarrow> (p, [])
          | SendTask promise channel bs aborted # _ \<Rightarrow>
              if ost_position s = TaskReady \<and> ost_terminal_requested s
                then task_done h (PromiseRejected promise ''sidecar_stream_already_terminal'') p
              else run_send_task env h s promise channel bs aborted p
          | TerminalTask promise payload # _ \<Rightarrow>
              run_terminal_task env h s promise payload congestion_retry_milliseconds p)"

definition data_sent :: "nat \<Rightarrow> (string \<times> write_delivery) + unit \<Rightarrow> ('p, 'h) peer \<Rightarrow> ('p, 'h) peer_step" where
  "data_sent h res p =
     (case jmap_get (pe_out_streams p) h of
        None \<Rightarrow> (p, [])
      | Some s \<Rightarrow>
          (case ost_chain s of
             SendTask promise _ bs _ # _ \<Rightarrow>
               (case res of
                  Inr _ \<Rightarrow> task_done h (PromiseResolved promise) (mark_outbound_activity
                    (upd_out h (\<lambda>s. s\<lparr>ost_sequence := ost_sequence s + int (length bs)\<rparr>) p))
                | Inl e \<Rightarrow> task_done h (PromiseRejected promise (fst e)) p)
           | _ \<Rightarrow> (p, [])))"

definition terminal_sent ::
  "nat \<Rightarrow> int \<Rightarrow> (string \<times> write_delivery) + unit \<Rightarrow> ('p, 'h) peer \<Rightarrow> ('p, 'h) peer_step" where
  "terminal_sent h delay res p =
     (case jmap_get (pe_out_streams p) h of
        None \<Rightarrow> (p, [])
      | Some s \<Rightarrow>
          (case ost_chain s of
             TerminalTask promise _ # _ \<Rightarrow>
               (case res of
                  Inr _ \<Rightarrow> task_done h (PromiseResolved promise) (mark_outbound_activity
                    (p\<lparr>pe_outgoing := jmap_delete (ost_stream_id s) (pe_outgoing p),
                       pe_terminal_outgoing := trim_set (maximum_outbound_requests (pe_limits p) * 2)
                         (jset_add (ost_stream_id s) (pe_terminal_outgoing p))\<rparr>))
                | Inl e \<Rightarrow>
                    if pe_closed p \<or> \<not> refused_by_congestion e
                      then task_done h (PromiseRejected promise (fst e)) p
                    else ((upd_out h (\<lambda>s. s\<lparr>ost_position := TaskPaused\<rparr>) p)
                            \<lparr>pe_pauses := jmap_set (pe_next p) (TerminalPause h delay) (pe_pauses p),
                             pe_next := Suc (pe_next p)\<rparr>, []))
           | _ \<Rightarrow> (p, [])))"

text \<open>A congestion pause ended.\<close>

definition next_delay :: "int \<Rightarrow> int" where
  "next_delay delay = min (delay * 2) maximum_congestion_retry_milliseconds"

definition pause_ended :: "'p peer_env \<Rightarrow> congestion_pause \<Rightarrow> ('p, 'h) peer \<Rightarrow> ('p, 'h) peer_step" where
  "pause_ended env pause p = (case pause of
     RepayPause stream_id h delay \<Rightarrow> repay_loop env stream_id h (next_delay delay) p
   | TerminalPause h delay \<Rightarrow>
       (case jmap_get (pe_out_streams p) h of
          None \<Rightarrow> (p, [])
        | Some s \<Rightarrow>
            (case ost_chain s of
               TerminalTask promise payload # _ \<Rightarrow> run_terminal_task env h s promise payload (next_delay delay) p
             | _ \<Rightarrow> (p, []))))"

text \<open>The signal of a stream send is aborted: a waiting send is rejected, a later one sees it.\<close>

definition abort_task :: "nat \<Rightarrow> 'p stream_task \<Rightarrow> 'p stream_task" where
  "abort_task promise t = (case t of
     SendTask q channel bs aborted \<Rightarrow> SendTask q channel bs (aborted \<or> q = promise)
   | TerminalTask q payload \<Rightarrow> t)"

definition stream_send_aborted :: "nat \<Rightarrow> nat \<Rightarrow> ('p, 'h) peer \<Rightarrow> ('p, 'h) peer_step" where
  "stream_send_aborted h promise p =
     (case jmap_get (pe_out_streams p) h of
        None \<Rightarrow> (p, [])
      | Some s \<Rightarrow>
          (case (ost_position s, ost_chain s) of
             (TaskWaiting, SendTask q _ _ _ # _) \<Rightarrow>
               if q = promise then task_done h (PromiseRejected promise ''AbortError'') p
               else (upd_out h (\<lambda>s. s\<lparr>ost_chain := map (abort_task promise) (ost_chain s)\<rparr>) p, [])
           | _ \<Rightarrow> (upd_out h (\<lambda>s. s\<lparr>ost_chain := map (abort_task promise) (ost_chain s)\<rparr>) p, [])))"

subsection \<open>Events\<close>

definition on_event :: "string \<Rightarrow> int \<Rightarrow> string \<Rightarrow> ('p \<Rightarrow> 'p option) \<Rightarrow> ('p, 'h) peer \<Rightarrow> nat \<times> ('p, 'h) peer" where
  "on_event capability_id major_version event schema p =
     (let key = capability_prefix capability_id major_version @ [nul] @ event;
          registrations = (case jmap_get (pe_events p) key of None \<Rightarrow> [] | Some rs \<Rightarrow> rs)
      in (pe_next p, p\<lparr>pe_events := jmap_set key
            (registrations @ [\<lparr>er_listener = pe_next p, er_schema = schema\<rparr>]) (pe_events p),
            pe_next := Suc (pe_next p)\<rparr>))"

definition off_event :: "string \<Rightarrow> int \<Rightarrow> string \<Rightarrow> nat \<Rightarrow> ('p, 'h) peer \<Rightarrow> ('p, 'h) peer" where
  "off_event capability_id major_version event listener p =
     (let key = capability_prefix capability_id major_version @ [nul] @ event
      in case jmap_get (pe_events p) key of
           None \<Rightarrow> p
         | Some rs \<Rightarrow>
             (let left = filter (\<lambda>r. er_listener r \<noteq> listener) rs
              in p\<lparr>pe_events := (if left = [] then jmap_delete key (pe_events p)
                               else jmap_set key left (pe_events p))\<rparr>))"

definition send_event ::
  "'p peer_env \<Rightarrow> string \<Rightarrow> int \<Rightarrow> string \<Rightarrow> 'p \<Rightarrow> ('p \<Rightarrow> 'p option) \<Rightarrow> ('p, 'h) peer \<Rightarrow> ('p, 'h) peer_step" where
  "send_event env capability_id major_version event payload schema p =
     (let promise = pe_next p; p0 = p\<lparr>pe_next := Suc promise\<rparr>; refuse = (\<lambda>e. (p0, [PromiseRejected promise e]))
      in if \<not> pe_hello_complete p \<or> pe_closed p then refuse ''sidecar_protocol_session_not_ready''
         else if capability_prefix capability_id major_version \<notin> set (pe_local_capabilities p)
           then refuse ''sidecar_event_capability_unauthorized''
         else case schema payload of
           None \<Rightarrow> refuse ''ZodError''
         | Some parsed \<Rightarrow>
             (let frame = EnvelopeFrame (EventEnvelope \<lparr>ev_session_nonce = pe_session_nonce p, ev_origin = pe_role p,
                    ev_capability_id = capability_id, ev_major_version = major_version, ev_event = event,
                    ev_payload = parsed\<rparr>)
              in case encode_frame env frame of
                   Inl e \<Rightarrow> refuse e
                 | Inr _ \<Rightarrow> post_frame (EventSend promise) frame OperationLane False False p0))"

subsection \<open>Closing\<close>

definition abort_execution :: "string \<Rightarrow> 'p execution \<Rightarrow> 'p execution" where
  "abort_execution reason ex =
     (if ex_abort ex \<noteq> None then ex
      else ex\<lparr>ex_abort := Some reason,
              ex_outcome := (case ex_outcome ex of None \<Rightarrow> Some (Inl HandlerError) | Some r \<Rightarrow> Some r)\<rparr>)"

definition upd_execution :: "nat \<Rightarrow> ('p execution \<Rightarrow> 'p execution) \<Rightarrow> ('p, 'h) peer \<Rightarrow> ('p, 'h) peer" where
  "upd_execution x f p = (case jmap_get (pe_executions p) x of
     None \<Rightarrow> p | Some ex \<Rightarrow> p\<lparr>pe_executions := jmap_set x (f ex) (pe_executions p)\<rparr>)"

definition close_stream :: "'p outgoing_stream \<Rightarrow> 'p outgoing_stream" where
  "close_stream s = wake_stream (s\<lparr>ost_terminal_requested := True, ost_terminal := True\<rparr>)"

definition settle_sent :: "string \<Rightarrow> string \<Rightarrow> ('p, 'h) peer \<Rightarrow> ('p, 'h) peer_step" where
  "settle_sent message request_id p = (case jmap_get (pe_outbound p) request_id of
     Some pending \<Rightarrow> if pr_sent pending
       then settle_outbound request_id (Inl (DeliveryError message SentOutcomeUnknown)) p else (p, [])
   | None \<Rightarrow> (p, []))"

primrec settle_each :: "string \<Rightarrow> string list \<Rightarrow> ('p, 'h) peer \<Rightarrow> ('p, 'h) peer_step" where
  "settle_each message [] p = (p, [])"
| "settle_each message (i # is) p = then_do (settle_sent message i p) (settle_each message is)"

definition begin_close :: "string \<Rightarrow> ('p, 'h) peer \<Rightarrow> ('p, 'h) peer_step" where
  "begin_close message p =
     (if pe_closed p then (p, [])
      else
        let p1 = fold (\<lambda>a. upd_execution (ar_execution (snd a))
                   (\<lambda>ex. abort_execution ''sidecar_protocol_peer_closed'' (ex\<lparr>ex_deadline := None\<rparr>)))
                   (pe_inbound p) (p\<lparr>pe_closed := True\<rparr>);
            drained = map (StreamDrained \<circ> snd) (pe_retired p);
            p2 = fold (\<lambda>s. upd_out (snd s) close_stream) (pe_outgoing p)
                   (p1\<lparr>pe_inbound := [], pe_incoming := [], pe_retired := [], pe_late := []\<rparr>);
            p3 = p2\<lparr>pe_outgoing := [], pe_terminal_outgoing := []\<rparr>
        in then_do (p3, PeerClosing # drained) (settle_each message (map fst (pe_outbound p3))))"

definition close_peer :: "string \<Rightarrow> ('p, 'h) peer \<Rightarrow> ('p, 'h) peer_step" where
  "close_peer reason p =
     (if pe_closed p then (p, [])
      else then_do (begin_close ''sidecar_protocol_peer_closed'' p) (\<lambda>q. (q, [TransportClose reason])))"

text \<open>A failure that ends the session: \<^verbatim>\<open>#beginClose\<close> and closing the transport.\<close>

definition fail_session :: "string \<Rightarrow> ('p, 'h) peer \<Rightarrow> ('p, 'h) peer_step" where
  "fail_session message p = then_do (begin_close message p) (\<lambda>q. (q, [TransportClose message]))"

subsection \<open>Requests from the other side\<close>

definition error_frame :: "request_namespace \<Rightarrow> string \<Rightarrow> string \<Rightarrow> bool \<Rightarrow> ('p, 'h) peer \<Rightarrow> 'p outgoing_frame" where
  "error_frame namespace request_id code retryable p = EnvelopeFrame (ResponseEnvelope
     \<lparr>rs_session_nonce = pe_session_nonce p, rs_namespace = namespace, rs_request_id = request_id,
      rs_outcome = OutcomeError code retryable\<rparr>)"

definition send_error ::
  "request_namespace \<Rightarrow> string \<Rightarrow> string \<Rightarrow> bool \<Rightarrow> frame_lane \<Rightarrow> ('p, 'h) peer \<Rightarrow> ('p, 'h) peer_step" where
  "send_error namespace request_id code retryable lane p =
     post_frame ErrorSend (error_frame namespace request_id code retryable p) lane False False p"

definition remember_received :: "string \<Rightarrow> ('p, 'h) peer \<Rightarrow> ('p, 'h) peer" where
  "remember_received request_id p = p\<lparr>pe_received :=
     trim_set (maximum_inbound_requests (pe_limits p) * 2) (jset_add request_id (pe_received p))\<rparr>"

definition start_execution ::
  "'p request_envelope \<Rightarrow> 'p operation_definition \<Rightarrow> 'p \<Rightarrow> bool \<Rightarrow> int option \<Rightarrow> ('p, 'h) peer \<Rightarrow> ('p, 'h) peer_step" where
  "start_execution e d request hello deadline p =
     (let x = pe_next p;
          ex = \<lparr>ex_request_id = rq_request_id e, ex_namespace = rq_namespace e, ex_definition = d, ex_request = request,
            ex_hello = hello, ex_deadline = deadline, ex_abort = None, ex_outcome = None\<rparr>
      in (p\<lparr>pe_executions := jmap_set x ex (pe_executions p),
            pe_inbound := jmap_set (rq_request_id e) \<lparr>ar_execution = x, ar_lane = od_lane d\<rparr> (pe_inbound p),
            pe_next := Suc x\<rparr>, [HandlerStarted x]))"

definition request_ref :: "'p request_envelope \<Rightarrow> operation_ref" where
  "request_ref e = \<lparr>op_capability_id = rq_capability_id e, op_major_version = rq_major_version e,
     op_operation = rq_operation e\<rparr>"

text \<open>A received frame either is dealt with or throws, possibly after some effects.\<close>

type_synonym ('p, 'h) received = "('p, 'h) peer \<times> 'p peer_output list \<times> string option"

definition handled :: "('p, 'h) peer_step \<Rightarrow> ('p, 'h) received" where
  "handled r = (fst r, snd r, None)"

definition thrown :: "string \<Rightarrow> ('p, 'h) peer_step \<Rightarrow> ('p, 'h) received" where
  "thrown e r = (fst r, snd r, Some e)"

definition receive_request :: "'p request_envelope \<Rightarrow> ('p, 'h) peer \<Rightarrow> ('p, 'h) received" where
  "receive_request e p =
     (let hello = is_hello (request_ref e);
          refuse = (\<lambda>code retryable lane q. handled (send_error (rq_namespace e) (rq_request_id e) code retryable lane q))
      in if rq_namespace e \<noteq> remote_role p then thrown ''sidecar_protocol_request_namespace_invalid'' (p, [])
         else if hello \<and> pe_role p \<noteq> Sidecar then thrown ''sidecar_protocol_hello_direction_invalid'' (p, [])
         else if rq_request_id e \<in> set (pe_received p)
           then refuse ''sidecar_request_duplicate'' False ControlLane p
         else let p1 = remember_received (rq_request_id e) p in
           if int (length (pe_inbound p1)) \<ge> maximum_inbound_requests (pe_limits p1)
             then refuse ''sidecar_request_capacity_exceeded'' True ControlLane p1
           else case resolve (request_ref e) (pe_registry p1) of
             None \<Rightarrow> refuse ''sidecar_operation_unsupported'' False ControlLane p1
           | Some ro \<Rightarrow>
               if pe_hello_complete p1 \<and> operation_key (request_ref e) \<notin> set (pe_local_operations p1)
                 then refuse ''sidecar_operation_unsupported'' False ControlLane p1
               else if hello \<and> (pe_hello_complete p1 \<or> pe_hello_in_progress p1)
                 then refuse ''sidecar_protocol_hello_already_completed'' False ControlLane p1
               else if \<not> pe_hello_complete p1 \<and> \<not> hello
                 then refuse ''sidecar_protocol_hello_required'' False ControlLane p1
               else case od_request_schema (ro_definition ro) (rq_payload e) of
                 None \<Rightarrow> refuse ''sidecar_request_payload_invalid'' False (od_lane (ro_definition ro)) p1
               | Some request \<Rightarrow>
                   (let p2 = (if hello then p1\<lparr>pe_hello_in_progress := True\<rparr> else p1)
                    in case resolve_inbound_deadline (ro_definition ro) (rq_deadline e)
                              (maximum_request_deadline_milliseconds (pe_limits p2)) of
                         Inl err \<Rightarrow> thrown err (p2, [])
                       | Inr deadline \<Rightarrow> handled (start_execution e (ro_definition ro) request hello deadline p2)))"

text \<open>The handler of an execution settles, or its deadline passes.\<close>

definition handler_settled :: "nat \<Rightarrow> handler_error + 'p \<Rightarrow> ('p, 'h) peer \<Rightarrow> ('p, 'h) peer" where
  "handler_settled x res = upd_execution x (\<lambda>ex. if ex_outcome ex = None then ex\<lparr>ex_outcome := Some res\<rparr> else ex)"

definition deadline_passed :: "nat \<Rightarrow> ('p, 'h) peer \<Rightarrow> ('p, 'h) peer" where
  "deadline_passed x = upd_execution x (\<lambda>ex. if ex_deadline ex = None then ex
     else abort_execution ''sidecar_request_timeout'' (ex\<lparr>ex_deadline := None\<rparr>))"

definition classify_operation_error :: "handler_error \<Rightarrow> string option \<Rightarrow> string \<times> bool" where
  "classify_operation_error e abort = (case abort of
     Some reason \<Rightarrow> (if reason = ''sidecar_request_timeout'' then ''sidecar_request_timeout''
                     else ''sidecar_request_cancelled'', False)
   | None \<Rightarrow> (case e of
       HandlerOperationError code retryable \<Rightarrow> (code, retryable)
     | HandlerError \<Rightarrow> (''sidecar_operation_failed'', False)))"

text \<open>What the execution's continuation answers: the response, with the hello committed when it is one.\<close>

definition execution_response ::
  "'p peer_env \<Rightarrow> bool \<Rightarrow> 'p execution \<Rightarrow> handler_error + 'p \<Rightarrow> ('p, 'h) peer \<Rightarrow> 'p response_outcome \<times> ('p, 'h) peer_step" where
  "execution_response env commit_ok ex outcome p =
     (let fail = (\<lambda>e. let c = classify_operation_error e (ex_abort ex) in (OutcomeError (fst c) (snd c), (p, [])))
      in case outcome of
           Inl e \<Rightarrow> fail e
         | Inr v \<Rightarrow>
             (case od_response_schema (ex_definition ex) v of
                None \<Rightarrow> fail HandlerError
              | Some payload \<Rightarrow>
                  if \<not> ex_hello ex then (OutcomeOk payload, (p, []))
                  else case env_hello_request env (ex_request ex) of
                    None \<Rightarrow> fail HandlerError
                  | Some c \<Rightarrow>
                      (case commit_hello env Sidecar payload (Some c) commit_ok p of
                         Inl _ \<Rightarrow> fail HandlerError
                       | Inr r \<Rightarrow> (OutcomeOk payload, r))))"

definition finish_execution :: "'p peer_env \<Rightarrow> bool \<Rightarrow> nat \<Rightarrow> ('p, 'h) peer \<Rightarrow> ('p, 'h) peer_step" where
  "finish_execution env commit_ok x p =
     (case jmap_get (pe_executions p) x of
        None \<Rightarrow> (p, [])
      | Some ex \<Rightarrow>
          (case ex_outcome ex of
             None \<Rightarrow> (p, [])
           | Some outcome \<Rightarrow>
               (let (response, r) = execution_response env commit_ok ex outcome
                      (p\<lparr>pe_executions := jmap_delete x (pe_executions p)\<rparr>);
                    frame = EnvelopeFrame (ResponseEnvelope \<lparr>rs_session_nonce = pe_session_nonce p,
                      rs_namespace = ex_namespace ex, rs_request_id = ex_request_id ex, rs_outcome = response\<rparr>)
                in then_do r (\<lambda>q.
                     let q1 = (case jmap_get (pe_inbound q) (ex_request_id ex) of
                           None \<Rightarrow> q
                         | Some active \<Rightarrow> upd_execution (ar_execution active) (\<lambda>y. y\<lparr>ex_deadline := None\<rparr>) q);
                         q2 = q1\<lparr>pe_inbound := jmap_delete (ex_request_id ex) (pe_inbound q1),
                           pe_hello_in_progress := (if ex_hello ex then False else pe_hello_in_progress q1)\<rparr>
                     in case encode_frame env frame of
                          Inl e \<Rightarrow> fail_session e q2
                        | Inr _ \<Rightarrow> post_frame (ResponseSend (ex_hello ex \<and> (case response of OutcomeOk _ \<Rightarrow> True | _ \<Rightarrow> False)))
                                   frame (od_lane (ex_definition ex)) False False q2))))"

subsection \<open>Other frames from the other side\<close>

definition receive_response :: "'p peer_env \<Rightarrow> bool \<Rightarrow> 'p response_envelope \<Rightarrow> ('p, 'h) peer \<Rightarrow> ('p, 'h) received" where
  "receive_response env commit_ok e p =
     (let i = rs_request_id e
      in if rs_namespace e \<noteq> pe_role p then thrown ''sidecar_protocol_response_namespace_invalid'' (p, [])
         else case jmap_get (pe_outbound p) i of
           None \<Rightarrow>
             if i \<notin> set (pe_cancelled p) then thrown ''sidecar_protocol_response_unknown_request'' (p, [])
             else
               let p1 = p\<lparr>pe_cancelled := jset_delete i (pe_cancelled p), pe_late := jmap_delete i (pe_late p)\<rparr>
               in (case (jmap_get (pe_late p) i, rs_outcome e) of
                     (Some (d, h), OutcomeOk v) \<Rightarrow>
                       (case od_response_schema d v of
                          None \<Rightarrow> thrown ''sidecar_protocol_response_payload_invalid'' (p1, [])
                        | Some payload \<Rightarrow> handled (p1, [LateSuccess h payload]))
                   | _ \<Rightarrow> handled (p1, []))
         | Some pending \<Rightarrow>
             (case rs_outcome e of
                OutcomeError code retryable \<Rightarrow> handled (settle_outbound i (Inl (RemoteError code retryable)) p)
              | OutcomeOk v \<Rightarrow>
                  (case od_response_schema (pr_definition pending) v of
                     None \<Rightarrow> thrown ''sidecar_protocol_response_payload_invalid'' (p, [])
                   | Some payload \<Rightarrow>
                       if \<not> is_hello (pr_definition pending) then handled (settle_outbound i (Inr payload) p)
                       else case commit_hello env Sedes payload (pr_requested_compression pending) commit_ok p of
                         Inl err \<Rightarrow> thrown err (p, [])
                       | Inr r \<Rightarrow>
                           (let r1 = then_do r (\<lambda>q. (q, [PeerReady]))
                            in case env_callback_fails env CallReady of
                                 Some err \<Rightarrow> thrown err r1
                               | None \<Rightarrow> handled (then_do r1 (settle_outbound i (Inr payload)))))))"

definition receive_cancel :: "cancel_envelope \<Rightarrow> ('p, 'h) peer \<Rightarrow> ('p, 'h) received" where
  "receive_cancel e p =
     (if cx_namespace e \<noteq> remote_role p then thrown ''sidecar_protocol_cancel_namespace_invalid'' (p, [])
      else case jmap_get (pe_inbound p) (cx_request_id e) of
        Some active \<Rightarrow>
          handled (upd_execution (ar_execution active) (abort_execution ''sidecar_request_cancelled'') p, [])
      | None \<Rightarrow>
          if cx_request_id e \<notin> set (pe_received p) then thrown ''sidecar_protocol_cancel_unknown_request'' (p, [])
          else handled (p, []))"

fun deliver_event :: "'p peer_env \<Rightarrow> 'p \<Rightarrow> 'p event_registration list \<Rightarrow> 'p peer_output list \<times> string option" where
  "deliver_event env payload [] = ([], None)"
| "deliver_event env payload (r # rs) =
     (case er_schema r payload of
        None \<Rightarrow> ([], Some ''sidecar_protocol_event_payload_invalid'')
      | Some parsed \<Rightarrow>
          (case env_callback_fails env (CallListener (er_listener r) parsed) of
             Some e \<Rightarrow> ([EventDelivered (er_listener r) parsed], Some e)
           | None \<Rightarrow> (let (outs, e) = deliver_event env payload rs
                      in (EventDelivered (er_listener r) parsed # outs, e))))"

definition receive_event :: "'p peer_env \<Rightarrow> 'p event_envelope \<Rightarrow> ('p, 'h) peer \<Rightarrow> ('p, 'h) received" where
  "receive_event env e p =
     (let pre = capability_prefix (ev_capability_id e) (ev_major_version e)
      in if ev_origin e \<noteq> remote_role p then thrown ''sidecar_protocol_event_origin_invalid'' (p, [])
         else if pre \<notin> set (pe_remote_capabilities p)
           then thrown ''sidecar_protocol_event_capability_unauthorized'' (p, [])
         else case jmap_get (pe_events p) (pre @ [nul] @ ev_event e) of
           None \<Rightarrow> thrown ''sidecar_protocol_event_unregistered'' (p, [])
         | Some rs \<Rightarrow>
             if rs = [] then thrown ''sidecar_protocol_event_unregistered'' (p, [])
             else (p, deliver_event env (ev_payload e) rs))"

text \<open>The stream of a frame: a registered one, or one its consumer retired.\<close>

definition find_incoming :: "string \<Rightarrow> ('p, 'h) peer \<Rightarrow> (nat \<times> 'p incoming_stream) option" where
  "find_incoming stream_id p =
     (case jmap_get (pe_incoming p) stream_id of
        Some h \<Rightarrow> map_option (Pair h) (jmap_get (pe_in_streams p) h)
      | None \<Rightarrow>
          (case jmap_get (pe_retired p) stream_id of
             Some h \<Rightarrow> map_option (Pair h) (jmap_get (pe_in_streams p) h)
           | None \<Rightarrow> None))"

definition receive_stream_data :: "'p peer_env \<Rightarrow> stream_data_frame \<Rightarrow> ('p, 'h) peer \<Rightarrow> ('p, 'h) received" where
  "receive_stream_data env f p =
     (let n = int (length (sd_bytes f))
      in if sd_origin f \<noteq> remote_role p then thrown ''sidecar_protocol_stream_origin_invalid'' (p, [])
         else case find_incoming (sd_stream_id f) p of
           None \<Rightarrow> thrown ''sidecar_protocol_stream_unknown'' (p, [])
         | Some (h, st) \<Rightarrow>
             if sd_sequence f \<noteq> ist_expected_sequence st \<or> n > ist_remaining_credit st
               then thrown ''sidecar_protocol_stream_data_invalid'' (p, [])
             else
               let p1 = upd_in h (\<lambda>st. st\<lparr>ist_expected_sequence := ist_expected_sequence st + n,
                     ist_remaining_credit := ist_remaining_credit st - n\<rparr>) p
               in if jmap_has (pe_retired p) (sd_stream_id f)
                    then handled (repay_retired_credit env (sd_stream_id f) h n p1)
                  else case env_callback_fails env (CallData h f) of
                    Some e \<Rightarrow> thrown e (p1, [StreamDelivered h f])
                  | None \<Rightarrow> handled (p1, [StreamDelivered h f]))"

definition receive_stream_credit :: "stream_credit_envelope \<Rightarrow> ('p, 'h) peer \<Rightarrow> ('p, 'h) received" where
  "receive_stream_credit e p =
     (if sc_origin e \<noteq> remote_role p then thrown ''sidecar_protocol_stream_origin_invalid'' (p, [])
      else case jmap_get (pe_outgoing p) (sc_stream_id e) of
        None \<Rightarrow>
          if sc_stream_id e \<in> set (pe_terminal_outgoing p) then handled (p, [])
          else thrown ''sidecar_protocol_stream_unknown'' (p, [])
      | Some h \<Rightarrow>
          (case jmap_get (pe_out_streams p) h of
             None \<Rightarrow> thrown ''sidecar_protocol_stream_unknown'' (p, [])
           | Some s \<Rightarrow>
               if ost_credit s + sc_bytes e > max_safe_integer
                 then thrown ''sidecar_protocol_stream_credit_overflow'' (p, [])
               else handled (upd_out h (\<lambda>s. wake_stream (s\<lparr>ost_credit := ost_credit s + sc_bytes e\<rparr>)) p, [])))"

definition receive_stream_terminal ::
  "'p peer_env \<Rightarrow> 'p stream_terminal_envelope \<Rightarrow> ('p, 'h) peer \<Rightarrow> ('p, 'h) received" where
  "receive_stream_terminal env e p =
     (if st_origin e \<noteq> remote_role p then thrown ''sidecar_protocol_stream_origin_invalid'' (p, [])
      else case find_incoming (st_stream_id e) p of
        None \<Rightarrow> thrown ''sidecar_protocol_stream_unknown'' (p, [])
      | Some (h, st) \<Rightarrow>
          if st_sequence e \<noteq> ist_expected_sequence st \<or> st_capability_id e \<noteq> ist_capability_id st \<or>
             st_major_version e \<noteq> ist_major_version st
            then thrown ''sidecar_protocol_stream_terminal_invalid'' (p, [])
          else case ist_terminal_schema st (st_payload e) of
            None \<Rightarrow> thrown ''sidecar_protocol_stream_terminal_payload_invalid'' (p, [])
          | Some payload \<Rightarrow>
              if jmap_has (pe_retired p) (st_stream_id e)
                then handled (p\<lparr>pe_retired := jmap_delete (st_stream_id e) (pe_retired p)\<rparr>, [StreamDrained h])
              else
                let r = (upd_in h (\<lambda>st. st\<lparr>ist_terminal_received := True\<rparr>)
                          (p\<lparr>pe_incoming := jmap_delete (st_stream_id e) (pe_incoming p)\<rparr>), [StreamTerminated h payload])
                in case env_callback_fails env (CallTerminal h payload) of
                     Some err \<Rightarrow> thrown err r
                   | None \<Rightarrow> handled r)"

fun envelope_nonce :: "'p sidecar_envelope \<Rightarrow> string" where
  "envelope_nonce (RequestEnvelope e) = rq_session_nonce e"
| "envelope_nonce (ResponseEnvelope e) = rs_session_nonce e"
| "envelope_nonce (CancelEnvelope e) = cx_session_nonce e"
| "envelope_nonce (EventEnvelope e) = ev_session_nonce e"
| "envelope_nonce (StreamCreditEnvelope e) = sc_session_nonce e"
| "envelope_nonce (StreamTerminalEnvelope e) = st_session_nonce e"

definition receive_envelope :: "'p peer_env \<Rightarrow> bool \<Rightarrow> 'p sidecar_envelope \<Rightarrow> ('p, 'h) peer \<Rightarrow> ('p, 'h) received" where
  "receive_envelope env commit_ok e p =
     (if envelope_nonce e \<noteq> pe_session_nonce p then thrown ''sidecar_protocol_session_nonce_mismatch'' (p, [])
      else case e of
        RequestEnvelope r \<Rightarrow> receive_request r p
      | ResponseEnvelope r \<Rightarrow> receive_response env commit_ok r p
      | CancelEnvelope c \<Rightarrow> receive_cancel c p
      | EventEnvelope v \<Rightarrow> receive_event env v p
      | StreamCreditEnvelope c \<Rightarrow> receive_stream_credit c p
      | StreamTerminalEnvelope t \<Rightarrow> receive_stream_terminal env t p)"

text \<open>One turn of the read loop: a decoded frame, or the error decoding it threw.\<close>

definition receive_frame ::
  "'p peer_env \<Rightarrow> bool \<Rightarrow> 'p decoded_sidecar_frame result \<Rightarrow> ('p, 'h) peer \<Rightarrow> ('p, 'h) peer_step" where
  "receive_frame env commit_ok decoded p =
     (let (q, outs, err) = (case decoded of
            Inl e \<Rightarrow> thrown e (p, [])
          | Inr (StreamDataFrame f) \<Rightarrow> receive_stream_data env f p
          | Inr (ControlFrame e) \<Rightarrow> receive_envelope env commit_ok e p)
      in case err of
           None \<Rightarrow> (mark_inbound_activity q, outs)
         | Some e \<Rightarrow> then_do (q\<lparr>pe_reading := False\<rparr>, outs) (fail_session e))"

subsection \<open>Interleavings\<close>

definition send_settled ::
  "'p peer_env \<Rightarrow> nat \<Rightarrow> (string \<times> write_delivery) + unit \<Rightarrow> ('p, 'h) peer \<Rightarrow> ('p, 'h) peer_step" where
  "send_settled env token res p =
     (case jmap_get (pe_sends p) token of
        None \<Rightarrow> (p, [])
      | Some cont \<Rightarrow>
          let q = p\<lparr>pe_sends := jmap_delete token (pe_sends p)\<rparr>
          in (case cont of
                RequestSend request_id h \<Rightarrow> request_sent request_id h res q
              | CancelSend \<Rightarrow> (case res of Inr _ \<Rightarrow> (mark_outbound_activity q, []) | Inl _ \<Rightarrow> (q, []))
              | ResponseSend ready \<Rightarrow>
                  (case res of
                     Inr _ \<Rightarrow>
                       if \<not> ready then (q, [])
                       else (case env_callback_fails env CallReady of
                               None \<Rightarrow> (q, [PeerReady])
                             | Some e \<Rightarrow> then_do (q, [PeerReady]) (fail_session e))
                   | Inl e \<Rightarrow> fail_session (fst e) q)
              | ErrorSend \<Rightarrow> (case res of Inr _ \<Rightarrow> (q, []) | Inl e \<Rightarrow> fail_session (fst e) q)
              | EventSend promise \<Rightarrow>
                  (case res of
                     Inr _ \<Rightarrow> (mark_outbound_activity q, [PromiseResolved promise])
                   | Inl e \<Rightarrow> (q, [PromiseRejected promise (fst e)]))
              | CreditSend promise h n \<Rightarrow>
                  (case res of
                     Inr _ \<Rightarrow> (credit_landed h n q, [PromiseResolved promise])
                   | Inl e \<Rightarrow> (q, [PromiseRejected promise (fst e)]))
              | RepaySend stream_id h owed delay \<Rightarrow> repay_sent env stream_id h owed delay res q
              | DataSend h \<Rightarrow> data_sent h res q
              | TerminalSend h delay \<Rightarrow> terminal_sent h delay res q))"

datatype ('p, 'h) peer_op =
    PeerStart
  | PeerTick int
  | PeerCall "'p operation_definition" 'p bool bool "int option" "nat option" string
  | PeerTimeout string
  | PeerAbort string
  | PeerSendSettled nat "(string \<times> write_delivery) + unit"
  | PeerPauseEnded nat
  | PeerFrame bool "'p decoded_sidecar_frame result"
  | PeerReadEnded "string option"
  | PeerTransportClosed string
  | PeerHandlerSettled nat "handler_error + 'p"
  | PeerDeadline nat
  | PeerFinish bool nat
  | PeerOnEvent string int string "'p \<Rightarrow> 'p option"
  | PeerOffEvent string int string nat
  | PeerSendEvent string int string 'p "'p \<Rightarrow> 'p option"
  | PeerRegisterStream string string int int "'p \<Rightarrow> 'p option"
  | PeerAddCredit nat int
  | PeerUnregister nat
  | PeerRetire nat
  | PeerOpenStream string string int int
  | PeerStreamSend nat stream_channel bytes bool
  | PeerStreamAbort nat nat
  | PeerStreamTerminal nat 'p "'p \<Rightarrow> 'p option"
  | PeerStreamTurn nat
  | PeerClose string

fun peer_step :: "'p peer_env \<Rightarrow> ('p, 'h) peer_op \<Rightarrow> ('p, 'h) peer \<Rightarrow> ('p, 'h) peer_step" where
  "peer_step env PeerStart p = (case start_peer p of Inl _ \<Rightarrow> (p, []) | Inr q \<Rightarrow> (q, []))"
| "peer_step env (PeerTick n) p = (p\<lparr>pe_now := n\<rparr>, [])"
| "peer_step env (PeerCall d request has_signal aborted deadline late request_id) p =
     peer_call env d request has_signal aborted deadline late request_id p"
| "peer_step env (PeerTimeout request_id) p = request_timeout request_id p"
| "peer_step env (PeerAbort request_id) p = request_aborted request_id p"
| "peer_step env (PeerSendSettled token res) p = send_settled env token res p"
| "peer_step env (PeerPauseEnded n) p = (case jmap_get (pe_pauses p) n of
     None \<Rightarrow> (p, [])
   | Some pause \<Rightarrow> pause_ended env pause (p\<lparr>pe_pauses := jmap_delete n (pe_pauses p)\<rparr>))"
| "peer_step env (PeerFrame commit_ok decoded) p =
     (if pe_reading p then receive_frame env commit_ok decoded p else (p, []))"
| "peer_step env (PeerReadEnded failure) p =
     (if \<not> pe_reading p then (p, [])
      else case failure of
        None \<Rightarrow> (p\<lparr>pe_reading := False\<rparr>, [])
      | Some e \<Rightarrow> fail_session e (p\<lparr>pe_reading := False\<rparr>))"
| "peer_step env (PeerTransportClosed message) p = (if pe_started p then begin_close message p else (p, []))"
| "peer_step env (PeerHandlerSettled x res) p = (handler_settled x res p, [])"
| "peer_step env (PeerDeadline x) p = (deadline_passed x p, [])"
| "peer_step env (PeerFinish commit_ok x) p = finish_execution env commit_ok x p"
| "peer_step env (PeerOnEvent c v e schema) p = (snd (on_event c v e schema p), [])"
| "peer_step env (PeerOffEvent c v e listener) p = (off_event c v e listener p, [])"
| "peer_step env (PeerSendEvent c v e payload schema) p = send_event env c v e payload schema p"
| "peer_step env (PeerRegisterStream sid c v credit schema) p =
     (case register_incoming_stream env sid c v credit schema p of Inl _ \<Rightarrow> (p, []) | Inr r \<Rightarrow> (snd r, []))"
| "peer_step env (PeerAddCredit h n) p = add_credit env h n p"
| "peer_step env (PeerUnregister h) p = (unregister_stream h p, [])"
| "peer_step env (PeerRetire h) p = retire_stream env h p"
| "peer_step env (PeerOpenStream sid c v credit) p =
     (case open_outgoing_stream env sid c v credit p of Inl _ \<Rightarrow> (p, []) | Inr r \<Rightarrow> (snd r, []))"
| "peer_step env (PeerStreamSend h channel bs aborted) p = stream_send h channel bs aborted p"
| "peer_step env (PeerStreamAbort h promise) p = stream_send_aborted h promise p"
| "peer_step env (PeerStreamTerminal h payload schema) p = stream_terminal h payload schema p"
| "peer_step env (PeerStreamTurn h) p = stream_turn env h p"
| "peer_step env (PeerClose reason) p = close_peer reason p"

fun peer_run :: "'p peer_env \<Rightarrow> ('p, 'h) peer_op list \<Rightarrow> ('p, 'h) peer \<Rightarrow> ('p, 'h) peer_step" where
  "peer_run env [] p = (p, [])"
| "peer_run env (op # ops) p = then_do (peer_step env op p) (peer_run env ops)"

end
