(* ===== verification/PeerFrames.thy ===== *)
theory PeerFrames
  imports ProtocolPeer
begin

text \<open>
  What the operations of a protocol peer leave alone. The state is a wide record of which an operation
  touches a few fields; the views group the fields the invariants speak about, and each operation is
  shown once to keep the views it does not touch.
\<close>

section \<open>Fields\<close>

lemma upd_in_sel [simp]:
  "pe_role (upd_in h f p) = pe_role p" "pe_session_nonce (upd_in h f p) = pe_session_nonce p"
  "pe_registry (upd_in h f p) = pe_registry p" "pe_limits (upd_in h f p) = pe_limits p"
  "pe_outbound (upd_in h f p) = pe_outbound p" "pe_inbound (upd_in h f p) = pe_inbound p"
  "pe_received (upd_in h f p) = pe_received p" "pe_cancelled (upd_in h f p) = pe_cancelled p"
  "pe_late (upd_in h f p) = pe_late p" "pe_events (upd_in h f p) = pe_events p"
  "pe_incoming (upd_in h f p) = pe_incoming p" "pe_retired (upd_in h f p) = pe_retired p"
  "pe_outgoing (upd_in h f p) = pe_outgoing p" "pe_terminal_outgoing (upd_in h f p) = pe_terminal_outgoing p"
  "pe_local_capabilities (upd_in h f p) = pe_local_capabilities p" "pe_remote_capabilities (upd_in h f p) = pe_remote_capabilities p"
  "pe_local_operations (upd_in h f p) = pe_local_operations p" "pe_remote_operations (upd_in h f p) = pe_remote_operations p"
  "pe_last_activity (upd_in h f p) = pe_last_activity p" "pe_last_inbound (upd_in h f p) = pe_last_inbound p"
  "pe_last_outbound (upd_in h f p) = pe_last_outbound p" "pe_hello_complete (upd_in h f p) = pe_hello_complete p"
  "pe_hello_in_progress (upd_in h f p) = pe_hello_in_progress p" "pe_started (upd_in h f p) = pe_started p"
  "pe_closed (upd_in h f p) = pe_closed p" "pe_reading (upd_in h f p) = pe_reading p"
  "pe_now (upd_in h f p) = pe_now p" "pe_out_streams (upd_in h f p) = pe_out_streams p"
  "pe_executions (upd_in h f p) = pe_executions p" "pe_sends (upd_in h f p) = pe_sends p"
  "pe_pauses (upd_in h f p) = pe_pauses p" "pe_next (upd_in h f p) = pe_next p"
  by (simp_all add: upd_in_def split: option.splits)

lemma upd_out_sel [simp]:
  "pe_role (upd_out h g p) = pe_role p" "pe_session_nonce (upd_out h g p) = pe_session_nonce p"
  "pe_registry (upd_out h g p) = pe_registry p" "pe_limits (upd_out h g p) = pe_limits p"
  "pe_outbound (upd_out h g p) = pe_outbound p" "pe_inbound (upd_out h g p) = pe_inbound p"
  "pe_received (upd_out h g p) = pe_received p" "pe_cancelled (upd_out h g p) = pe_cancelled p"
  "pe_late (upd_out h g p) = pe_late p" "pe_events (upd_out h g p) = pe_events p"
  "pe_incoming (upd_out h g p) = pe_incoming p" "pe_retired (upd_out h g p) = pe_retired p"
  "pe_outgoing (upd_out h g p) = pe_outgoing p" "pe_terminal_outgoing (upd_out h g p) = pe_terminal_outgoing p"
  "pe_local_capabilities (upd_out h g p) = pe_local_capabilities p" "pe_remote_capabilities (upd_out h g p) = pe_remote_capabilities p"
  "pe_local_operations (upd_out h g p) = pe_local_operations p" "pe_remote_operations (upd_out h g p) = pe_remote_operations p"
  "pe_last_activity (upd_out h g p) = pe_last_activity p" "pe_last_inbound (upd_out h g p) = pe_last_inbound p"
  "pe_last_outbound (upd_out h g p) = pe_last_outbound p" "pe_hello_complete (upd_out h g p) = pe_hello_complete p"
  "pe_hello_in_progress (upd_out h g p) = pe_hello_in_progress p" "pe_started (upd_out h g p) = pe_started p"
  "pe_closed (upd_out h g p) = pe_closed p" "pe_reading (upd_out h g p) = pe_reading p"
  "pe_now (upd_out h g p) = pe_now p" "pe_in_streams (upd_out h g p) = pe_in_streams p"
  "pe_executions (upd_out h g p) = pe_executions p" "pe_sends (upd_out h g p) = pe_sends p"
  "pe_pauses (upd_out h g p) = pe_pauses p" "pe_next (upd_out h g p) = pe_next p"
  by (simp_all add: upd_out_def split: option.splits)

lemma upd_execution_sel [simp]:
  "pe_role (upd_execution x k p) = pe_role p" "pe_session_nonce (upd_execution x k p) = pe_session_nonce p"
  "pe_registry (upd_execution x k p) = pe_registry p" "pe_limits (upd_execution x k p) = pe_limits p"
  "pe_outbound (upd_execution x k p) = pe_outbound p" "pe_inbound (upd_execution x k p) = pe_inbound p"
  "pe_received (upd_execution x k p) = pe_received p" "pe_cancelled (upd_execution x k p) = pe_cancelled p"
  "pe_late (upd_execution x k p) = pe_late p" "pe_events (upd_execution x k p) = pe_events p"
  "pe_incoming (upd_execution x k p) = pe_incoming p" "pe_retired (upd_execution x k p) = pe_retired p"
  "pe_outgoing (upd_execution x k p) = pe_outgoing p" "pe_terminal_outgoing (upd_execution x k p) = pe_terminal_outgoing p"
  "pe_local_capabilities (upd_execution x k p) = pe_local_capabilities p" "pe_remote_capabilities (upd_execution x k p) = pe_remote_capabilities p"
  "pe_local_operations (upd_execution x k p) = pe_local_operations p" "pe_remote_operations (upd_execution x k p) = pe_remote_operations p"
  "pe_last_activity (upd_execution x k p) = pe_last_activity p" "pe_last_inbound (upd_execution x k p) = pe_last_inbound p"
  "pe_last_outbound (upd_execution x k p) = pe_last_outbound p" "pe_hello_complete (upd_execution x k p) = pe_hello_complete p"
  "pe_hello_in_progress (upd_execution x k p) = pe_hello_in_progress p" "pe_started (upd_execution x k p) = pe_started p"
  "pe_closed (upd_execution x k p) = pe_closed p" "pe_reading (upd_execution x k p) = pe_reading p"
  "pe_now (upd_execution x k p) = pe_now p" "pe_in_streams (upd_execution x k p) = pe_in_streams p"
  "pe_out_streams (upd_execution x k p) = pe_out_streams p" "pe_sends (upd_execution x k p) = pe_sends p"
  "pe_pauses (upd_execution x k p) = pe_pauses p" "pe_next (upd_execution x k p) = pe_next p"
  by (simp_all add: upd_execution_def split: option.splits)

lemma mark_outbound_sel [simp]:
  "pe_role (mark_outbound_activity p) = pe_role p" "pe_session_nonce (mark_outbound_activity p) = pe_session_nonce p"
  "pe_registry (mark_outbound_activity p) = pe_registry p" "pe_limits (mark_outbound_activity p) = pe_limits p"
  "pe_outbound (mark_outbound_activity p) = pe_outbound p" "pe_inbound (mark_outbound_activity p) = pe_inbound p"
  "pe_received (mark_outbound_activity p) = pe_received p" "pe_cancelled (mark_outbound_activity p) = pe_cancelled p"
  "pe_late (mark_outbound_activity p) = pe_late p" "pe_events (mark_outbound_activity p) = pe_events p"
  "pe_incoming (mark_outbound_activity p) = pe_incoming p" "pe_retired (mark_outbound_activity p) = pe_retired p"
  "pe_outgoing (mark_outbound_activity p) = pe_outgoing p" "pe_terminal_outgoing (mark_outbound_activity p) = pe_terminal_outgoing p"
  "pe_local_capabilities (mark_outbound_activity p) = pe_local_capabilities p" "pe_remote_capabilities (mark_outbound_activity p) = pe_remote_capabilities p"
  "pe_local_operations (mark_outbound_activity p) = pe_local_operations p" "pe_remote_operations (mark_outbound_activity p) = pe_remote_operations p"
  "pe_last_inbound (mark_outbound_activity p) = pe_last_inbound p" "pe_hello_complete (mark_outbound_activity p) = pe_hello_complete p"
  "pe_hello_in_progress (mark_outbound_activity p) = pe_hello_in_progress p" "pe_started (mark_outbound_activity p) = pe_started p"
  "pe_closed (mark_outbound_activity p) = pe_closed p" "pe_reading (mark_outbound_activity p) = pe_reading p"
  "pe_now (mark_outbound_activity p) = pe_now p" "pe_in_streams (mark_outbound_activity p) = pe_in_streams p"
  "pe_out_streams (mark_outbound_activity p) = pe_out_streams p" "pe_executions (mark_outbound_activity p) = pe_executions p"
  "pe_sends (mark_outbound_activity p) = pe_sends p" "pe_pauses (mark_outbound_activity p) = pe_pauses p"
  "pe_next (mark_outbound_activity p) = pe_next p"
  by (simp_all add: mark_outbound_activity_def)

lemma mark_inbound_sel [simp]:
  "pe_role (mark_inbound_activity p) = pe_role p" "pe_session_nonce (mark_inbound_activity p) = pe_session_nonce p"
  "pe_registry (mark_inbound_activity p) = pe_registry p" "pe_limits (mark_inbound_activity p) = pe_limits p"
  "pe_outbound (mark_inbound_activity p) = pe_outbound p" "pe_inbound (mark_inbound_activity p) = pe_inbound p"
  "pe_received (mark_inbound_activity p) = pe_received p" "pe_cancelled (mark_inbound_activity p) = pe_cancelled p"
  "pe_late (mark_inbound_activity p) = pe_late p" "pe_events (mark_inbound_activity p) = pe_events p"
  "pe_incoming (mark_inbound_activity p) = pe_incoming p" "pe_retired (mark_inbound_activity p) = pe_retired p"
  "pe_outgoing (mark_inbound_activity p) = pe_outgoing p" "pe_terminal_outgoing (mark_inbound_activity p) = pe_terminal_outgoing p"
  "pe_local_capabilities (mark_inbound_activity p) = pe_local_capabilities p" "pe_remote_capabilities (mark_inbound_activity p) = pe_remote_capabilities p"
  "pe_local_operations (mark_inbound_activity p) = pe_local_operations p" "pe_remote_operations (mark_inbound_activity p) = pe_remote_operations p"
  "pe_last_outbound (mark_inbound_activity p) = pe_last_outbound p" "pe_hello_complete (mark_inbound_activity p) = pe_hello_complete p"
  "pe_hello_in_progress (mark_inbound_activity p) = pe_hello_in_progress p" "pe_started (mark_inbound_activity p) = pe_started p"
  "pe_closed (mark_inbound_activity p) = pe_closed p" "pe_reading (mark_inbound_activity p) = pe_reading p"
  "pe_now (mark_inbound_activity p) = pe_now p" "pe_in_streams (mark_inbound_activity p) = pe_in_streams p"
  "pe_out_streams (mark_inbound_activity p) = pe_out_streams p" "pe_executions (mark_inbound_activity p) = pe_executions p"
  "pe_sends (mark_inbound_activity p) = pe_sends p" "pe_pauses (mark_inbound_activity p) = pe_pauses p"
  "pe_next (mark_inbound_activity p) = pe_next p"
  by (simp_all add: mark_inbound_activity_def)

lemma post_frame_sel [simp]:
  "pe_role (fst (post_frame c fr lane ab st p)) = pe_role p" "pe_session_nonce (fst (post_frame c fr lane ab st p)) = pe_session_nonce p"
  "pe_registry (fst (post_frame c fr lane ab st p)) = pe_registry p" "pe_limits (fst (post_frame c fr lane ab st p)) = pe_limits p"
  "pe_outbound (fst (post_frame c fr lane ab st p)) = pe_outbound p" "pe_inbound (fst (post_frame c fr lane ab st p)) = pe_inbound p"
  "pe_received (fst (post_frame c fr lane ab st p)) = pe_received p" "pe_cancelled (fst (post_frame c fr lane ab st p)) = pe_cancelled p"
  "pe_late (fst (post_frame c fr lane ab st p)) = pe_late p" "pe_events (fst (post_frame c fr lane ab st p)) = pe_events p"
  "pe_incoming (fst (post_frame c fr lane ab st p)) = pe_incoming p" "pe_retired (fst (post_frame c fr lane ab st p)) = pe_retired p"
  "pe_outgoing (fst (post_frame c fr lane ab st p)) = pe_outgoing p" "pe_terminal_outgoing (fst (post_frame c fr lane ab st p)) = pe_terminal_outgoing p"
  "pe_local_capabilities (fst (post_frame c fr lane ab st p)) = pe_local_capabilities p" "pe_remote_capabilities (fst (post_frame c fr lane ab st p)) = pe_remote_capabilities p"
  "pe_local_operations (fst (post_frame c fr lane ab st p)) = pe_local_operations p" "pe_remote_operations (fst (post_frame c fr lane ab st p)) = pe_remote_operations p"
  "pe_last_activity (fst (post_frame c fr lane ab st p)) = pe_last_activity p" "pe_last_inbound (fst (post_frame c fr lane ab st p)) = pe_last_inbound p"
  "pe_last_outbound (fst (post_frame c fr lane ab st p)) = pe_last_outbound p" "pe_hello_complete (fst (post_frame c fr lane ab st p)) = pe_hello_complete p"
  "pe_hello_in_progress (fst (post_frame c fr lane ab st p)) = pe_hello_in_progress p" "pe_started (fst (post_frame c fr lane ab st p)) = pe_started p"
  "pe_closed (fst (post_frame c fr lane ab st p)) = pe_closed p" "pe_reading (fst (post_frame c fr lane ab st p)) = pe_reading p"
  "pe_now (fst (post_frame c fr lane ab st p)) = pe_now p" "pe_in_streams (fst (post_frame c fr lane ab st p)) = pe_in_streams p"
  "pe_out_streams (fst (post_frame c fr lane ab st p)) = pe_out_streams p" "pe_executions (fst (post_frame c fr lane ab st p)) = pe_executions p"
  "pe_pauses (fst (post_frame c fr lane ab st p)) = pe_pauses p"
  by (simp_all add: post_frame_def)

lemma remember_received_sel [simp]:
  "pe_role (remember_received i p) = pe_role p" "pe_session_nonce (remember_received i p) = pe_session_nonce p"
  "pe_registry (remember_received i p) = pe_registry p" "pe_limits (remember_received i p) = pe_limits p"
  "pe_outbound (remember_received i p) = pe_outbound p" "pe_inbound (remember_received i p) = pe_inbound p"
  "pe_cancelled (remember_received i p) = pe_cancelled p" "pe_late (remember_received i p) = pe_late p"
  "pe_events (remember_received i p) = pe_events p" "pe_incoming (remember_received i p) = pe_incoming p"
  "pe_retired (remember_received i p) = pe_retired p" "pe_outgoing (remember_received i p) = pe_outgoing p"
  "pe_terminal_outgoing (remember_received i p) = pe_terminal_outgoing p" "pe_local_capabilities (remember_received i p) = pe_local_capabilities p"
  "pe_remote_capabilities (remember_received i p) = pe_remote_capabilities p" "pe_local_operations (remember_received i p) = pe_local_operations p"
  "pe_remote_operations (remember_received i p) = pe_remote_operations p" "pe_last_activity (remember_received i p) = pe_last_activity p"
  "pe_last_inbound (remember_received i p) = pe_last_inbound p" "pe_last_outbound (remember_received i p) = pe_last_outbound p"
  "pe_hello_complete (remember_received i p) = pe_hello_complete p" "pe_hello_in_progress (remember_received i p) = pe_hello_in_progress p"
  "pe_started (remember_received i p) = pe_started p" "pe_closed (remember_received i p) = pe_closed p"
  "pe_reading (remember_received i p) = pe_reading p" "pe_now (remember_received i p) = pe_now p"
  "pe_in_streams (remember_received i p) = pe_in_streams p" "pe_out_streams (remember_received i p) = pe_out_streams p"
  "pe_executions (remember_received i p) = pe_executions p" "pe_sends (remember_received i p) = pe_sends p"
  "pe_pauses (remember_received i p) = pe_pauses p" "pe_next (remember_received i p) = pe_next p"
  by (simp_all add: remember_received_def)

lemma remember_cancelled_sel [simp]:
  "pe_role (remember_cancelled i p) = pe_role p" "pe_session_nonce (remember_cancelled i p) = pe_session_nonce p"
  "pe_registry (remember_cancelled i p) = pe_registry p" "pe_limits (remember_cancelled i p) = pe_limits p"
  "pe_outbound (remember_cancelled i p) = pe_outbound p" "pe_inbound (remember_cancelled i p) = pe_inbound p"
  "pe_received (remember_cancelled i p) = pe_received p" "pe_events (remember_cancelled i p) = pe_events p"
  "pe_incoming (remember_cancelled i p) = pe_incoming p" "pe_retired (remember_cancelled i p) = pe_retired p"
  "pe_outgoing (remember_cancelled i p) = pe_outgoing p" "pe_terminal_outgoing (remember_cancelled i p) = pe_terminal_outgoing p"
  "pe_local_capabilities (remember_cancelled i p) = pe_local_capabilities p" "pe_remote_capabilities (remember_cancelled i p) = pe_remote_capabilities p"
  "pe_local_operations (remember_cancelled i p) = pe_local_operations p" "pe_remote_operations (remember_cancelled i p) = pe_remote_operations p"
  "pe_last_activity (remember_cancelled i p) = pe_last_activity p" "pe_last_inbound (remember_cancelled i p) = pe_last_inbound p"
  "pe_last_outbound (remember_cancelled i p) = pe_last_outbound p" "pe_hello_complete (remember_cancelled i p) = pe_hello_complete p"
  "pe_hello_in_progress (remember_cancelled i p) = pe_hello_in_progress p" "pe_started (remember_cancelled i p) = pe_started p"
  "pe_closed (remember_cancelled i p) = pe_closed p" "pe_reading (remember_cancelled i p) = pe_reading p"
  "pe_now (remember_cancelled i p) = pe_now p" "pe_in_streams (remember_cancelled i p) = pe_in_streams p"
  "pe_out_streams (remember_cancelled i p) = pe_out_streams p" "pe_executions (remember_cancelled i p) = pe_executions p"
  "pe_sends (remember_cancelled i p) = pe_sends p" "pe_pauses (remember_cancelled i p) = pe_pauses p"
  "pe_next (remember_cancelled i p) = pe_next p"
  by (simp_all add: remember_cancelled_def Let_def)

lemma settle_outbound_sel [simp]:
  "pe_role (fst (settle_outbound i res p)) = pe_role p" "pe_session_nonce (fst (settle_outbound i res p)) = pe_session_nonce p"
  "pe_registry (fst (settle_outbound i res p)) = pe_registry p" "pe_limits (fst (settle_outbound i res p)) = pe_limits p"
  "pe_inbound (fst (settle_outbound i res p)) = pe_inbound p" "pe_received (fst (settle_outbound i res p)) = pe_received p"
  "pe_cancelled (fst (settle_outbound i res p)) = pe_cancelled p" "pe_late (fst (settle_outbound i res p)) = pe_late p"
  "pe_events (fst (settle_outbound i res p)) = pe_events p" "pe_incoming (fst (settle_outbound i res p)) = pe_incoming p"
  "pe_retired (fst (settle_outbound i res p)) = pe_retired p" "pe_outgoing (fst (settle_outbound i res p)) = pe_outgoing p"
  "pe_terminal_outgoing (fst (settle_outbound i res p)) = pe_terminal_outgoing p" "pe_local_capabilities (fst (settle_outbound i res p)) = pe_local_capabilities p"
  "pe_remote_capabilities (fst (settle_outbound i res p)) = pe_remote_capabilities p" "pe_local_operations (fst (settle_outbound i res p)) = pe_local_operations p"
  "pe_remote_operations (fst (settle_outbound i res p)) = pe_remote_operations p" "pe_last_activity (fst (settle_outbound i res p)) = pe_last_activity p"
  "pe_last_inbound (fst (settle_outbound i res p)) = pe_last_inbound p" "pe_last_outbound (fst (settle_outbound i res p)) = pe_last_outbound p"
  "pe_hello_complete (fst (settle_outbound i res p)) = pe_hello_complete p" "pe_started (fst (settle_outbound i res p)) = pe_started p"
  "pe_closed (fst (settle_outbound i res p)) = pe_closed p" "pe_reading (fst (settle_outbound i res p)) = pe_reading p"
  "pe_now (fst (settle_outbound i res p)) = pe_now p" "pe_in_streams (fst (settle_outbound i res p)) = pe_in_streams p"
  "pe_out_streams (fst (settle_outbound i res p)) = pe_out_streams p" "pe_executions (fst (settle_outbound i res p)) = pe_executions p"
  "pe_sends (fst (settle_outbound i res p)) = pe_sends p" "pe_pauses (fst (settle_outbound i res p)) = pe_pauses p"
  "pe_next (fst (settle_outbound i res p)) = pe_next p"
  by (simp_all add: settle_outbound_def split: option.splits)

lemma post_frame_next [simp]:
  "pe_next (fst (post_frame c fr lane ab st p)) = Suc (pe_next p)"
  "pe_sends (fst (post_frame c fr lane ab st p)) = jmap_set (pe_next p) c (pe_sends p)"
  "snd (post_frame c fr lane ab st p) = [SendFrame (pe_next p) fr lane ab st]"
  by (simp_all add: post_frame_def)

section \<open>Views\<close>

definition calls_view :: "('p, 'h) peer \<Rightarrow> _" where
  "calls_view p = (pe_outbound p, pe_cancelled p, pe_late p, pe_limits p, pe_closed p)"

text \<open>What a running handler was started for.\<close>

definition exec_view :: "(nat, 'p execution) jmap \<Rightarrow> nat \<Rightarrow> (bool \<times> 'p operation_definition) option" where
  "exec_view m x = map_option (\<lambda>ex. (ex_hello ex, ex_definition ex)) (jmap_get m x)"

definition session_view :: "('p, 'h) peer \<Rightarrow> _" where
  "session_view p = (pe_role p, pe_registry p, pe_limits p, pe_hello_complete p, pe_inbound p,
     pe_local_operations p, pe_remote_operations p, pe_closed p, exec_view (pe_executions p))"

lemma exec_view_upd [simp]:
  assumes "\<And>ex. ex_hello (k ex) = ex_hello ex" "\<And>ex. ex_definition (k ex) = ex_definition ex"
  shows "exec_view (pe_executions (upd_execution x k p)) = exec_view (pe_executions p)"
  using assms by (simp add: exec_view_def upd_execution_def fun_eq_iff split: option.splits)

lemma abort_execution_sel [simp]:
  "ex_hello (abort_execution m ex) = ex_hello ex" "ex_definition (abort_execution m ex) = ex_definition ex"
  by (simp_all add: abort_execution_def)

definition in_view :: "('p, 'h) peer \<Rightarrow> _" where
  "in_view p = (pe_incoming p, pe_retired p, pe_in_streams p)"

definition out_view :: "('p, 'h) peer \<Rightarrow> _" where
  "out_view p = (pe_outgoing p, pe_out_streams p, pe_role p, pe_session_nonce p)"

lemmas views = calls_view_def session_view_def in_view_def out_view_def

lemma peer_view_upd [simp]:
  "calls_view (upd_in h f p) = calls_view p" "session_view (upd_in h f p) = session_view p"
  "out_view (upd_in h f p) = out_view p"
  "calls_view (upd_out h g p) = calls_view p" "session_view (upd_out h g p) = session_view p"
  "in_view (upd_out h g p) = in_view p"
  "calls_view (upd_execution x k p) = calls_view p"
  "in_view (upd_execution x k p) = in_view p" "out_view (upd_execution x k p) = out_view p"
  "calls_view (p\<lparr>pe_pauses := a\<rparr>) = calls_view p" "session_view (p\<lparr>pe_pauses := a\<rparr>) = session_view p"
  "in_view (p\<lparr>pe_pauses := a\<rparr>) = in_view p" "out_view (p\<lparr>pe_pauses := a\<rparr>) = out_view p"
  "calls_view (p\<lparr>pe_next := b\<rparr>) = calls_view p" "session_view (p\<lparr>pe_next := b\<rparr>) = session_view p"
  "in_view (p\<lparr>pe_next := b\<rparr>) = in_view p" "out_view (p\<lparr>pe_next := b\<rparr>) = out_view p"
  "calls_view (p\<lparr>pe_sends := s\<rparr>) = calls_view p" "session_view (p\<lparr>pe_sends := s\<rparr>) = session_view p"
  "in_view (p\<lparr>pe_sends := s\<rparr>) = in_view p" "out_view (p\<lparr>pe_sends := s\<rparr>) = out_view p"
  "calls_view (mark_outbound_activity p) = calls_view p" "session_view (mark_outbound_activity p) = session_view p"
  "in_view (mark_outbound_activity p) = in_view p" "out_view (mark_outbound_activity p) = out_view p"
  "calls_view (mark_inbound_activity p) = calls_view p" "session_view (mark_inbound_activity p) = session_view p"
  "in_view (mark_inbound_activity p) = in_view p" "out_view (mark_inbound_activity p) = out_view p"
  "calls_view (fst (post_frame c fr lane ab st p)) = calls_view p"
  "session_view (fst (post_frame c fr lane ab st p)) = session_view p"
  "in_view (fst (post_frame c fr lane ab st p)) = in_view p"
  "out_view (fst (post_frame c fr lane ab st p)) = out_view p"
  by (simp_all add: views)

lemma session_upd_execution [simp]:
  assumes "\<And>ex. ex_hello (k ex) = ex_hello ex" "\<And>ex. ex_definition (k ex) = ex_definition ex"
  shows "session_view (upd_execution x k p) = session_view p"
  using assms by (simp add: session_view_def)

text \<open>Identities are handed out once, and a pending send stays pending.\<close>

definition grows :: "('p, 'h) peer \<Rightarrow> ('p, 'h) peer \<Rightarrow> bool" where
  "grows p q \<longleftrightarrow> pe_next p \<le> pe_next q \<and>
     (\<forall>tok < pe_next p. jmap_get (pe_sends q) tok = jmap_get (pe_sends p) tok) \<and>
     (\<forall>tok. jmap_get (pe_sends q) tok \<noteq> None \<longrightarrow> tok < pe_next q \<or> jmap_get (pe_sends p) tok \<noteq> None)"

lemma grows_refl [simp]: "grows p p"
  by (simp add: grows_def)

lemma grows_same: "pe_next q' = pe_next q \<Longrightarrow> pe_sends q' = pe_sends q \<Longrightarrow> grows p q' = grows p q"
  by (simp add: grows_def)

lemma grows_trans: "grows p q \<Longrightarrow> grows q r \<Longrightarrow> grows p r"
  unfolding grows_def by (metis order_less_le_trans order_trans)

fun settled_calls :: "'p peer_output list \<Rightarrow> nat list" where
  "settled_calls [] = []"
| "settled_calls (CallResolved h _ # outs) = h # settled_calls outs"
| "settled_calls (CallRejected h _ # outs) = h # settled_calls outs"
| "settled_calls (_ # outs) = settled_calls outs"

lemma settled_calls_append [simp]: "settled_calls (a @ b) = settled_calls a @ settled_calls b"
  by (induction a rule: settled_calls.induct) auto

text \<open>The handle of a call is the number before the token of its request frame.\<close>

fun is_request :: "'p outgoing_frame \<Rightarrow> bool" where
  "is_request (EnvelopeFrame (RequestEnvelope _)) = True"
| "is_request _ = False"

fun started_calls :: "'p peer_output list \<Rightarrow> nat list" where
  "started_calls [] = []"
| "started_calls (SendFrame tok f _ _ _ # outs) = (if is_request f then [tok - 1] else []) @ started_calls outs"
| "started_calls (_ # outs) = started_calls outs"

lemma started_calls_append [simp]: "started_calls (a @ b) = started_calls a @ started_calls b"
  by (induction a rule: started_calls.induct) auto

lemma frames_not_request [simp]:
  "\<not> is_request (credit_frame sid n p)" "\<not> is_request (terminal_frame s payload p)"
  "\<not> is_request (error_frame ns i code retryable p)" "is_request (request_frame d i deadline payload p)"
  by (simp_all add: credit_frame_def terminal_frame_def error_frame_def request_frame_def)

abbreviation call_free :: "'p peer_output list \<Rightarrow> bool" where
  "call_free outs \<equiv> settled_calls outs = [] \<and> started_calls outs = []"

fun commits :: "'p peer_output list \<Rightarrow> frame_compression list" where
  "commits [] = []"
| "commits (CompressionCommitted c # outs) = c # commits outs"
| "commits (_ # outs) = commits outs"

lemma commits_append [simp]: "commits (a @ b) = commits a @ commits b"
  by (induction a rule: commits.induct) auto

abbreviation silent :: "'p peer_output list \<Rightarrow> bool" where
  "silent outs \<equiv> call_free outs \<and> commits outs = []"

text \<open>A state that differs from another in nothing that concerns calls.\<close>

definition still :: "('p, 'h) peer \<Rightarrow> ('p, 'h) peer \<Rightarrow> bool" where
  "still p q \<longleftrightarrow> calls_view q = calls_view p \<and> grows p q"

definition quiet :: "('p, 'h) peer \<Rightarrow> ('p, 'h) peer_step \<Rightarrow> bool" where
  "quiet p r \<longleftrightarrow> still p (fst r) \<and> silent (snd r)"

lemma still_refl [simp]: "still p p"
  by (simp add: still_def)

lemma still_trans: "still p q \<Longrightarrow> still q r \<Longrightarrow> still p r"
  by (auto simp: still_def intro: grows_trans)

lemma still_same:
  "calls_view q' = calls_view q \<Longrightarrow> pe_next q' = pe_next q \<Longrightarrow> pe_sends q' = pe_sends q \<Longrightarrow> still p q' = still p q"
  by (simp add: still_def grows_same [of q' q])

lemma still_upd [simp]:
  "still p (upd_in h f q) = still p q" "still p (upd_out h g q) = still p q" "still p (upd_execution x k q) = still p q"
  "still p (mark_outbound_activity q) = still p q" "still p (mark_inbound_activity q) = still p q"
  "still p (q\<lparr>pe_pauses := a\<rparr>) = still p q" "still p (credit_landed h n q) = still p q"
  "still p (q\<lparr>pe_incoming := b\<rparr>) = still p q" "still p (q\<lparr>pe_retired := d\<rparr>) = still p q"
  "still p (q\<lparr>pe_outgoing := o1\<rparr>) = still p q" "still p (q\<lparr>pe_terminal_outgoing := o2\<rparr>) = still p q"
  "still p (q\<lparr>pe_events := v\<rparr>) = still p q" "still p (q\<lparr>pe_reading := r\<rparr>) = still p q"
  "still p (q\<lparr>pe_started := s\<rparr>) = still p q" "still p (q\<lparr>pe_now := t\<rparr>) = still p q"
  "still p (q\<lparr>pe_in_streams := u1\<rparr>) = still p q" "still p (q\<lparr>pe_out_streams := u2\<rparr>) = still p q"
  "still p (q\<lparr>pe_executions := u3\<rparr>) = still p q" "still p (q\<lparr>pe_inbound := u4\<rparr>) = still p q"
  "still p (q\<lparr>pe_hello_in_progress := u5\<rparr>) = still p q" "still p (remember_received u6 q) = still p q"
  by (rule still_same; simp add: views credit_landed_def)+

lemma still_next [simp]:
  assumes "still p q" and "pe_next q \<le> n"
  shows "still p (q\<lparr>pe_next := n\<rparr>)"
proof (rule still_trans [OF assms(1)])
  show "still q (q\<lparr>pe_next := n\<rparr>)" using assms(2) by (simp add: still_def grows_def)
qed

lemma still_post [simp]: "still p q \<Longrightarrow> still p (fst (post_frame c fr lane ab st q))"
proof (rule still_trans)
  show "still q (fst (post_frame c fr lane ab st q))" by (auto simp: still_def grows_def post_frame_def views)
qed simp

lemma quiet_then: "quiet p r \<Longrightarrow> quiet (fst r) (f (fst r)) \<Longrightarrow> quiet p (then_do r f)"
  by (auto simp: quiet_def intro: still_trans)

lemma quiet_step [simp]: "silent outs \<Longrightarrow> quiet p (q, outs) = still p q"
  by (simp add: quiet_def)

lemma quiet_post [simp]: "still p q \<Longrightarrow> \<not> is_request fr \<Longrightarrow> quiet p (post_frame c fr lane ab st q)"
  by (simp add: quiet_def)

lemma session_upd [simp]:
  "session_view (p\<lparr>pe_incoming := b\<rparr>) = session_view p" "session_view (p\<lparr>pe_retired := d\<rparr>) = session_view p"
  "session_view (p\<lparr>pe_outgoing := o1\<rparr>) = session_view p" "session_view (p\<lparr>pe_terminal_outgoing := o2\<rparr>) = session_view p"
  "session_view (p\<lparr>pe_events := v\<rparr>) = session_view p" "session_view (p\<lparr>pe_reading := r\<rparr>) = session_view p"
  "session_view (p\<lparr>pe_started := s\<rparr>) = session_view p" "session_view (p\<lparr>pe_now := t\<rparr>) = session_view p"
  "session_view (p\<lparr>pe_in_streams := u1\<rparr>) = session_view p" "session_view (p\<lparr>pe_out_streams := u2\<rparr>) = session_view p"
  "session_view (p\<lparr>pe_outbound := u4\<rparr>) = session_view p"
  "session_view (p\<lparr>pe_cancelled := u5\<rparr>) = session_view p" "session_view (p\<lparr>pe_late := u6\<rparr>) = session_view p"
  "session_view (p\<lparr>pe_hello_in_progress := u7\<rparr>) = session_view p" "session_view (remember_received u8 p) = session_view p"
  "session_view (remember_cancelled u9 p) = session_view p" "session_view (credit_landed h n p) = session_view p"
  by (simp_all add: views credit_landed_def)

lemma streams_upd [simp]:
  "out_view (p\<lparr>pe_incoming := b\<rparr>) = out_view p" "out_view (p\<lparr>pe_retired := d\<rparr>) = out_view p"
  "out_view (p\<lparr>pe_in_streams := u1\<rparr>) = out_view p" "out_view (credit_landed h n p) = out_view p"
  "in_view (p\<lparr>pe_outgoing := o1\<rparr>) = in_view p" "in_view (p\<lparr>pe_terminal_outgoing := o2\<rparr>) = in_view p"
  "out_view (p\<lparr>pe_terminal_outgoing := o2\<rparr>) = out_view p" "in_view (p\<lparr>pe_out_streams := u2\<rparr>) = in_view p"
  "in_view (p\<lparr>pe_events := v\<rparr>) = in_view p" "out_view (p\<lparr>pe_events := v\<rparr>) = out_view p"
  "in_view (p\<lparr>pe_reading := r\<rparr>) = in_view p" "out_view (p\<lparr>pe_reading := r\<rparr>) = out_view p"
  "in_view (p\<lparr>pe_started := s\<rparr>) = in_view p" "out_view (p\<lparr>pe_started := s\<rparr>) = out_view p"
  "in_view (p\<lparr>pe_now := t\<rparr>) = in_view p" "out_view (p\<lparr>pe_now := t\<rparr>) = out_view p"
  "in_view (p\<lparr>pe_executions := u3\<rparr>) = in_view p" "out_view (p\<lparr>pe_executions := u3\<rparr>) = out_view p"
  "in_view (p\<lparr>pe_inbound := u4\<rparr>) = in_view p" "out_view (p\<lparr>pe_inbound := u4\<rparr>) = out_view p"
  "in_view (p\<lparr>pe_outbound := u5\<rparr>) = in_view p" "out_view (p\<lparr>pe_outbound := u5\<rparr>) = out_view p"
  "in_view (p\<lparr>pe_cancelled := u6\<rparr>) = in_view p" "out_view (p\<lparr>pe_cancelled := u6\<rparr>) = out_view p"
  "in_view (p\<lparr>pe_late := u7\<rparr>) = in_view p" "out_view (p\<lparr>pe_late := u7\<rparr>) = out_view p"
  "in_view (p\<lparr>pe_hello_in_progress := u8\<rparr>) = in_view p" "out_view (p\<lparr>pe_hello_in_progress := u8\<rparr>) = out_view p"
  "in_view (remember_received u9 p) = in_view p" "out_view (remember_received u9 p) = out_view p"
  "in_view (remember_cancelled w p) = in_view p" "out_view (remember_cancelled w p) = out_view p"
  "in_view (fst (settle_outbound i res p)) = in_view p" "out_view (fst (settle_outbound i res p)) = out_view p"
  by (simp_all add: views credit_landed_def)

subsection \<open>Incoming streams\<close>

lemma send_stream_credit_Inr:
  "send_stream_credit env c sid rem n p = Inr r \<Longrightarrow>
     r = post_frame c (credit_frame sid n p) ControlLane False False p \<and> rem + n \<le> max_safe_integer"
  by (auto simp: send_stream_credit_def split: if_splits sum.splits)

lemma repay_loop_cases:
  obtains "fst (repay_loop env sid h d p) = p" "snd (repay_loop env sid h d p) = []"
  | "fst (repay_loop env sid h d p) = upd_in h (\<lambda>st. st\<lparr>ist_repaying := False\<rparr>) p" "snd (repay_loop env sid h d p) = []"
  | st where "jmap_get (pe_in_streams p) h = Some st" "jmap_get (pe_retired p) sid = Some h"
      "0 < ist_owed_credit st" "repay_loop env sid h d p = post_frame (RepaySend sid h (ist_owed_credit st) d)
         (credit_frame sid (ist_owed_credit st) p) ControlLane False False p"
proof (cases "jmap_get (pe_in_streams p) h")
  case None
  then show thesis using that(1) by (simp add: repay_loop_def)
next
  case (Some st)
  let ?c = "ist_owed_credit st > 0 \<and> \<not> pe_closed p \<and> jmap_get (pe_retired p) sid = Some h"
  show thesis
  proof (cases ?c)
    case False
    with Some have "repay_loop env sid h d p = (upd_in h (\<lambda>st. st\<lparr>ist_repaying := False\<rparr>) p, [])"
      by (auto simp: repay_loop_def Let_def)
    then show thesis using that(2) by simp
  next
    case True
    show thesis
    proof (cases "send_stream_credit env (RepaySend sid h (ist_owed_credit st) d) sid
        (ist_remaining_credit st) (ist_owed_credit st) p")
      case (Inl e)
      with Some True show thesis using that(2) by (simp add: repay_loop_def Let_def)
    next
      case (Inr r)
      with Some True send_stream_credit_Inr [OF Inr] show thesis using that(3) by (simp add: repay_loop_def Let_def)
    qed
  qed
qed

lemma repay_loop_views [simp]:
  "still p q \<Longrightarrow> quiet p (repay_loop env sid h d q)"
  "session_view (fst (repay_loop env sid h d q)) = session_view q"
  "out_view (fst (repay_loop env sid h d q)) = out_view q"
  by (cases rule: repay_loop_cases [of env sid h d q]; simp add: quiet_def)+

lemma repay_views [simp]:
  "still p q \<Longrightarrow> quiet p (repay_retired_credit env sid h n q)"
  "session_view (fst (repay_retired_credit env sid h n q)) = session_view q"
  "out_view (fst (repay_retired_credit env sid h n q)) = out_view q"
  by (simp_all add: repay_retired_credit_def Let_def split: option.splits)

lemma repay_sent_views [simp]:
  "still p q \<Longrightarrow> quiet p (repay_sent env sid h owed d res q)"
  "session_view (fst (repay_sent env sid h owed d res q)) = session_view q"
  "out_view (fst (repay_sent env sid h owed d res q)) = out_view q"
  by (simp_all add: repay_sent_def split: sum.splits)

lemma retire_views [simp]:
  "quiet p (retire_stream env h p)" "session_view (fst (retire_stream env h p)) = session_view p"
  "out_view (fst (retire_stream env h p)) = out_view p"
  by (simp_all add: retire_stream_def split: option.splits)

lemma add_credit_views [simp]:
  "quiet p (add_credit env h n p)" "session_view (fst (add_credit env h n p)) = session_view p"
  "out_view (fst (add_credit env h n p)) = out_view p"
proof -
  let ?q = "p\<lparr>pe_next := Suc (pe_next p)\<rparr>"
  have "quiet p r \<and> session_view (fst r) = session_view p \<and> out_view (fst r) = out_view p"
    if "send_stream_credit env c sid rem n ?q = Inr r" for c sid rem r
    using send_stream_credit_Inr [OF that] by simp
  then show "quiet p (add_credit env h n p)" "session_view (fst (add_credit env h n p)) = session_view p"
    "out_view (fst (add_credit env h n p)) = out_view p"
    by (simp_all add: add_credit_def Let_def split: option.splits sum.splits)
qed

lemma register_views [simp]:
  assumes "register_incoming_stream env sid c v credit schema p = Inr r"
  shows "still p (snd r)" "session_view (snd r) = session_view p" "out_view (snd r) = out_view p"
  using assms by (auto simp: register_incoming_stream_def Let_def still_def grows_def views split: if_splits)

lemma unregister_views [simp]:
  "still p (unregister_stream h p)" "session_view (unregister_stream h p) = session_view p"
  "out_view (unregister_stream h p) = out_view p"
  by (simp_all add: unregister_stream_def split: option.splits)

subsection \<open>Outgoing streams\<close>

lemma task_done_views [simp]:
  "still p q \<Longrightarrow> silent [out] \<Longrightarrow> quiet p (task_done h out q)"
  "session_view (fst (task_done h out q)) = session_view q" "in_view (fst (task_done h out q)) = in_view q"
  "snd (task_done h out q) = [out]"
  by (simp_all add: task_done_def)

lemma run_task_views [simp]:
  "still p q \<Longrightarrow> quiet p (run_send_task env h s n ch bs ab q)"
  "session_view (fst (run_send_task env h s n ch bs ab q)) = session_view q"
  "in_view (fst (run_send_task env h s n ch bs ab q)) = in_view q"
  "still p q \<Longrightarrow> quiet p (run_terminal_task env h s n payload d q)"
  "session_view (fst (run_terminal_task env h s n payload d q)) = session_view q"
  "in_view (fst (run_terminal_task env h s n payload d q)) = in_view q"
  by (simp_all add: run_send_task_def run_terminal_task_def Let_def split: sum.splits)

lemma stream_turn_views [simp]:
  "quiet p (stream_turn env h p)" "session_view (fst (stream_turn env h p)) = session_view p"
  "in_view (fst (stream_turn env h p)) = in_view p"
  by (simp_all add: stream_turn_def split: option.splits list.splits stream_task.splits)

lemma sent_views [simp]:
  "still p q \<Longrightarrow> quiet p (data_sent h res q)" "session_view (fst (data_sent h res q)) = session_view q"
  "in_view (fst (data_sent h res q)) = in_view q"
  "still p q \<Longrightarrow> quiet p (terminal_sent h d res q)" "session_view (fst (terminal_sent h d res q)) = session_view q"
  "in_view (fst (terminal_sent h d res q)) = in_view q"
  by (simp_all add: data_sent_def terminal_sent_def split: option.splits list.splits stream_task.splits sum.splits)

lemma pause_views [simp]:
  "still p q \<Longrightarrow> quiet p (pause_ended env pause q)" "session_view (fst (pause_ended env pause q)) = session_view q"
  by (simp_all add: pause_ended_def split: congestion_pause.splits option.splits list.splits stream_task.splits)

lemma stream_client_views [simp]:
  "quiet p (stream_send h ch bs ab p)" "session_view (fst (stream_send h ch bs ab p)) = session_view p"
  "in_view (fst (stream_send h ch bs ab p)) = in_view p"
  "quiet p (stream_terminal h payload schema p)" "session_view (fst (stream_terminal h payload schema p)) = session_view p"
  "in_view (fst (stream_terminal h payload schema p)) = in_view p"
  "quiet p (stream_send_aborted h n p)" "session_view (fst (stream_send_aborted h n p)) = session_view p"
  "in_view (fst (stream_send_aborted h n p)) = in_view p"
  by (simp_all add: stream_send_def stream_terminal_def stream_send_aborted_def Let_def
      split: option.splits task_position.splits list.splits stream_task.splits)

lemma open_views [simp]:
  assumes "open_outgoing_stream env sid c v credit p = Inr r"
  shows "still p (snd r)" "session_view (snd r) = session_view p" "in_view (snd r) = in_view p"
  using assms by (auto simp: open_outgoing_stream_def Let_def still_def grows_def views split: if_splits)

subsection \<open>Events\<close>

lemma event_views [simp]:
  "still p (snd (on_event c v e schema p))" "session_view (snd (on_event c v e schema p)) = session_view p"
  "in_view (snd (on_event c v e schema p)) = in_view p" "out_view (snd (on_event c v e schema p)) = out_view p"
  "still p (off_event c v e l p)" "session_view (off_event c v e l p) = session_view p"
  "in_view (off_event c v e l p) = in_view p" "out_view (off_event c v e l p) = out_view p"
  by (simp_all add: on_event_def off_event_def Let_def split: option.splits)

lemma send_event_views [simp]:
  "quiet p (send_event env c v e payload schema p)"
  "session_view (fst (send_event env c v e payload schema p)) = session_view p"
  "in_view (fst (send_event env c v e payload schema p)) = in_view p"
  "out_view (fst (send_event env c v e payload schema p)) = out_view p"
  by (simp_all add: send_event_def Let_def split: option.splits sum.splits)

subsection \<open>Requests\<close>

definition received_step :: "('p, 'h) received \<Rightarrow> ('p, 'h) peer_step" where
  "received_step r = (fst r, fst (snd r))"

lemma received_simps [simp]:
  "received_step (handled r) = r" "received_step (thrown e r) = r" "fst (handled r) = fst r" "fst (thrown e r) = fst r"
  "fst (snd (handled r)) = snd r" "fst (snd (thrown e r)) = snd r"
  "snd (snd (handled r)) = None" "snd (snd (thrown e r)) = Some e"
  by (simp_all add: received_step_def handled_def thrown_def)

lemma execution_views [simp]:
  "still p (handler_settled x res p)" "session_view (handler_settled x res p) = session_view p"
  "in_view (handler_settled x res p) = in_view p" "out_view (handler_settled x res p) = out_view p"
  "still p (deadline_passed x p)" "session_view (deadline_passed x p) = session_view p"
  "in_view (deadline_passed x p) = in_view p" "out_view (deadline_passed x p) = out_view p"
  by (simp_all add: handler_settled_def deadline_passed_def)

lemma send_error_views [simp]:
  "still p q \<Longrightarrow> quiet p (send_error ns i code retry lane q)"
  "session_view (fst (send_error ns i code retry lane q)) = session_view q"
  "in_view (fst (send_error ns i code retry lane q)) = in_view q"
  "out_view (fst (send_error ns i code retry lane q)) = out_view q"
  by (simp_all add: send_error_def)

lemma start_execution_views [simp]:
  "still p q \<Longrightarrow> quiet p (start_execution e d request hello deadline q)"
  "in_view (fst (start_execution e d request hello deadline q)) = in_view q"
  "out_view (fst (start_execution e d request hello deadline q)) = out_view q"
  by (simp_all add: start_execution_def Let_def)

lemma receive_request_views [simp]:
  "quiet p (received_step (receive_request e p))" "in_view (fst (receive_request e p)) = in_view p"
  "out_view (fst (receive_request e p)) = out_view p"
  by (simp_all add: receive_request_def Let_def split: option.splits sum.splits)

lemma receive_cancel_views [simp]:
  "quiet p (received_step (receive_cancel e p))" "session_view (fst (receive_cancel e p)) = session_view p"
  "in_view (fst (receive_cancel e p)) = in_view p" "out_view (fst (receive_cancel e p)) = out_view p"
  by (simp_all add: receive_cancel_def split: option.splits)

lemma deliver_event_quiet [simp]: "silent (fst (deliver_event env payload rs))"
  by (induction rs) (auto split: option.splits prod.splits)

lemma receive_event_views [simp]:
  "quiet p (received_step (receive_event env e p))" "session_view (fst (receive_event env e p)) = session_view p"
  "in_view (fst (receive_event env e p)) = in_view p" "out_view (fst (receive_event env e p)) = out_view p"
  by (simp_all add: receive_event_def Let_def split: option.splits) (simp_all add: received_step_def)

lemma receive_stream_views [simp]:
  "quiet p (received_step (receive_stream_data env f p))"
  "session_view (fst (receive_stream_data env f p)) = session_view p"
  "out_view (fst (receive_stream_data env f p)) = out_view p"
  "quiet p (received_step (receive_stream_credit c p))"
  "session_view (fst (receive_stream_credit c p)) = session_view p"
  "in_view (fst (receive_stream_credit c p)) = in_view p"
  "quiet p (received_step (receive_stream_terminal env t p))"
  "session_view (fst (receive_stream_terminal env t p)) = session_view p"
  "out_view (fst (receive_stream_terminal env t p)) = out_view p"
  by (simp_all add: receive_stream_data_def receive_stream_credit_def receive_stream_terminal_def Let_def
      split: option.splits prod.splits)

end
