(* ===== verification/PeerCalls.thy ===== *)
theory PeerCalls
  imports PeerFrames "HOL-Library.Multiset"
begin

text \<open>
  The calls a peer makes. Every call that was started is either still pending or was settled, exactly
  once; the calls pending are bounded; and once the peer is closed a call that is still pending waits
  for the settlement of its own request frame, so when the transport has settled every send no caller
  waits. The statement holds of every interleaving of the operations of the peer.
\<close>

section \<open>Definitions\<close>

text \<open>A pending request has its continuation among the pending sends until the frame is sent (but for
  the requests \<open>X\<close>), and a closed peer keeps only unsent requests (but for the requests \<open>Y\<close>).\<close>

definition pending_ok :: "string set \<Rightarrow> string set \<Rightarrow> ('p, 'h) peer \<Rightarrow> string \<Rightarrow> 'p pending_request \<Rightarrow> bool" where
  "pending_ok X Y p i r \<longleftrightarrow> pr_send_token r < pe_next p \<and>
     (i \<in> X \<or> pr_sent r \<or> jmap_get (pe_sends p) (pr_send_token r) = Some (RequestSend i (pr_handle r))) \<and>
     (pe_closed p \<and> i \<notin> Y \<longrightarrow> \<not> pr_sent r)"

definition calls_ok :: "string set \<Rightarrow> string set \<Rightarrow> nat list \<Rightarrow> nat list \<Rightarrow> ('p, 'h) peer \<Rightarrow> bool" where
  "calls_ok X Y started settled p \<longleftrightarrow>
     jmap_wf (pe_outbound p) \<and> int (length (pe_outbound p)) \<le> maximum_outbound_requests (pe_limits p) \<and>
     distinct started \<and> (\<forall>h\<in>set started. h < pe_next p) \<and>
     mset started = mset settled + mset (map (pr_handle \<circ> snd) (pe_outbound p)) \<and>
     (\<forall>i r. jmap_get (pe_outbound p) i = Some r \<longrightarrow> pending_ok X Y p i r) \<and>
     (\<forall>tok. jmap_get (pe_sends p) tok \<noteq> None \<longrightarrow> tok < pe_next p)"

definition keeps_calls :: "('p, 'h) peer \<Rightarrow> ('p, 'h) peer_step \<Rightarrow> bool" where
  "keeps_calls p r \<longleftrightarrow> (\<forall>started settled. calls_ok {} {} started settled p \<longrightarrow>
     calls_ok {} {} (started @ started_calls (snd r)) (settled @ settled_calls (snd r)) (fst r))"

section \<open>Lemmas\<close>

subsection \<open>Steps that concern no call\<close>

lemma pending_still:
  "still p q \<Longrightarrow> pending_ok X Y p i r \<Longrightarrow> pending_ok X Y q i r"
  by (auto simp: still_def grows_def pending_ok_def views)

lemma calls_still:
  assumes "still p q" and "calls_ok X Y started settled p"
  shows "calls_ok X Y started settled q"
proof -
  have views: "pe_outbound q = pe_outbound p" "pe_limits q = pe_limits p" and n: "pe_next p \<le> pe_next q"
    and sends: "\<And>tok. jmap_get (pe_sends q) tok \<noteq> None \<Longrightarrow> tok < pe_next q \<or> jmap_get (pe_sends p) tok \<noteq> None"
    using assms(1) by (auto simp: still_def grows_def views)
  have "tok < pe_next q" if "jmap_get (pe_sends q) tok \<noteq> None" for tok
    using sends [OF that] n assms(2) unfolding calls_ok_def by (meson order_less_le_trans)
  then show ?thesis
    using assms(2) n pending_still [OF assms(1)] unfolding calls_ok_def views by (auto intro: order_less_le_trans)
qed

lemma quiet_keeps [intro]: "quiet p r \<Longrightarrow> keeps_calls p r"
  by (auto simp: keeps_calls_def quiet_def intro: calls_still)

lemma keeps_then: "keeps_calls p r \<Longrightarrow> keeps_calls (fst r) (f (fst r)) \<Longrightarrow> keeps_calls p (then_do r f)"
  unfolding keeps_calls_def fst_then_do snd_then_do settled_calls_append started_calls_append append_assoc [symmetric]
  by blast

lemma keeps_from: "keeps_calls p (q, []) \<Longrightarrow> keeps_calls q r \<Longrightarrow> keeps_calls p r"
  by (simp add: keeps_calls_def)

lemma calls_same:
  assumes "pe_outbound q = pe_outbound p" "pe_limits q = pe_limits p" "pe_closed q = pe_closed p"
    "pe_next q = pe_next p" "pe_sends q = pe_sends p"
  shows "calls_ok X Y started settled q = calls_ok X Y started settled p"
  using assms by (simp add: calls_ok_def pending_ok_def)

subsection \<open>Settling\<close>

lemma jmap_set_same: "jmap_get m k = Some v \<Longrightarrow> jmap_set k v m = m"
  by (induction m) (auto split: if_splits)

lemma jmap_delete_set: "jmap_delete k (jmap_set k v m) = jmap_delete k m"
  by (induction m) (auto simp: AList.delete_eq)

lemma handles_delete:
  assumes "jmap_wf m" and "jmap_get m i = Some r"
  shows "mset (map (pr_handle \<circ> snd) m) = mset (map (pr_handle \<circ> snd) (jmap_delete i m)) + {#pr_handle r#}"
  using assms
proof (induction m)
  case (Cons a m)
  show ?case
  proof (cases "fst a = i")
    case True
    with Cons.prems have "i \<notin> fst ` set m" by auto
    with True Cons.prems show ?thesis by (cases a) (simp add: delete_absent)
  next
    case False
    with Cons show ?thesis by (cases a) simp
  qed
qed simp

lemma handles_set:
  assumes "jmap_wf m" and "jmap_get m i = Some r" and "pr_handle r' = pr_handle r"
  shows "map (pr_handle \<circ> snd) (jmap_set i r' m) = map (pr_handle \<circ> snd) m"
  using assms
proof (induction m)
  case (Cons a m)
  then show ?case by (cases a) auto
qed simp

lemma length_delete: "jmap_get m i = Some r \<Longrightarrow> jmap_wf m \<Longrightarrow> length (jmap_delete i m) = length m - 1"
proof (induction m)
  case (Cons a m)
  then show ?case
    by (cases a; cases m) (auto simp: delete_absent split: if_splits)
qed simp

lemma calls_settle:
  assumes ok: "calls_ok (insert i X) (insert i Y) started settled p" and i: "i \<notin> X" "i \<notin> Y"
    and got: "jmap_get (pe_outbound p) i = Some r"
  shows "calls_ok X Y started (settled @ settled_calls (snd (settle_outbound i res p))) (fst (settle_outbound i res p))"
proof -
  have out: "settled_calls (snd (settle_outbound i res p)) = [pr_handle r]"
    "pe_outbound (fst (settle_outbound i res p)) = jmap_delete i (pe_outbound p)"
    using got by (auto simp: settle_outbound_def split: sum.splits)
  have wf: "jmap_wf (pe_outbound p)" using ok by (simp add: calls_ok_def)
  have "pending_ok X Y p j s" if "jmap_get (pe_outbound p) j = Some s" "j \<noteq> i" for j s
  proof -
    have "pending_ok (insert i X) (insert i Y) p j s" using ok that by (simp add: calls_ok_def)
    with that show ?thesis by (auto simp: pending_ok_def)
  qed
  then have pend: "pending_ok X Y (fst (settle_outbound i res p)) j s" if "jmap_get (jmap_delete i (pe_outbound p)) j = Some s" for j s
    using that by (auto simp: pending_ok_def split: if_splits)
  show ?thesis
    using ok wf pend handles_delete [OF wf got] length_delete [OF got wf] unfolding calls_ok_def out
    by (auto simp: out)
qed

lemma calls_weaken: "calls_ok {} {} started settled p \<Longrightarrow> calls_ok X Y started settled p"
  by (auto simp: calls_ok_def pending_ok_def)

lemma settle_none: "jmap_get (pe_outbound p) i = None \<Longrightarrow> settle_outbound i res p = (p, [])"
  by (simp add: settle_outbound_def)

lemma settle_started [simp]: "started_calls (snd (settle_outbound i res p)) = []"
  by (auto simp: settle_outbound_def split: option.splits sum.splits)

lemma settle_keeps: "keeps_calls p (settle_outbound i res p)"
proof (cases "jmap_get (pe_outbound p) i")
  case None
  then show ?thesis by (simp add: settle_none keeps_calls_def)
next
  case (Some r)
  have "calls_ok {i} {i} started settled p" if "calls_ok {} {} started settled p" for started settled
    using that by (rule calls_weaken)
  from calls_settle [OF this _ _ Some, of _ _ res] show ?thesis by (simp add: keeps_calls_def)
qed

text \<open>The record of a pending request changes, its handle and token apart.\<close>

lemma calls_replace:
  assumes ok: "calls_ok X Y started settled p" and got: "jmap_get (pe_outbound p) i = Some r"
    and r': "pr_handle r' = pr_handle r" "pr_send_token r' = pr_send_token r"
    and sent: "i \<in> X \<or> \<not> pr_sent r \<or> pr_sent r'" "pe_closed p \<and> i \<notin> Y \<longrightarrow> \<not> pr_sent r'"
  shows "calls_ok X Y started settled (p\<lparr>pe_outbound := jmap_set i r' (pe_outbound p)\<rparr>)"
proof -
  have wf: "jmap_wf (pe_outbound p)" and "pending_ok X Y p i r" using ok got by (simp_all add: calls_ok_def)
  then have "pending_ok X Y p i r'" using r' sent by (auto simp: pending_ok_def)
  moreover have "jmap_has (pe_outbound p) i" using got by (simp add: jmap_has_def)
  ultimately show ?thesis
    using ok handles_set [OF wf got r'(1)] unfolding calls_ok_def
    by (simp add: length_jmap_set pending_ok_def)
qed

subsection \<open>Calls\<close>

lemma keeps_same:
  assumes "pe_outbound q = pe_outbound p" "pe_limits q = pe_limits p" "pe_closed q = pe_closed p"
    "pe_next q = pe_next p" "pe_sends q = pe_sends p" "keeps_calls q r"
  shows "keeps_calls p r"
  using assms(6) calls_same [OF assms(1-5)] by (simp add: keeps_calls_def)

lemma send_cancel_quiet [simp]: "still p q \<Longrightarrow> quiet p (send_cancel i q)"
  by (simp add: send_cancel_def)

text \<open>A cancellation only records itself while the request is not sent, and settles it once it is.\<close>

lemma cancel_cases:
  obtains "cancel_outbound i code p = (p, [])"
  | q r where "jmap_get (pe_outbound p) i = Some r" "\<not> pr_sent r"
      "cancel_outbound i code p = (q, [AbortSend (pr_send_token r)])"
      "pe_outbound q = jmap_set i (r\<lparr>pr_cancellation_code := Some code\<rparr>) (pe_outbound p)"
      "pe_limits q = pe_limits p" "pe_closed q = pe_closed p" "pe_next q = pe_next p" "pe_sends q = pe_sends p"
  | q r where "jmap_get (pe_outbound p) i = Some r" "pr_sent r"
      "cancel_outbound i code p =
         then_do (settle_outbound i (Inl (DeliveryError code SentOutcomeUnknown)) q) (send_cancel i)"
      "pe_outbound q = jmap_set i (r\<lparr>pr_cancellation_code := Some code\<rparr>) (pe_outbound p)"
      "pe_limits q = pe_limits p" "pe_closed q = pe_closed p" "pe_next q = pe_next p" "pe_sends q = pe_sends p"
proof (cases "jmap_get (pe_outbound p) i")
  case None
  then show thesis using that(1) by (simp add: cancel_outbound_def)
next
  case (Some r)
  let ?p1 = "remember_cancelled i (p\<lparr>pe_outbound :=
     jmap_set i (r\<lparr>pr_cancellation_code := Some code\<rparr>) (pe_outbound p)\<rparr>)"
  let ?q = "case pr_late_success r of None \<Rightarrow> ?p1
     | Some h \<Rightarrow> ?p1\<lparr>pe_late := jmap_set i (pr_definition r, h) (pe_late ?p1)\<rparr>"
  have q: "pe_outbound ?q = jmap_set i (r\<lparr>pr_cancellation_code := Some code\<rparr>) (pe_outbound p)"
    "pe_limits ?q = pe_limits p" "pe_closed ?q = pe_closed p" "pe_next ?q = pe_next p" "pe_sends ?q = pe_sends p"
    by (simp_all split: option.splits)
  show thesis
  proof (cases "pr_cancellation_code r")
    case None
    with Some have "cancel_outbound i code p =
      (if pr_sent r then then_do (settle_outbound i (Inl (DeliveryError code SentOutcomeUnknown)) ?q) (send_cancel i)
       else (?q, [AbortSend (pr_send_token r)]))"
      by (simp add: cancel_outbound_def Let_def)
    then show thesis using that(2) [OF Some _ _ q] that(3) [OF Some _ _ q] by (cases "pr_sent r") simp_all
  next
    case (Some c)
    with \<open>jmap_get (pe_outbound p) i = Some r\<close> show thesis using that(1) by (simp add: cancel_outbound_def)
  qed
qed

lemma replace_code_keeps:
  assumes "jmap_get (pe_outbound p) i = Some r"
    and "pe_outbound q = jmap_set i (r\<lparr>pr_cancellation_code := c\<rparr>) (pe_outbound p)"
    and "pe_limits q = pe_limits p" "pe_closed q = pe_closed p" "pe_next q = pe_next p" "pe_sends q = pe_sends p"
    and "call_free outs"
  shows "keeps_calls p (q, outs)"
proof -
  let ?q = "p\<lparr>pe_outbound := jmap_set i (r\<lparr>pr_cancellation_code := c\<rparr>) (pe_outbound p)\<rparr>"
  have "calls_ok {} {} started settled q" if ok: "calls_ok {} {} started settled p" for started settled
  proof -
    have "pending_ok {} {} p i r" using ok assms(1) by (simp add: calls_ok_def)
    then have "calls_ok {} {} started settled ?q"
      by (intro calls_replace [OF ok assms(1)]) (auto simp: pending_ok_def)
    then show ?thesis using assms(2-6) calls_same [of q ?q] by simp
  qed
  with assms(7) show ?thesis by (simp add: keeps_calls_def)
qed

lemma cancel_keeps: "keeps_calls p (cancel_outbound i code p)"
proof (cases rule: cancel_cases [of i code p])
  case 1
  then show ?thesis by (simp add: quiet_keeps)
next
  case (2 q r)
  then show ?thesis by (simp add: replace_code_keeps)
next
  case (3 q r)
  let ?s = "settle_outbound i (Inl (DeliveryError code SentOutcomeUnknown)) q"
  have "keeps_calls p (q, [])" using 3 by (intro replace_code_keeps) auto
  moreover have "keeps_calls q (then_do ?s (send_cancel i))"
    by (rule keeps_then) (auto intro: settle_keeps)
  ultimately show ?thesis unfolding 3(3) by (rule keeps_from)
qed

lemma calls_add:
  assumes ok: "calls_ok {} {} started settled p" and "jmap_get (pe_outbound p) i = None"
    and "int (length (pe_outbound p)) < maximum_outbound_requests (pe_limits p)"
    and r: "pr_handle r = pe_next p" "pr_send_token r = Suc (pe_next p)" "\<not> pr_sent r"
    and q: "pe_outbound q = jmap_set i r (pe_outbound p)" "pe_limits q = pe_limits p" "pe_closed q = pe_closed p"
      "pe_next q = Suc (Suc (pe_next p))" "pe_sends q = jmap_set (Suc (pe_next p)) (RequestSend i (pe_next p)) (pe_sends p)"
  shows "calls_ok {} {} (started @ [pe_next p]) settled q"
proof -
  have "pending_ok {} {} q j s" if "jmap_get (pe_outbound q) j = Some s" for j s
  proof (cases "j = i")
    case True
    with that r q show ?thesis by (simp add: pending_ok_def)
  next
    case False
    with that q have "pending_ok {} {} p j s" using ok by (simp add: calls_ok_def)
    with q show ?thesis by (auto simp: pending_ok_def)
  qed
  moreover have "tok < pe_next q" if "jmap_get (pe_sends q) tok \<noteq> None" for tok
    using that q ok unfolding calls_ok_def by (metis jmap_get_set lessI less_SucI)
  moreover have "pe_next p \<notin> set started" using ok by (auto simp: calls_ok_def)
  ultimately show ?thesis
    using ok assms(2,3) r q unfolding calls_ok_def by (auto simp: jmap_set_absent)
qed

text \<open>A request whose signal is already aborted is cancelled before its frame is handed out.\<close>

lemma cancel_unsent:
  assumes "jmap_get (pe_outbound p) i = Some r" and "\<not> pr_sent r"
  obtains r' where "call_free (snd (cancel_outbound i code p))"
    "pe_outbound (fst (cancel_outbound i code p)) = jmap_set i r' (pe_outbound p)"
    "pe_limits (fst (cancel_outbound i code p)) = pe_limits p" "pe_closed (fst (cancel_outbound i code p)) = pe_closed p"
    "pe_next (fst (cancel_outbound i code p)) = pe_next p" "pe_sends (fst (cancel_outbound i code p)) = pe_sends p"
    "pr_handle r' = pr_handle r" "pr_send_token r' = pr_send_token r" "\<not> pr_sent r'"
proof (cases rule: cancel_cases [of i code p])
  case 1
  have "jmap_set i r (pe_outbound p) = pe_outbound p" using assms(1) by (rule jmap_set_same)
  with 1 assms show thesis by (intro that [of r]) simp_all
next
  case (2 q s)
  with assms show thesis by (intro that [of "r\<lparr>pr_cancellation_code := Some code\<rparr>"]) simp_all
next
  case (3 q s)
  with assms show thesis by simp
qed

lemma start_call_keeps:
  assumes "jmap_get (pe_outbound p) i = None"
    and "int (length (pe_outbound p)) < maximum_outbound_requests (pe_limits p)" and "is_request frame"
  shows "keeps_calls p (start_call d c sig ab late deadline i frame p)"
proof -
  let ?post = "post_frame (RequestSend i (pe_next p)) frame (od_lane d) (sig \<and> ab) False"
  define r0 where "r0 = \<lparr>pr_handle = pe_next p, pr_definition = d, pr_requested_compression = c, pr_late_success = late,
     pr_timer = (deadline \<noteq> CallerAbort), pr_signal = sig, pr_send_token = Suc (pe_next p),
     pr_cancellation_code = None, pr_sent = False\<rparr>"
  define p1 where "p1 = p\<lparr>pe_outbound := jmap_set i r0 (pe_outbound p), pe_next := Suc (pe_next p)\<rparr>"
  define s where "s = (if sig \<and> ab then cancel_outbound i ''sidecar_request_cancelled'' p1 else (p1, []))"
  have p1: "jmap_get (pe_outbound p1) i = Some r0" "\<not> pr_sent r0" by (simp_all add: p1_def r0_def)
  have "\<exists>r. call_free (snd s) \<and> pe_outbound (fst s) = jmap_set i r (pe_outbound p1) \<and> pe_limits (fst s) = pe_limits p1 \<and>
    pe_closed (fst s) = pe_closed p1 \<and> pe_next (fst s) = pe_next p1 \<and> pe_sends (fst s) = pe_sends p1 \<and>
    pr_handle r = pr_handle r0 \<and> pr_send_token r = pr_send_token r0 \<and> \<not> pr_sent r"
  proof (cases "sig \<and> ab")
    case False
    with jmap_set_same [OF p1(1)] p1(2) show ?thesis by (intro exI [of _ r0]) (auto simp: s_def)
  next
    case True
    then have "s = cancel_outbound i ''sidecar_request_cancelled'' p1" by (simp add: s_def)
    then show ?thesis using cancel_unsent [OF p1, of "''sidecar_request_cancelled''"] by metis
  qed
  then obtain r where s: "call_free (snd s)" "pe_outbound (fst s) = jmap_set i r (pe_outbound p)"
    "pe_limits (fst s) = pe_limits p" "pe_closed (fst s) = pe_closed p" "pe_next (fst s) = Suc (pe_next p)"
    "pe_sends (fst s) = pe_sends p" "pr_handle r = pe_next p" "pr_send_token r = Suc (pe_next p)" "\<not> pr_sent r"
    by (auto simp: p1_def r0_def)
  have eq: "start_call d c sig ab late deadline i frame p = then_do s ?post"
    by (simp add: start_call_def Let_def s_def p1_def r0_def)
  have "calls_ok {} {} (started @ [pe_next p]) settled (fst (?post (fst s)))"
    if ok: "calls_ok {} {} started settled p" for started settled
    by (rule calls_add [OF ok assms(1,2) s(7,8,9)]) (use s in simp_all)
  with assms(3) s show ?thesis unfolding eq by (simp add: keeps_calls_def)
qed

lemma call_keeps: "keeps_calls p (peer_call env d request sig ab deadline late i p)"
proof -
  have refuse: "keeps_calls p (p, [CallRefused e])" "keeps_calls p (p\<lparr>pe_hello_in_progress := True\<rparr>, [CallRefused e])" for e
    by (auto intro: quiet_keeps)
  let ?q = "p\<lparr>pe_hello_in_progress := True\<rparr>"
  have start: "keeps_calls p (start_call d c sig ab late dl i (request_frame d i dl payload p) p)"
    "keeps_calls p (start_call d c sig ab late dl i (request_frame d i dl payload p) ?q)"
    if "\<not> maximum_outbound_requests (pe_limits p) \<le> int (length (pe_outbound p))" "\<not> jmap_has (pe_outbound p) i" for c dl payload
  proof -
    show "keeps_calls p (start_call d c sig ab late dl i (request_frame d i dl payload p) p)"
      using that by (intro start_call_keeps) (simp_all add: jmap_has_def)
    have "keeps_calls ?q (start_call d c sig ab late dl i (request_frame d i dl payload p) ?q)"
      using that by (intro start_call_keeps) (simp_all add: jmap_has_def)
    then show "keeps_calls p (start_call d c sig ab late dl i (request_frame d i dl payload p) ?q)"
      by (rule keeps_same [rotated 5]) simp_all
  qed
  show ?thesis
    unfolding peer_call_def Let_def using refuse start by (simp split: option.splits sum.splits)
qed

lemma timeout_keeps: "keeps_calls p (request_timeout i p)" "keeps_calls p (request_aborted i p)"
  unfolding request_timeout_def request_aborted_def by (auto intro: quiet_keeps cancel_keeps split: option.splits)

subsection \<open>Settled sends\<close>

text \<open>The continuation of a request is taken from the pending sends before it runs, so the invariant is
  owed for that request.\<close>

definition keeps_owed :: "string set \<Rightarrow> ('p, 'h) peer \<Rightarrow> ('p, 'h) peer_step \<Rightarrow> bool" where
  "keeps_owed X p r \<longleftrightarrow> (\<forall>started settled. calls_ok X {} started settled p \<longrightarrow>
     calls_ok {} {} (started @ started_calls (snd r)) (settled @ settled_calls (snd r)) (fst r))"

lemma owed_then: "keeps_owed X p r \<Longrightarrow> keeps_calls (fst r) (f (fst r)) \<Longrightarrow> keeps_owed X p (then_do r f)"
  unfolding keeps_owed_def keeps_calls_def fst_then_do snd_then_do settled_calls_append started_calls_append
    append_assoc [symmetric] by blast

lemma settle_owed:
  assumes "jmap_get (pe_outbound p) i = Some r" and "pr_handle r' = pr_handle r"
    and "pe_outbound q = jmap_set i r' (pe_outbound p)" "pe_limits q = pe_limits p" "pe_closed q = pe_closed p"
      "pe_next q = pe_next p" "pe_sends q = pe_sends p"
  shows "keeps_owed {i} p (settle_outbound i res q)"
proof -
  have out: "pe_outbound (fst (settle_outbound i res q)) = jmap_delete i (pe_outbound p)"
    "pe_outbound (fst (settle_outbound i res p)) = jmap_delete i (pe_outbound p)"
    "settled_calls (snd (settle_outbound i res q)) = [pr_handle r]" "settled_calls (snd (settle_outbound i res p)) = [pr_handle r]"
    using assms(1-3) by (auto simp: settle_outbound_def jmap_delete_set split: sum.splits)
  have "calls_ok {} {} started (settled @ [pr_handle r]) (fst (settle_outbound i res q))"
    if "calls_ok {i} {} started settled p" for started settled
  proof -
    have "calls_ok {i} {i} started settled p" using that by (auto simp: calls_ok_def pending_ok_def)
    from calls_settle [OF this _ _ assms(1), of res] show ?thesis
      using calls_same [of "fst (settle_outbound i res q)" "fst (settle_outbound i res p)"] assms(4-7)
      by (simp add: out)
  qed
  then show ?thesis by (simp add: keeps_owed_def out)
qed

lemma sent_owed:
  assumes "jmap_get (pe_outbound p) i = Some r" and "\<not> pe_closed p"
  shows "keeps_owed {i} p (mark_outbound_activity (p\<lparr>pe_outbound := jmap_set i (r\<lparr>pr_sent := True\<rparr>) (pe_outbound p)\<rparr>), [])"
proof -
  let ?q = "p\<lparr>pe_outbound := jmap_set i (r\<lparr>pr_sent := True\<rparr>) (pe_outbound p)\<rparr>"
  have "calls_ok {} {} started settled ?q" if ok: "calls_ok {i} {} started settled p" for started settled
  proof -
    have "calls_ok {i} {} started settled ?q"
      by (rule calls_replace [OF ok assms(1)]) (use assms(2) in simp_all)
    moreover have "pending_ok {} {} ?q j s" if "pending_ok {i} {} ?q j s" "jmap_get (pe_outbound ?q) j = Some s" for j s
      using that by (cases "j = i") (auto simp: pending_ok_def)
    ultimately show ?thesis unfolding calls_ok_def by blast
  qed
  then show ?thesis by (simp add: keeps_owed_def calls_same [of "mark_outbound_activity ?q" ?q])
qed

lemma request_sent_owed:
  assumes "jmap_get (pe_outbound p) i = Some r" and "pr_handle r = h"
  shows "keeps_owed {i} p (request_sent i h res p)"
proof (cases res)
  case (Inl e)
  have "jmap_set i r (pe_outbound p) = pe_outbound p" using assms(1) by (rule jmap_set_same)
  then have "keeps_owed {i} p (settle_outbound i res' p)" for res'
    by (intro settle_owed [OF assms(1), of r]) simp_all
  with Inl assms show ?thesis by (cases e) (simp add: request_sent_def)
next
  case (Inr u)
  let ?q = "mark_outbound_activity (p\<lparr>pe_outbound := jmap_set i (r\<lparr>pr_sent := True\<rparr>) (pe_outbound p)\<rparr>)"
  have settle: "keeps_owed {i} p (settle_outbound i res' ?q)" for res'
    by (rule settle_owed [OF assms(1), of "r\<lparr>pr_sent := True\<rparr>"]) simp_all
  have cancel: "keeps_owed {i} p (then_do (settle_outbound i res' ?q) (send_cancel i))" for res'
    by (rule owed_then [OF settle]) (auto intro: quiet_keeps)
  show ?thesis
  proof (cases "pe_closed p")
    case True
    with Inr assms settle show ?thesis by (simp add: request_sent_def Let_def)
  next
    case False
    with Inr assms cancel sent_owed [OF assms(1)] show ?thesis by (simp add: request_sent_def Let_def split: option.splits)
  qed
qed

lemma calls_sends_delete:
  assumes ok: "calls_ok {} {} started settled p" and tok: "jmap_get (pe_sends p) tok = Some cont"
    and X: "\<And>i r. jmap_get (pe_outbound p) i = Some r \<Longrightarrow> cont = RequestSend i (pr_handle r) \<Longrightarrow> i \<in> X"
  shows "calls_ok X {} started settled (p\<lparr>pe_sends := jmap_delete tok (pe_sends p)\<rparr>)"
proof -
  let ?q = "p\<lparr>pe_sends := jmap_delete tok (pe_sends p)\<rparr>"
  have "pending_ok X {} ?q i r" if got: "jmap_get (pe_outbound p) i = Some r" for i r
  proof -
    have "pending_ok {} {} p i r" using ok got by (simp add: calls_ok_def)
    with tok X [OF got] show ?thesis by (auto simp: pending_ok_def)
  qed
  with ok show ?thesis by (auto simp: calls_ok_def)
qed

lemma settled_other:
  assumes "jmap_get (pe_sends p) tok = Some cont" and "\<And>i h. cont \<noteq> RequestSend i h"
    and "keeps_calls (p\<lparr>pe_sends := jmap_delete tok (pe_sends p)\<rparr>) r"
  shows "keeps_calls p r"
  using assms(3) calls_sends_delete [OF _ assms(1), of _ _ "{}"] assms(2) unfolding keeps_calls_def by blast

lemma settled_request:
  assumes tok: "jmap_get (pe_sends p) tok = Some (RequestSend i h)"
  shows "keeps_calls p (request_sent i h res (p\<lparr>pe_sends := jmap_delete tok (pe_sends p)\<rparr>))"
proof (cases "\<exists>r. jmap_get (pe_outbound p) i = Some r \<and> pr_handle r = h")
  case True
  then obtain r where r: "jmap_get (pe_outbound p) i = Some r" "pr_handle r = h" by blast
  have "keeps_owed {i} (p\<lparr>pe_sends := jmap_delete tok (pe_sends p)\<rparr>)
      (request_sent i h res (p\<lparr>pe_sends := jmap_delete tok (pe_sends p)\<rparr>))"
    using r by (intro request_sent_owed) simp_all
  then show ?thesis using calls_sends_delete [OF _ tok, of _ _ "{i}"] unfolding keeps_owed_def keeps_calls_def by blast
next
  case False
  let ?q = "p\<lparr>pe_sends := jmap_delete tok (pe_sends p)\<rparr>"
  have "request_sent i h res ?q = (?q, [])" using False by (auto simp: request_sent_def split: option.splits)
  then show ?thesis using calls_sends_delete [OF _ tok, of _ _ "{}"] False by (auto simp: keeps_calls_def)
qed

subsection \<open>Closing\<close>

lemma fold_still [simp]:
  "(\<And>x q. still p q \<Longrightarrow> still p (f x q)) \<Longrightarrow> still p q \<Longrightarrow> still p (fold f xs q)"
  by (induction xs arbitrary: q) simp_all

lemma settle_sent_closes:
  assumes ok: "calls_ok {} (insert i Y) started settled p" and i: "i \<notin> Y"
  shows "calls_ok {} Y started (settled @ settled_calls (snd (settle_sent m i p))) (fst (settle_sent m i p))"
proof (cases "\<exists>r. jmap_get (pe_outbound p) i = Some r \<and> pr_sent r")
  case True
  then obtain r where r: "jmap_get (pe_outbound p) i = Some r" "pr_sent r" by blast
  have "calls_ok {i} (insert i Y) started settled p" using ok by (auto simp: calls_ok_def pending_ok_def)
  from calls_settle [OF this _ i r(1)] r show ?thesis by (simp add: settle_sent_def)
next
  case False
  then have "settle_sent m i p = (p, [])" by (auto simp: settle_sent_def split: option.splits)
  moreover have "pending_ok {} Y p j s" if "pending_ok {} (insert i Y) p j s" "jmap_get (pe_outbound p) j = Some s" for j s
    using that False by (auto simp: pending_ok_def)
  ultimately show ?thesis using ok unfolding calls_ok_def by simp
qed

lemma settle_sent_started [simp]: "started_calls (snd (settle_sent m i p)) = []"
  by (simp add: settle_sent_def split: option.splits)

lemma settle_each_closes:
  assumes "distinct is" and "calls_ok {} (set is) started settled p"
  shows "calls_ok {} {} started (settled @ settled_calls (snd (settle_each m is p))) (fst (settle_each m is p))"
    and "started_calls (snd (settle_each m is p)) = []"
  using assms
proof (induction "is" arbitrary: settled p)
  case (Cons i "is")
  {
    case 1
    then have "calls_ok {} (set is) started (settled @ settled_calls (snd (settle_sent m i p))) (fst (settle_sent m i p))"
      using settle_sent_closes [of i "set is"] by simp
    with 1 Cons.IH(1) show ?case by fastforce
  next
    case 2
    then have "calls_ok {} (set is) started (settled @ settled_calls (snd (settle_sent m i p))) (fst (settle_sent m i p))"
      using settle_sent_closes [of i "set is"] by simp
    with 2 Cons.IH(2) show ?case by fastforce
  }
qed simp_all

lemma map_drained_call_free [simp]: "settled_calls (map (StreamDrained \<circ> g) xs) = []" "started_calls (map (StreamDrained \<circ> g) xs) = []"
  by (induction xs) simp_all

text \<open>The part of closing before the pending requests are settled.\<close>

definition close_state :: "('p, 'h) peer \<Rightarrow> ('p, 'h) peer" where
  "close_state p =
     (let p1 = fold (\<lambda>a. upd_execution (ar_execution (snd a))
            (\<lambda>ex. abort_execution ''sidecar_protocol_peer_closed'' (ex\<lparr>ex_deadline := None\<rparr>)))
            (pe_inbound p) (p\<lparr>pe_closed := True\<rparr>);
          p2 = fold (\<lambda>s. upd_out (snd s) close_stream) (pe_outgoing p)
            (p1\<lparr>pe_inbound := [], pe_incoming := [], pe_retired := [], pe_late := []\<rparr>)
      in p2\<lparr>pe_outgoing := [], pe_terminal_outgoing := []\<rparr>)"

lemma begin_close_eq: "begin_close m p = (if pe_closed p then (p, []) else
   then_do (close_state p, PeerClosing # map (StreamDrained \<circ> snd) (pe_retired p))
     (settle_each m (map fst (pe_outbound (close_state p)))))"
  by (simp add: begin_close_def close_state_def Let_def)

lemma fold_sel:
  "(\<And>x q. sel (f x q) = sel q) \<Longrightarrow> sel (fold f xs q) = sel q"
  by (induction xs arbitrary: q) simp_all

lemma close_state_sel [simp]:
  "pe_outbound (close_state p) = pe_outbound p" "pe_limits (close_state p) = pe_limits p"
  "pe_closed (close_state p) = True" "pe_next (close_state p) = pe_next p" "pe_sends (close_state p) = pe_sends p"
  by (simp_all add: close_state_def Let_def fold_sel)

lemma begin_close_keeps: "keeps_calls p (begin_close m p)"
proof (cases "pe_closed p")
  case True
  then show ?thesis by (simp add: begin_close_eq quiet_keeps)
next
  case False
  let ?is = "map fst (pe_outbound p)"
  let ?s = "settle_each m ?is (close_state p)"
  have "calls_ok {} {} (started @ started_calls (snd ?s)) (settled @ settled_calls (snd ?s)) (fst ?s)"
    if ok: "calls_ok {} {} started settled p" for started settled
  proof -
    have "i \<in> set ?is" if "jmap_get (pe_outbound p) i = Some r" for i r
      using that by (metis map_of_SomeD fst_conv image_eqI set_map)
    then have "calls_ok {} (set ?is) started settled (close_state p)"
      using ok unfolding calls_ok_def pending_ok_def by simp
    moreover have "distinct ?is" using ok by (simp add: calls_ok_def)
    ultimately show ?thesis using settle_each_closes [of ?is started settled "close_state p" m] by simp
  qed
  with False show ?thesis by (simp add: begin_close_eq keeps_calls_def then_do_pair)
qed

lemma fail_session_keeps: "keeps_calls p (fail_session m p)"
  unfolding fail_session_def by (intro keeps_then begin_close_keeps) (auto intro: quiet_keeps)

lemma close_peer_keeps: "keeps_calls p (close_peer m p)"
proof (cases "pe_closed p")
  case True
  then show ?thesis by (simp add: close_peer_def quiet_keeps)
next
  case False
  have "keeps_calls p (then_do (begin_close ''sidecar_protocol_peer_closed'' p) (\<lambda>q. (q, [TransportClose m])))"
    by (rule keeps_then [OF begin_close_keeps]) (simp add: quiet_keeps)
  with False show ?thesis by (simp add: close_peer_def)
qed

subsection \<open>Frames from the other side\<close>

lemma keeps_update:
  assumes "pe_outbound q = pe_outbound p" "pe_limits q = pe_limits p" "pe_closed q = pe_closed p"
    "pe_next q = pe_next p" "pe_sends q = pe_sends p" "call_free outs"
  shows "keeps_calls p (q, outs)"
  using assms(6) calls_same [OF assms(1-5)] by (simp add: keeps_calls_def)

lemma commit_hello_quiet:
  assumes "commit_hello env role payload c ok p = Inr r"
  shows "still p (fst r)" "call_free (snd r)"
  using assms by (auto simp: commit_hello_def Let_def still_def grows_def views split: if_splits option.splits sum.splits)

lemma execution_response_keeps:
  assumes "execution_response env ok ex outcome p = (response, r)"
  shows "keeps_calls p r"
proof -
  have "still p (fst r) \<and> call_free (snd r)"
    using assms commit_hello_quiet [of env Sidecar _ _ ok p]
    by (auto simp: execution_response_def Let_def split: sum.splits option.splits if_splits)
  then show ?thesis by (auto simp: keeps_calls_def intro: calls_still)
qed

lemma finish_keeps: "keeps_calls p (finish_execution env ok x p)"
proof (cases "jmap_get (pe_executions p) x")
  case None
  then show ?thesis by (auto simp: finish_execution_def)
next
  case (Some ex)
  show ?thesis
  proof (cases "ex_outcome ex")
    case None
    with Some show ?thesis by (auto simp: finish_execution_def)
  next
    case outcome: (Some outcome)
    let ?p = "p\<lparr>pe_executions := jmap_delete x (pe_executions p)\<rparr>"
    obtain response r where er: "execution_response env ok ex outcome ?p = (response, r)" by (cases "execution_response env ok ex outcome ?p")
    have "keeps_calls p r" by (rule keeps_same [OF _ _ _ _ _ execution_response_keeps [OF er]]) simp_all
    moreover have "keeps_calls (fst r) (case encode_frame env f of Inl e \<Rightarrow> fail_session e q2
        | Inr v \<Rightarrow> post_frame (ResponseSend b) f lane False False q2)"
      if "still (fst r) q2" "\<not> is_request f" for f q2 b lane
    proof (cases "encode_frame env f")
      case (Inl e)
      have "keeps_calls (fst r) (q2, [])" using that by (auto intro: quiet_keeps)
      then show ?thesis using Inl fail_session_keeps by (auto intro: keeps_from)
    next
      case (Inr v)
      with that show ?thesis by (auto intro: quiet_keeps)
    qed
    ultimately show ?thesis using Some outcome er
      by (auto simp: finish_execution_def Let_def intro!: keeps_then split: option.splits)
  qed
qed

lemma receive_response_keeps: "keeps_calls p (received_step (receive_response env ok e p))"
proof -
  let ?i = "rs_request_id e"
  have still: "keeps_calls p (p, [])" by (simp add: quiet_keeps)
  have late: "keeps_calls p (p\<lparr>pe_cancelled := a, pe_late := b\<rparr>, outs)" if "call_free outs" for a b outs
    using that by (intro keeps_update) simp_all
  have hello: "keeps_calls p (then_do r (\<lambda>q. (q, [PeerReady])))"
    "keeps_calls p (then_do (then_do r (\<lambda>q. (q, [PeerReady]))) (settle_outbound ?i res))"
    if "commit_hello env Sedes payload c ok p = Inr r" for payload c r res
  proof -
    have "keeps_calls p r" using commit_hello_quiet [OF that] by (auto simp: keeps_calls_def intro: calls_still)
    then show ready: "keeps_calls p (then_do r (\<lambda>q. (q, [PeerReady])))"
      by (rule keeps_then) (simp add: quiet_keeps)
    show "keeps_calls p (then_do (then_do r (\<lambda>q. (q, [PeerReady]))) (settle_outbound ?i res))"
      using ready by (rule keeps_then) (rule settle_keeps)
  qed
  show ?thesis
    unfolding receive_response_def Let_def
    by (auto simp: still intro!: settle_keeps hello late
        split: option.splits response_outcome.splits sum.splits prod.splits)
qed

lemma receive_envelope_keeps: "keeps_calls p (received_step (receive_envelope env ok e p))"
proof -
  have "keeps_calls p (p, [])" by (simp add: quiet_keeps)
  then show ?thesis unfolding receive_envelope_def
    by (auto intro!: receive_response_keeps quiet_keeps split: sidecar_envelope.splits)
qed

lemma receive_frame_keeps: "keeps_calls p (receive_frame env ok decoded p)"
proof -
  define rec where "rec = (case decoded of
            Inl e \<Rightarrow> thrown e (p, [])
          | Inr (StreamDataFrame f) \<Rightarrow> receive_stream_data env f p
          | Inr (ControlFrame e) \<Rightarrow> receive_envelope env ok e p)"
  obtain q outs err where r: "rec = (q, outs, err)" by (cases rec)
  have "keeps_calls p (received_step rec)"
    unfolding rec_def by (auto intro!: receive_envelope_keeps quiet_keeps split: sum.splits decoded_sidecar_frame.splits)
  then have k: "keeps_calls p (q, outs)" by (simp add: r received_step_def)
  have mark: "keeps_calls p (q', outs)" if "pe_outbound q' = pe_outbound q" "pe_limits q' = pe_limits q"
     "pe_closed q' = pe_closed q" "pe_next q' = pe_next q" "pe_sends q' = pe_sends q" for q'
    using k calls_same [OF that] by (simp add: keeps_calls_def)
  have "receive_frame env ok decoded p = (case err of None \<Rightarrow> (mark_inbound_activity q, outs)
      | Some e \<Rightarrow> then_do (q\<lparr>pe_reading := False\<rparr>, outs) (fail_session e))"
    using r by (simp add: receive_frame_def rec_def)
  moreover have "keeps_calls p (then_do (q\<lparr>pe_reading := False\<rparr>, outs) (fail_session e))" for e
    by (rule keeps_then) (simp_all add: mark fail_session_keeps)
  ultimately show ?thesis by (simp add: mark split: option.splits)
qed

subsection \<open>Every operation\<close>

lemma send_settled_keeps: "keeps_calls p (send_settled env tok res p)"
proof (cases "jmap_get (pe_sends p) tok")
  case None
  then show ?thesis by (simp add: send_settled_def quiet_keeps)
next
  case (Some cont)
  let ?q = "p\<lparr>pe_sends := jmap_delete tok (pe_sends p)\<rparr>"
  show ?thesis
  proof (cases "\<exists>i h. cont = RequestSend i h")
    case True
    with Some settled_request show ?thesis by (auto simp: send_settled_def)
  next
    case False
    have ready: "keeps_calls ?q (then_do (?q, [PeerReady]) (fail_session e))" for e
      by (rule keeps_then) (simp_all add: quiet_keeps fail_session_keeps)
    have "keeps_calls ?q (send_settled env tok res p)"
      using Some False unfolding send_settled_def
      by (auto simp: Let_def intro!: ready fail_session_keeps intro: quiet_keeps split: send_continuation.splits sum.splits option.splits)
    with Some False show ?thesis by (auto intro: settled_other)
  qed
qed

lemma stream_setup_keeps:
  "register_incoming_stream env sid c v credit schema p = Inr r \<Longrightarrow> keeps_calls p (snd r, [])"
  "open_outgoing_stream env sid c v credit p = Inr r \<Longrightarrow> keeps_calls p (snd r, [])"
  by (auto intro!: quiet_keeps)

lemma step_keeps: "keeps_calls p (peer_step env op p)"
proof (cases op)
  case PeerStart
  then show ?thesis by (auto simp: start_peer_def)
next
  case (PeerPauseEnded n)
  then show ?thesis by (auto intro!: quiet_keeps split: option.splits)
next
  case (PeerReadEnded failure)
  have "keeps_calls p (fail_session e (p\<lparr>pe_reading := False\<rparr>))" for e
    by (rule keeps_same [OF _ _ _ _ _ fail_session_keeps]) simp_all
  with PeerReadEnded show ?thesis by (auto intro: quiet_keeps split: option.splits)
qed (auto intro!: call_keeps timeout_keeps send_settled_keeps receive_frame_keeps begin_close_keeps finish_keeps close_peer_keeps
      intro: quiet_keeps dest: stream_setup_keeps split: option.splits sum.splits)

lemma run_keeps: "keeps_calls p (peer_run env ops p)"
proof (induction ops arbitrary: p)
  case Nil
  then show ?case by (simp add: quiet_keeps)
next
  case (Cons op ops)
  then show ?case by (simp add: keeps_then [OF step_keeps])
qed

lemma new_peer_fields:
  assumes "new_peer role nonce registry overrides now = Inr p"
  shows "pe_outbound p = []" "pe_sends p = []" "0 < maximum_outbound_requests (pe_limits p)"
    "0 < maximum_inbound_requests (pe_limits p)"
  using assms by (auto simp: new_peer_def resolve_sidecar_protocol_limits_def Let_def limit_values_def
      split: if_splits sum.splits)

lemma new_calls_ok: "new_peer role nonce registry overrides now = Inr p \<Longrightarrow> calls_ok {} {} [] [] p"
  using new_peer_fields [of role nonce registry overrides now p] by (simp add: calls_ok_def)

section \<open>Properties\<close>

text \<open>C1. No call is lost and none settles twice. Whatever the order of calls, cancellations, timeouts,
  settled sends, received frames and closing: every call that was started either is pending or was
  resolved or rejected, exactly once; the pending calls never exceed the limit; and when a closed peer
  has no unsettled send left, no caller waits any more.\<close>

theorem calls_settle_once:
  assumes "new_peer role nonce registry overrides now = Inr p0" and "peer_run env ops p0 = (p, outs)"
  shows "distinct (started_calls outs) \<and>
    mset (started_calls outs) = mset (settled_calls outs) + mset (map (pr_handle \<circ> snd) (pe_outbound p)) \<and>
    int (length (pe_outbound p)) \<le> maximum_outbound_requests (pe_limits p) \<and>
    (pe_closed p \<and> pe_sends p = [] \<longrightarrow> pe_outbound p = [])"
proof -
  have ok: "calls_ok {} {} (started_calls outs) (settled_calls outs) p"
    using run_keeps [of p0 env ops] new_calls_ok [OF assms(1)] assms(2) by (fastforce simp: keeps_calls_def)
  have "pe_outbound p = []" if "pe_closed p" "pe_sends p = []"
  proof (rule ccontr)
    assume "pe_outbound p \<noteq> []"
    then obtain i r where "jmap_get (pe_outbound p) i = Some r"
      by (metis list.set_intros(1) map_of_eq_None_iff image_eqI list.exhaust not_Some_eq)
    with ok that have "pending_ok {} {} p i r" by (simp add: calls_ok_def)
    with that show False by (simp add: pending_ok_def)
  qed
  with ok show ?thesis by (auto simp: calls_ok_def)
qed

section \<open>Witnesses\<close>

text \<open>A peer whose hello request is pending when it is closed, and whose transport then refuses the
  frame.\<close>

definition example_env :: "unit peer_env" where
  "example_env = \<lparr>env_is_uuid = (\<lambda>_. True), env_stringify = (\<lambda>_. []), env_sha256 = (\<lambda>_. []),
     env_hello_request = (\<lambda>_. Some NoCompression), env_hello_response = (\<lambda>_. None),
     env_callback_fails = (\<lambda>_. None)\<rparr>"

definition example_hello :: "unit operation_definition" where
  "example_hello = \<lparr>op_capability_id = ''control'', op_major_version = 2, op_operation = ''hello'',
     od_request_schema = Some, od_response_schema = Some, od_maximum_deadline = FiniteBound 1000,
     od_lane = ControlLane\<rparr>"

definition example_peer :: "(unit, unit) peer" where
  "example_peer = (case new_peer Sedes (replicate 32 CHR ''n'') (new_registry None) no_overrides 0 of Inr p \<Rightarrow> p)"

definition example_run :: "(unit, unit) peer_step" where
  "example_run = peer_run example_env [PeerStart, PeerCall example_hello () False False None None ''r'',
     PeerClose ''done'', PeerSendSettled 1 (Inl (''closed'', NotSent))] example_peer"

theorem calls_settle_once_witness:
  "settled_calls (snd example_run) = [0] \<and> started_calls (snd example_run) = [0] \<and> pe_outbound (fst example_run) = []"
proof -
  have new: "new_peer Sedes (replicate 32 CHR ''n'') (new_registry None) no_overrides 0 = Inr example_peer"
    by code_simp
  have run: "peer_run example_env [PeerStart, PeerCall example_hello () False False None None ''r'',
     PeerClose ''done'', PeerSendSettled 1 (Inl (''closed'', NotSent))] example_peer = (fst example_run, snd example_run)"
    by (simp only: example_run_def prod.collapse)
  have "started_calls (snd example_run) = [0]" "pe_closed (fst example_run)" "pe_sends (fst example_run) = []"
    by code_simp+
  with calls_settle_once [OF new run] show ?thesis
    by (auto simp: eq_commute [of "{#0#}"])
qed

end
