(* ===== verification/PeerSession.thy ===== *)
theory PeerSession
  imports PeerCalls
begin

text \<open>
  The handshake and the handlers. A peer commits the hello at most once, and only to operations its own
  registry has; a handler runs only for the hello itself on the sidecar, or for an operation the
  completed handshake negotiated; the requests in progress are bounded.
\<close>

section \<open>Definitions\<close>

definition authorized :: "('p, 'h) peer \<Rightarrow> bool \<times> 'p operation_definition \<Rightarrow> bool" where
  "authorized p e \<longleftrightarrow> (if fst e then is_hello (snd e) \<and> pe_role p = Sidecar
     else pe_hello_complete p \<and> operation_key (snd e) \<in> set (pe_local_operations p))"

definition session_ok :: "('p, 'h) operation_registry \<Rightarrow> frame_compression list \<Rightarrow> ('p, 'h) peer \<Rightarrow> bool" where
  "session_ok reg committed p \<longleftrightarrow> length committed = (if pe_hello_complete p then 1 else 0) \<and>
     int (length (pe_inbound p)) \<le> maximum_inbound_requests (pe_limits p) \<and>
     0 < maximum_inbound_requests (pe_limits p) \<and> pe_registry p = reg \<and> registry_ok reg \<and>
     (pe_hello_complete p \<longrightarrow> list_all (key_resolves (pe_registry p)) (pe_local_operations p)) \<and>
     (\<forall>x e. exec_view (pe_executions p) x = Some e \<longrightarrow> authorized p e)"

definition keeps_session :: "('p, 'h) peer \<Rightarrow> ('p, 'h) peer_step \<Rightarrow> bool" where
  "keeps_session p r \<longleftrightarrow> (\<forall>reg committed. session_ok reg committed p \<longrightarrow>
     session_ok reg (committed @ commits (snd r)) (fst r))"

section \<open>Lemmas\<close>

lemma session_same:
  assumes "session_view q = session_view p"
  shows "session_ok reg committed q = session_ok reg committed p"
  using assms unfolding session_ok_def session_view_def authorized_def by simp

lemma same_keeps: "session_view (fst r) = session_view p \<Longrightarrow> commits (snd r) = [] \<Longrightarrow> keeps_session p r"
  using session_same [of "fst r" p] by (simp add: keeps_session_def)

lemma quiet_session: "quiet p r \<Longrightarrow> session_view (fst r) = session_view p \<Longrightarrow> keeps_session p r"
  by (rule same_keeps) (auto simp: quiet_def)

lemma session_then: "keeps_session p r \<Longrightarrow> keeps_session (fst r) (f (fst r)) \<Longrightarrow> keeps_session p (then_do r f)"
  unfolding keeps_session_def fst_then_do snd_then_do commits_append append_assoc [symmetric] by blast

lemma session_from: "session_view q = session_view p \<Longrightarrow> keeps_session q r \<Longrightarrow> keeps_session p r"
  using session_same [of q p] by (simp add: keeps_session_def)

subsection \<open>Calls\<close>

lemma settle_session [simp]:
  "session_view (fst (settle_outbound i res p)) = session_view p" "commits (snd (settle_outbound i res p)) = []"
  by (auto simp: settle_outbound_def views split: option.splits sum.splits)

lemma send_cancel_session [simp]:
  "session_view (fst (send_cancel i p)) = session_view p" "commits (snd (send_cancel i p)) = []"
  by (simp_all add: send_cancel_def)

lemma cancel_session [simp]:
  "session_view (fst (cancel_outbound i code p)) = session_view p" "commits (snd (cancel_outbound i code p)) = []"
  by (simp_all add: cancel_outbound_def Let_def split: option.splits)

lemma start_call_session [simp]:
  "session_view (fst (start_call d c sig ab late dl i frame p)) = session_view p"
  "commits (snd (start_call d c sig ab late dl i frame p)) = []"
  by (simp_all add: start_call_def Let_def)

lemma call_session [simp]:
  "session_view (fst (peer_call env d request sig ab dl late i p)) = session_view p"
  "commits (snd (peer_call env d request sig ab dl late i p)) = []"
  by (simp_all add: peer_call_def Let_def split: option.splits sum.splits)

lemma request_sent_session [simp]:
  "session_view (fst (request_sent i h res p)) = session_view p" "commits (snd (request_sent i h res p)) = []"
  by (simp_all add: request_sent_def Let_def split: option.splits sum.splits prod.splits)

lemma timeout_session [simp]:
  "session_view (fst (request_timeout i p)) = session_view p" "commits (snd (request_timeout i p)) = []"
  "session_view (fst (request_aborted i p)) = session_view p" "commits (snd (request_aborted i p)) = []"
  by (simp_all add: request_timeout_def request_aborted_def split: option.splits)

subsection \<open>Closing\<close>

lemma fold_executions [simp]:
  "exec_view (pe_executions (fold (\<lambda>a. upd_execution (ar_execution (snd a))
      (\<lambda>ex. abort_execution m (ex\<lparr>ex_deadline := None\<rparr>))) xs p)) = exec_view (pe_executions p)"
  by (induction xs arbitrary: p) simp_all

lemma close_state_session [simp]:
  "pe_role (close_state p) = pe_role p" "pe_registry (close_state p) = pe_registry p" "pe_inbound (close_state p) = []"
  "pe_hello_complete (close_state p) = pe_hello_complete p" "pe_local_operations (close_state p) = pe_local_operations p"
  "exec_view (pe_executions (close_state p)) = exec_view (pe_executions p)"
  by (simp_all add: close_state_def Let_def fold_sel)

lemma settle_each_session [simp]:
  "session_view (fst (settle_each m is p)) = session_view p" "commits (snd (settle_each m is p)) = []"
  by (induction "is" arbitrary: p) (simp_all add: settle_sent_def split: option.splits)

lemma drained_commits [simp]: "commits (map (StreamDrained \<circ> f) xs) = []"
  by (induction xs) simp_all

lemma begin_close_session: "keeps_session p (begin_close m p)"
proof (cases "pe_closed p")
  case True
  then show ?thesis by (simp add: begin_close_eq same_keeps)
next
  case False
  have "session_ok reg committed (close_state p)" if "session_ok reg committed p" for reg committed
  proof -
    have "authorized (close_state p) = authorized p" by (simp add: authorized_def fun_eq_iff)
    with that show ?thesis by (auto simp: session_ok_def)
  qed
  with False show ?thesis
    by (simp add: begin_close_eq keeps_session_def session_same [OF settle_each_session(1)])
qed

lemma fail_session_session: "keeps_session p (fail_session m p)"
  unfolding fail_session_def by (rule session_then [OF begin_close_session]) (simp add: same_keeps)

lemma close_peer_session: "keeps_session p (close_peer m p)"
proof -
  have "keeps_session p (then_do (begin_close c p) (\<lambda>q. (q, [TransportClose m])))" for c
    by (rule session_then [OF begin_close_session]) (simp add: same_keeps)
  then show ?thesis by (simp add: close_peer_def same_keeps)
qed

subsection \<open>The handshake\<close>

lemma commit_hello_Inr:
  assumes "commit_hello env role payload c ok p = Inr r"
  shows "\<not> pe_hello_complete p" "pe_hello_complete (fst r)" "length (commits (snd r)) = 1" "pe_role p = role"
    "list_all (key_resolves (pe_registry p)) (pe_local_operations (fst r))" "pe_registry (fst r) = pe_registry p"
    "pe_limits (fst r) = pe_limits p" "pe_inbound (fst r) = pe_inbound p" "pe_executions (fst r) = pe_executions p"
    "pe_role (fst r) = pe_role p"
  using assms by (auto simp: commit_hello_def Let_def split: if_splits option.splits sum.splits)

lemma commit_session:
  assumes "commit_hello env role payload c ok p = Inr r"
  shows "keeps_session p r"
proof -
  note c = commit_hello_Inr [OF assms]
  have "authorized (fst r) e" if "authorized p e" for e
    using that c(1,10) by (auto simp: authorized_def split: if_splits)
  then show ?thesis using c unfolding keeps_session_def session_ok_def by auto
qed

subsection \<open>Requests\<close>

lemma resolved_key: "registry_ok r \<Longrightarrow> resolve k r = Some ro \<Longrightarrow> operation_key (ro_definition ro) = operation_key k"
  by (auto simp: registry_ok_def resolve_def dest: map_of_SomeD)

lemma send_error_session [simp]: "commits (snd (send_error ns i code retry lane p)) = []"
  by (simp add: send_error_def)

lemma start_execution_session:
  assumes "session_ok reg committed p" and "int (length (pe_inbound p)) < maximum_inbound_requests (pe_limits p)"
    and "authorized p (hello, d)"
  shows "session_ok reg committed (fst (start_execution e d request hello deadline p))"
proof -
  let ?q = "fst (start_execution e d request hello deadline p)"
  have "authorized ?q = authorized p" by (simp add: authorized_def start_execution_def Let_def fun_eq_iff)
  moreover have "exec_view (pe_executions ?q) x = (if x = pe_next p then Some (hello, d) else exec_view (pe_executions p) x)" for x
    by (simp add: start_execution_def Let_def exec_view_def)
  moreover have "int (length (pe_inbound ?q)) \<le> maximum_inbound_requests (pe_limits p)"
    using assms(2) by (simp add: start_execution_def Let_def length_jmap_set)
  ultimately show ?thesis using assms(1,3) unfolding session_ok_def
    by (auto simp: start_execution_def Let_def split: if_splits)
qed

lemma start_execution_commits [simp]: "commits (snd (start_execution e d request hello deadline p)) = []"
  by (simp add: start_execution_def Let_def)

lemma receive_request_session: "keeps_session p (received_step (receive_request e p))"
proof -
  let ?p1 = "remember_received (rq_request_id e) p"
  have same: "keeps_session p (p, [])" "keeps_session p (p\<lparr>pe_hello_in_progress := True\<rparr>, [])"
    "keeps_session p (?p1\<lparr>pe_hello_in_progress := True\<rparr>, [])" "keeps_session p (?p1, [])"
    "keeps_session p (send_error ns i code retry lane p)" "keeps_session p (send_error ns i code retry lane ?p1)"
    for ns i code retry lane
    by (simp_all add: same_keeps)
  have start: "keeps_session p (start_execution e d request hello deadline q)"
    if "session_view q = session_view p" "\<not> maximum_inbound_requests (pe_limits p) \<le> int (length (pe_inbound p))"
      "registry_ok (pe_registry p) \<Longrightarrow> authorized p (hello, d)" for d request hello deadline q
  proof -
    have "int (length (pe_inbound q)) < maximum_inbound_requests (pe_limits q)" "authorized q = authorized p"
      using that(1,2) by (simp_all add: session_view_def authorized_def fun_eq_iff)
    note q = this
    have "session_ok reg committed (fst (start_execution e d request hello deadline q))" if ok: "session_ok reg committed p" for reg committed
    proof (rule start_execution_session [OF _ q(1)])
      show "session_ok reg committed q" using ok session_same [OF \<open>session_view q = session_view p\<close>] by simp
      have "registry_ok (pe_registry p)" using ok by (simp add: session_ok_def)
      then show "authorized q (hello, d)" using \<open>registry_ok (pe_registry p) \<Longrightarrow> authorized p (hello, d)\<close> q(2) by simp
    qed
    then show ?thesis by (simp add: keeps_session_def)
  qed
  show ?thesis
    unfolding receive_request_def Let_def
    using resolved_key [of "pe_registry p" "request_ref e"]
    by (auto simp: authorized_def is_hello_def intro!: same start split: option.splits sum.splits)
qed

lemma receive_response_session: "keeps_session p (received_step (receive_response env ok e p))"
proof -
  let ?i = "rs_request_id e"
  have hello: "keeps_session p (then_do r (\<lambda>q. (q, [PeerReady])))"
    "keeps_session p (then_do (then_do r (\<lambda>q. (q, [PeerReady]))) (settle_outbound ?i res))"
    if "commit_hello env Sedes payload c ok p = Inr r" for payload c r res
  proof -
    show ready: "keeps_session p (then_do r (\<lambda>q. (q, [PeerReady])))"
      using commit_session [OF that] by (rule session_then) (simp add: same_keeps)
    show "keeps_session p (then_do (then_do r (\<lambda>q. (q, [PeerReady]))) (settle_outbound ?i res))"
      using ready by (rule session_then) (simp add: same_keeps)
  qed
  show ?thesis
    unfolding receive_response_def Let_def
    by (auto intro!: hello same_keeps split: option.splits response_outcome.splits sum.splits prod.splits)
qed

lemma finish_session: "keeps_session p (finish_execution env ok x p)"
proof (cases "jmap_get (pe_executions p) x")
  case None
  then show ?thesis by (simp add: finish_execution_def same_keeps)
next
  case (Some ex)
  show ?thesis
  proof (cases "ex_outcome ex")
    case None
    with Some show ?thesis by (simp add: finish_execution_def same_keeps)
  next
    case outcome: (Some outcome)
    let ?p = "p\<lparr>pe_executions := jmap_delete x (pe_executions p)\<rparr>"
    obtain response r where er: "execution_response env ok ex outcome ?p = (response, r)" by (cases "execution_response env ok ex outcome ?p")
    have "keeps_session p (?p, [])"
      by (auto simp: keeps_session_def session_ok_def authorized_def exec_view_def)
    moreover have "keeps_session ?p r"
      using er by (auto simp: execution_response_def Let_def intro: commit_session same_keeps
          split: sum.splits option.splits if_splits)
    ultimately have "keeps_session p r" by (simp add: keeps_session_def)
    moreover have "keeps_session (fst r) (case encode_frame env f of Inl e \<Rightarrow> fail_session e q2
        | Inr v \<Rightarrow> post_frame (ResponseSend b) f lane False False q2)"
      if q2: "q2 = q1\<lparr>pe_inbound := jmap_delete i (pe_inbound q1), pe_hello_in_progress := g\<rparr>"
        "session_view q1 = session_view (fst r)" for f q2 b lane q1 i g
    proof -
      have "keeps_session q1 (q2, [])"
        using length_delete_le [of i "pe_inbound q1"] q2 by (auto simp: keeps_session_def session_ok_def authorized_def)
      then have "keeps_session (fst r) (q2, [])" using q2(2) by (rule session_from [rotated])
      moreover have "keeps_session q2 (case encode_frame env f of Inl e \<Rightarrow> fail_session e q2
        | Inr v \<Rightarrow> post_frame (ResponseSend b) f lane False False q2)"
        by (auto intro: fail_session_session same_keeps split: sum.splits)
      ultimately show ?thesis by (simp add: keeps_session_def)
    qed
    ultimately show ?thesis using Some outcome er
      by (auto simp: finish_execution_def Let_def intro!: session_then split: option.splits)
  qed
qed

subsection \<open>Every operation\<close>

lemma received_session:
  "quiet p (received_step r) \<Longrightarrow> session_view (fst r) = session_view p \<Longrightarrow> keeps_session p (received_step r)"
  by (rule quiet_session) (simp_all add: received_step_def)

lemma stream_setup_session:
  "register_incoming_stream env sid c v credit schema p = Inr r \<Longrightarrow> keeps_session p (snd r, [])"
  "open_outgoing_stream env sid c v credit p = Inr r \<Longrightarrow> keeps_session p (snd r, [])"
  by (auto intro!: same_keeps)

lemma receive_envelope_session: "keeps_session p (received_step (receive_envelope env ok e p))"
proof -
  have "keeps_session p (p, [])" by (simp add: same_keeps)
  then show ?thesis unfolding receive_envelope_def
    by (auto intro!: receive_response_session receive_request_session received_session split: sidecar_envelope.splits)
qed

lemma receive_frame_session: "keeps_session p (receive_frame env ok decoded p)"
proof -
  define rec where "rec = (case decoded of
            Inl e \<Rightarrow> thrown e (p, [])
          | Inr (StreamDataFrame f) \<Rightarrow> receive_stream_data env f p
          | Inr (ControlFrame e) \<Rightarrow> receive_envelope env ok e p)"
  obtain q outs err where r: "rec = (q, outs, err)" by (cases rec)
  have data: "keeps_session p (received_step (receive_stream_data env f p))" for f
    by (rule received_session) simp_all
  have "keeps_session p (received_step rec)"
    unfolding rec_def by (auto intro!: receive_envelope_session data same_keeps split: sum.splits decoded_sidecar_frame.splits)
  then have k: "keeps_session p (q, outs)" by (simp add: r received_step_def)
  have mark: "keeps_session p (q', outs)" if "session_view q' = session_view q" for q'
    using k session_same [OF that] by (simp add: keeps_session_def)
  have "receive_frame env ok decoded p = (case err of None \<Rightarrow> (mark_inbound_activity q, outs)
      | Some e \<Rightarrow> then_do (q\<lparr>pe_reading := False\<rparr>, outs) (fail_session e))"
    using r by (simp add: receive_frame_def rec_def)
  moreover have "keeps_session p (then_do (q\<lparr>pe_reading := False\<rparr>, outs) (fail_session e))" for e
    by (rule session_then) (simp_all add: mark fail_session_session)
  ultimately show ?thesis by (simp add: mark split: option.splits)
qed

lemma send_settled_session: "keeps_session p (send_settled env tok res p)"
proof (cases "jmap_get (pe_sends p) tok")
  case None
  then show ?thesis by (simp add: send_settled_def same_keeps)
next
  case (Some cont)
  let ?q = "p\<lparr>pe_sends := jmap_delete tok (pe_sends p)\<rparr>"
  have ready: "keeps_session ?q (then_do (?q, [PeerReady]) (fail_session e))" for e
    by (rule session_then) (simp_all add: same_keeps fail_session_session)
  have "keeps_session ?q (send_settled env tok res p)"
    using Some unfolding send_settled_def
    by (auto simp: Let_def intro!: ready fail_session_session intro: same_keeps quiet_session
        split: send_continuation.splits sum.splits option.splits)
  then show ?thesis by (rule session_from [rotated]) simp
qed

lemma step_session: "keeps_session p (peer_step env op p)"
proof (cases op)
  case PeerStart
  then show ?thesis by (auto simp: start_peer_def intro: same_keeps)
next
  case (PeerReadEnded failure)
  have "keeps_session p (fail_session e (p\<lparr>pe_reading := False\<rparr>))" for e
    by (rule session_from [OF _ fail_session_session]) simp
  with PeerReadEnded show ?thesis by (auto intro: same_keeps split: option.splits)
qed (auto intro!: send_settled_session receive_frame_session begin_close_session finish_session close_peer_session
      intro: same_keeps quiet_session dest: stream_setup_session split: option.splits sum.splits)

lemma run_session: "keeps_session p (peer_run env ops p)"
proof (induction ops arbitrary: p)
  case Nil
  then show ?case by (simp add: same_keeps)
next
  case (Cons op ops)
  then show ?case by (simp add: session_then [OF step_session])
qed

section \<open>Properties\<close>

text \<open>C2. Handlers run only for negotiated operations. After any interleaving of operations, the hello was
  committed at most once and exactly when the handshake is complete; the operations then accepted from
  the other side all resolve in this peer's own registry; every handler still running was started for
  the hello, on the sidecar, or for one of those operations after the handshake; and the requests in
  progress never exceed the limit.\<close>

theorem handlers_authorized:
  assumes "new_peer role nonce registry overrides now = Inr p0" and "registry_ok registry"
    and "peer_run env ops p0 = (p, outs)"
  shows "length (commits outs) = (if pe_hello_complete p then 1 else 0) \<and>
    (pe_hello_complete p \<longrightarrow> list_all (key_resolves registry) (pe_local_operations p)) \<and>
    (\<forall>x ex. jmap_get (pe_executions p) x = Some ex \<longrightarrow>
      (if ex_hello ex then is_hello (ex_definition ex) \<and> pe_role p = Sidecar
       else pe_hello_complete p \<and> operation_key (ex_definition ex) \<in> set (pe_local_operations p))) \<and>
    int (length (pe_inbound p)) \<le> maximum_inbound_requests (pe_limits p)"
proof -
  have "session_ok registry [] p0"
    using assms(1,2) new_peer_fields [OF assms(1)]
    by (auto simp: session_ok_def exec_view_def new_peer_def split: if_splits sum.splits)
  then have ok: "session_ok registry (commits outs) p"
    using run_session [of p0 env ops] assms(3) by (fastforce simp: keeps_session_def)
  have run: "\<forall>x ex. jmap_get (pe_executions p) x = Some ex \<longrightarrow>
      (if ex_hello ex then is_hello (ex_definition ex) \<and> pe_role p = Sidecar
       else pe_hello_complete p \<and> operation_key (ex_definition ex) \<in> set (pe_local_operations p))"
  proof (intro allI impI)
    fix x ex
    assume "jmap_get (pe_executions p) x = Some ex"
    with ok have "authorized p (ex_hello ex, ex_definition ex)" by (auto simp: session_ok_def exec_view_def)
    then show "if ex_hello ex then is_hello (ex_definition ex) \<and> pe_role p = Sidecar
       else pe_hello_complete p \<and> operation_key (ex_definition ex) \<in> set (pe_local_operations p)"
      by (auto simp: authorized_def split: if_splits)
  qed
  from ok have "length (commits outs) = (if pe_hello_complete p then 1 else 0)"
    "pe_hello_complete p \<longrightarrow> list_all (key_resolves registry) (pe_local_operations p)"
    "int (length (pe_inbound p)) \<le> maximum_inbound_requests (pe_limits p)"
    by (auto simp: session_ok_def)
  with run show ?thesis by blast
qed

section \<open>Witnesses\<close>

text \<open>The sidecar receives the hello, its handler answers, and the handshake completes.\<close>

definition hello_env :: "unit peer_env" where
  "hello_env = example_env\<lparr>env_hello_response := (\<lambda>_. Some \<lparr>hr_compression = NoCompression,
     hr_sidecar_capabilities = [], hr_sedes_capabilities = [], hr_agent_tool_cli = False\<rparr>)\<rparr>"

definition hello_registry :: "(unit, unit) operation_registry" where
  "hello_registry = (case register example_hello (Handler ()) (new_registry None) of Inr r \<Rightarrow> r)"

definition hello_frame :: "unit decoded_sidecar_frame" where
  "hello_frame = ControlFrame (RequestEnvelope \<lparr>rq_session_nonce = replicate 32 CHR ''n'', rq_namespace = Sedes,
     rq_request_id = ''r'', rq_capability_id = ''control'', rq_major_version = 2, rq_operation = ''hello'',
     rq_deadline = FiniteDeadline 1000, rq_payload = ()\<rparr>)"

definition sidecar_peer :: "(unit, unit) peer" where
  "sidecar_peer = (case new_peer Sidecar (replicate 32 CHR ''n'') hello_registry no_overrides 0 of Inr p \<Rightarrow> p)"

definition hello_ops :: "(unit, unit) peer_op list" where
  "hello_ops = [PeerStart, PeerFrame True (Inr hello_frame), PeerHandlerSettled 0 (Inr ()), PeerFinish True 0]"

theorem handlers_authorized_witness:
  "length (commits (snd (peer_run hello_env hello_ops sidecar_peer))) = 1 \<and>
   pe_hello_complete (fst (peer_run hello_env hello_ops sidecar_peer))"
proof -
  have new: "new_peer Sidecar (replicate 32 CHR ''n'') hello_registry no_overrides 0 = Inr sidecar_peer"
    by code_simp
  have "register example_hello (Handler ()) (new_registry None) = Inr hello_registry" by code_simp
  then have reg: "registry_ok hello_registry" by (rule registry_ok_register [OF registry_ok_new])
  have "pe_hello_complete (fst (peer_run hello_env hello_ops sidecar_peer))" by code_simp
  with handlers_authorized [OF new reg prod.collapse [symmetric], of hello_env hello_ops] show ?thesis by simp
qed

end
