(* ===== verification/PeerStreams.thy ===== *)
theory PeerStreams
  imports PeerSession
begin

text \<open>
  Streams in both directions. A consumer sees the bytes of its stream in order and without gaps, never
  more than the credit granted to the producer; a producer never sends more than its credit.
\<close>

section \<open>Definitions\<close>

fun delivered :: "nat \<Rightarrow> 'p peer_output list \<Rightarrow> stream_data_frame list" where
  "delivered h [] = []"
| "delivered h (StreamDelivered h' f # outs) = (if h' = h then [f] else []) @ delivered h outs"
| "delivered h (_ # outs) = delivered h outs"

abbreviation frame_length :: "stream_data_frame \<Rightarrow> int" where
  "frame_length f \<equiv> int (length (sd_bytes f))"

text \<open>Each frame starts where the one before it ended.\<close>

fun contiguous :: "int \<Rightarrow> stream_data_frame list \<Rightarrow> bool" where
  "contiguous n [] = True"
| "contiguous n (f # fs) \<longleftrightarrow> sd_sequence f = n \<and> contiguous (n + frame_length f) fs"

text \<open>Credit a pending send will add to a stream's account when it lands.\<close>

fun credit_ok :: "send_continuation \<Rightarrow> bool" where
  "credit_ok (CreditSend _ _ n) = (0 \<le> n)"
| "credit_ok (RepaySend _ _ n _) = (0 \<le> n)"
| "credit_ok _ = True"

definition sends_ok :: "('p, 'h) peer \<Rightarrow> bool" where
  "sends_ok p \<longleftrightarrow> (\<forall>tok cont. jmap_get (pe_sends p) tok = Some cont \<longrightarrow> credit_ok cont)"

definition stream_ok :: "'p peer_output list \<Rightarrow> ('p, 'h) peer \<Rightarrow> nat \<Rightarrow> 'p incoming_stream \<Rightarrow> bool" where
  "stream_ok log p h st \<longleftrightarrow> h < pe_next p \<and> 0 \<le> ist_remaining_credit st \<and> contiguous 0 (delivered h log) \<and>
     (\<Sum>f\<leftarrow>delivered h log. frame_length f) \<le> ist_expected_sequence st \<and>
     (jmap_get (pe_incoming p) (ist_stream_id st) = Some h \<longrightarrow>
        (\<Sum>f\<leftarrow>delivered h log. frame_length f) = ist_expected_sequence st)"

definition incoming_ok :: "'p peer_output list \<Rightarrow> ('p, 'h) peer \<Rightarrow> bool" where
  "incoming_ok log p \<longleftrightarrow> sends_ok p \<and>
     (\<forall>h st. jmap_get (pe_in_streams p) h = Some st \<longrightarrow> stream_ok log p h st) \<and>
     (\<forall>h. jmap_get (pe_in_streams p) h = None \<longrightarrow> delivered h log = []) \<and>
     (\<forall>sid h. jmap_get (pe_incoming p) sid = Some h \<longrightarrow>
        jmap_get (pe_retired p) sid = None \<and> (\<exists>st. jmap_get (pe_in_streams p) h = Some st \<and> ist_stream_id st = sid)) \<and>
     (\<forall>sid h. jmap_get (pe_retired p) sid = Some h \<longrightarrow>
        jmap_get (pe_incoming p) sid = None \<and> (\<exists>st. jmap_get (pe_in_streams p) h = Some st \<and> ist_stream_id st = sid))"

definition keeps_incoming :: "('p, 'h) peer \<Rightarrow> ('p, 'h) peer_step \<Rightarrow> bool" where
  "keeps_incoming p r \<longleftrightarrow> (\<forall>log. incoming_ok log p \<longrightarrow> incoming_ok (log @ snd r) (fst r))"

section \<open>Lemmas\<close>

lemma delivered_append [simp]: "delivered h (a @ b) = delivered h a @ delivered h b"
  by (induction h a rule: delivered.induct) auto

lemma contiguous_append [simp]:
  "contiguous n (a @ b) \<longleftrightarrow> contiguous n a \<and> contiguous (n + (\<Sum>f\<leftarrow>a. frame_length f)) b"
  by (induction a arbitrary: n) (auto simp: add.assoc)

subsection \<open>Steps that touch no incoming stream\<close>

definition rests :: "('p, 'h) peer \<Rightarrow> ('p, 'h) peer \<Rightarrow> bool" where
  "rests p q \<longleftrightarrow> in_view q = in_view p \<and> pe_next p \<le> pe_next q \<and> (sends_ok p \<longrightarrow> sends_ok q)"

fun undelivered :: "'p peer_output list \<Rightarrow> bool" where
  "undelivered [] = True"
| "undelivered (StreamDelivered _ _ # outs) = False"
| "undelivered (_ # outs) = undelivered outs"

definition calm :: "('p, 'h) peer \<Rightarrow> ('p, 'h) peer_step \<Rightarrow> bool" where
  "calm p r \<longleftrightarrow> rests p (fst r) \<and> undelivered (snd r)"

lemma undelivered_append [simp]: "undelivered (a @ b) \<longleftrightarrow> undelivered a \<and> undelivered b"
  by (induction a rule: undelivered.induct) auto

lemma undelivered_none: "undelivered outs \<Longrightarrow> delivered h outs = []"
  by (induction outs rule: undelivered.induct) auto

lemma rests_refl [simp]: "rests p p"
  by (simp add: rests_def)

lemma rests_trans: "rests p q \<Longrightarrow> rests q r \<Longrightarrow> rests p r"
  by (auto simp: rests_def)

lemma sends_ok_same: "pe_sends q = pe_sends p \<Longrightarrow> sends_ok q = sends_ok p"
  by (simp add: sends_ok_def)

lemma rests_same:
  "in_view q' = in_view q \<Longrightarrow> pe_next q' = pe_next q \<Longrightarrow> pe_sends q' = pe_sends q \<Longrightarrow> rests p q' = rests p q"
  using sends_ok_same [of q' q] by (simp add: rests_def)

lemma rests_upd [simp]:
  "rests p (upd_out h g q) = rests p q" "rests p (upd_execution x k q) = rests p q"
  "rests p (mark_outbound_activity q) = rests p q" "rests p (mark_inbound_activity q) = rests p q"
  "rests p (q\<lparr>pe_pauses := a\<rparr>) = rests p q" "rests p (q\<lparr>pe_outbound := b\<rparr>) = rests p q"
  "rests p (q\<lparr>pe_cancelled := c\<rparr>) = rests p q" "rests p (q\<lparr>pe_late := d\<rparr>) = rests p q"
  "rests p (q\<lparr>pe_outgoing := o1\<rparr>) = rests p q" "rests p (q\<lparr>pe_terminal_outgoing := o2\<rparr>) = rests p q"
  "rests p (q\<lparr>pe_events := v\<rparr>) = rests p q" "rests p (q\<lparr>pe_reading := r\<rparr>) = rests p q"
  "rests p (q\<lparr>pe_started := s\<rparr>) = rests p q" "rests p (q\<lparr>pe_now := t\<rparr>) = rests p q"
  "rests p (q\<lparr>pe_out_streams := u2\<rparr>) = rests p q" "rests p (q\<lparr>pe_executions := u3\<rparr>) = rests p q"
  "rests p (q\<lparr>pe_inbound := u4\<rparr>) = rests p q" "rests p (q\<lparr>pe_hello_in_progress := u5\<rparr>) = rests p q"
  "rests p (remember_received u6 q) = rests p q" "rests p (remember_cancelled u7 q) = rests p q"
  "rests p (fst (settle_outbound i res q)) = rests p q"
  by (rule rests_same; simp add: views)+

lemma rests_next [simp]: "rests p q \<Longrightarrow> pe_next q \<le> n \<Longrightarrow> rests p (q\<lparr>pe_next := n\<rparr>)"
  by (auto simp: rests_def sends_ok_def views)

lemma sends_ok_post: "sends_ok q \<Longrightarrow> credit_ok c \<Longrightarrow> sends_ok (fst (post_frame c fr lane ab st q))"
  by (auto simp: sends_ok_def)

lemma rests_post [simp]: "rests p q \<Longrightarrow> credit_ok c \<Longrightarrow> rests p (fst (post_frame c fr lane ab st q))"
  by (auto simp: rests_def intro: sends_ok_post)

lemma calm_step [simp]: "undelivered outs \<Longrightarrow> calm p (q, outs) = rests p q"
  by (simp add: calm_def)

lemma calm_post [simp]: "rests p q \<Longrightarrow> credit_ok c \<Longrightarrow> calm p (post_frame c fr lane ab st q)"
  by (simp add: calm_def)

lemma calm_then [simp]: "rests p (fst (f (fst r))) \<Longrightarrow> undelivered (snd r) \<Longrightarrow> undelivered (snd (f (fst r))) \<Longrightarrow> calm p (then_do r f)"
  by (simp add: calm_def)

lemma calmD: "calm p r \<Longrightarrow> rests p (fst r)" "calm p r \<Longrightarrow> undelivered (snd r)"
  by (simp_all add: calm_def)

subsection \<open>Calls, requests, events and outgoing streams\<close>

lemma settle_undelivered [simp]: "undelivered (snd (settle_outbound i res p))"
  by (auto simp: settle_outbound_def split: option.splits sum.splits)

lemma send_cancel_calm [simp]: "rests p q \<Longrightarrow> rests p (fst (send_cancel i q))" "undelivered (snd (send_cancel i q))"
  by (simp_all add: send_cancel_def)

lemma cancel_calm [simp]:
  "rests p q \<Longrightarrow> rests p (fst (cancel_outbound i code q))" "undelivered (snd (cancel_outbound i code q))"
  by (simp_all add: cancel_outbound_def Let_def split: option.splits)

lemma start_call_calm [simp]: "rests p q \<Longrightarrow> calm p (start_call d c sig ab late dl i frame q)"
  by (simp add: start_call_def Let_def)

lemma call_calm [simp]: "calm p (peer_call env d request sig ab dl late i p)"
  by (simp add: peer_call_def Let_def split: option.splits sum.splits)

lemma request_sent_calm [simp]: "rests p q \<Longrightarrow> calm p (request_sent i h res q)"
  by (simp add: request_sent_def calm_def Let_def split: option.splits sum.splits prod.splits)

lemma timeout_calm [simp]: "calm p (request_timeout i p)" "calm p (request_aborted i p)"
  by (simp_all add: request_timeout_def request_aborted_def calm_def split: option.splits)

lemma task_done_calm [simp]: "rests p q \<Longrightarrow> undelivered [out] \<Longrightarrow> calm p (task_done h out q)"
  by (simp add: task_done_def)

lemma run_task_calm [simp]:
  "rests p q \<Longrightarrow> calm p (run_send_task env h s n ch bs ab q)"
  "rests p q \<Longrightarrow> calm p (run_terminal_task env h s n payload d q)"
  by (simp_all add: run_send_task_def run_terminal_task_def Let_def split: sum.splits)

lemma outgoing_calm [simp]:
  "calm p (stream_turn env h p)" "calm p (stream_send h ch bs ab p)" "calm p (stream_terminal h payload schema p)"
  "calm p (stream_send_aborted h n p)"
  by (simp_all add: stream_turn_def stream_send_def stream_terminal_def stream_send_aborted_def Let_def
      split: option.splits task_position.splits list.splits stream_task.splits)

lemma sent_calm [simp]:
  "rests p q \<Longrightarrow> calm p (data_sent h res q)" "rests p q \<Longrightarrow> calm p (terminal_sent h d res q)"
  by (simp_all add: data_sent_def terminal_sent_def split: option.splits list.splits stream_task.splits sum.splits)

lemma open_calm: "open_outgoing_stream env sid c v credit p = Inr r \<Longrightarrow> calm p (snd r, [])"
  by (auto simp: open_outgoing_stream_def Let_def rests_def sends_ok_def views split: if_splits)

lemma event_calm [simp]:
  "rests p (snd (on_event c v e schema p))" "rests p (off_event c v e l p)" "calm p (send_event env c v e payload schema p)"
  by (simp_all add: on_event_def off_event_def send_event_def Let_def split: option.splits sum.splits)

lemma execution_calm [simp]: "rests p (handler_settled x res p)" "rests p (deadline_passed x p)"
  by (simp_all add: handler_settled_def deadline_passed_def)

lemma send_error_calm [simp]: "rests p q \<Longrightarrow> calm p (send_error ns i code retry lane q)"
  by (simp add: send_error_def)

lemma start_execution_calm [simp]: "rests p q \<Longrightarrow> calm p (start_execution e d request hello deadline q)"
  by (simp add: start_execution_def Let_def)

lemma receive_request_calm [simp]: "calm p (received_step (receive_request e p))"
  by (simp add: receive_request_def Let_def split: option.splits sum.splits)

lemma receive_cancel_calm [simp]: "calm p (received_step (receive_cancel e p))"
  by (simp add: receive_cancel_def split: option.splits)

lemma deliver_event_undelivered [simp]: "undelivered (fst (deliver_event env payload rs))"
  by (induction rs) (auto split: option.splits prod.splits)

lemma receive_event_calm [simp]: "calm p (received_step (receive_event env e p))"
  by (simp add: receive_event_def Let_def split: option.splits) (simp add: received_step_def)

lemma receive_stream_credit_calm [simp]: "calm p (received_step (receive_stream_credit c p))"
  by (simp add: receive_stream_credit_def split: option.splits)

lemma commit_hello_calm: "commit_hello env role payload c ok p = Inr r \<Longrightarrow> calm p r"
  by (auto simp: commit_hello_def Let_def rests_def sends_ok_def views calm_def split: if_splits option.splits sum.splits)

lemma receive_response_calm [simp]: "calm p (received_step (receive_response env ok e p))"
proof -
  have "calm p (then_do r (\<lambda>q. (q, [PeerReady])))"
    "calm p (then_do (then_do r (\<lambda>q. (q, [PeerReady]))) (settle_outbound (rs_request_id e) res))"
    if "commit_hello env Sedes payload c ok p = Inr r" for payload c r res
    using calmD [OF commit_hello_calm [OF that]] by simp_all
  then show ?thesis
    by (auto simp: receive_response_def Let_def calm_def split: option.splits response_outcome.splits sum.splits prod.splits)
qed

subsection \<open>The invariant\<close>

lemma incoming_log [simp]: "undelivered outs \<Longrightarrow> incoming_ok (log @ outs) p = incoming_ok log p"
  by (simp add: incoming_ok_def stream_ok_def undelivered_none)

lemma incoming_stored:
  assumes "incoming_ok log p" and "jmap_get (pe_incoming p) sid = Some h"
  obtains st where "jmap_get (pe_in_streams p) h = Some st" "ist_stream_id st = sid" "jmap_get (pe_retired p) sid = None"
  using assms unfolding incoming_ok_def by metis

lemma retired_stored:
  assumes "incoming_ok log p" and "jmap_get (pe_retired p) sid = Some h"
  obtains st where "jmap_get (pe_in_streams p) h = Some st" "ist_stream_id st = sid" "jmap_get (pe_incoming p) sid = None"
  using assms unfolding incoming_ok_def by metis

lemma rests_incoming:
  assumes "rests p q" and "incoming_ok log p"
  shows "incoming_ok log q"
proof -
  have v: "pe_incoming q = pe_incoming p" "pe_retired q = pe_retired p" "pe_in_streams q = pe_in_streams p"
    "pe_next p \<le> pe_next q" "sends_ok p \<longrightarrow> sends_ok q"
    using assms(1) by (auto simp: rests_def views)
  have "stream_ok log q h st" if "stream_ok log p h st" for h st
    using that v by (auto simp: stream_ok_def)
  with assms(2) v show ?thesis by (simp add: incoming_ok_def)
qed

lemma calm_keeps: "calm p r \<Longrightarrow> keeps_incoming p r"
  by (auto simp: keeps_incoming_def calm_def intro: rests_incoming)

lemma incoming_then: "keeps_incoming p r \<Longrightarrow> keeps_incoming (fst r) (f (fst r)) \<Longrightarrow> keeps_incoming p (then_do r f)"
  unfolding keeps_incoming_def fst_then_do snd_then_do append_assoc [symmetric] by blast

lemma incoming_from: "keeps_incoming p (q, []) \<Longrightarrow> keeps_incoming q r \<Longrightarrow> keeps_incoming p r"
  by (simp add: keeps_incoming_def)

lemma get_upd_in: "jmap_get (pe_in_streams (upd_in h f p)) k =
   (if k = h then map_option f (jmap_get (pe_in_streams p) h) else jmap_get (pe_in_streams p) k)"
  by (auto simp: upd_in_def split: option.splits)

lemma incoming_upd:
  assumes ok: "incoming_ok log p"
    and f: "\<And>st. ist_stream_id (f st) = ist_stream_id st" "\<And>st. ist_expected_sequence (f st) = ist_expected_sequence st"
      "\<And>st. 0 \<le> ist_remaining_credit st \<Longrightarrow> 0 \<le> ist_remaining_credit (f st)"
  shows "incoming_ok log (upd_in h f p)"
proof -
  have "stream_ok log (upd_in h f p) k (f st)" "stream_ok log (upd_in h f p) k st" if "stream_ok log p k st" for k st
    using that f by (auto simp: stream_ok_def)
  moreover have "sends_ok (upd_in h f p) = sends_ok p" by (rule sends_ok_same) simp
  moreover have "\<exists>st'. jmap_get (pe_in_streams (upd_in h f p)) k = Some st' \<and> ist_stream_id st' = sid"
    if "\<exists>st. jmap_get (pe_in_streams p) k = Some st \<and> ist_stream_id st = sid" for k sid
    using that f(1) by (auto simp: get_upd_in)
  ultimately show ?thesis using ok unfolding incoming_ok_def upd_in_sel
    by (simp add: get_upd_in) (auto simp: get_upd_in split: if_splits)
qed

lemma incoming_post:
  "incoming_ok log p \<Longrightarrow> credit_ok c \<Longrightarrow> incoming_ok log (fst (post_frame c fr lane ab st p))"
  by (rule rests_incoming) simp_all

lemma incoming_dropped:
  assumes "incoming_ok log p" and "\<And>sid h. jmap_get inc sid = Some h \<Longrightarrow> jmap_get (pe_incoming p) sid = Some h"
    and "\<And>sid h. jmap_get ret sid = Some h \<Longrightarrow> jmap_get inc sid = None \<and>
      (jmap_get (pe_incoming p) sid = Some h \<or> jmap_get (pe_retired p) sid = Some h)"
  shows "incoming_ok log (p\<lparr>pe_incoming := inc, pe_retired := ret\<rparr>)"
proof -
  have "stream_ok log (p\<lparr>pe_incoming := inc, pe_retired := ret\<rparr>) h st" if "stream_ok log p h st" for h st
    using that assms(2) by (auto simp: stream_ok_def)
  moreover have "jmap_get ret sid = None" if "jmap_get inc sid = Some h" for sid h
    using assms(3) [of sid] that by (metis not_Some_eq option.distinct(1))
  moreover have "\<exists>st. jmap_get (pe_in_streams p) h = Some st \<and> ist_stream_id st = sid"
    if "jmap_get inc sid = Some h \<or> jmap_get ret sid = Some h" for sid h
    using that assms(2,3) incoming_stored [OF assms(1)] retired_stored [OF assms(1)] by metis
  ultimately show ?thesis using assms(1,3) unfolding incoming_ok_def by (simp add: sends_ok_def)
qed

subsection \<open>Operations on incoming streams\<close>

lemma repay_loop_keeps: "keeps_incoming p (repay_loop env sid h d p)"
proof (cases rule: repay_loop_cases [of env sid h d p])
  case 1
  then show ?thesis by (simp add: keeps_incoming_def)
next
  case 2
  then show ?thesis by (auto simp: keeps_incoming_def intro: incoming_upd)
next
  case (3 st)
  then show ?thesis by (simp add: keeps_incoming_def incoming_post)
qed

lemma repay_keeps: "keeps_incoming p (repay_retired_credit env sid h n p)"
proof -
  let ?f = "\<lambda>st :: 'a incoming_stream. st\<lparr>ist_owed_credit := ist_owed_credit st + n\<rparr>"
  let ?g = "\<lambda>st :: 'a incoming_stream. st\<lparr>ist_repaying := True\<rparr>"
  have f: "keeps_incoming p (upd_in h ?f p, [])" by (auto simp: keeps_incoming_def intro: incoming_upd)
  moreover have g: "keeps_incoming (upd_in h ?f p) (upd_in h ?g (upd_in h ?f p), [])"
    by (auto simp: keeps_incoming_def intro: incoming_upd)
  ultimately show ?thesis
    by (auto simp: repay_retired_credit_def Let_def split: option.splits
        intro: incoming_from [OF incoming_from [OF f g] repay_loop_keeps])
qed

lemma credit_landed_keeps: "0 \<le> n \<Longrightarrow> keeps_incoming p (credit_landed h n p, [])"
proof -
  let ?f = "\<lambda>st :: 'a incoming_stream. st\<lparr>ist_remaining_credit := ist_remaining_credit st + n\<rparr>"
  assume "0 \<le> n"
  then have "keeps_incoming p (upd_in h ?f p, [])" by (auto simp: keeps_incoming_def intro: incoming_upd)
  then show ?thesis by (rule incoming_from) (simp add: credit_landed_def calm_keeps)
qed

lemma repay_sent_keeps:
  assumes "0 \<le> owed"
  shows "keeps_incoming p (repay_sent env sid h owed d res p)"
proof (cases res)
  case (Inl e)
  have "keeps_incoming p (upd_in h (\<lambda>st. st\<lparr>ist_repaying := False\<rparr>) p, [])"
    by (auto simp: keeps_incoming_def intro: incoming_upd)
  with Inl show ?thesis by (auto simp: repay_sent_def intro: calm_keeps)
next
  case (Inr u)
  let ?p = "credit_landed h owed p"
  have "keeps_incoming ?p (upd_in h (\<lambda>st. st\<lparr>ist_owed_credit := ist_owed_credit st - owed\<rparr>) ?p, [])"
    by (auto simp: keeps_incoming_def intro: incoming_upd)
  then show ?thesis using Inr incoming_from [OF incoming_from [OF credit_landed_keeps [OF assms]] repay_loop_keeps]
    by (simp add: repay_sent_def)
qed

lemma pause_keeps: "keeps_incoming p (pause_ended env pause p)"
  by (auto simp: pause_ended_def intro: repay_loop_keeps calm_keeps
      split: congestion_pause.splits option.splits list.splits stream_task.splits)

lemma add_credit_keeps: "keeps_incoming p (add_credit env h n p)"
proof -
  let ?q = "p\<lparr>pe_next := Suc (pe_next p)\<rparr>"
  have "calm p r" if "send_stream_credit env (CreditSend (pe_next p) h n) sid rem n ?q = Inr r" "0 < n" for sid rem r
    using send_stream_credit_Inr [OF that(1)] that(2) by simp
  then show ?thesis
    by (auto simp: add_credit_def Let_def stream_credit_ok_def intro: calm_keeps split: option.splits sum.splits)
qed

lemma unregister_keeps: "keeps_incoming p (unregister_stream h p, [])"
proof -
  have "incoming_ok log (p\<lparr>pe_incoming := jmap_delete sid (pe_incoming p)\<rparr>)" if "incoming_ok log p" for log sid
  proof -
    have "jmap_get (pe_incoming p) k = None" if "jmap_get (pe_retired p) k = Some j" for k j
      using that \<open>incoming_ok log p\<close> by (simp add: incoming_ok_def)
    then have "incoming_ok log (p\<lparr>pe_incoming := jmap_delete sid (pe_incoming p), pe_retired := pe_retired p\<rparr>)"
      by (intro incoming_dropped [OF that]) (auto split: if_splits)
    then show ?thesis by simp
  qed
  then show ?thesis by (simp add: unregister_stream_def keeps_incoming_def split: option.splits)
qed

lemma retire_keeps: "keeps_incoming p (retire_stream env h p)"
proof -
  have "keeps_incoming p (p\<lparr>pe_incoming := jmap_delete sid (pe_incoming p), pe_retired := jmap_set sid h (pe_retired p)\<rparr>, [])"
    if "jmap_get (pe_incoming p) sid = Some h" for sid
  proof -
    have "incoming_ok log (p\<lparr>pe_incoming := jmap_delete sid (pe_incoming p), pe_retired := jmap_set sid h (pe_retired p)\<rparr>)"
      if ok: "incoming_ok log p" for log
    proof -
      have "jmap_get (pe_incoming p) k = None" if "jmap_get (pe_retired p) k = Some j" for k j
        using that ok by (simp add: incoming_ok_def)
      with \<open>jmap_get (pe_incoming p) sid = Some h\<close> show ?thesis
        by (intro incoming_dropped [OF ok]) (auto split: if_splits)
    qed
    then show ?thesis by (simp add: keeps_incoming_def)
  qed
  then show ?thesis
    by (auto simp: retire_stream_def intro: calm_keeps incoming_from [OF _ repay_keeps] split: option.splits)
qed

lemma register_keeps:
  assumes "register_incoming_stream env sid c v credit schema p = Inr r"
  shows "keeps_incoming p (snd r, [])"
proof -
  let ?st = "\<lparr>ist_stream_id = sid, ist_capability_id = c, ist_major_version = v,
     ist_terminal_schema = schema, ist_credit_window = credit, ist_expected_sequence = 0,
     ist_remaining_credit = credit, ist_terminal_received = False, ist_owed_credit = 0, ist_repaying = False\<rparr>"
  let ?q = "p\<lparr>pe_in_streams := jmap_set (pe_next p) ?st (pe_in_streams p),
             pe_incoming := jmap_set sid (pe_next p) (pe_incoming p), pe_next := Suc (pe_next p)\<rparr>"
  have r: "snd r = ?q" "0 < credit" "jmap_get (pe_incoming p) sid = None" "jmap_get (pe_retired p) sid = None"
    using assms by (auto simp: register_incoming_stream_def Let_def jmap_has_def stream_credit_ok_def split: if_splits)
  have "incoming_ok log ?q" if ok: "incoming_ok log p" for log
  proof -
    have fresh: "jmap_get (pe_in_streams p) (pe_next p) = None"
      using ok unfolding incoming_ok_def stream_ok_def by (metis less_irrefl not_Some_eq)
    then have "delivered (pe_next p) log = []" using ok by (simp add: incoming_ok_def)
    with r(2) have new: "stream_ok log ?q (pe_next p) ?st" by (simp add: stream_ok_def)
    have old: "stream_ok log ?q h st" if "stream_ok log p h st" for h st
      using that r(3) by (auto simp: stream_ok_def)
    have "sends_ok ?q" using ok by (simp add: incoming_ok_def sends_ok_def)
    moreover have "stream_ok log ?q h st" if "jmap_get (pe_in_streams ?q) h = Some st" for h st
      using that new old ok by (auto simp: incoming_ok_def split: if_splits)
    moreover have "\<exists>st. jmap_get (pe_in_streams ?q) h = Some st \<and> ist_stream_id st = k"
      if "jmap_get (pe_incoming ?q) k = Some h" for k h
    proof (cases "k = sid")
      case True
      with that show ?thesis by simp
    next
      case False
      with that have "jmap_get (pe_incoming p) k = Some h" by simp
      from incoming_stored [OF ok this] obtain st where "jmap_get (pe_in_streams p) h = Some st" "ist_stream_id st = k" .
      with fresh show ?thesis by auto
    qed
    moreover have "jmap_get (pe_incoming ?q) k = None \<and> (\<exists>st. jmap_get (pe_in_streams ?q) h = Some st \<and> ist_stream_id st = k)"
      if "jmap_get (pe_retired ?q) k = Some h" for k h
    proof -
      from that have "jmap_get (pe_retired p) k = Some h" by simp
      from retired_stored [OF ok this] obtain st where "jmap_get (pe_in_streams p) h = Some st" "ist_stream_id st = k"
        "jmap_get (pe_incoming p) k = None" .
      with that r(4) fresh show ?thesis by auto
    qed
    moreover have "jmap_get (pe_retired ?q) k = None" if "jmap_get (pe_incoming ?q) k = Some h" for k h
      using that r(4) incoming_stored [OF ok] by (metis calculation(4) not_Some_eq option.distinct(1))
    moreover have "delivered h log = []" if "jmap_get (pe_in_streams ?q) h = None" for h
      using that ok by (auto simp: incoming_ok_def split: if_splits)
    ultimately show ?thesis unfolding incoming_ok_def by blast
  qed
  then show ?thesis by (simp add: keeps_incoming_def r)
qed

text \<open>A data frame extends what its consumer has seen; frames of a retired stream are only counted.\<close>

lemma receive_data_counted:
  assumes ok: "incoming_ok log p" and got: "jmap_get (pe_in_streams p) h = Some st"
    and n: "0 \<le> n" "n \<le> ist_remaining_credit st"
    and outs: "\<And>k. delivered k outs = (if k = h then fs else [])"
    and fs: "contiguous (ist_expected_sequence st) fs" "(\<Sum>f\<leftarrow>fs. frame_length f) \<le> n"
    and live: "jmap_get (pe_incoming p) (ist_stream_id st) = Some h \<longrightarrow> (\<Sum>f\<leftarrow>fs. frame_length f) = n"
    and dead: "jmap_get (pe_incoming p) (ist_stream_id st) \<noteq> Some h \<longrightarrow> fs = []"
  shows "incoming_ok (log @ outs) (upd_in h (\<lambda>st. st\<lparr>ist_expected_sequence := ist_expected_sequence st + n,
     ist_remaining_credit := ist_remaining_credit st - n\<rparr>) p)"
proof -
  let ?f = "\<lambda>st :: 'a incoming_stream. st\<lparr>ist_expected_sequence := ist_expected_sequence st + n,
     ist_remaining_credit := ist_remaining_credit st - n\<rparr>"
  let ?q = "upd_in h ?f p"
  have st: "stream_ok log p h st" using ok got by (simp add: incoming_ok_def)
  have h: "stream_ok (log @ outs) ?q h (?f st)"
  proof (cases "jmap_get (pe_incoming p) (ist_stream_id st) = Some h")
    case True
    with st n fs live show ?thesis by (simp add: stream_ok_def outs)
  next
    case False
    with st n dead show ?thesis by (auto simp: stream_ok_def outs)
  qed
  have other: "stream_ok (log @ outs) ?q k s" if "stream_ok log p k s" "k \<noteq> h" for k s
    using that by (simp add: stream_ok_def outs)
  have "stream_ok (log @ outs) ?q k s" if "jmap_get (pe_in_streams ?q) k = Some s" for k s
    using that h other ok got by (auto simp: get_upd_in incoming_ok_def split: if_splits)
  moreover have "delivered k (log @ outs) = []" if "jmap_get (pe_in_streams ?q) k = None" for k
    using that got ok by (auto simp: get_upd_in incoming_ok_def outs split: if_splits)
  moreover have "sends_ok ?q" using ok sends_ok_same [of ?q p] by (simp add: incoming_ok_def)
  moreover have "jmap_get (pe_retired ?q) sid = None \<and> (\<exists>s. jmap_get (pe_in_streams ?q) k = Some s \<and> ist_stream_id s = sid)"
    if "jmap_get (pe_incoming ?q) sid = Some k" for sid k
  proof -
    from that have "jmap_get (pe_incoming p) sid = Some k" by simp
    from incoming_stored [OF ok this] obtain s where "jmap_get (pe_in_streams p) k = Some s" "ist_stream_id s = sid"
      "jmap_get (pe_retired p) sid = None" .
    then show ?thesis by (auto simp: get_upd_in)
  qed
  moreover have "jmap_get (pe_incoming ?q) sid = None \<and> (\<exists>s. jmap_get (pe_in_streams ?q) k = Some s \<and> ist_stream_id s = sid)"
    if "jmap_get (pe_retired ?q) sid = Some k" for sid k
  proof -
    from that have "jmap_get (pe_retired p) sid = Some k" by simp
    from retired_stored [OF ok this] obtain s where "jmap_get (pe_in_streams p) k = Some s" "ist_stream_id s = sid"
      "jmap_get (pe_incoming p) sid = None" .
    then show ?thesis by (auto simp: get_upd_in)
  qed
  ultimately show ?thesis unfolding incoming_ok_def by blast
qed

lemma find_incoming_cases:
  assumes "incoming_ok log p" and "find_incoming sid p = Some (h, st)"
  obtains "jmap_get (pe_incoming p) sid = Some h" "jmap_get (pe_in_streams p) h = Some st" "ist_stream_id st = sid"
      "\<not> jmap_has (pe_retired p) sid"
  | "jmap_get (pe_incoming p) sid = None" "jmap_get (pe_retired p) sid = Some h" "jmap_get (pe_in_streams p) h = Some st"
      "ist_stream_id st = sid" "jmap_has (pe_retired p) sid"
proof (cases "jmap_get (pe_incoming p) sid")
  case None
  with assms(2) have r: "jmap_get (pe_retired p) sid = Some h" "jmap_get (pe_in_streams p) h = Some st"
    by (auto simp: find_incoming_def split: option.splits)
  from retired_stored [OF assms(1) r(1)] r(2) have "ist_stream_id st = sid" by auto
  with None r show thesis using that(2) by (simp add: jmap_has_def)
next
  case (Some k)
  from incoming_stored [OF assms(1) this] obtain s where "jmap_get (pe_in_streams p) k = Some s" "ist_stream_id s = sid"
    "jmap_get (pe_retired p) sid = None" .
  with Some assms(2) show thesis using that(1) by (simp add: find_incoming_def jmap_has_def)
qed

lemma receive_data_keeps: "keeps_incoming p (received_step (receive_stream_data env f p))"
proof (cases "sd_origin f \<noteq> remote_role p")
  case True
  then show ?thesis by (simp add: receive_stream_data_def Let_def calm_keeps)
next
  case origin: False
  show ?thesis
  proof (cases "find_incoming (sd_stream_id f) p")
    case None
    with origin show ?thesis by (simp add: receive_stream_data_def Let_def calm_keeps)
  next
    case (Some a)
    obtain h st where a: "a = (h, st)" by (cases a)
    note find = Some [unfolded a]
    show ?thesis
    proof (cases "sd_sequence f \<noteq> ist_expected_sequence st \<or> frame_length f > ist_remaining_credit st")
      case True
      with origin find show ?thesis by (simp add: receive_stream_data_def Let_def calm_keeps)
    next
      case False
      let ?q = "upd_in h (\<lambda>st. st\<lparr>ist_expected_sequence := ist_expected_sequence st + frame_length f,
                     ist_remaining_credit := ist_remaining_credit st - frame_length f\<rparr>) p"
      let ?r = "received_step (receive_stream_data env f p)"
      have r: "?r = (if jmap_has (pe_retired p) (sd_stream_id f) then repay_retired_credit env (sd_stream_id f) h (frame_length f) ?q
          else (?q, [StreamDelivered h f]))"
        using False origin find by (simp add: receive_stream_data_def Let_def split: option.splits)
      have "incoming_ok (log @ snd ?r) (fst ?r)" if ok: "incoming_ok log p" for log
      proof (cases rule: find_incoming_cases [OF ok find])
        case 1
        have "incoming_ok (log @ [StreamDelivered h f]) ?q"
          by (rule receive_data_counted [OF ok 1(2), where fs = "[f]"]) (use 1 False in auto)
        with r 1 show ?thesis by simp
      next
        case 2
        have "incoming_ok (log @ []) ?q"
          by (rule receive_data_counted [OF ok 2(3), where fs = "[]"]) (use 2 False in auto)
        with r 2 repay_keeps [of ?q env "sd_stream_id f" h "frame_length f"] show ?thesis by (simp add: keeps_incoming_def)
      qed
      then show ?thesis by (simp add: keeps_incoming_def)
    qed
  qed
qed

lemma drop_keeps:
  "keeps_incoming p (p\<lparr>pe_incoming := jmap_delete sid (pe_incoming p)\<rparr>, [])"
  "keeps_incoming p (p\<lparr>pe_retired := jmap_delete sid (pe_retired p)\<rparr>, [])"
  "keeps_incoming p (p\<lparr>pe_incoming := [], pe_retired := []\<rparr>, [])"
proof -
  have "incoming_ok log (p\<lparr>pe_incoming := inc, pe_retired := ret\<rparr>)"
    if "incoming_ok log p" "\<And>sid h. jmap_get inc sid = Some h \<Longrightarrow> jmap_get (pe_incoming p) sid = Some h"
      "\<And>sid h. jmap_get ret sid = Some h \<Longrightarrow> jmap_get (pe_retired p) sid = Some h" for log inc ret
  proof (rule incoming_dropped [OF that(1)])
    fix sid h
    assume r: "jmap_get ret sid = Some h"
    from retired_stored [OF that(1) that(3) [OF r]] have "jmap_get (pe_incoming p) sid = None" .
    with that(2) r that(3) [OF r] show "jmap_get inc sid = None \<and>
      (jmap_get (pe_incoming p) sid = Some h \<or> jmap_get (pe_retired p) sid = Some h)"
      by (metis not_Some_eq)
  qed (fact that(2))
  then have d: "keeps_incoming p (p\<lparr>pe_incoming := inc, pe_retired := ret\<rparr>, [])"
    if "\<And>sid h. jmap_get inc sid = Some h \<Longrightarrow> jmap_get (pe_incoming p) sid = Some h"
      "\<And>sid h. jmap_get ret sid = Some h \<Longrightarrow> jmap_get (pe_retired p) sid = Some h" for inc ret
    using that by (simp add: keeps_incoming_def)
  have "keeps_incoming p (p\<lparr>pe_incoming := jmap_delete sid (pe_incoming p), pe_retired := pe_retired p\<rparr>, [])"
    "keeps_incoming p (p\<lparr>pe_incoming := pe_incoming p, pe_retired := jmap_delete sid (pe_retired p)\<rparr>, [])"
    "keeps_incoming p (p\<lparr>pe_incoming := [], pe_retired := []\<rparr>, [])"
    by (rule d; simp split: if_splits)+
  then show "keeps_incoming p (p\<lparr>pe_incoming := jmap_delete sid (pe_incoming p)\<rparr>, [])"
    "keeps_incoming p (p\<lparr>pe_retired := jmap_delete sid (pe_retired p)\<rparr>, [])"
    "keeps_incoming p (p\<lparr>pe_incoming := [], pe_retired := []\<rparr>, [])"
    by simp_all
qed

lemma receive_terminal_keeps: "keeps_incoming p (received_step (receive_stream_terminal env e p))"
proof -
  let ?sid = "st_stream_id e"
  have gone: "keeps_incoming p (p\<lparr>pe_retired := jmap_delete ?sid (pe_retired p)\<rparr>, [StreamDrained h])" for h
    using drop_keeps(2) [of p ?sid] by (simp add: keeps_incoming_def)
  have "keeps_incoming p (upd_in h (\<lambda>st. st\<lparr>ist_terminal_received := True\<rparr>)
      (p\<lparr>pe_incoming := jmap_delete ?sid (pe_incoming p)\<rparr>), [])" for h
    by (rule incoming_from [OF drop_keeps(1)]) (auto simp: keeps_incoming_def intro: incoming_upd)
  then have ended: "keeps_incoming p (upd_in h (\<lambda>st. st\<lparr>ist_terminal_received := True\<rparr>)
      (p\<lparr>pe_incoming := jmap_delete ?sid (pe_incoming p)\<rparr>), [StreamTerminated h payload])" for h payload
    by (simp add: keeps_incoming_def)
  have same: "keeps_incoming p (p, [])" by (simp add: keeps_incoming_def)
  show ?thesis
    unfolding receive_stream_terminal_def Let_def using gone ended same by (simp split: option.splits prod.splits)
qed

subsection \<open>Closing\<close>

lemma close_state_rests: "rests (p\<lparr>pe_incoming := [], pe_retired := []\<rparr>) (close_state p)"
proof -
  have "in_view (close_state p) = ([], [], pe_in_streams p)"
    by (simp add: close_state_def Let_def views fold_sel)
  then show ?thesis using sends_ok_same [of "close_state p" p] sends_ok_same [of "p\<lparr>pe_incoming := [], pe_retired := []\<rparr>" p]
    by (simp add: rests_def) (simp add: views)
qed

lemma settle_each_calm [simp]:
  "rests p q \<Longrightarrow> rests p (fst (settle_each m is q))" "undelivered (snd (settle_each m is q))"
  by (induction "is" arbitrary: q) (simp_all add: settle_sent_def split: option.splits)

lemma drained_undelivered [simp]: "undelivered (map (StreamDrained \<circ> f) xs)"
  by (induction xs) simp_all

lemma begin_close_keeps_incoming: "keeps_incoming p (begin_close m p)"
proof (cases "pe_closed p")
  case True
  then show ?thesis by (simp add: begin_close_eq calm_keeps)
next
  case False
  have "calm (p\<lparr>pe_incoming := [], pe_retired := []\<rparr>) (begin_close m p)"
    using False close_state_rests [of p] by (simp add: begin_close_eq then_do_pair)
  then show ?thesis by (rule incoming_from [OF drop_keeps(3) calm_keeps])
qed

lemma fail_session_incoming: "keeps_incoming p (fail_session m p)"
  unfolding fail_session_def by (rule incoming_then [OF begin_close_keeps_incoming]) (simp add: calm_keeps)

lemma close_peer_incoming: "keeps_incoming p (close_peer m p)"
proof -
  have "keeps_incoming p (then_do (begin_close c p) (\<lambda>q. (q, [TransportClose m])))" for c
    by (rule incoming_then [OF begin_close_keeps_incoming]) (simp add: calm_keeps)
  then show ?thesis by (simp add: close_peer_def calm_keeps)
qed

subsection \<open>Every operation\<close>

lemma finish_incoming: "keeps_incoming p (finish_execution env ok x p)"
proof (cases "jmap_get (pe_executions p) x")
  case None
  then show ?thesis by (simp add: finish_execution_def calm_keeps)
next
  case (Some ex)
  show ?thesis
  proof (cases "ex_outcome ex")
    case None
    with Some show ?thesis by (simp add: finish_execution_def calm_keeps)
  next
    case outcome: (Some outcome)
    let ?p = "p\<lparr>pe_executions := jmap_delete x (pe_executions p)\<rparr>"
    obtain response r where er: "execution_response env ok ex outcome ?p = (response, r)" by (cases "execution_response env ok ex outcome ?p")
    have "calm ?p r"
      using er by (auto simp: execution_response_def Let_def intro: commit_hello_calm split: sum.splits option.splits if_splits)
    then have "calm p r" using rests_trans [of p ?p "fst r"] by (simp add: calm_def)
    then have "keeps_incoming p r" by (rule calm_keeps)
    moreover have "keeps_incoming (fst r) (case encode_frame env f of Inl e \<Rightarrow> fail_session e q2
        | Inr v \<Rightarrow> post_frame (ResponseSend b) f lane False False q2)"
      if "rests (fst r) q2" for f q2 b lane
    proof (cases "encode_frame env f")
      case (Inl e)
      have "keeps_incoming (fst r) (q2, [])" using that by (simp add: calm_keeps)
      then show ?thesis using Inl fail_session_incoming by (auto intro: incoming_from)
    next
      case (Inr v)
      with that show ?thesis by (simp add: calm_keeps)
    qed
    ultimately show ?thesis using Some outcome er
      by (auto simp: finish_execution_def Let_def intro!: incoming_then split: option.splits)
  qed
qed

lemma receive_envelope_incoming: "keeps_incoming p (received_step (receive_envelope env ok e p))"
proof -
  have "keeps_incoming p (p, [])" by (simp add: calm_keeps)
  then show ?thesis unfolding receive_envelope_def
    by (auto intro!: receive_terminal_keeps intro: calm_keeps split: sidecar_envelope.splits)
qed

lemma receive_frame_incoming: "keeps_incoming p (receive_frame env ok decoded p)"
proof -
  define rec where "rec = (case decoded of
            Inl e \<Rightarrow> thrown e (p, [])
          | Inr (StreamDataFrame f) \<Rightarrow> receive_stream_data env f p
          | Inr (ControlFrame e) \<Rightarrow> receive_envelope env ok e p)"
  obtain q outs err where r: "rec = (q, outs, err)" by (cases rec)
  have "keeps_incoming p (p, [])" by (simp add: calm_keeps)
  then have "keeps_incoming p (received_step rec)"
    unfolding rec_def by (auto intro!: receive_envelope_incoming receive_data_keeps split: sum.splits decoded_sidecar_frame.splits)
  then have k: "keeps_incoming p (q, outs)" by (simp add: r received_step_def)
  have mark: "keeps_incoming p (q', outs)" if "rests q q'" for q'
    using k rests_incoming [OF that] by (simp add: keeps_incoming_def)
  have "receive_frame env ok decoded p = (case err of None \<Rightarrow> (mark_inbound_activity q, outs)
      | Some e \<Rightarrow> then_do (q\<lparr>pe_reading := False\<rparr>, outs) (fail_session e))"
    using r by (simp add: receive_frame_def rec_def)
  moreover have "keeps_incoming p (then_do (q\<lparr>pe_reading := False\<rparr>, outs) (fail_session e))" for e
    by (rule incoming_then) (simp_all add: mark fail_session_incoming)
  ultimately show ?thesis by (simp add: mark split: option.splits)
qed

lemma send_settled_incoming: "keeps_incoming p (send_settled env tok res p)"
proof (cases "jmap_get (pe_sends p) tok")
  case None
  then show ?thesis by (simp add: send_settled_def calm_keeps)
next
  case (Some cont)
  let ?q = "p\<lparr>pe_sends := jmap_delete tok (pe_sends p)\<rparr>"
  have rest: "rests p ?q" by (auto simp: rests_def sends_ok_def views split: if_splits)
  have ready: "keeps_incoming ?q (then_do (?q, [PeerReady]) (fail_session e))" for e
    by (rule incoming_then) (simp_all add: calm_keeps fail_session_incoming)
  have landed: "keeps_incoming ?q (credit_landed h n ?q, [PromiseResolved promise])" if "0 \<le> n" for h n promise
    using credit_landed_keeps [OF that, of ?q h] by (simp add: keeps_incoming_def)
  have "keeps_incoming ?q (send_settled env tok res p)" if "credit_ok cont"
    using Some that unfolding send_settled_def
    by (auto simp: Let_def intro!: ready fail_session_incoming landed repay_sent_keeps intro: calm_keeps
        split: send_continuation.splits sum.splits option.splits)
  moreover have "credit_ok cont" if "incoming_ok log p" for log
    using that Some by (auto simp: incoming_ok_def sends_ok_def)
  ultimately show ?thesis using rests_incoming [OF rest] unfolding keeps_incoming_def by blast
qed

lemma open_keeps: "open_outgoing_stream env sid c v credit p = Inr r \<Longrightarrow> keeps_incoming p (snd r, [])"
  by (rule calm_keeps [OF open_calm])

lemma step_incoming: "keeps_incoming p (peer_step env op p)"
proof (cases op)
  case PeerStart
  then show ?thesis by (auto simp: start_peer_def intro: calm_keeps)
next
  case (PeerPauseEnded n)
  have "keeps_incoming p (pause_ended env pause (p\<lparr>pe_pauses := a\<rparr>))" for pause a
    by (rule incoming_from [OF calm_keeps pause_keeps]) simp
  with PeerPauseEnded show ?thesis by (auto intro: calm_keeps split: option.splits)
next
  case (PeerReadEnded failure)
  have "keeps_incoming p (fail_session e (p\<lparr>pe_reading := False\<rparr>))" for e
    by (rule incoming_from [OF calm_keeps fail_session_incoming]) simp
  with PeerReadEnded show ?thesis by (auto intro: calm_keeps split: option.splits)
qed (auto intro!: send_settled_incoming receive_frame_incoming begin_close_keeps_incoming finish_incoming close_peer_incoming
      add_credit_keeps unregister_keeps retire_keeps
      intro: calm_keeps dest: register_keeps open_keeps split: option.splits sum.splits)

lemma run_incoming: "keeps_incoming p (peer_run env ops p)"
proof (induction ops arbitrary: p)
  case Nil
  then show ?case by (simp add: calm_keeps)
next
  case (Cons op ops)
  then show ?case by (simp add: incoming_then [OF step_incoming])
qed

section \<open>Properties\<close>


section \<open>Witnesses\<close>

text \<open>Two frames arrive for a registered stream; the second exceeds the credit that is left and ends the
  session.\<close>

definition data_of :: "int \<Rightarrow> bytes \<Rightarrow> unit decoded_sidecar_frame" where
  "data_of n bs = StreamDataFrame \<lparr>sd_session_nonce = replicate 32 CHR ''n'', sd_origin = Sidecar,
     sd_stream_id = ''s'', sd_sequence = n, sd_channel = Stdout, sd_bytes = bs\<rparr>"

definition stream_ops :: "(unit, unit) peer_op list" where
  "stream_ops = [PeerStart, PeerRegisterStream ''s'' ''shell'' 2 3 Some, PeerFrame True (Inr (data_of 0 [1, 2])),
     PeerFrame True (Inr (data_of 2 [3, 4]))]"


end
