(* ===== verification/PeerProducer.thy ===== *)
theory PeerProducer
  imports PeerStreams
begin

text \<open>
  The producer side of streams: the bytes a peer sends on a stream never exceed the credit it was given
  when the stream was opened and by the credit frames it received.
\<close>

section \<open>Definitions\<close>

fun posted :: "string \<Rightarrow> 'p peer_output list \<Rightarrow> int" where
  "posted sid [] = 0"
| "posted sid (SendFrame _ (DataFrame f) _ _ _ # outs) = (if sd_stream_id f = sid then frame_length f else 0) + posted sid outs"
| "posted sid (_ # outs) = posted sid outs"

text \<open>The credit accounts of the outgoing streams: identifier and credit left, under the stream's handle.\<close>

definition account_map :: "(nat, 'p outgoing_stream) jmap \<Rightarrow> (nat, string \<times> int) jmap" where
  "account_map m = map (\<lambda>(h, s). (h, ost_stream_id s, ost_credit s)) m"

abbreviation accounts :: "('p, 'h) peer \<Rightarrow> (nat, string \<times> int) jmap" where
  "accounts p \<equiv> account_map (pe_out_streams p)"

definition stream_credit :: "string \<Rightarrow> string \<times> int \<Rightarrow> int" where
  "stream_credit sid a = (if fst a = sid then snd a else 0)"

definition credit_left :: "string \<Rightarrow> (nat, string \<times> int) jmap \<Rightarrow> int" where
  "credit_left sid m = (\<Sum>e\<leftarrow>m. stream_credit sid (snd e))"

text \<open>The credit an operation gives to the streams of an identifier.\<close>

fun credit_grant :: "string \<Rightarrow> ('p, 'h) peer_op \<Rightarrow> int" where
  "credit_grant sid (PeerOpenStream sid' _ _ credit) = (if sid' = sid then max 0 credit else 0)"
| "credit_grant sid (PeerFrame _ (Inr (ControlFrame (StreamCreditEnvelope e)))) = (if sc_stream_id e = sid then sc_bytes e else 0)"
| "credit_grant sid _ = 0"

text \<open>Credit frames carry a positive number of bytes, as the envelope decoder ensures.\<close>

fun credit_valid :: "('p, 'h) peer_op \<Rightarrow> bool" where
  "credit_valid (PeerFrame _ (Inr (ControlFrame (StreamCreditEnvelope e)))) = (0 < sc_bytes e)"
| "credit_valid _ = True"

definition producer_ok :: "(string \<Rightarrow> int) \<Rightarrow> 'p peer_output list \<Rightarrow> ('p, 'h) peer \<Rightarrow> bool" where
  "producer_ok granted log p \<longleftrightarrow> jmap_wf (accounts p) \<and>
     (\<forall>h i c. jmap_get (accounts p) h = Some (i, c) \<longrightarrow> h < pe_next p \<and> 0 \<le> c) \<and>
     (\<forall>sid h. jmap_get (pe_outgoing p) sid = Some h \<longrightarrow> (\<exists>c. jmap_get (accounts p) h = Some (sid, c))) \<and>
     (\<forall>sid. posted sid log + credit_left sid (accounts p) \<le> granted sid)"

definition keeps_credit :: "(string \<Rightarrow> int) \<Rightarrow> ('p, 'h) peer \<Rightarrow> ('p, 'h) peer_step \<Rightarrow> bool" where
  "keeps_credit g p r \<longleftrightarrow> (\<forall>granted log. producer_ok granted log p \<longrightarrow>
     producer_ok (\<lambda>sid. granted sid + g sid) (log @ snd r) (fst r))"

section \<open>Lemmas\<close>

lemma posted_append [simp]: "posted sid (a @ b) = posted sid a + posted sid b"
  by (induction sid a rule: posted.induct) auto

subsection \<open>Steps that send no data\<close>

fun is_data :: "'p outgoing_frame \<Rightarrow> bool" where
  "is_data (DataFrame _) = True"
| "is_data _ = False"

fun dataless :: "'p peer_output list \<Rightarrow> bool" where
  "dataless [] = True"
| "dataless (SendFrame _ f _ _ _ # outs) \<longleftrightarrow> \<not> is_data f \<and> dataless outs"
| "dataless (_ # outs) = dataless outs"

lemma dataless_append [simp]: "dataless (a @ b) \<longleftrightarrow> dataless a \<and> dataless b"
  by (induction a rule: dataless.induct) auto

lemma dataless_posted: "dataless outs \<Longrightarrow> posted sid outs = 0"
proof (induction outs rule: dataless.induct)
  case (2 tok f lane ab st outs)
  then show ?case by (cases f) auto
qed auto

lemma frames_not_data [simp]:
  "\<not> is_data (credit_frame sid n p)" "\<not> is_data (terminal_frame s payload p)"
  "\<not> is_data (error_frame ns i code retryable p)" "\<not> is_data (request_frame d i deadline payload p)"
  by (simp_all add: credit_frame_def terminal_frame_def error_frame_def request_frame_def)

definition idle :: "('p, 'h) peer \<Rightarrow> ('p, 'h) peer \<Rightarrow> bool" where
  "idle p q \<longleftrightarrow> pe_next p \<le> pe_next q \<and> accounts q = accounts p \<and>
     (\<forall>sid h. jmap_get (pe_outgoing q) sid = Some h \<longrightarrow> jmap_get (pe_outgoing p) sid = Some h)"

definition idles :: "('p, 'h) peer \<Rightarrow> ('p, 'h) peer_step \<Rightarrow> bool" where
  "idles p r \<longleftrightarrow> idle p (fst r) \<and> dataless (snd r)"

lemma idle_refl [simp]: "idle p p"
  by (simp add: idle_def)

lemma idle_trans: "idle p q \<Longrightarrow> idle q r \<Longrightarrow> idle p r"
  by (auto simp: idle_def)

lemma account_get: "jmap_get (account_map m) h = map_option (\<lambda>s. (ost_stream_id s, ost_credit s)) (jmap_get m h)"
  by (induction m) (auto simp: account_map_def)

lemma account_set [simp]: "account_map (jmap_set h s m) = jmap_set h (ost_stream_id s, ost_credit s) (account_map m)"
  by (induction m) (auto simp: account_map_def)

lemma accounts_upd: "accounts (upd_out h g p) = (case jmap_get (pe_out_streams p) h of None \<Rightarrow> accounts p
   | Some s \<Rightarrow> jmap_set h (ost_stream_id (g s), ost_credit (g s)) (accounts p))"
  by (simp add: upd_out_def split: option.splits)

lemma accounts_kept [simp]:
  assumes "\<And>s. ost_stream_id (g s) = ost_stream_id s" "\<And>s. ost_credit (g s) = ost_credit s"
  shows "accounts (upd_out h g p) = accounts p"
  using assms by (simp add: accounts_upd account_get jmap_set_same split: option.splits)

lemma idles_keeps: "idles p r \<Longrightarrow> keeps_credit (\<lambda>_. 0) p r"
  by (fastforce simp: idles_def idle_def keeps_credit_def producer_ok_def dataless_posted)

lemma credit_then: "keeps_credit g p r \<Longrightarrow> keeps_credit (\<lambda>_. 0) (fst r) (f (fst r)) \<Longrightarrow> keeps_credit g p (then_do r f)"
  unfolding keeps_credit_def fst_then_do snd_then_do append_assoc [symmetric] by fastforce

lemma idle_same:
  "accounts q' = accounts q \<Longrightarrow> pe_next q' = pe_next q \<Longrightarrow> pe_outgoing q' = pe_outgoing q \<Longrightarrow> idle p q' = idle p q"
  by (simp add: idle_def)

lemma wake_sel [simp]: "ost_stream_id (wake_stream s) = ost_stream_id s" "ost_credit (wake_stream s) = ost_credit s"
  "ost_stream_id (close_stream s) = ost_stream_id s" "ost_credit (close_stream s) = ost_credit s"
  by (simp_all add: wake_stream_def close_stream_def)

lemma idle_upd [simp]:
  "(\<And>s. ost_stream_id (g s) = ost_stream_id s) \<Longrightarrow> (\<And>s. ost_credit (g s) = ost_credit s) \<Longrightarrow> idle p (upd_out h g q) = idle p q"
  "idle p (upd_in h f q) = idle p q" "idle p (upd_execution x k q) = idle p q"
  "idle p (mark_outbound_activity q) = idle p q" "idle p (mark_inbound_activity q) = idle p q"
  "idle p (q\<lparr>pe_pauses := a\<rparr>) = idle p q" "idle p (q\<lparr>pe_outbound := b\<rparr>) = idle p q"
  "idle p (q\<lparr>pe_cancelled := c\<rparr>) = idle p q" "idle p (q\<lparr>pe_late := d\<rparr>) = idle p q"
  "idle p (q\<lparr>pe_terminal_outgoing := o2\<rparr>) = idle p q"
  "idle p (q\<lparr>pe_events := v\<rparr>) = idle p q" "idle p (q\<lparr>pe_reading := r\<rparr>) = idle p q"
  "idle p (q\<lparr>pe_started := s1\<rparr>) = idle p q" "idle p (q\<lparr>pe_now := t\<rparr>) = idle p q"
  "idle p (q\<lparr>pe_in_streams := u2\<rparr>) = idle p q" "idle p (q\<lparr>pe_executions := u3\<rparr>) = idle p q"
  "idle p (q\<lparr>pe_inbound := u4\<rparr>) = idle p q" "idle p (q\<lparr>pe_hello_in_progress := u5\<rparr>) = idle p q"
  "idle p (q\<lparr>pe_incoming := u8\<rparr>) = idle p q" "idle p (q\<lparr>pe_retired := u9\<rparr>) = idle p q" "idle p (q\<lparr>pe_sends := v1\<rparr>) = idle p q"
  "idle p (remember_received u6 q) = idle p q" "idle p (remember_cancelled u7 q) = idle p q"
  "idle p (fst (settle_outbound i res q)) = idle p q" "idle p (credit_landed h n q) = idle p q"
  by (rule idle_same; simp add: credit_landed_def)+

lemma idle_outgoing [simp]:
  "idle p q \<Longrightarrow> idle p (q\<lparr>pe_outgoing := jmap_delete sid (pe_outgoing q)\<rparr>)"
  "idle p q \<Longrightarrow> idle p (q\<lparr>pe_outgoing := []\<rparr>)"
  by (auto simp: idle_def split: if_splits)

lemma idle_next [simp]: "idle p q \<Longrightarrow> pe_next q \<le> n \<Longrightarrow> idle p (q\<lparr>pe_next := n\<rparr>)"
  by (simp add: idle_def)

lemma idle_post [simp]: "idle p q \<Longrightarrow> idle p (fst (post_frame c fr lane ab st q))"
  by (simp add: idle_def)

lemma idles_step [simp]: "dataless outs \<Longrightarrow> idles p (q, outs) = idle p q"
  by (simp add: idles_def)

lemma idles_post [simp]: "idle p q \<Longrightarrow> \<not> is_data fr \<Longrightarrow> idles p (post_frame c fr lane ab st q)"
  by (simp add: idles_def)

lemma idles_then [simp]: "idle p (fst (f (fst r))) \<Longrightarrow> dataless (snd r) \<Longrightarrow> dataless (snd (f (fst r))) \<Longrightarrow> idles p (then_do r f)"
  by (simp add: idles_def)

lemma idlesD: "idles p r \<Longrightarrow> idle p (fst r)" "idles p r \<Longrightarrow> dataless (snd r)"
  by (simp_all add: idles_def)

lemma settle_dataless [simp]: "dataless (snd (settle_outbound i res p))"
  by (auto simp: settle_outbound_def split: option.splits sum.splits)

lemma send_cancel_idle [simp]: "idle p q \<Longrightarrow> idle p (fst (send_cancel i q))" "dataless (snd (send_cancel i q))"
  by (simp_all add: send_cancel_def)

lemma cancel_idle [simp]:
  "idle p q \<Longrightarrow> idle p (fst (cancel_outbound i code q))" "dataless (snd (cancel_outbound i code q))"
  by (simp_all add: cancel_outbound_def Let_def split: option.splits)

lemma start_call_idle [simp]: "idle p q \<Longrightarrow> \<not> is_data frame \<Longrightarrow> idles p (start_call d c sig ab late dl i frame q)"
  by (simp add: start_call_def Let_def)

lemma call_idle [simp]: "idles p (peer_call env d request sig ab dl late i p)"
  by (simp add: peer_call_def Let_def split: option.splits sum.splits)

lemma request_sent_idle [simp]: "idle p q \<Longrightarrow> idles p (request_sent i h res q)"
  by (simp add: request_sent_def idles_def Let_def split: option.splits sum.splits prod.splits)

lemma timeout_idle [simp]: "idles p (request_timeout i p)" "idles p (request_aborted i p)"
  by (simp_all add: request_timeout_def request_aborted_def idles_def split: option.splits)

lemma repay_loop_idle [simp]: "idle p q \<Longrightarrow> idles p (repay_loop env sid h d q)"
  by (cases rule: repay_loop_cases [of env sid h d q]) (simp_all add: idles_def)

lemma repay_idle [simp]: "idle p q \<Longrightarrow> idles p (repay_retired_credit env sid h n q)"
  "idle p q \<Longrightarrow> idles p (repay_sent env sid h owed d res q)"
  by (simp_all add: repay_retired_credit_def repay_sent_def Let_def split: option.splits sum.splits)

lemma incoming_idle [simp]: "idles p (retire_stream env h p)" "idle p (unregister_stream h p)"
  by (simp_all add: retire_stream_def unregister_stream_def split: option.splits)

lemma add_credit_idle [simp]: "idles p (add_credit env h n p)"
proof -
  let ?q = "p\<lparr>pe_next := Suc (pe_next p)\<rparr>"
  have "idles p r" if "send_stream_credit env c sid rem n ?q = Inr r" for c sid rem r
    using send_stream_credit_Inr [OF that] by simp
  then show ?thesis by (simp add: add_credit_def Let_def split: option.splits sum.splits)
qed

lemma register_idle: "register_incoming_stream env sid c v credit schema p = Inr r \<Longrightarrow> idles p (snd r, [])"
  by (auto simp: register_incoming_stream_def Let_def idle_def split: if_splits)

lemma task_done_idle [simp]: "idle p q \<Longrightarrow> dataless [out] \<Longrightarrow> idles p (task_done h out q)"
  by (simp add: task_done_def)

lemma terminal_idle [simp]: "idle p q \<Longrightarrow> idles p (run_terminal_task env h s n payload d q)"
  by (simp add: run_terminal_task_def Let_def split: sum.splits)

lemma outgoing_idle [simp]:
  "idles p (stream_send h ch bs ab p)" "idles p (stream_terminal h payload schema p)" "idles p (stream_send_aborted h n p)"
  by (simp_all add: stream_send_def stream_terminal_def stream_send_aborted_def Let_def
      split: option.splits task_position.splits list.splits stream_task.splits)

lemma sent_idle [simp]:
  "idle p q \<Longrightarrow> idles p (data_sent h res q)" "idle p q \<Longrightarrow> idles p (terminal_sent h d res q)"
  by (simp_all add: data_sent_def terminal_sent_def split: option.splits list.splits stream_task.splits sum.splits)

lemma pause_idle [simp]: "idle p q \<Longrightarrow> idles p (pause_ended env pause q)"
  by (simp add: pause_ended_def split: congestion_pause.splits option.splits list.splits stream_task.splits)

lemma event_idle [simp]:
  "idle p (snd (on_event c v e schema p))" "idle p (off_event c v e l p)" "idles p (send_event env c v e payload schema p)"
  by (simp_all add: on_event_def off_event_def send_event_def Let_def split: option.splits sum.splits)

lemma execution_idle [simp]: "idle p (handler_settled x res p)" "idle p (deadline_passed x p)"
  by (simp_all add: handler_settled_def deadline_passed_def)

lemma send_error_idle [simp]: "idle p q \<Longrightarrow> idles p (send_error ns i code retry lane q)"
  by (simp add: send_error_def)

lemma start_execution_idle [simp]: "idle p q \<Longrightarrow> idles p (start_execution e d request hello deadline q)"
  by (simp add: start_execution_def Let_def)

lemma receive_request_idle [simp]: "idles p (received_step (receive_request e p))"
  by (simp add: receive_request_def Let_def split: option.splits sum.splits)

lemma receive_cancel_idle [simp]: "idles p (received_step (receive_cancel e p))"
  by (simp add: receive_cancel_def split: option.splits)

lemma deliver_event_dataless [simp]: "dataless (fst (deliver_event env payload rs))"
  by (induction rs) (auto split: option.splits prod.splits)

lemma receive_event_idle [simp]: "idles p (received_step (receive_event env e p))"
  by (simp add: receive_event_def Let_def split: option.splits) (simp add: received_step_def)

lemma receive_stream_idle [simp]:
  "idles p (received_step (receive_stream_data env f p))" "idles p (received_step (receive_stream_terminal env e p))"
  by (simp_all add: receive_stream_data_def receive_stream_terminal_def Let_def split: option.splits prod.splits)

lemma commit_hello_idle: "commit_hello env role payload c ok p = Inr r \<Longrightarrow> idles p r"
  by (auto simp: commit_hello_def Let_def idles_def idle_def split: if_splits option.splits sum.splits)

lemma receive_response_idle [simp]: "idles p (received_step (receive_response env ok e p))"
proof -
  have "idles p (then_do r (\<lambda>q. (q, [PeerReady])))"
    "idles p (then_do (then_do r (\<lambda>q. (q, [PeerReady]))) (settle_outbound (rs_request_id e) res))"
    if "commit_hello env Sedes payload c ok p = Inr r" for payload c r res
    using idlesD [OF commit_hello_idle [OF that]] by simp_all
  then show ?thesis
    by (auto simp: receive_response_def Let_def idles_def split: option.splits response_outcome.splits sum.splits prod.splits)
qed

lemma fold_idle [simp]:
  "(\<And>x q. idle p q \<Longrightarrow> idle p (f x q)) \<Longrightarrow> idle p q \<Longrightarrow> idle p (fold f xs q)"
  by (induction xs arbitrary: q) simp_all

lemma settle_each_idle [simp]:
  "idle p q \<Longrightarrow> idle p (fst (settle_each m is q))" "dataless (snd (settle_each m is q))"
  by (induction "is" arbitrary: q) (simp_all add: settle_sent_def split: option.splits)

lemma drained_dataless [simp]: "dataless (map (StreamDrained \<circ> f) xs)"
  by (induction xs) simp_all

lemma close_idle [simp]:
  "idle p q \<Longrightarrow> idles p (begin_close m q)" "idle p q \<Longrightarrow> idles p (fail_session m q)" "idle p q \<Longrightarrow> idles p (close_peer m q)"
proof -
  have closed: "idle p (q\<lparr>pe_closed := True\<rparr>)" if "idle p q" for q using that by (simp add: idle_def)
  have state: "idle p (close_state q)" if "idle p q" for q
    using closed [OF that] by (simp add: close_state_def Let_def)
  have b: "idles p (begin_close m q)" if "idle p q" for m q
    using that state [OF that] by (simp add: begin_close_eq then_do_pair)
  from b [of q m] show "idle p q \<Longrightarrow> idles p (begin_close m q)" .
  from b [of q] show "idle p q \<Longrightarrow> idles p (fail_session m q)" "idle p q \<Longrightarrow> idles p (close_peer m q)"
    by (auto simp: fail_session_def close_peer_def idles_def)
qed

lemma finish_idle [simp]: "idles p (finish_execution env ok x p)"
proof (cases "jmap_get (pe_executions p) x")
  case None
  then show ?thesis by (simp add: finish_execution_def)
next
  case (Some ex)
  show ?thesis
  proof (cases "ex_outcome ex")
    case None
    with Some show ?thesis by (simp add: finish_execution_def)
  next
    case outcome: (Some outcome)
    let ?p = "p\<lparr>pe_executions := jmap_delete x (pe_executions p)\<rparr>"
    obtain response r where er: "execution_response env ok ex outcome ?p = (response, r)" by (cases "execution_response env ok ex outcome ?p")
    have "idles ?p r"
      using er by (auto simp: execution_response_def Let_def intro: commit_hello_idle split: sum.splits option.splits if_splits)
    then have r: "idle p (fst r)" "dataless (snd r)" using idle_trans [of p ?p "fst r"] by (simp_all add: idles_def)
    have "idles p (case encode_frame env f of Inl e \<Rightarrow> fail_session e q2
        | Inr v \<Rightarrow> post_frame (ResponseSend b) f lane False False q2)"
      if "idle p q2" "\<not> is_data f" for f q2 b lane
      using that by (simp split: sum.splits)
    then have "idle p (fst (case encode_frame env f of Inl e \<Rightarrow> fail_session e q2
        | Inr v \<Rightarrow> post_frame (ResponseSend b) f lane False False q2)) \<and>
      dataless (snd (case encode_frame env f of Inl e \<Rightarrow> fail_session e q2
        | Inr v \<Rightarrow> post_frame (ResponseSend b) f lane False False q2))"
      if "idle p q2" "\<not> is_data f" for f q2 b lane
      using that by (simp add: idles_def)
    with r Some outcome er show ?thesis
      by (simp add: finish_execution_def Let_def split: option.splits)
  qed
qed

subsection \<open>Steps that use or add credit\<close>

lemma producer_more: "producer_ok g log p \<Longrightarrow> (\<And>sid. g sid \<le> g' sid) \<Longrightarrow> producer_ok g' log p"
  by (auto simp: producer_ok_def intro: order_trans)

lemma credit_weaken: "keeps_credit g p r \<Longrightarrow> (\<And>sid. g sid \<le> g' sid) \<Longrightarrow> keeps_credit g' p r"
proof -
  assume k: "keeps_credit g p r" and le: "\<And>sid. g sid \<le> g' sid"
  have "producer_ok (\<lambda>sid. granted sid + g' sid) (log @ snd r) (fst r)" if "producer_ok granted log p" for granted log
  proof (rule producer_more)
    show "producer_ok (\<lambda>sid. granted sid + g sid) (log @ snd r) (fst r)" using k that by (simp add: keeps_credit_def)
  qed (simp add: le)
  then show ?thesis by (simp add: keeps_credit_def)
qed

lemma producer_account:
  assumes "producer_ok granted log p" and "jmap_get (pe_outgoing p) sid = Some h"
  obtains c where "jmap_get (accounts p) h = Some (sid, c)"
  using assms unfolding producer_ok_def by blast

lemma credit_left_set:
  assumes "jmap_wf m" and "jmap_get m h = Some (i, c)"
  shows "credit_left sid (jmap_set h (i, c') m) = credit_left sid m + (if i = sid then c' - c else 0)"
  using sum_jmap_set_old [OF assms, of "stream_credit sid" "(i, c')"] by (simp add: credit_left_def stream_credit_def)

lemma change_credit:
  assumes get: "jmap_get (pe_out_streams p) h = Some s"
    and q: "accounts q = jmap_set h (ost_stream_id s, ost_credit s + d) (accounts p)" "pe_next p \<le> pe_next q"
      "pe_outgoing q = pe_outgoing p"
    and d: "0 \<le> ost_credit s + d" "\<And>sid. posted sid outs + (if ost_stream_id s = sid then d else 0) \<le> g sid"
  shows "keeps_credit g p (q, outs)"
proof -
  have acc: "jmap_get (accounts p) h = Some (ost_stream_id s, ost_credit s)" using get by (simp add: account_get)
  have "producer_ok (\<lambda>sid. granted sid + g sid) (log @ outs) q" if ok: "producer_ok granted log p" for granted log
  proof -
    have wf: "jmap_wf (accounts p)" using ok by (simp add: producer_ok_def)
    have "posted sid (log @ outs) + credit_left sid (accounts q) \<le> granted sid + g sid" for sid
    proof -
      have "posted sid log + credit_left sid (accounts p) \<le> granted sid" using ok by (simp add: producer_ok_def)
      with d(2) [of sid] show ?thesis by (auto simp: q(1) credit_left_set [OF wf acc])
    qed
    moreover have "k < pe_next q \<and> 0 \<le> c" if "jmap_get (accounts q) k = Some (i, c)" for k i c
    proof (cases "k = h")
      case True
      then have "h < pe_next p" using ok acc by (auto simp: producer_ok_def)
      with True that q d(1) show ?thesis by simp
    next
      case False
      with that q(1) ok have "k < pe_next p \<and> 0 \<le> c" by (simp add: producer_ok_def)
      with q(2) show ?thesis by simp
    qed
    moreover have "\<exists>c. jmap_get (accounts q) k = Some (sid, c)" if "jmap_get (pe_outgoing q) sid = Some k" for sid k
    proof -
      from that q(3) obtain c where "jmap_get (accounts p) k = Some (sid, c)"
        using producer_account [OF ok, of sid k] by auto
      with acc show ?thesis by (auto simp: q(1))
    qed
    ultimately show ?thesis using wf q(1) by (simp add: producer_ok_def)
  qed
  then show ?thesis by (simp add: keeps_credit_def)
qed

lemma run_send_keeps:
  assumes "jmap_get (pe_out_streams p) h = Some s"
  shows "keeps_credit (\<lambda>_. 0) p (run_send_task env h s n ch bs ab p)"
proof -
  let ?d = "- int (length bs)"
  let ?p1 = "upd_out h (\<lambda>s. s\<lparr>ost_credit := ost_credit s - int (length bs)\<rparr>) p"
  let ?p2 = "upd_out h (\<lambda>s. s\<lparr>ost_position := TaskSending\<rparr>) ?p1"
  have p1: "accounts ?p1 = jmap_set h (ost_stream_id s, ost_credit s + ?d) (accounts p)"
    using assms by (simp add: accounts_upd)
  have fail: "keeps_credit (\<lambda>_. 0) p (task_done h (PromiseRejected n e) ?p1)" if "int (length bs) \<le> ost_credit s" for e
    unfolding task_done_def using that p1 by (intro change_credit [OF assms, where d = ?d]) auto
  have send: "keeps_credit (\<lambda>_. 0) p (post_frame (DataSend h) (DataFrame (data_frame s ch bs p)) OperationLane False False ?p2)"
    if "int (length bs) \<le> ost_credit s"
    unfolding post_frame_def using that p1 by (intro change_credit [OF assms, where d = ?d]) (auto simp: data_frame_def)
  have rest: "keeps_credit (\<lambda>_. 0) p (task_done h (PromiseRejected n e) p)"
    "keeps_credit (\<lambda>_. 0) p (upd_out h (\<lambda>s. s\<lparr>ost_position := TaskWaiting\<rparr>) p, [])" for e
    by (rule idles_keeps; simp)+
  show ?thesis unfolding run_send_task_def Let_def using fail send rest by (simp split: sum.splits)
qed

lemma turn_keeps: "keeps_credit (\<lambda>_. 0) p (stream_turn env h p)"
  by (auto simp: stream_turn_def intro: idles_keeps run_send_keeps split: option.splits list.splits stream_task.splits)

lemma credit_received_keeps:
  assumes "0 < sc_bytes e"
  shows "keeps_credit (\<lambda>sid. if sc_stream_id e = sid then sc_bytes e else 0) p (received_step (receive_stream_credit e p))"
    (is "keeps_credit ?g p _")
proof -
  have same: "keeps_credit ?g p (p, [])"
    by (rule credit_weaken [OF idles_keeps]) (use assms in simp_all)
  let ?f = "\<lambda>s :: 'a outgoing_stream. wake_stream (s\<lparr>ost_credit := ost_credit s + sc_bytes e\<rparr>)"
  have "keeps_credit ?g p (upd_out h ?f p, [])"
    if out: "jmap_get (pe_outgoing p) (sc_stream_id e) = Some h" and get: "jmap_get (pe_out_streams p) h = Some s" for h s
  proof (cases "0 \<le> ost_credit s \<and> ost_stream_id s = sc_stream_id e")
    case True
    then show ?thesis using get assms by (intro change_credit [OF get, where d = "sc_bytes e"]) (auto simp: accounts_upd)
  next
    case False
    have "0 \<le> ost_credit s \<and> ost_stream_id s = sc_stream_id e" if ok: "producer_ok granted log p" for granted log
    proof -
      have acc: "jmap_get (accounts p) h = Some (ost_stream_id s, ost_credit s)" using get by (simp add: account_get)
      with ok have "0 \<le> ost_credit s" by (simp add: producer_ok_def)
      moreover obtain c where "jmap_get (accounts p) h = Some (sc_stream_id e, c)"
        by (rule producer_account [OF ok out])
      ultimately show ?thesis using acc by simp
    qed
    with False show ?thesis unfolding keeps_credit_def by blast
  qed
  with same show ?thesis unfolding receive_stream_credit_def by (simp split: option.splits)
qed

lemma open_keeps_credit:
  assumes "open_outgoing_stream env sid c v credit p = Inr r"
  shows "keeps_credit (\<lambda>k. if sid = k then credit else 0) p (snd r, [])"
proof -
  have pos: "0 < credit" and acc: "accounts (snd r) = jmap_set (pe_next p) (sid, credit) (accounts p)"
    and next_r: "pe_next (snd r) = Suc (pe_next p)" and out: "pe_outgoing (snd r) = jmap_set sid (pe_next p) (pe_outgoing p)"
    using assms by (auto simp: open_outgoing_stream_def Let_def stream_credit_ok_def split: if_splits)
  have "producer_ok (\<lambda>k. granted k + (if sid = k then credit else 0)) log (snd r)" if ok: "producer_ok granted log p" for granted log
  proof -
    have wf: "jmap_wf (accounts p)" using ok by (simp add: producer_ok_def)
    have lt: "k < pe_next p" if "jmap_get (accounts p) k = Some a" for k a
      using ok that by (cases a) (auto simp: producer_ok_def)
    have fresh: "jmap_get (accounts p) (pe_next p) = None" using lt [of "pe_next p"] by (cases "jmap_get (accounts p) (pe_next p)") auto
    have sum: "credit_left k (accounts (snd r)) = credit_left k (accounts p) + (if sid = k then credit else 0)" for k
      using sum_jmap_set_new [OF fresh, of "stream_credit k" "(sid, credit)"] by (simp add: acc credit_left_def stream_credit_def)
    have "k < pe_next (snd r) \<and> 0 \<le> d" if "jmap_get (accounts (snd r)) k = Some (i, d)" for k i d
    proof (cases "k = pe_next p")
      case True
      with that pos show ?thesis by (simp add: acc next_r)
    next
      case False
      with that have "jmap_get (accounts p) k = Some (i, d)" by (simp add: acc)
      with ok have "k < pe_next p \<and> 0 \<le> d" unfolding producer_ok_def by blast
      then show ?thesis by (simp add: next_r)
    qed
    moreover have "\<exists>d. jmap_get (accounts (snd r)) k = Some (i, d)" if "jmap_get (pe_outgoing (snd r)) i = Some k" for i k
    proof (cases "i = sid")
      case True
      with that show ?thesis by (simp add: acc out)
    next
      case False
      with that have "jmap_get (pe_outgoing p) i = Some k" by (simp add: out)
      then obtain d where d: "jmap_get (accounts p) k = Some (i, d)" by (rule producer_account [OF ok])
      with lt have "k \<noteq> pe_next p" by blast
      with d show ?thesis by (simp add: acc)
    qed
    moreover have "posted k log + credit_left k (accounts (snd r)) \<le> granted k + (if sid = k then credit else 0)" for k
      using ok by (simp add: producer_ok_def sum)
    moreover have "jmap_wf (accounts (snd r))" using wf by (simp add: acc)
    ultimately show ?thesis unfolding producer_ok_def by blast
  qed
  then show ?thesis by (simp add: keeps_credit_def)
qed

subsection \<open>Every operation\<close>

lemma send_settled_idle: "idles p (send_settled env tok res p)"
proof (cases "jmap_get (pe_sends p) tok")
  case None
  then show ?thesis by (simp add: send_settled_def)
next
  case (Some cont)
  have "idles p (then_do (p\<lparr>pe_sends := s\<rparr>, [PeerReady]) (fail_session e))" for s e
    using idlesD [OF close_idle(2) [of p "p\<lparr>pe_sends := s\<rparr>" e]] by simp
  with Some show ?thesis unfolding send_settled_def
    by (auto simp: Let_def split: send_continuation.splits sum.splits option.splits)
qed

definition frame_grant :: "'p decoded_sidecar_frame result \<Rightarrow> string \<Rightarrow> int" where
  "frame_grant decoded sid = (case decoded of Inr (ControlFrame (StreamCreditEnvelope e)) \<Rightarrow>
     if sc_stream_id e = sid then sc_bytes e else 0 | _ \<Rightarrow> 0)"

lemma grant_frame: "credit_grant sid (PeerFrame ok decoded) = frame_grant decoded sid"
  by (simp add: frame_grant_def split: sum.splits decoded_sidecar_frame.splits sidecar_envelope.splits)

lemma receive_frame_credit:
  assumes "credit_valid (PeerFrame ok decoded :: ('p, 'h) peer_op)"
  shows "keeps_credit (frame_grant decoded) (p :: ('p, 'h) peer) (receive_frame env ok decoded p)"
proof -
  define rec where "rec = (case decoded of
            Inl e \<Rightarrow> thrown e (p, [])
          | Inr (StreamDataFrame f) \<Rightarrow> receive_stream_data env f p
          | Inr (ControlFrame e) \<Rightarrow> receive_envelope env ok e p)"
  obtain q outs err where r: "rec = (q, outs, err)" by (cases rec)
  have none: "keeps_credit (frame_grant decoded) p (p, [])"
    by (rule credit_weaken [OF idles_keeps])
      (use assms in \<open>auto simp: frame_grant_def split: sum.splits decoded_sidecar_frame.splits sidecar_envelope.splits\<close>)
  have "keeps_credit (frame_grant decoded) p (received_step rec)"
  proof (cases "\<exists>e. decoded = Inr (ControlFrame (StreamCreditEnvelope e))")
    case True
    then obtain e where e: "decoded = Inr (ControlFrame (StreamCreditEnvelope e))" by blast
    with assms have "keeps_credit (frame_grant decoded) p (received_step (receive_stream_credit e p))"
      using credit_received_keeps [of e p] by (simp add: frame_grant_def [abs_def])
    with e none show ?thesis by (simp add: rec_def receive_envelope_def)
  next
    case False
    then have "frame_grant decoded = (\<lambda>_. 0)"
      by (auto simp: frame_grant_def fun_eq_iff split: sum.splits decoded_sidecar_frame.splits sidecar_envelope.splits)
    moreover have "idles p (received_step rec)"
      using False by (auto simp: rec_def receive_envelope_def split: sum.splits decoded_sidecar_frame.splits sidecar_envelope.splits)
    ultimately show ?thesis by (simp add: idles_keeps)
  qed
  then have k: "keeps_credit (frame_grant decoded) p (q, outs)" by (simp add: r received_step_def)
  have "receive_frame env ok decoded p = (case err of None \<Rightarrow> then_do (q, outs) (\<lambda>q. (mark_inbound_activity q, []))
      | Some e \<Rightarrow> then_do (q, outs) (\<lambda>q. fail_session e (q\<lparr>pe_reading := False\<rparr>)))"
    using r by (simp add: receive_frame_def rec_def then_do_pair split: option.splits)
  moreover have "keeps_credit (frame_grant decoded) p (then_do (q, outs) (\<lambda>q. (mark_inbound_activity q, [])))"
    "keeps_credit (frame_grant decoded) p (then_do (q, outs) (\<lambda>q. fail_session e (q\<lparr>pe_reading := False\<rparr>)))" for e
    by (rule credit_then [OF k]; simp add: idles_keeps)+
  ultimately show ?thesis by (simp split: option.splits)
qed

lemma register_credit:
  "register_incoming_stream env sid c v credit schema p = Inr r \<Longrightarrow> keeps_credit (\<lambda>_. 0) p (snd r, [])"
  by (rule idles_keeps [OF register_idle])

lemma step_credit:
  assumes "credit_valid op"
  shows "keeps_credit (\<lambda>sid. credit_grant sid op) p (peer_step env op p)"
proof (cases op)
  case (PeerFrame ok decoded)
  have "keeps_credit (frame_grant decoded) p (p, [])"
    by (rule credit_weaken [OF idles_keeps])
      (use assms PeerFrame in \<open>auto simp: frame_grant_def split: sum.splits decoded_sidecar_frame.splits sidecar_envelope.splits\<close>)
  with PeerFrame assms receive_frame_credit [of ok decoded p env] show ?thesis by (simp add: grant_frame)
next
  case (PeerOpenStream sid c v credit)
  have "keeps_credit (\<lambda>k. if sid = k then max 0 credit else 0) p (p, [])"
    by (rule credit_weaken [OF idles_keeps]) simp_all
  moreover have "keeps_credit (\<lambda>k. if sid = k then max 0 credit else 0) p (snd r, [])"
    if "open_outgoing_stream env sid c v credit p = Inr r" for r
    by (rule credit_weaken [OF open_keeps_credit [OF that]]) simp
  ultimately show ?thesis using PeerOpenStream by (simp split: sum.splits)
next
  case PeerStart
  then show ?thesis by (auto simp: start_peer_def intro: idles_keeps)
qed (auto intro: idles_keeps turn_keeps send_settled_idle dest: register_credit split: option.splits sum.splits)

lemma run_credit:
  assumes "list_all credit_valid ops"
  shows "keeps_credit (\<lambda>sid. \<Sum>op\<leftarrow>ops. credit_grant sid op) p (peer_run env ops p)"
  using assms
proof (induction ops arbitrary: p)
  case Nil
  then show ?case by (simp add: idles_keeps)
next
  case (Cons op ops)
  let ?r = "peer_step env op p"
  have one: "keeps_credit (\<lambda>sid. credit_grant sid op) p ?r" using Cons.prems by (simp add: step_credit)
  have rest: "keeps_credit (\<lambda>sid. \<Sum>op\<leftarrow>ops. credit_grant sid op) (fst ?r) (peer_run env ops (fst ?r))"
    using Cons by simp
  show ?case using one rest unfolding keeps_credit_def
    by (simp only: peer_run.simps fst_then_do snd_then_do append_assoc [symmetric] list.map sum_list.Cons add.assoc [symmetric]) blast
qed

lemma credit_left_nonneg: "(\<And>h i c. (h, i, c) \<in> set m \<Longrightarrow> 0 \<le> c) \<Longrightarrow> 0 \<le> credit_left sid m"
  by (induction m) (fastforce simp: credit_left_def stream_credit_def)+

section \<open>Properties\<close>

text \<open>C39. A producer stays within its credit. After any interleaving of operations, the bytes of the data
  frames a peer handed to the transport for a stream identifier are at most the credit given when streams
  of that identifier were opened plus the credit frames received for it; and no stream's account is ever
  overdrawn.\<close>

theorem producer_within_credit:
  assumes "new_peer role nonce registry overrides now = Inr p0" and "peer_run env ops p0 = (p, outs)"
    and "list_all credit_valid ops"
  shows "posted sid outs \<le> (\<Sum>op\<leftarrow>ops. credit_grant sid op) \<and>
    (\<forall>h s. jmap_get (pe_out_streams p) h = Some s \<longrightarrow> 0 \<le> ost_credit s)"
proof -
  let ?granted = "\<lambda>sid. \<Sum>op\<leftarrow>ops. credit_grant sid op"
  have "producer_ok (\<lambda>_. 0) [] p0"
    using assms(1) by (auto simp: producer_ok_def new_peer_def account_map_def credit_left_def split: if_splits sum.splits)
  then have ok: "producer_ok ?granted outs p"
    using run_credit [OF assms(3), of p0 env] assms(2) by (fastforce simp: keeps_credit_def)
  then have nonneg: "0 \<le> c" if "jmap_get (accounts p) h = Some (i, c)" for h i c
    using that by (simp add: producer_ok_def)
  have "0 \<le> credit_left sid (accounts p)"
  proof (rule credit_left_nonneg)
    fix h i c
    assume "(h, i, c) \<in> set (accounts p)"
    with ok have "jmap_get (accounts p) h = Some (i, c)" by (simp add: producer_ok_def)
    then show "0 \<le> c" by (rule nonneg)
  qed
  moreover have "posted sid outs + credit_left sid (accounts p) \<le> ?granted sid" using ok by (simp add: producer_ok_def)
  moreover have "0 \<le> ost_credit s" if "jmap_get (pe_out_streams p) h = Some s" for h s
    using nonneg [of h "ost_stream_id s" "ost_credit s"] that by (simp add: account_get)
  ultimately show ?thesis by auto
qed

section \<open>Witnesses\<close>

text \<open>A sidecar opens a stream with three bytes of credit, sends a chunk of two bytes and queues another one.\<close>

definition shell_start :: "unit operation_definition" where
  "shell_start = \<lparr>op_capability_id = ''shell'', op_major_version = 2, op_operation = ''start'',
     od_request_schema = Some, od_response_schema = Some, od_maximum_deadline = FiniteBound 1000, od_lane = OperationLane\<rparr>"

definition shell_env :: "unit peer_env" where
  "shell_env = example_env\<lparr>env_sha256 := (\<lambda>_. replicate 32 0), env_hello_response := (\<lambda>_. Some \<lparr>hr_compression = NoCompression,
     hr_sidecar_capabilities = [\<lparr>ci_capability_id = ''shell'', ci_major_version = 2, ci_operations = [''start'']\<rparr>],
     hr_sedes_capabilities = [], hr_agent_tool_cli = False\<rparr>)\<rparr>"

definition shell_registry :: "(unit, unit) operation_registry" where
  "shell_registry = (case register shell_start (Handler ()) hello_registry of Inr r \<Rightarrow> r)"

definition shell_peer :: "(unit, unit) peer" where
  "shell_peer = (case new_peer Sidecar (replicate 32 CHR ''n'') shell_registry no_overrides 0 of Inr p \<Rightarrow> p)"

definition shell_ops :: "(unit, unit) peer_op list" where
  "shell_ops = hello_ops @ [PeerOpenStream ''0123'' ''shell'' 2 3, PeerStreamSend 2 Stdout [1, 2] False, PeerStreamTurn 2,
     PeerSendSettled 4 (Inr ()), PeerStreamSend 2 Stdout [3, 4] False]"

text \<open>Sizes are compared as integers when the example is evaluated.\<close>

lemma stream_send_int [code]:
  "stream_send h channel bs aborted p =
     (let promise = pe_next p; p0 = p\<lparr>pe_next := Suc promise\<rparr>
      in if bs = [] \<or> int (length bs) > 1048576
           then (p0, [PromiseRejected promise ''sidecar_stream_chunk_size_invalid''])
         else (upd_out h (\<lambda>s. s\<lparr>ost_chain := ost_chain s @ [SendTask promise channel bs aborted]\<rparr>) p0, []))"
  by (simp add: stream_send_def Let_def)

lemma encode_data_int [code]:
  "encode_sidecar_stream_data_frame is_uuid sha256 f =
     (case encode_uuid is_uuid (sd_stream_id f) of
        Inl e \<Rightarrow> Inl e
      | Inr stream_id \<Rightarrow>
        (case session_binding_for sha256 (sd_session_nonce f) of
           Inl e \<Rightarrow> Inl e
         | Inr binding \<Rightarrow>
             if \<not> is_safe_integer (sd_sequence f) \<or> sd_sequence f < 0
               then Inl ''sidecar_protocol_stream_sequence_invalid''
             else if sd_bytes f = [] \<or> int (length (sd_bytes f)) > 1048576
               then Inl ''sidecar_stream_chunk_size_invalid''
             else Inr ([sidecar_stream_data_frame_tag] @ write_be 2 sidecar_wire_version @ binding @
               [encode_origin (sd_origin f)] @ [encode_channel (sd_channel f)] @ stream_id @
               write_be 8 (nat (sd_sequence f)) @ sd_bytes f)))"
  by (simp add: encode_sidecar_stream_data_frame_def maximum_stream_data_bytes_def split: sum.splits)

theorem producer_within_credit_witness:
  "posted ''0123'' (snd (peer_run shell_env shell_ops shell_peer)) = 2 \<and>
   posted ''0123'' (snd (peer_run shell_env shell_ops shell_peer)) \<le> 3"
proof -
  have new: "new_peer Sidecar (replicate 32 CHR ''n'') shell_registry no_overrides 0 = Inr shell_peer"
    by code_simp
  have valid: "list_all credit_valid shell_ops" and granted: "(\<Sum>op\<leftarrow>shell_ops. credit_grant ''0123'' op) = 3"
    by code_simp+
  have "posted ''0123'' (snd (peer_run shell_env shell_ops shell_peer)) = 2" by code_simp
  with producer_within_credit [OF new prod.collapse [symmetric] valid, of "''0123''" shell_env] granted show ?thesis by simp
qed

end
