(* ===== verification/InputSequencer.thy ===== *)
theory InputSequencer
  imports Bytes
begin

text \<open>
  The controller-local ledger of terminal input, \<^verbatim>\<open>client/terminals/input-sequencer.ts\<close>. A
  controller numbers its input, keeps the bytes of every unacknowledged entry in a bounded window,
  retires the accepted prefix when the server reports its high-water mark, and replays the rest after
  a reattach or a gap. \<^verbatim>\<open>#pending\<close> is a \<^verbatim>\<open>Map\<close> from sequence number to entry, here the
  association list \<open>sq_pending\<close> in insertion order; an entry object that the code changes after it
  has left the map is not reachable any more, so \<open>set_state\<close> changes only entries still in the list.

  Operations that can throw (\<^verbatim>\<open>assertNonnegativeSafeInteger\<close>) return a \<open>result\<close>; sequence numbers
  and epochs are integers, as the wire schema admits.
\<close>

section \<open>Definitions\<close>

datatype input_outcome = Accepted | Duplicate | NotSent | SentOutcomeUnknown | Rejected

record sequenced_input =
  in_incarnation :: string
  in_epoch :: int
  in_producer :: string
  in_seq :: int
  in_bytes :: bytes

datatype block_reason = NotController | NotReconciled | WindowFull | DeliveryUncertain

datatype sequence_result = Sequenced sequenced_input | Blocked block_reason

datatype pending_state = Sent | Replay | Replayed | Retryable

record pending_input =
  pi_input :: sequenced_input
  pi_state :: pending_state

definition max_in_flight_entries :: nat where
  "max_in_flight_entries = 24"

definition max_in_flight_bytes :: int where
  "max_in_flight_bytes = 128 * 1024"

record sequencer =
  sq_producer :: string
  sq_incarnation :: "string option"
  sq_epoch :: "int option"
  sq_next :: "int option"
  sq_pending :: "(int, pending_input) jmap"
  sq_bytes :: int
  sq_uncertain :: "int option"

definition new_sequencer :: "string \<Rightarrow> sequencer result" where
  "new_sequencer producer = (if producer = [] then Inl ''terminal_producer_id_required''
     else Inr \<lparr>sq_producer = producer, sq_incarnation = None, sq_epoch = None, sq_next = None,
       sq_pending = [], sq_bytes = 0, sq_uncertain = None\<rparr>)"

definition authority_available :: "sequencer \<Rightarrow> bool" where
  "authority_available q \<longleftrightarrow> sq_incarnation q \<noteq> None \<and> sq_epoch q \<noteq> None \<and> sq_next q \<noteq> None"

definition retry_available :: "sequencer \<Rightarrow> bool" where
  "retry_available q = (case sq_pending q of [] \<Rightarrow> False | e # _ \<Rightarrow> pi_state (snd e) = Retryable)"

definition queueing_available :: "sequencer \<Rightarrow> bool" where
  "queueing_available q \<longleftrightarrow> authority_available q \<and> sq_uncertain q = None \<and> \<not> retry_available q"

definition input_available :: "sequencer \<Rightarrow> bool" where
  "input_available q \<longleftrightarrow> authority_available q \<and> sq_uncertain q = None \<and> \<not> retry_available q \<and>
     length (sq_pending q) < max_in_flight_entries \<and> sq_bytes q < max_in_flight_bytes"

definition first_pending_input :: "sequencer \<Rightarrow> sequenced_input option" where
  "first_pending_input q = (case sq_pending q of [] \<Rightarrow> None | e # _ \<Rightarrow> Some (pi_input (snd e)))"

definition entry_bytes :: "int \<times> pending_input \<Rightarrow> int" where
  "entry_bytes e = int (length (in_bytes (pi_input (snd e))))"

definition retire_through :: "int \<Rightarrow> sequencer \<Rightarrow> sequencer" where
  "retire_through high_water q = q\<lparr>
     sq_pending := dropWhile (\<lambda>e. fst e \<le> high_water) (sq_pending q),
     sq_bytes := sq_bytes q -
       sum_list (map entry_bytes (takeWhile (\<lambda>e. fst e \<le> high_water) (sq_pending q)))\<rparr>"

definition assert_nonnegative_safe_integer :: "int \<Rightarrow> string \<Rightarrow> unit result" where
  "assert_nonnegative_safe_integer x name =
     (if \<not> is_safe_integer x \<or> x < 0 then Inl (''terminal_'' @ name @ ''_invalid'') else Inr ())"

definition set_state :: "int \<Rightarrow> pending_state \<Rightarrow> sequencer \<Rightarrow> sequencer" where
  "set_state seq st q = q\<lparr>sq_pending :=
     jmap_map (\<lambda>k e. if k = seq then e\<lparr>pi_state := st\<rparr> else e) (sq_pending q)\<rparr>"

definition readdress :: "string \<Rightarrow> int \<Rightarrow> int option \<Rightarrow> int \<Rightarrow> pending_input \<Rightarrow> pending_input" where
  "readdress incarnation epoch uncertain seq e = e\<lparr>
     pi_input := (pi_input e)\<lparr>in_incarnation := incarnation, in_epoch := epoch\<rparr>,
     pi_state := (case uncertain of None \<Rightarrow> Replay | Some u \<Rightarrow> if seq < u then Replay else pi_state e)\<rparr>"

definition adopt_controller :: "string \<Rightarrow> int \<Rightarrow> int \<Rightarrow> sequencer \<Rightarrow> sequencer result" where
  "adopt_controller incarnation epoch accepted q =
     (case assert_nonnegative_safe_integer epoch ''controller_epoch'' of Inl e \<Rightarrow> Inl e | Inr _ \<Rightarrow>
      case assert_nonnegative_safe_integer accepted ''last_accepted_input_seq'' of Inl e \<Rightarrow> Inl e | Inr _ \<Rightarrow>
        let q1 = retire_through accepted q;
            newest = (case rev (sq_pending q1) of [] \<Rightarrow> accepted | e # _ \<Rightarrow> fst e);
            uncertain = (case sq_uncertain q1 of
               None \<Rightarrow> None | Some u \<Rightarrow> if u \<le> accepted then None else Some u)
        in Inr (q1\<lparr>sq_incarnation := Some incarnation, sq_epoch := Some epoch,
             sq_next := Some (max (accepted + 1) (newest + 1)), sq_uncertain := uncertain,
             sq_pending := jmap_map (readdress incarnation epoch uncertain) (sq_pending q1)\<rparr>))"

definition drop_authority :: "sequencer \<Rightarrow> sequencer" where
  "drop_authority q = q\<lparr>sq_incarnation := None, sq_epoch := None, sq_next := None\<rparr>"

definition lose_control :: "int option \<Rightarrow> sequencer \<Rightarrow> sequencer result" where
  "lose_control accepted q = (case accepted of
     None \<Rightarrow> Inr (drop_authority q)
   | Some n \<Rightarrow> (case assert_nonnegative_safe_integer n ''last_accepted_input_seq'' of
       Inl e \<Rightarrow> Inl e | Inr _ \<Rightarrow> Inr (drop_authority (retire_through n q))))"

definition sequence_input :: "bytes \<Rightarrow> sequencer \<Rightarrow> sequencer \<times> sequence_result" where
  "sequence_input bs q = (case (sq_incarnation q, sq_epoch q) of
     (Some incarnation, Some epoch) \<Rightarrow> (case sq_next q of
       None \<Rightarrow> (q, Blocked NotReconciled)
     | Some n \<Rightarrow>
         if sq_uncertain q \<noteq> None then (q, Blocked DeliveryUncertain)
         else if bs = [] \<or> max_in_flight_entries \<le> length (sq_pending q) \<or>
                 max_in_flight_bytes < sq_bytes q + int (length bs)
         then (q, Blocked WindowFull)
         else let i = \<lparr>in_incarnation = incarnation, in_epoch = epoch, in_producer = sq_producer q,
                       in_seq = n, in_bytes = bs\<rparr>
              in (q\<lparr>sq_next := Some (n + 1),
                    sq_pending := jmap_set n \<lparr>pi_input = i, pi_state = Sent\<rparr> (sq_pending q),
                    sq_bytes := sq_bytes q + int (length bs)\<rparr>, Sequenced i))
   | _ \<Rightarrow> (q, Blocked NotController))"

definition default_last_accepted :: "int \<Rightarrow> input_outcome \<Rightarrow> int" where
  "default_last_accepted seq outcome = (if outcome = Accepted \<or> outcome = Duplicate then seq else seq - 1)"

definition reopen_gap :: "int \<Rightarrow> sequencer \<Rightarrow> sequencer" where
  "reopen_gap accepted q = q\<lparr>sq_pending := jmap_map (\<lambda>k e.
     if accepted < k \<and> pi_state e \<noteq> Retryable then e\<lparr>pi_state := Replay\<rparr> else e) (sq_pending q)\<rparr>"

definition resolve_input ::
  "int \<Rightarrow> input_outcome \<Rightarrow> int option \<Rightarrow> string option \<Rightarrow> sequencer \<Rightarrow> sequencer" where
  "resolve_input seq outcome last_accepted message q =
     (let accepted = (case last_accepted of None \<Rightarrow> default_last_accepted seq outcome | Some n \<Rightarrow> n);
          known = jmap_has (sq_pending q) seq
      in if \<not> known \<and> accepted < seq then q
         else let q1 = retire_through accepted q in (case outcome of
           Accepted \<Rightarrow> q1
         | Duplicate \<Rightarrow> q1
         | NotSent \<Rightarrow> set_state seq Retryable q1
         | SentOutcomeUnknown \<Rightarrow> set_state seq Sent (q1\<lparr>sq_uncertain := Some seq\<rparr>)
         | Rejected \<Rightarrow> if message = Some ''input_gap'' then reopen_gap accepted q1 else q1))"

fun first_replay :: "(int, pending_input) jmap \<Rightarrow> (int \<times> sequenced_input) option" where
  "first_replay [] = None"
| "first_replay ((k, e) # es) = (case pi_state e of
     Replayed \<Rightarrow> first_replay es
   | Replay \<Rightarrow> Some (k, pi_input e)
   | _ \<Rightarrow> None)"

definition next_replay :: "sequencer \<Rightarrow> sequencer \<times> sequenced_input option" where
  "next_replay q = (if \<not> authority_available q \<or> sq_uncertain q \<noteq> None then (q, None)
     else case first_replay (sq_pending q) of
       None \<Rightarrow> (q, None)
     | Some (k, i) \<Rightarrow> (set_state k Replayed q, Some i))"

definition retry_not_sent :: "sequencer \<Rightarrow> sequencer \<times> sequenced_input option" where
  "retry_not_sent q = (if \<not> authority_available q \<or> sq_uncertain q \<noteq> None then (q, None)
     else case sq_pending q of
       [] \<Rightarrow> (q, None)
     | (k, e) # _ \<Rightarrow> if pi_state e \<noteq> Retryable then (q, None)
                     else (set_state k Sent q, Some (pi_input e)))"

definition discard_uncertain :: "sequencer \<Rightarrow> sequencer \<times> bool" where
  "discard_uncertain q = (case sq_uncertain q of
     None \<Rightarrow> (q, False)
   | Some u \<Rightarrow> if \<not> authority_available q then (q, False)
       else (q\<lparr>sq_pending := filter (\<lambda>e. fst e < u) (sq_pending q),
               sq_bytes := sq_bytes q - sum_list (map entry_bytes (filter (\<lambda>e. u \<le> fst e) (sq_pending q))),
               sq_uncertain := None, sq_next := Some u\<rparr>, True))"

definition mark_not_sent :: "int \<Rightarrow> sequencer \<Rightarrow> sequencer" where
  "mark_not_sent seq q = set_state seq Retryable q"

subsection \<open>States a client can bring the ledger into\<close>

inductive sequencer_reachable :: "string \<Rightarrow> sequencer \<Rightarrow> bool" for producer where
  start: "new_sequencer producer = Inr q \<Longrightarrow> sequencer_reachable producer q"
| adopted: "sequencer_reachable producer q \<Longrightarrow> adopt_controller inc epoch n q = Inr q' \<Longrightarrow>
    sequencer_reachable producer q'"
| lost: "sequencer_reachable producer q \<Longrightarrow> lose_control n q = Inr q' \<Longrightarrow> sequencer_reachable producer q'"
| sequenced: "sequencer_reachable producer q \<Longrightarrow> sequencer_reachable producer (fst (sequence_input bs q))"
| resolved: "sequencer_reachable producer q \<Longrightarrow>
    sequencer_reachable producer (resolve_input seq outcome n message q)"
| replayed: "sequencer_reachable producer q \<Longrightarrow> sequencer_reachable producer (fst (next_replay q))"
| retried: "sequencer_reachable producer q \<Longrightarrow> sequencer_reachable producer (fst (retry_not_sent q))"
| discarded: "sequencer_reachable producer q \<Longrightarrow> sequencer_reachable producer (fst (discard_uncertain q))"
| marked: "sequencer_reachable producer q \<Longrightarrow> sequencer_reachable producer (mark_not_sent seq q)"

fun consecutive :: "int list \<Rightarrow> bool" where
  "consecutive (a # b # ks) \<longleftrightarrow> b = a + 1 \<and> consecutive (b # ks)"
| "consecutive _ \<longleftrightarrow> True"

definition pending_keys :: "sequencer \<Rightarrow> int list" where
  "pending_keys q = map fst (sq_pending q)"

definition entry_ok :: "sequencer \<Rightarrow> int \<times> pending_input \<Rightarrow> bool" where
  "entry_ok q e \<longleftrightarrow> in_seq (pi_input (snd e)) = fst e \<and> in_bytes (pi_input (snd e)) \<noteq> [] \<and>
     in_producer (pi_input (snd e)) = sq_producer q \<and>
     (authority_available q \<longrightarrow> sq_incarnation q = Some (in_incarnation (pi_input (snd e))) \<and>
        sq_epoch q = Some (in_epoch (pi_input (snd e))))"

definition sequencer_ok :: "sequencer \<Rightarrow> bool" where
  "sequencer_ok q \<longleftrightarrow>
     consecutive (pending_keys q) \<and> (\<forall>e \<in> set (sq_pending q). entry_ok q e) \<and>
     sq_bytes q = sum_list (map entry_bytes (sq_pending q)) \<and>
     length (sq_pending q) \<le> max_in_flight_entries \<and> sq_bytes q \<le> max_in_flight_bytes \<and>
     (sq_incarnation q = None \<longleftrightarrow> sq_next q = None) \<and> (sq_epoch q = None \<longleftrightarrow> sq_next q = None) \<and>
     (\<forall>n. sq_next q = Some n \<longrightarrow> pending_keys q \<noteq> [] \<longrightarrow> n = last (pending_keys q) + 1) \<and>
     (\<forall>u. sq_uncertain q = Some u \<longrightarrow> u \<in> set (pending_keys q) \<or> (\<forall>k \<in> set (pending_keys q). u < k))"

section \<open>Lemmas\<close>

subsection \<open>Runs of consecutive numbers\<close>

lemma consecutive_Cons: "consecutive (a # ks) \<longleftrightarrow> consecutive ks \<and> (ks = [] \<or> hd ks = a + 1)"
  by (cases ks) auto

lemma consecutive_snoc: "consecutive (ks @ [a]) \<longleftrightarrow> consecutive ks \<and> (ks = [] \<or> a = last ks + 1)"
  by (induction ks) (auto simp: consecutive_Cons hd_append)

lemma consecutive_above: "consecutive (a # ks) \<Longrightarrow> k \<in> set ks \<Longrightarrow> a < k"
  by (induction ks arbitrary: a) fastforce+

lemma consecutive_dropWhile: "consecutive ks \<Longrightarrow> consecutive (dropWhile P ks)"
  by (induction ks) (auto simp: consecutive_Cons)

lemma consecutive_takeWhile: "consecutive ks \<Longrightarrow> consecutive (takeWhile P ks)"
  by (induction ks rule: consecutive.induct) auto

lemma consecutive_distinct: "consecutive ks \<Longrightarrow> distinct ks"
proof (induction ks)
  case (Cons a ks)
  then show ?case
    using consecutive_above [of a ks a] by (auto simp: consecutive_Cons)
qed simp

lemma consecutive_le_last: "consecutive ks \<Longrightarrow> k \<in> set ks \<Longrightarrow> k \<le> last ks"
proof (induction ks)
  case (Cons a ks)
  then show ?case
    using consecutive_above [of a ks "last ks"] by (cases "ks = []") (auto simp: consecutive_Cons)
qed simp

lemma filter_below_consecutive:
  "consecutive (map fst es) \<Longrightarrow> filter (\<lambda>e. fst e < u) es = takeWhile (\<lambda>e. fst e < (u :: int)) es"
proof (induction es)
  case (Cons e es)
  then have "fst e < fst x" if "x \<in> set es" for x
    using consecutive_above that by fastforce
  then have "filter (\<lambda>e. fst e < u) es = []" if "\<not> fst e < u"
    using that by (force simp: filter_empty_conv)
  then show ?case
    using Cons by (simp add: consecutive_Cons)
qed simp

lemma last_below_consecutive:
  "consecutive ks \<Longrightarrow> u \<in> set ks \<Longrightarrow> takeWhile (\<lambda>k. k < u) ks \<noteq> [] \<Longrightarrow>
     last (takeWhile (\<lambda>k. k < u) ks) + 1 = u"
  by (induction ks rule: consecutive.induct) (auto split: if_splits dest: consecutive_above)

lemma dropWhile_above: "consecutive ks \<Longrightarrow> k \<in> set (dropWhile (\<lambda>k. k \<le> n) ks) \<Longrightarrow> n < k"
  by (induction ks) (fastforce simp: consecutive_Cons split: if_splits dest: consecutive_above)+

lemma in_dropWhile_above: "k \<in> set ks \<Longrightarrow> n < k \<Longrightarrow> k \<in> set (dropWhile (\<lambda>k. k \<le> (n :: int)) ks)"
  by (induction ks) auto

subsection \<open>What each operation keeps of the ledger\<close>

lemma pending_keys_simps [simp]:
  "pending_keys (set_state k st q) = pending_keys q"
  "pending_keys (reopen_gap n q) = pending_keys q"
  "pending_keys (retire_through n q) = dropWhile (\<lambda>k. k \<le> n) (pending_keys q)"
  by (simp_all add: pending_keys_def set_state_def reopen_gap_def retire_through_def dropWhile_map comp_def)

lemma retire_through_simps [simp]:
  "sq_uncertain (retire_through n q) = sq_uncertain q" "sq_next (retire_through n q) = sq_next q"
  "sq_epoch (retire_through n q) = sq_epoch q" "sq_producer (retire_through n q) = sq_producer q"
  "sq_incarnation (retire_through n q) = sq_incarnation q"
  "sq_pending (retire_through n q) = dropWhile (\<lambda>e. fst e \<le> n) (sq_pending q)"
  by (simp_all add: retire_through_def)

lemma authority_simps [simp]:
  "authority_available (set_state k st q) = authority_available q"
  "authority_available (reopen_gap n q) = authority_available q"
  "authority_available (retire_through n q) = authority_available q"
  "\<not> authority_available (drop_authority q)"
  by (simp_all add: authority_available_def set_state_def reopen_gap_def retire_through_def drop_authority_def)

lemma entry_bytes_map [simp]:
  assumes "\<And>k e. in_bytes (pi_input (g k e)) = in_bytes (pi_input e)"
  shows "map entry_bytes (jmap_map g es) = map entry_bytes es"
  using assms by (induction es) (auto simp: entry_bytes_def)

lemma sequencer_ok_map:
  assumes ok: "sequencer_ok q"
    and same: "\<And>k e. (k, e) \<in> set (sq_pending q) \<Longrightarrow> pi_input (g k e) = pi_input e"
    and q': "q' = q\<lparr>sq_pending := jmap_map g (sq_pending q)\<rparr>"
  shows "sequencer_ok q'"
proof -
  have bytes: "map entry_bytes (jmap_map g (sq_pending q)) = map entry_bytes (sq_pending q)"
    using same by (auto simp: jmap_map_def entry_bytes_def)
  have entries: "\<forall>e \<in> set (jmap_map g (sq_pending q)). entry_ok q' e"
    using ok same by (fastforce simp: sequencer_ok_def entry_ok_def q' jmap_map_def authority_available_def)
  have keys: "pending_keys q' = pending_keys q" "length (jmap_map g (sq_pending q)) = length (sq_pending q)"
    by (simp_all add: pending_keys_def q' jmap_map_def [of _ "sq_pending q"] comp_def split_def)
  show ?thesis
    using ok bytes entries keys unfolding sequencer_ok_def by (simp add: q')
qed

lemma set_state_ok [sedes_inv]: "sequencer_ok q \<Longrightarrow> sequencer_ok (set_state k st q)"
  by (rule sequencer_ok_map [OF _ _ set_state_def]) auto

lemma reopen_gap_ok [sedes_inv]: "sequencer_ok q \<Longrightarrow> sequencer_ok (reopen_gap n q)"
  by (rule sequencer_ok_map [OF _ _ reopen_gap_def]) auto

lemma sum_takeWhile_dropWhile:
  "sum_list (map f (takeWhile P xs)) + sum_list (map f (dropWhile P xs)) = (sum_list (map f xs) :: int)"
  by (metis map_append sum_list.append takeWhile_dropWhile_id)

lemma sum_entry_bytes_nonneg: "0 \<le> sum_list (map entry_bytes es)"
  by (auto intro!: sum_list_nonneg simp: entry_bytes_def)

lemma last_dropWhile: "dropWhile P ks \<noteq> [] \<Longrightarrow> last (dropWhile P ks) = last ks"
  by (induction ks) auto

lemma retire_through_ok [sedes_inv]:
  assumes ok: "sequencer_ok q"
  shows "sequencer_ok (retire_through n q)"
proof -
  let ?q = "retire_through n q"
  have keys: "consecutive (pending_keys ?q)"
    using ok by (simp add: sequencer_ok_def consecutive_dropWhile)
  have entries: "\<forall>e \<in> set (sq_pending ?q). entry_ok ?q e"
    using ok by (auto simp: sequencer_ok_def retire_through_def entry_ok_def authority_available_def
        dest: set_dropWhileD)
  have bytes: "sq_bytes ?q = sum_list (map entry_bytes (sq_pending ?q))"
    using ok sum_takeWhile_dropWhile [of entry_bytes "\<lambda>e. fst e \<le> n" "sq_pending q"]
    by (simp add: sequencer_ok_def retire_through_def)
  have small: "sq_bytes ?q \<le> max_in_flight_bytes"
    using ok sum_entry_bytes_nonneg by (simp add: sequencer_ok_def retire_through_def)
      (smt (verit) sum_entry_bytes_nonneg)
  have few: "length (sq_pending ?q) \<le> max_in_flight_entries"
    using ok length_dropWhile_le [of "\<lambda>e. fst e \<le> n" "sq_pending q"]
    by (auto simp: sequencer_ok_def retire_through_def)
  have uncertain: "u \<in> set (pending_keys ?q) \<or> (\<forall>k \<in> set (pending_keys ?q). u < k)"
    if "sq_uncertain ?q = Some u" for u
  proof (cases "u \<le> n")
    case True
    then show ?thesis
      using ok dropWhile_above [of "pending_keys q"] by (fastforce simp: sequencer_ok_def)
  next
    case False
    then show ?thesis
      using ok that in_dropWhile_above [of u "pending_keys q" n]
      by (auto simp: sequencer_ok_def dest: set_dropWhileD)
  qed
  have follows: "n' = last (pending_keys ?q) + 1" if "sq_next ?q = Some n'" "pending_keys ?q \<noteq> []" for n'
    using ok that by (auto simp: sequencer_ok_def last_dropWhile)
  show ?thesis
    using ok keys entries bytes small few uncertain follows unfolding sequencer_ok_def by auto
qed

lemma drop_authority_ok [sedes_inv]: "sequencer_ok q \<Longrightarrow> sequencer_ok (drop_authority q)"
  by (auto simp: sequencer_ok_def drop_authority_def entry_ok_def authority_available_def pending_keys_def)

lemma lose_control_ok: "sequencer_ok q \<Longrightarrow> lose_control n q = Inr q' \<Longrightarrow> sequencer_ok q'"
  by (auto simp: lose_control_def sedes_inv split: option.splits sum.splits)

lemma entry_ok_uncertain [simp]: "entry_ok (q\<lparr>sq_uncertain := u\<rparr>) e = entry_ok q e"
  by (simp add: entry_ok_def authority_available_def)

lemma uncertain_ok [sedes_inv]:
  "sequencer_ok q \<Longrightarrow> u \<in> set (pending_keys q) \<or> (\<forall>k \<in> set (pending_keys q). u < k) \<Longrightarrow>
     sequencer_ok (q\<lparr>sq_uncertain := Some u\<rparr>)"
  by (simp add: sequencer_ok_def pending_keys_def)

lemma jmap_has_pending: "jmap_has (sq_pending q) k \<longleftrightarrow> k \<in> set (pending_keys q)"
  by (auto simp: jmap_has_def pending_keys_def map_of_eq_None_iff)

lemma retired_uncertain:
  assumes ok: "sequencer_ok q" and known: "seq \<in> set (pending_keys q) \<or> seq \<le> m"
  shows "sequencer_ok ((retire_through m q)\<lparr>sq_uncertain := Some seq\<rparr>)"
proof (rule uncertain_ok [OF retire_through_ok [OF ok]])
  show "seq \<in> set (pending_keys (retire_through m q)) \<or> (\<forall>k \<in> set (pending_keys (retire_through m q)). seq < k)"
    using ok known in_dropWhile_above [of seq "pending_keys q" m] dropWhile_above [of "pending_keys q" _ m]
    by (cases "seq \<le> m") (fastforce simp: sequencer_ok_def)+
qed

definition resolve_mark :: "int \<Rightarrow> input_outcome \<Rightarrow> int option \<Rightarrow> int" where
  "resolve_mark seq outcome n = (case n of None \<Rightarrow> default_last_accepted seq outcome | Some k \<Rightarrow> k)"

lemma resolve_input_cases:
  "resolve_input seq outcome n message q =
     (if seq \<notin> set (pending_keys q) \<and> resolve_mark seq outcome n < seq then q
      else let q1 = retire_through (resolve_mark seq outcome n) q in (case outcome of
           NotSent \<Rightarrow> set_state seq Retryable q1
         | SentOutcomeUnknown \<Rightarrow> set_state seq Sent (q1\<lparr>sq_uncertain := Some seq\<rparr>)
         | Rejected \<Rightarrow> if message = Some ''input_gap'' then reopen_gap (resolve_mark seq outcome n) q1 else q1
         | _ \<Rightarrow> q1))"
  by (cases outcome) (simp_all add: resolve_input_def resolve_mark_def Let_def jmap_has_pending)

lemma resolve_input_ok [sedes_inv]:
  assumes ok: "sequencer_ok q"
  shows "sequencer_ok (resolve_input seq outcome n message q)"
  using ok retired_uncertain [OF ok, of seq "resolve_mark seq outcome n"]
  by (cases outcome) (simp_all add: resolve_input_cases Let_def sedes_inv not_less)

lemma next_replay_ok [sedes_inv]: "sequencer_ok q \<Longrightarrow> sequencer_ok (fst (next_replay q))"
  by (auto simp: next_replay_def sedes_inv split: option.splits)

lemma retry_not_sent_ok [sedes_inv]: "sequencer_ok q \<Longrightarrow> sequencer_ok (fst (retry_not_sent q))"
  by (auto simp: retry_not_sent_def sedes_inv split: list.splits)

lemma mark_not_sent_ok [sedes_inv]: "sequencer_ok q \<Longrightarrow> sequencer_ok (mark_not_sent k q)"
  by (simp add: mark_not_sent_def sedes_inv)

lemma sum_filter_split:
  "sum_list (map f (filter P xs)) + sum_list (map f (filter (\<lambda>x. \<not> P x) xs)) = (sum_list (map f xs) :: int)"
  by (induction xs) auto

lemma discard_uncertain_ok [sedes_inv]:
  assumes ok: "sequencer_ok q"
  shows "sequencer_ok (fst (discard_uncertain q))"
proof (cases "sq_uncertain q = None \<or> \<not> authority_available q")
  case True
  then show ?thesis
    using ok by (auto simp: discard_uncertain_def split: option.splits)
next
  case False
  then obtain u where u: "sq_uncertain q = Some u" and auth: "authority_available q"
    by auto
  let ?q = "fst (discard_uncertain q)"
  have q: "?q = q\<lparr>sq_pending := filter (\<lambda>e. fst e < u) (sq_pending q),
      sq_bytes := sq_bytes q - sum_list (map entry_bytes (filter (\<lambda>e. u \<le> fst e) (sq_pending q))),
      sq_uncertain := None, sq_next := Some u\<rparr>"
    using u auth by (simp add: discard_uncertain_def)
  have kept: "pending_keys ?q = takeWhile (\<lambda>k. k < u) (pending_keys q)"
    using ok by (simp add: q pending_keys_def filter_below_consecutive sequencer_ok_def takeWhile_map comp_def)
  have bytes: "sq_bytes ?q = sum_list (map entry_bytes (sq_pending ?q))"
    using ok sum_filter_split [of entry_bytes "\<lambda>e. fst e < u" "sq_pending q"]
    by (simp add: q sequencer_ok_def not_less)
  have small: "sq_bytes ?q \<le> max_in_flight_bytes" "length (sq_pending ?q) \<le> max_in_flight_entries"
    using ok sum_entry_bytes_nonneg [of "filter (\<lambda>e. u \<le> fst e) (sq_pending q)"]
      le_trans [OF length_filter_le [of "\<lambda>e. fst e < u" "sq_pending q"]]
    by (simp_all add: q sequencer_ok_def)
  have entries: "\<forall>e \<in> set (sq_pending ?q). entry_ok ?q e"
    using ok auth by (auto simp: q sequencer_ok_def entry_ok_def authority_available_def)
  have follows: "pending_keys ?q = [] \<or> last (pending_keys ?q) + 1 = u"
  proof (cases "pending_keys ?q = []")
    case False
    have "hd (pending_keys q) < u" "hd (pending_keys q) \<in> set (pending_keys q)"
      using kept False by (auto simp: takeWhile_eq_Nil_iff)
    moreover have "u \<in> set (pending_keys q) \<or> (\<forall>k \<in> set (pending_keys q). u < k)"
      using ok u by (simp add: sequencer_ok_def)
    ultimately have "u \<in> set (pending_keys q)"
      by force
    then show ?thesis
      using ok kept False last_below_consecutive [of "pending_keys q" u] by (simp add: sequencer_ok_def)
  qed simp
  have "consecutive (pending_keys ?q)"
    using ok kept by (simp add: sequencer_ok_def consecutive_takeWhile)
  moreover have "sq_incarnation ?q \<noteq> None" "sq_epoch ?q \<noteq> None" "sq_next ?q = Some u" "sq_uncertain ?q = None"
    using auth by (simp_all add: q authority_available_def)
  ultimately show ?thesis
    using bytes small entries follows unfolding sequencer_ok_def by auto
qed

lemma sequence_input_cases:
  obtains (blocked) reason where "sequence_input bs q = (q, Blocked reason)"
  | (sequenced) inc epoch n where "sq_incarnation q = Some inc" "sq_epoch q = Some epoch" "sq_next q = Some n"
      "sq_uncertain q = None" "bs \<noteq> []" "length (sq_pending q) < max_in_flight_entries"
      "sq_bytes q + int (length bs) \<le> max_in_flight_bytes"
      "sequence_input bs q = (q\<lparr>sq_next := Some (n + 1),
         sq_pending := jmap_set n \<lparr>pi_input = \<lparr>in_incarnation = inc, in_epoch = epoch,
           in_producer = sq_producer q, in_seq = n, in_bytes = bs\<rparr>, pi_state = Sent\<rparr> (sq_pending q),
         sq_bytes := sq_bytes q + int (length bs)\<rparr>,
         Sequenced \<lparr>in_incarnation = inc, in_epoch = epoch, in_producer = sq_producer q, in_seq = n, in_bytes = bs\<rparr>)"
proof (cases "(\<exists>reason. sequence_input bs q = (q, Blocked reason))")
  case True
  then show ?thesis
    using blocked by blast
next
  case False
  then obtain inc epoch n where
    "sq_incarnation q = Some inc" "sq_epoch q = Some epoch" "sq_next q = Some n"
    by (cases "sq_incarnation q"; cases "sq_epoch q"; cases "sq_next q") (auto simp: sequence_input_def)
  then show ?thesis
    using False sequenced by (auto simp: sequence_input_def Let_def split: if_splits)
qed

lemma next_is_fresh:
  assumes "sequencer_ok q" "sq_next q = Some n"
  shows "jmap_get (sq_pending q) n = None"
proof -
  have "n \<notin> set (pending_keys q)"
    using assms consecutive_le_last [of "pending_keys q" n] by (fastforce simp: sequencer_ok_def)
  then show ?thesis
    by (simp add: pending_keys_def map_of_eq_None_iff)
qed

lemma sequence_input_ok [sedes_inv]:
  assumes ok: "sequencer_ok q"
  shows "sequencer_ok (fst (sequence_input bs q))"
proof (cases rule: sequence_input_cases [of bs q])
  case (blocked reason)
  then show ?thesis
    using ok by simp
next
  case (sequenced inc epoch n)
  let ?q = "fst (sequence_input bs q)"
  let ?i = "\<lparr>in_incarnation = inc, in_epoch = epoch, in_producer = sq_producer q, in_seq = n, in_bytes = bs\<rparr>"
  let ?e = "(n, \<lparr>pi_input = ?i, pi_state = Sent\<rparr>)"
  have q: "?q = q\<lparr>sq_next := Some (n + 1), sq_pending := sq_pending q @ [?e],
      sq_bytes := sq_bytes q + int (length bs)\<rparr>"
    using sequenced jmap_set_absent [OF next_is_fresh [OF ok]] by simp
  have keys: "pending_keys ?q = pending_keys q @ [n]"
    by (simp add: q pending_keys_def)
  have fresh: "pending_keys q = [] \<or> n = last (pending_keys q) + 1"
    using ok sequenced by (auto simp: sequencer_ok_def)
  have entries: "\<forall>e \<in> set (sq_pending ?q). entry_ok ?q e"
    using ok sequenced(1-5) by (auto simp: q sequencer_ok_def entry_ok_def authority_available_def)
  show ?thesis
    using ok sequenced(1-7) keys fresh entries unfolding sequencer_ok_def
    by (auto simp: q consecutive_snoc entry_bytes_def)
qed

lemma adopt_controller_cases:
  assumes "adopt_controller inc epoch n q = Inr q'" and ok: "sequencer_ok q"
  obtains uncertain where
    "uncertain = (case sq_uncertain q of None \<Rightarrow> None | Some u \<Rightarrow> if u \<le> n then None else Some u)"
    "q' = (retire_through n q)\<lparr>sq_incarnation := Some inc, sq_epoch := Some epoch,
       sq_next := Some ((if pending_keys (retire_through n q) = [] then n else last (pending_keys (retire_through n q))) + 1),
       sq_uncertain := uncertain,
       sq_pending := jmap_map (readdress inc epoch uncertain) (sq_pending (retire_through n q))\<rparr>"
proof -
  let ?q = "retire_through n q"
  let ?uncertain = "case sq_uncertain q of None \<Rightarrow> None | Some u \<Rightarrow> if u \<le> n then None else Some u"
  have newest: "(case rev (sq_pending ?q) of [] \<Rightarrow> n | e # _ \<Rightarrow> fst e) =
      (if pending_keys ?q = [] then n else last (pending_keys ?q))"
    by (cases "sq_pending ?q" rule: rev_cases) (simp_all add: pending_keys_def del: retire_through_simps)
  have "n \<le> (if pending_keys ?q = [] then n else last (pending_keys ?q))"
  proof (cases "pending_keys ?q = []")
    case False
    then have "last (pending_keys ?q) \<in> set (pending_keys ?q)"
      by (rule last_in_set)
    then show ?thesis
      using dropWhile_above [of "pending_keys q" "last (pending_keys ?q)" n] ok False
      by (simp add: sequencer_ok_def)
  qed simp
  then have "q' = ?q\<lparr>sq_incarnation := Some inc, sq_epoch := Some epoch,
       sq_next := Some ((if pending_keys ?q = [] then n else last (pending_keys ?q)) + 1),
       sq_uncertain := ?uncertain,
       sq_pending := jmap_map (readdress inc epoch ?uncertain) (sq_pending ?q)\<rparr>"
    using assms newest
    by (auto simp: adopt_controller_def Let_def max_def simp del: retire_through_simps(6) split: sum.splits)
  then show thesis
    using that [OF refl] by blast
qed

lemma adopt_controller_ok:
  assumes ok: "sequencer_ok q" and adopt: "adopt_controller inc epoch n q = Inr q'"
  shows "sequencer_ok q'"
  using adopt ok
proof (cases rule: adopt_controller_cases)
  case (1 uncertain)
  let ?q = "retire_through n q"
  have ok1: "sequencer_ok ?q"
    using ok by (rule retire_through_ok)
  have keys: "pending_keys q' = pending_keys ?q" "length (sq_pending q') = length (sq_pending ?q)"
    by (simp_all add: 1(2) pending_keys_def jmap_map_def comp_def split_def)
  have "map entry_bytes (sq_pending q') = map entry_bytes (sq_pending ?q)"
    by (simp add: 1(2) readdress_def)
  then have bytes: "sq_bytes q' = sum_list (map entry_bytes (sq_pending q'))" "sq_bytes q' = sq_bytes ?q"
    using ok1 by (simp_all add: 1(2) sequencer_ok_def)
  have entries: "\<forall>e \<in> set (sq_pending q'). entry_ok q' e"
    using ok1 by (auto simp: 1(2) sequencer_ok_def entry_ok_def jmap_map_def readdress_def)
  have uncertain: "u \<in> set (pending_keys ?q) \<or> (\<forall>k \<in> set (pending_keys ?q). u < k)"
    if "sq_uncertain q' = Some u" for u
  proof -
    have "sq_uncertain ?q = Some u"
      using that by (auto simp: 1 split: option.splits if_splits)
    then show ?thesis
      using ok1 unfolding sequencer_ok_def by blast
  qed
  have authority: "sq_incarnation q' \<noteq> None" "sq_epoch q' \<noteq> None"
      "sq_next q' = Some ((if pending_keys ?q = [] then n else last (pending_keys ?q)) + 1)"
    by (simp_all add: 1(2))
  show ?thesis
    using ok1 bytes entries authority uncertain unfolding sequencer_ok_def keys by auto
qed

lemma new_sequencer_ok: "new_sequencer producer = Inr q \<Longrightarrow> sequencer_ok q"
  by (auto simp: new_sequencer_def sequencer_ok_def pending_keys_def max_in_flight_bytes_def split: if_splits)

lemma sequencer_producer:
  "sequencer_reachable producer q \<Longrightarrow> sq_producer q = producer"
proof (induction rule: sequencer_reachable.induct)
  case (adopted q inc epoch n q')
  then show ?case
    by (auto simp: adopt_controller_def Let_def split: sum.splits)
qed (auto simp: new_sequencer_def lose_control_def drop_authority_def sequence_input_def Let_def resolve_input_def
    next_replay_def retry_not_sent_def discard_uncertain_def mark_not_sent_def set_state_def reopen_gap_def
    split: option.splits sum.splits if_splits list.splits input_outcome.splits)

section \<open>Properties\<close>

text \<open>C19. Whatever calls a client makes, the ledger stays consistent: the pending entries carry
  consecutive sequence numbers, the next number follows the last of them, every entry is filed under its
  own number with the ledger's producer and a non-empty payload and, while the client holds control, the
  current incarnation and epoch; the byte count is exact and the window of 24 entries and 128 KiB is
  respected.\<close>

theorem ledger_stays_consistent:
  assumes "sequencer_reachable producer q"
  shows "consecutive (map fst (sq_pending q)) \<and>
    (\<forall>n. sq_next q = Some n \<longrightarrow> sq_pending q \<noteq> [] \<longrightarrow> n = fst (last (sq_pending q)) + 1) \<and>
    (\<forall>(k, e) \<in> set (sq_pending q). in_seq (pi_input e) = k \<and> in_producer (pi_input e) = producer \<and>
       in_bytes (pi_input e) \<noteq> [] \<and> (authority_available q \<longrightarrow>
         sq_incarnation q = Some (in_incarnation (pi_input e)) \<and> sq_epoch q = Some (in_epoch (pi_input e)))) \<and>
    sq_bytes q = sum_list (map entry_bytes (sq_pending q)) \<and>
    length (sq_pending q) \<le> 24 \<and> sq_bytes q \<le> 131072"
proof -
  have "sequencer_ok q"
    using assms by (induction rule: sequencer_reachable.induct)
      (auto intro: new_sequencer_ok adopt_controller_ok lose_control_ok sequence_input_ok resolve_input_ok
        next_replay_ok retry_not_sent_ok discard_uncertain_ok mark_not_sent_ok)
  then show ?thesis
    using sequencer_producer [OF assms]
    by (auto simp: sequencer_ok_def entry_ok_def pending_keys_def last_map max_in_flight_entries_def
        max_in_flight_bytes_def)
qed

theorem ledger_stays_consistent_witness:
  "\<exists>q. sequencer_reachable ''p'' q \<and> map fst (sq_pending q) = [8, 9] \<and> consecutive (map fst (sq_pending q))"
proof -
  obtain q0 where q0: "new_sequencer ''p'' = Inr q0"
    by (simp add: new_sequencer_def)
  obtain q1 where q1: "adopt_controller ''i'' 3 7 q0 = Inr q1"
    by (simp add: adopt_controller_def assert_nonnegative_safe_integer_def is_safe_integer_def
        max_safe_integer_def Let_def)
  let ?q = "fst (sequence_input [66] (fst (sequence_input [65] q1)))"
  have "case new_sequencer ''p'' of Inl _ \<Rightarrow> False | Inr a \<Rightarrow> (case adopt_controller ''i'' 3 7 a of Inl _ \<Rightarrow> False
      | Inr b \<Rightarrow> map fst (sq_pending (fst (sequence_input [66] (fst (sequence_input [65] b))))) = [8, 9])"
    by code_simp
  then have "map fst (sq_pending ?q) = [8, 9]"
    using q0 q1 by simp
  moreover have reachable: "sequencer_reachable ''p'' ?q"
    by (intro sequencer_reachable.sequenced sequencer_reachable.adopted [OF sequencer_reachable.start [OF q0] q1])
  moreover have "consecutive (map fst (sq_pending ?q))"
    using ledger_stays_consistent [OF reachable] by (rule conjunct1)
  ultimately show ?thesis
    by (intro exI [of _ ?q] conjI)
qed

end
