(* ===== verification/TerminalSession.thy ===== *)
theory TerminalSession
  imports InputSequencer
begin

text \<open>
  One visible attachment of a terminal panel, \<^verbatim>\<open>client/terminals/terminal-session.ts\<close>: the
  connection's life (admission, socket, reconnect timer), the restore of a checkpoint or a resume, the
  ordered application of output to the emulator, and the path of keyboard input through a bounded queue
  and the ledger of \<open>InputSequencer\<close>.

  \<^item> A session is the record \<open>session\<close>; an entry point returns the new session and the outputs in
    order: frames put on a socket, calls of the emulator sink, socket closes, admission requests, the
    removal callback and every snapshot given to the listeners.
  \<^item> A socket is a number, drawn fresh for every \<^verbatim>\<open>webSocketFactory\<close> call. What the network does with
    the next frames is the list \<open>ts_link\<close>: \<^verbatim>\<open>socket.send\<close> succeeds (\<open>True\<close>), or the socket is not
    open or throws (\<open>False\<close>, and also when the list is used up).
  \<^item> \<^verbatim>\<open>#applyQueue\<close>, a chain of promises, is the list \<open>ts_jobs\<close>. A job is cut where the code awaits
    the sink: \<open>run_apply\<close> runs the first job up to its next await, given the outcome of the sink call it
    waited for; whatever else happens between two of these steps is an event of its own.
  \<^item> A received frame arrives decoded (the schema check is a third-party library's, the binary and
    base64 decoding of its payload does not change the session): \<open>Invalid_frame\<close> carries the message
    the failing stage reports. The SHA-256 of a checkpoint is a parameter.
\<close>

section \<open>Definitions\<close>

subsection \<open>Data\<close>

datatype connection_state = Idle | Authorizing | Connecting | Restoring | Ready | Reconnecting | Closed | Failed
datatype terminal_role = Controller | Observer
datatype terminal_lifecycle = Reserved | Starting | Running | Stopping | Exited | LifecycleFailed | Interrupted
datatype restore_kind = Checkpoint | Resume
datatype restore_request = RestoreCheckpoint | RestoreResume int

record session_snapshot =
  sn_connection :: connection_state
  sn_role :: terminal_role
  sn_control_pending :: bool
  sn_epoch :: int
  sn_lifecycle :: terminal_lifecycle
  sn_revision :: int
  sn_rows :: int
  sn_columns :: int
  sn_applied :: "int option"
  sn_caught_up :: bool
  sn_input_available :: bool
  sn_retry_available :: bool
  sn_uncertain :: "int option"
  sn_queued_count :: nat
  sn_queued_bytes :: int
  sn_overflowed :: bool
  sn_message :: "string option"

record active_snapshot =
  as_seq :: int
  as_rows :: int
  as_columns :: int
  as_byte_length :: int
  as_chunk_count :: int
  as_chunks :: "bytes list"
  as_received :: int

record role_frame =
  rf_role :: terminal_role
  rf_epoch :: int
  rf_accepted :: int
  rf_incarnation :: string

record attach_frame = role_frame +
  af_lifecycle :: terminal_lifecycle
  af_revision :: int
  af_rows :: int
  af_columns :: int
  af_restore :: restore_kind

datatype server_frame =
    FAttached attach_frame
  | FSnapshotBegin int int int int int
  | FSnapshotChunk int int bytes
  | FSnapshotEnd int string
  | FOutput int bytes
  | FResizeCommitted int int int
  | FCaughtUp int
  | FInputResult int input_outcome int "string option"
  | FControlChanged role_frame
  | FTerminalStatus int terminal_lifecycle int "string option"
  | FLifecycleState terminal_lifecycle int "string option"
  | FResyncRequired
  | FTerminalRemoved
  | FError string bool

datatype received_frame = Invalid_frame string | Received string string server_frame

datatype client_frame =
    CAckOutput int
  | CAckSnapshot int int
  | CInput sequenced_input
  | CResize int int int
  | CClaimControl
  | CReleaseControl

datatype apply_action = ApplyWrite bytes | ApplyResize int int | ApplyStatus terminal_lifecycle int "string option"

datatype apply_job =
    JobAttached nat attach_frame
  | JobAttachedResized attach_frame
  | JobSnapshotEnd nat "active_snapshot option" int string
  | JobSnapshotReset active_snapshot bytes int
  | JobSnapshotResized bytes int
  | JobSnapshotWritten int
  | JobSequenced nat int apply_action
  | JobSequencedApplied nat int
  | JobCaughtUp nat int
  | JobErase
  | JobErased

record session =
  ts_terminal :: string
  ts_incarnation :: "string option"
  ts_producer :: string
  ts_desired :: terminal_role
  ts_base_delay :: int
  ts_seq :: sequencer
  ts_snap :: session_snapshot
  ts_socket :: "nat option"
  ts_next_socket :: nat
  ts_link :: "bool list"
  ts_closed :: bool
  ts_admission_pending :: bool
  ts_online_listener :: bool
  ts_connect_epoch :: nat
  ts_reconnect_attempts :: nat
  ts_reconnect_timer :: "int option"
  ts_pending_ack :: "int option"
  ts_ack_timer :: "nat option"
  ts_jobs :: "apply_job list"
  ts_restore_next :: bool
  ts_restore_kind :: restore_kind
  ts_active_seq :: "int option"
  ts_active :: "active_snapshot option"
  ts_queued :: "bytes list"
  ts_queued_bytes :: int

datatype session_output =
    OSend nat client_frame
  | OSinkReset
  | OSinkWrite bytes
  | OSinkResize int int
  | OSocketClose nat int string
  | OAdmissionRequest nat terminal_role restore_request
  | OPublish session_snapshot
  | ORemoved
  | OUncaught string

type_synonym session_step = "session \<times> session_output list"

definition max_input_bytes :: int where
  "max_input_bytes = 64 * 1024"

definition max_queued_input_bytes :: int where
  "max_queued_input_bytes = 256 * 1024"

definition max_queued_input_entries :: nat where
  "max_queued_input_entries = 256"

definition max_reconnect_delay :: int where
  "max_reconnect_delay = 8000"

definition new_session ::
  "string \<Rightarrow> string option \<Rightarrow> terminal_lifecycle \<Rightarrow> int \<Rightarrow> int \<Rightarrow> int \<Rightarrow> string \<Rightarrow> terminal_role \<Rightarrow> int \<Rightarrow>
     bool list \<Rightarrow> session result" where
  "new_session terminal incarnation lifecycle revision rows columns producer role delay link =
     (case new_sequencer producer of Inl e \<Rightarrow> Inl e | Inr q \<Rightarrow> Inr
       \<lparr>ts_terminal = terminal, ts_incarnation = incarnation, ts_producer = producer, ts_desired = role,
        ts_base_delay = delay, ts_seq = q,
        ts_snap = \<lparr>sn_connection = Idle, sn_role = Observer, sn_control_pending = False, sn_epoch = 0,
          sn_lifecycle = lifecycle, sn_revision = revision, sn_rows = rows, sn_columns = columns,
          sn_applied = None, sn_caught_up = False, sn_input_available = False, sn_retry_available = False,
          sn_uncertain = None, sn_queued_count = 0, sn_queued_bytes = 0, sn_overflowed = False,
          sn_message = None\<rparr>,
        ts_socket = None, ts_next_socket = 0, ts_link = link, ts_closed = False,
        ts_admission_pending = False, ts_online_listener = False, ts_connect_epoch = 0,
        ts_reconnect_attempts = 0, ts_reconnect_timer = None, ts_pending_ack = None, ts_ack_timer = None,
        ts_jobs = [], ts_restore_next = True, ts_restore_kind = Checkpoint, ts_active_seq = None,
        ts_active = None, ts_queued = [], ts_queued_bytes = 0\<rparr>)"

subsection \<open>Snapshots and frames\<close>

definition set_snapshot_quietly :: "(session_snapshot \<Rightarrow> session_snapshot) \<Rightarrow> session \<Rightarrow> session" where
  "set_snapshot_quietly patch s = s\<lparr>ts_snap := patch (ts_snap s)\<rparr>"

definition set_snapshot :: "(session_snapshot \<Rightarrow> session_snapshot) \<Rightarrow> session \<Rightarrow> session_step" where
  "set_snapshot patch s = (set_snapshot_quietly patch s, [OPublish (patch (ts_snap s))])"

definition close_socket :: "int \<Rightarrow> string \<Rightarrow> session \<Rightarrow> session_step" where
  "close_socket code reason s = (s, case ts_socket s of None \<Rightarrow> [] | Some k \<Rightarrow> [OSocketClose k code reason])"

definition send_raw :: "client_frame \<Rightarrow> session \<Rightarrow> session_step \<times> bool" where
  "send_raw frame s = (case ts_socket s of
     None \<Rightarrow> ((s, []), False)
   | Some k \<Rightarrow> (case ts_link s of
       [] \<Rightarrow> ((s, []), False)
     | sent # link \<Rightarrow> ((s\<lparr>ts_link := link\<rparr>, if sent then [OSend k frame] else []), sent)))"

definition send_input_frame :: "sequenced_input \<Rightarrow> session \<Rightarrow> session_step \<times> bool" where
  "send_input_frame i s = send_raw (CInput i) s"

definition input_authorized :: "session \<Rightarrow> bool" where
  "input_authorized s \<longleftrightarrow> sn_connection (ts_snap s) = Ready \<and> sn_caught_up (ts_snap s) \<and>
     sn_role (ts_snap s) = Controller \<and> sn_lifecycle (ts_snap s) = Running"

definition publish_input_availability :: "session \<Rightarrow> session_step" where
  "publish_input_availability s = set_snapshot (\<lambda>sn. sn\<lparr>
     sn_input_available := input_authorized s \<and> queueing_available (ts_seq s) \<and>
       length (ts_queued s) + length (sq_pending (ts_seq s)) < max_queued_input_entries \<and>
       ts_queued_bytes s + sq_bytes (ts_seq s) < max_queued_input_bytes,
     sn_uncertain := sq_uncertain (ts_seq s),
     sn_retry_available := retry_available (ts_seq s),
     sn_queued_count := length (ts_queued s),
     sn_queued_bytes := ts_queued_bytes s\<rparr>) s"

definition fail_protocol :: "string \<Rightarrow> session \<Rightarrow> session_step" where
  "fail_protocol message s = then_do (set_snapshot (\<lambda>sn. sn\<lparr>sn_connection := Failed,
       sn_message := Some message, sn_input_available := False\<rparr>) (s\<lparr>ts_closed := True, ts_online_listener := False\<rparr>))
     (close_socket 4401 ''invalid_terminal_frame'')"

definition fail_apply :: "string \<Rightarrow> session \<Rightarrow> session_step" where
  "fail_apply message s = then_do (set_snapshot (\<lambda>sn. sn\<lparr>sn_caught_up := False,
       sn_input_available := False, sn_message := Some message\<rparr>) (s\<lparr>ts_restore_next := True\<rparr>))
     (close_socket 4003 ''terminal_apply_failed'')"

subsection \<open>Input\<close>

definition enqueue_input :: "bytes \<Rightarrow> session \<Rightarrow> session_step \<times> bool" where
  "enqueue_input bs s =
     (if max_queued_input_entries \<le> length (ts_queued s) + length (sq_pending (ts_seq s)) \<or>
         max_queued_input_bytes < ts_queued_bytes s + sq_bytes (ts_seq s) + int (length bs)
      then (then_do (set_snapshot (\<lambda>sn. sn\<lparr>sn_overflowed := True,
               sn_message := Some ''Terminal input queue is full; some input was not sent.''\<rparr>) s)
             publish_input_availability, False)
      else (publish_input_availability (s\<lparr>ts_queued := ts_queued s @ [bs],
               ts_queued_bytes := ts_queued_bytes s + int (length bs)\<rparr>), True))"

definition mark_refused :: "int \<Rightarrow> session \<Rightarrow> session" where
  "mark_refused seq s = s\<lparr>ts_seq := mark_not_sent seq (ts_seq s)\<rparr>"

definition send_input :: "bytes \<Rightarrow> session \<Rightarrow> session_step \<times> bool" where
  "send_input bs s =
     (if \<not> input_authorized s \<or> \<not> queueing_available (ts_seq s) then ((s, []), False)
      else if bs = [] \<or> max_input_bytes < int (length bs) then ((s, []), False)
      else if ts_queued s \<noteq> [] then enqueue_input bs s
      else case sequence_input bs (ts_seq s) of
        (q, Blocked reason) \<Rightarrow>
          if reason = WindowFull then enqueue_input bs (s\<lparr>ts_seq := q\<rparr>) else ((s\<lparr>ts_seq := q\<rparr>, []), False)
      | (q, Sequenced i) \<Rightarrow> (case send_input_frame i (s\<lparr>ts_seq := q\<rparr>) of
          (r, sent) \<Rightarrow>
            if sent then (then_do r publish_input_availability, True)
            else (then_do r (\<lambda>s. publish_input_availability (mark_refused (in_seq i) s)), False)))"

definition retry_not_sent_input :: "session \<Rightarrow> session_step \<times> bool" where
  "retry_not_sent_input s =
     (if sn_connection (ts_snap s) \<noteq> Ready \<or> sn_role (ts_snap s) \<noteq> Controller \<or>
         sn_lifecycle (ts_snap s) \<noteq> Running then ((s, []), False)
      else case retry_not_sent (ts_seq s) of
        (q, None) \<Rightarrow> ((s\<lparr>ts_seq := q\<rparr>, []), False)
      | (q, Some i) \<Rightarrow> (case send_input_frame i (s\<lparr>ts_seq := q\<rparr>) of
          (r, sent) \<Rightarrow> (then_do r (\<lambda>s. publish_input_availability
             (if sent then s else mark_refused (in_seq i) s)), sent)))"

definition discard_unconfirmed_input :: "bool \<Rightarrow> session \<Rightarrow> session_step \<times> bool" where
  "discard_unconfirmed_input socket_open s =
     (if \<not> input_authorized s \<or> ts_socket s = None \<or> \<not> socket_open then ((s, []), False)
      else case discard_uncertain (ts_seq s) of
        (q, False) \<Rightarrow> ((s\<lparr>ts_seq := q\<rparr>, []), False)
      | (q, True) \<Rightarrow> (then_do (set_snapshot (\<lambda>sn. sn\<lparr>sn_overflowed := False,
            sn_message := Some ''Unconfirmed input was discarded. It may already have reached the terminal.''\<rparr>)
            (s\<lparr>ts_seq := q, ts_queued := [], ts_queued_bytes := 0\<rparr>)) publish_input_availability, True))"

datatype 's round = Continue 's | Return 's

text \<open>One pass through the body of the \<^verbatim>\<open>while (true)\<close> of \<^verbatim>\<open>#drainInputQueue\<close>: \<open>Return\<close> where the
  body returns, \<open>Continue\<close> where it goes round.\<close>

definition drain_sent :: "int \<Rightarrow> session_step \<times> bool \<Rightarrow> session round \<times> session_output list" where
  "drain_sent seq r = (if snd r then (Continue (fst (fst r)), snd (fst r))
     else (Return (mark_refused seq (fst (fst r))), snd (fst r)))"

definition drain_round :: "session \<Rightarrow> session round \<times> session_output list" where
  "drain_round s = (case next_replay (ts_seq s) of
     (q, Some i) \<Rightarrow> drain_sent (in_seq i) (send_input_frame i (s\<lparr>ts_seq := q\<rparr>))
   | (q, None) \<Rightarrow>
       if \<not> input_available q then (Return (s\<lparr>ts_seq := q\<rparr>), [])
       else case ts_queued s of
         [] \<Rightarrow> (Return (s\<lparr>ts_seq := q\<rparr>), [])
       | bs # rest \<Rightarrow>
           let s1 = s\<lparr>ts_queued := rest, ts_queued_bytes := ts_queued_bytes s - int (length bs)\<rparr> in
           (case sequence_input bs q of
             (q1, Blocked _) \<Rightarrow> (Return (s1\<lparr>ts_seq := q1, ts_queued := bs # ts_queued s1,
                ts_queued_bytes := ts_queued_bytes s1 + int (length bs)\<rparr>), [])
           | (q1, Sequenced i) \<Rightarrow> drain_sent (in_seq i) (send_input_frame i (s1\<lparr>ts_seq := q1\<rparr>))))"

definition replays :: "sequencer \<Rightarrow> nat" where
  "replays q = length (filter (\<lambda>e. pi_state (snd e) = Replay) (sq_pending q))"

definition drain_measure :: "session \<Rightarrow> nat" where
  "drain_measure s = length (ts_queued s) + replays (ts_seq s)"

function drain_loop :: "session \<Rightarrow> session_step" where
  "drain_loop s = (case drain_round s of
     (Return s', outs) \<Rightarrow> (s', outs)
   | (Continue s', outs) \<Rightarrow> (let r = drain_loop s' in (fst r, outs @ snd r)))"
  by pat_completeness auto

lemma replay_count_le:
  "length (filter (\<lambda>e. pi_state (snd e) = Replay)
     (jmap_map (\<lambda>k' e. if k' = k then e\<lparr>pi_state := Replayed\<rparr> else e) es)) \<le>
   length (filter (\<lambda>e. pi_state (snd e) = Replay) es)"
  by (induction es) auto

lemma replay_count_less:
  "(k, e) \<in> set es \<Longrightarrow> pi_state e = Replay \<Longrightarrow>
   length (filter (\<lambda>e. pi_state (snd e) = Replay)
     (jmap_map (\<lambda>k' e. if k' = k then e\<lparr>pi_state := Replayed\<rparr> else e) es)) <
   length (filter (\<lambda>e. pi_state (snd e) = Replay) es)"
proof (induction es)
  case (Cons x es)
  then show ?case
    using replay_count_le [of k es] by (cases x) auto
qed simp

lemma first_replay_in:
  "first_replay es = Some (k, i) \<Longrightarrow> \<exists>e. (k, e) \<in> set es \<and> pi_state e = Replay \<and> pi_input e = i"
  by (induction es rule: first_replay.induct) (fastforce split: pending_state.splits)+

lemma replays_next_replay: "next_replay q = (q', Some i) \<Longrightarrow> replays q' < replays q"
  by (auto simp: next_replay_def replays_def set_state_def dest!: first_replay_in
      intro: replay_count_less split: if_splits option.splits)

lemma replays_update_sent:
  "length (filter (\<lambda>e. pi_state (snd e) = Replay) (jmap_set k \<lparr>pi_input = i, pi_state = Sent\<rparr> es)) \<le>
   length (filter (\<lambda>e. pi_state (snd e) = Replay) es)"
  by (induction es) auto

lemma replays_sequence_input: "replays (fst (sequence_input bs q)) \<le> replays q"
  by (cases rule: sequence_input_cases [of bs q]) (simp_all add: replays_def replays_update_sent)

lemma send_raw_keeps [simp]:
  "ts_seq (fst (fst (send_raw f s))) = ts_seq s" "ts_queued (fst (fst (send_raw f s))) = ts_queued s"
  "ts_queued_bytes (fst (fst (send_raw f s))) = ts_queued_bytes s"
  "ts_snap (fst (fst (send_raw f s))) = ts_snap s"
  by (simp_all add: send_raw_def split: option.splits list.splits)

lemma next_replay_None: "next_replay q = (q', None) \<Longrightarrow> q' = q"
  by (auto simp: next_replay_def split: if_splits option.splits)

lemma drain_sent_Continue:
  "drain_sent seq r = (Continue s', outs) \<longleftrightarrow> snd r \<and> s' = fst (fst r) \<and> outs = snd (fst r)"
  by (auto simp: drain_sent_def)

lemma drain_round_decreases: "drain_round s = (Continue s', outs) \<Longrightarrow> drain_measure s' < drain_measure s"
proof (cases "snd (next_replay (ts_seq s))")
  case (Some i)
  assume round: "drain_round s = (Continue s', outs)"
  obtain q where q: "next_replay (ts_seq s) = (q, Some i)"
    using Some by (cases "next_replay (ts_seq s)") auto
  then show ?thesis
    using round replays_next_replay [OF q]
    by (auto simp: drain_round_def drain_sent_Continue send_input_frame_def drain_measure_def)
next
  case None
  assume round: "drain_round s = (Continue s', outs)"
  have q: "next_replay (ts_seq s) = (ts_seq s, None)"
    using None next_replay_None by (cases "next_replay (ts_seq s)") auto
  with round obtain bs rest where queue: "ts_queued s = bs # rest" and avail: "input_available (ts_seq s)"
    by (auto simp: drain_round_def split: if_splits list.splits)
  with round q obtain q1 i where seq: "sequence_input bs (ts_seq s) = (q1, Sequenced i)"
    by (auto simp: drain_round_def Let_def split: sequence_result.splits prod.splits)
  then show ?thesis
    using round q queue avail replays_sequence_input [of bs "ts_seq s"]
    by (auto simp: drain_round_def Let_def drain_sent_Continue send_input_frame_def drain_measure_def)
qed

termination drain_loop
  by (relation "measure drain_measure") (auto intro: drain_round_decreases [OF sym])

declare drain_loop.simps [simp del]

definition drain_input_queue :: "session \<Rightarrow> session_step" where
  "drain_input_queue s = (if \<not> input_authorized s then (s, []) else drain_loop s)"

subsection \<open>Roles and lifecycle\<close>

definition uncertain_message :: string where
  "uncertain_message = ''Input delivery could not be confirmed. It may already have reached the terminal.''"

definition adopt_role :: "'a role_frame_scheme \<Rightarrow> session \<Rightarrow> session_step result" where
  "adopt_role frame s =
     (let role = (if sn_lifecycle (ts_snap s) = Running then rf_role frame else Observer)
      in case (if role = Controller
               then adopt_controller (rf_incarnation frame) (rf_epoch frame) (rf_accepted frame) (ts_seq s)
               else lose_control (Some (rf_accepted frame)) (ts_seq s)) of
           Inl e \<Rightarrow> Inl e
         | Inr q \<Rightarrow> Inr (then_do (then_do
             (set_snapshot (\<lambda>sn. sn\<lparr>sn_role := role, sn_control_pending := False,
                sn_epoch := rf_epoch frame, sn_uncertain := sq_uncertain q,
                sn_message := (if sq_uncertain q = None \<and> sn_uncertain sn \<noteq> None then None
                  else if sq_uncertain q \<noteq> None then Some uncertain_message else sn_message sn)\<rparr>)
              (s\<lparr>ts_seq := q\<rparr>))
             (\<lambda>s. if role = Controller then drain_input_queue s else (s, [])))
             publish_input_availability))"

definition drop_control :: "session \<Rightarrow> session" where
  "drop_control s = s\<lparr>ts_seq := drop_authority (ts_seq s)\<rparr>"

definition apply_lifecycle :: "terminal_lifecycle \<Rightarrow> int \<Rightarrow> string option \<Rightarrow> session \<Rightarrow> session_step" where
  "apply_lifecycle lifecycle revision reason s =
     (if revision \<le> sn_revision (ts_snap s) then (s, [])
      else then_do
        (set_snapshot (\<lambda>sn. (if lifecycle = Running then sn
             else sn\<lparr>sn_role := Observer, sn_control_pending := False\<rparr>)
             \<lparr>sn_lifecycle := lifecycle, sn_revision := revision, sn_message := reason\<rparr>)
          (if lifecycle \<noteq> Running then drop_control s else s))
        publish_input_availability)"

subsection \<open>Output acknowledgement\<close>

definition queue_output_ack :: "int \<Rightarrow> nat \<Rightarrow> session \<Rightarrow> session" where
  "queue_output_ack applied source s = s\<lparr>
     ts_pending_ack := Some (case ts_pending_ack s of None \<Rightarrow> applied | Some a \<Rightarrow> max a applied),
     ts_ack_timer := (case ts_ack_timer s of None \<Rightarrow> Some source | Some k \<Rightarrow> Some k)\<rparr>"

definition flush_output_ack :: "nat \<Rightarrow> session \<Rightarrow> session_step" where
  "flush_output_ack source s = (if ts_socket s \<noteq> Some source then (s, [])
     else case ts_pending_ack s of
       None \<Rightarrow> (s, [])
     | Some applied \<Rightarrow> fst (send_raw (CAckOutput applied) (s\<lparr>ts_pending_ack := None, ts_ack_timer := None\<rparr>)))"

definition clear_pending_output_ack :: "session \<Rightarrow> session" where
  "clear_pending_output_ack s = s\<lparr>ts_ack_timer := None, ts_pending_ack := None\<rparr>"

definition ack_timer_fires :: "session \<Rightarrow> session_step" where
  "ack_timer_fires s = (case ts_ack_timer s of
     None \<Rightarrow> (s, [])
   | Some source \<Rightarrow> flush_output_ack source (s\<lparr>ts_ack_timer := None\<rparr>))"

subsection \<open>The apply queue\<close>

definition add_job :: "apply_job \<Rightarrow> session \<Rightarrow> session" where
  "add_job job s = s\<lparr>ts_jobs := ts_jobs s @ [job]\<rparr>"

definition enqueue_sequenced :: "int \<Rightarrow> nat \<Rightarrow> apply_action \<Rightarrow> session \<Rightarrow> session" where
  "enqueue_sequenced seq source act s = add_job (JobSequenced source seq act) s"

definition attached_resized :: "attach_frame \<Rightarrow> session \<Rightarrow> session_step" where
  "attached_resized frame s = then_do
     (set_snapshot (\<lambda>sn. sn\<lparr>sn_connection := Restoring, sn_lifecycle := af_lifecycle frame,
        sn_revision := af_revision frame, sn_rows := af_rows frame, sn_columns := af_columns frame,
        sn_caught_up := False\<rparr>)
       (if af_restore frame = Resume then s\<lparr>ts_restore_next := False\<rparr> else s))
     (\<lambda>s. if af_lifecycle frame = Running then (case adopt_role frame s of
              Inl e \<Rightarrow> fail_apply e s | Inr r \<Rightarrow> r)
          else (case lose_control (Some (rf_accepted frame)) (ts_seq s) of
              Inl e \<Rightarrow> fail_apply e s
            | Inr q \<Rightarrow> set_snapshot (\<lambda>sn. sn\<lparr>sn_role := Observer, sn_epoch := rf_epoch frame,
                 sn_uncertain := sq_uncertain q\<rparr>) (s\<lparr>ts_seq := q\<rparr>)))"

definition caught_up :: "nat \<Rightarrow> int \<Rightarrow> session \<Rightarrow> session_step" where
  "caught_up source head s =
     (if ts_socket s \<noteq> Some source then (s, [])
      else if (case sn_applied (ts_snap s) of None \<Rightarrow> 0 | Some a \<Rightarrow> a) < head
      then fail_apply ''Terminal replay ended before its advertised head.'' s
      else then_do (then_do (then_do (flush_output_ack source s)
        (\<lambda>s. set_snapshot (\<lambda>sn. sn\<lparr>sn_connection := Ready, sn_caught_up := True\<rparr>)
           (s\<lparr>ts_reconnect_attempts := 0\<rparr>)))
        drain_input_queue) publish_input_availability)"

definition start_action :: "apply_action \<Rightarrow> session \<Rightarrow> session_step" where
  "start_action act s = (case act of
     ApplyWrite bs \<Rightarrow> (s, [OSinkWrite bs])
   | ApplyResize columns rows \<Rightarrow> (s, [OSinkResize columns rows])
   | ApplyStatus lifecycle revision reason \<Rightarrow> apply_lifecycle lifecycle revision reason s)"

definition start_sequenced :: "nat \<Rightarrow> int \<Rightarrow> apply_action \<Rightarrow> session \<Rightarrow> session_step \<times> apply_job option" where
  "start_sequenced source seq act s =
     (if ts_socket s \<noteq> Some source then ((s, []), None)
      else case sn_applied (ts_snap s) of
        Some applied \<Rightarrow>
          if seq \<le> applied then ((queue_output_ack applied source s, []), None)
          else if seq \<noteq> applied + 1 then (fail_apply ''Terminal history contains a sequence gap.'' s, None)
          else (start_action act s, Some (JobSequencedApplied source seq))
      | None \<Rightarrow> (start_action act s, Some (JobSequencedApplied source seq)))"

definition start_snapshot_end ::
  "(bytes \<Rightarrow> string) \<Rightarrow> nat \<Rightarrow> active_snapshot option \<Rightarrow> int \<Rightarrow> string \<Rightarrow> session \<Rightarrow> session_step \<times> apply_job option" where
  "start_snapshot_end sha256 source active seq digest s =
     (if ts_socket s \<noteq> Some source then ((s, []), None)
      else case active of
        None \<Rightarrow> (fail_apply ''The terminal snapshot was incomplete.'' s, None)
      | Some a \<Rightarrow>
          if int (length (as_chunks a)) \<noteq> as_chunk_count a \<or> as_received a \<noteq> as_byte_length a
          then (fail_apply ''The terminal snapshot was incomplete.'' s, None)
          else if sha256 (concat (as_chunks a)) \<noteq> digest
          then (fail_apply ''The terminal snapshot checksum was invalid.'' s, None)
          else ((s, [OSinkReset]), Some (JobSnapshotReset a (concat (as_chunks a)) seq)))"

definition snapshot_applied :: "int \<Rightarrow> session \<Rightarrow> session_step" where
  "snapshot_applied seq s =
     (let r = set_snapshot (\<lambda>sn. sn\<lparr>sn_applied := Some seq\<rparr>) s in ((fst r)\<lparr>ts_restore_next := False\<rparr>, snd r))"

definition sequenced_applied :: "nat \<Rightarrow> int \<Rightarrow> session \<Rightarrow> session" where
  "sequenced_applied source seq s =
     (let s1 = set_snapshot_quietly (\<lambda>sn. sn\<lparr>sn_applied := Some seq\<rparr>) s
      in if ts_socket s1 = Some source then queue_output_ack seq source s1 else s1)"

text \<open>Runs the job up to its next await of the sink. \<open>sink\<close> is the outcome of the sink call the job
  waits for (\<open>Inl\<close> the rejection's message); a job that has
  not called the sink yet does not use it. (A status change does not call the sink, so only \<open>Inr\<close> follows it.)\<close>

definition run_job :: "(bytes \<Rightarrow> string) \<Rightarrow> unit result \<Rightarrow> apply_job \<Rightarrow> session \<Rightarrow> session_step \<times> apply_job option" where
  "run_job sha256 sink job s = (case job of
     JobAttached source frame \<Rightarrow>
       if ts_socket s \<noteq> Some source then ((s, []), None)
       else ((s, [OSinkResize (af_columns frame) (af_rows frame)]), Some (JobAttachedResized frame))
   | JobSnapshotEnd source active seq digest \<Rightarrow> start_snapshot_end sha256 source active seq digest s
   | JobSequenced source seq act \<Rightarrow> start_sequenced source seq act s
   | JobCaughtUp source head \<Rightarrow> (caught_up source head s, None)
   | JobErase \<Rightarrow> ((s, [OSinkReset]), Some JobErased)
   | JobErased \<Rightarrow> ((s, [ORemoved]), None)
   | _ \<Rightarrow> (case sink of
       Inl e \<Rightarrow> (fail_apply e s, None)
     | Inr _ \<Rightarrow> (case job of
         JobAttachedResized frame \<Rightarrow> (attached_resized frame s, None)
       | JobSnapshotReset a bs seq \<Rightarrow>
           ((s, [OSinkResize (as_columns a) (as_rows a)]), Some (JobSnapshotResized bs seq))
       | JobSnapshotResized bs seq \<Rightarrow>
           if bs \<noteq> [] then ((s, [OSinkWrite bs]), Some (JobSnapshotWritten seq)) else (snapshot_applied seq s, None)
       | JobSnapshotWritten seq \<Rightarrow> (snapshot_applied seq s, None)
       | JobSequencedApplied source seq \<Rightarrow> ((sequenced_applied source seq s, []), None)
       | _ \<Rightarrow> ((s, []), None))))"

definition run_apply :: "(bytes \<Rightarrow> string) \<Rightarrow> unit result \<Rightarrow> session \<Rightarrow> session_step" where
  "run_apply sha256 sink s = (case ts_jobs s of
     [] \<Rightarrow> (s, [])
   | job # rest \<Rightarrow> (case run_job sha256 sink job s of
       (r, later) \<Rightarrow> ((fst r)\<lparr>ts_jobs := (case later of None \<Rightarrow> rest | Some j \<Rightarrow> j # rest)\<rparr>, snd r)))"

subsection \<open>Received frames\<close>

definition handle_removed :: "nat \<Rightarrow> session \<Rightarrow> session_step" where
  "handle_removed source s =
     (if ts_socket s \<noteq> Some source \<or> ts_closed s then (s, [])
      else let s1 = clear_pending_output_ack (s\<lparr>ts_closed := True, ts_admission_pending := False,
                 ts_connect_epoch := Suc (ts_connect_epoch s), ts_reconnect_timer := None,
                 ts_online_listener := False, ts_socket := None, ts_active_seq := None, ts_active := None,
                 ts_queued := [], ts_queued_bytes := 0, ts_seq := drop_authority (ts_seq s)\<rparr>)
      in then_do (then_do
           (set_snapshot (\<lambda>sn. sn\<lparr>sn_connection := Closed, sn_role := Observer, sn_control_pending := False,
              sn_caught_up := False, sn_input_available := False, sn_retry_available := False,
              sn_uncertain := None, sn_queued_count := 0, sn_queued_bytes := 0, sn_overflowed := False,
              sn_message := None\<rparr>) s1)
           (\<lambda>s. (s, [OSocketClose source 1000 ''terminal_removed''])))
           (\<lambda>s. (add_job JobErase s, [])))"

definition handle_snapshot_chunk :: "int \<Rightarrow> int \<Rightarrow> bytes \<Rightarrow> session \<Rightarrow> session_step" where
  "handle_snapshot_chunk seq idx bs s = (case ts_active s of
     None \<Rightarrow> fail_protocol ''The terminal snapshot chunk was invalid.'' s
   | Some a \<Rightarrow>
       if seq \<noteq> as_seq a \<or> idx \<noteq> int (length (as_chunks a)) \<or> as_chunk_count a \<le> idx
       then fail_protocol ''The terminal snapshot chunk was invalid.'' s
       else let a1 = a\<lparr>as_received := as_received a + int (length bs)\<rparr> in
         if as_byte_length a1 < as_received a1
         then fail_protocol ''The terminal snapshot length was invalid.'' (s\<lparr>ts_active := Some a1\<rparr>)
         else fst (send_raw (CAckSnapshot (as_seq a) idx)
           (s\<lparr>ts_active := Some (a1\<lparr>as_chunks := as_chunks a @ [bs]\<rparr>)\<rparr>)))"

definition input_result_message :: "input_outcome \<Rightarrow> string option \<Rightarrow> string option" where
  "input_result_message outcome message = (case outcome of
     SentOutcomeUnknown \<Rightarrow> Some (case message of Some m \<Rightarrow> m | None \<Rightarrow> ''Input delivery could not be confirmed.'')
   | Rejected \<Rightarrow> Some (case message of Some m \<Rightarrow> m | None \<Rightarrow> ''Terminal input was rejected.'')
   | NotSent \<Rightarrow> Some (case message of Some m \<Rightarrow> m | None \<Rightarrow> ''Terminal input was not sent; it is safe to retry.'')
   | _ \<Rightarrow> None)"

definition handle_input_result :: "int \<Rightarrow> input_outcome \<Rightarrow> int \<Rightarrow> string option \<Rightarrow> session \<Rightarrow> session_step" where
  "handle_input_result seq outcome accepted message s =
     (let q = resolve_input seq outcome (Some accepted) message (ts_seq s)
      in then_do (then_do (then_do
           (set_snapshot (\<lambda>sn. sn\<lparr>sn_uncertain := sq_uncertain q,
              sn_message := input_result_message outcome message\<rparr>) (s\<lparr>ts_seq := q\<rparr>))
           (\<lambda>s. if outcome = Accepted \<or> outcome = Duplicate \<or> outcome = Rejected \<and> message = Some ''input_gap''
                then drain_input_queue s else (s, [])))
           publish_input_availability)
           (\<lambda>s. if outcome = SentOutcomeUnknown then close_socket 4001 ''reconcile_input'' s else (s, [])))"

definition handle_frame :: "server_frame \<Rightarrow> nat \<Rightarrow> session \<Rightarrow> session_step" where
  "handle_frame frame source s = (case frame of
     FAttached af \<Rightarrow> (add_job (JobAttached source af) (s\<lparr>ts_restore_kind := af_restore af\<rparr>), [])
   | FSnapshotBegin seq rows columns byte_length chunk_count \<Rightarrow>
       if ts_restore_kind s \<noteq> Checkpoint \<or> ts_active_seq s \<noteq> None
       then fail_protocol ''The terminal server sent an unexpected snapshot.'' s
       else (s\<lparr>ts_active_seq := Some seq, ts_active := Some \<lparr>as_seq = seq, as_rows = rows,
               as_columns = columns, as_byte_length = byte_length, as_chunk_count = chunk_count,
               as_chunks = [], as_received = 0\<rparr>\<rparr>, [])
   | FSnapshotChunk seq idx bs \<Rightarrow> handle_snapshot_chunk seq idx bs s
   | FSnapshotEnd seq digest \<Rightarrow>
       if ts_active_seq s \<noteq> Some seq then fail_protocol ''The terminal snapshot boundary was invalid.'' s
       else (add_job (JobSnapshotEnd source (ts_active s) seq digest)
               (s\<lparr>ts_active_seq := None, ts_active := None\<rparr>), [])
   | FOutput seq bs \<Rightarrow> (enqueue_sequenced seq source (ApplyWrite bs) s, [])
   | FResizeCommitted seq rows columns \<Rightarrow>
       set_snapshot (\<lambda>sn. sn\<lparr>sn_rows := rows, sn_columns := columns\<rparr>)
         (enqueue_sequenced seq source (ApplyResize columns rows) s)
   | FCaughtUp head \<Rightarrow> (add_job (JobCaughtUp source head) s, [])
   | FInputResult seq outcome accepted message \<Rightarrow> handle_input_result seq outcome accepted message s
   | FControlChanged rf \<Rightarrow> (case adopt_role rf s of Inl e \<Rightarrow> (s, [OUncaught e]) | Inr r \<Rightarrow> r)
   | FTerminalStatus seq lifecycle revision reason \<Rightarrow>
       (enqueue_sequenced seq source (ApplyStatus lifecycle revision reason) s, [])
   | FLifecycleState lifecycle revision reason \<Rightarrow> apply_lifecycle lifecycle revision reason s
   | FResyncRequired \<Rightarrow> then_do
       (set_snapshot (\<lambda>sn. sn\<lparr>sn_connection := Restoring, sn_caught_up := False, sn_input_available := False,
          sn_message := Some ''Terminal history changed; restoring the latest screen.''\<rparr>)
          (s\<lparr>ts_restore_next := True\<rparr>)) (close_socket 4002 ''resync_required'')
   | FTerminalRemoved \<Rightarrow> handle_removed source s
   | FError message retryable \<Rightarrow> then_do
       (set_snapshot (\<lambda>sn. sn\<lparr>sn_control_pending := False, sn_message := Some message\<rparr>) s)
       (\<lambda>s. if retryable then (s, [])
            else then_do (set_snapshot (\<lambda>sn. sn\<lparr>sn_connection := Failed, sn_input_available := False\<rparr>)
                   (s\<lparr>ts_closed := True\<rparr>)) (close_socket 4400 ''terminal_error'')))"

definition receive_server_frame :: "received_frame \<Rightarrow> nat \<Rightarrow> session \<Rightarrow> session_step" where
  "receive_server_frame raw source s =
     (if ts_socket s \<noteq> Some source then (s, [])
      else case raw of
        Invalid_frame message \<Rightarrow> fail_protocol message s
      | Received terminal incarnation frame \<Rightarrow>
          if terminal \<noteq> ts_terminal s \<or> Some incarnation \<noteq> ts_incarnation s
          then fail_protocol ''The terminal server addressed a stale incarnation.'' s
          else handle_frame frame source s)"

subsection \<open>Connecting\<close>

record admission =
  ad_terminal :: string
  ad_incarnation :: string
  ad_expired :: bool
  ad_socket_error :: "string option"

definition connect :: "session \<Rightarrow> session_step" where
  "connect s =
     (if ts_closed s \<or> ts_socket s \<noteq> None \<or> ts_admission_pending s then (s, [])
      else let s1 = s\<lparr>ts_online_listener := True, ts_admission_pending := True,
                      ts_connect_epoch := Suc (ts_connect_epoch s)\<rparr>
      in then_do
        (set_snapshot (\<lambda>sn. sn\<lparr>
           sn_connection := (if ts_reconnect_attempts s = 0 then Authorizing else Reconnecting),
           sn_caught_up := False, sn_input_available := False,
           sn_message := (if sq_uncertain (ts_seq s) = None then None else sn_message sn)\<rparr>) s1)
        (\<lambda>s. case (ts_restore_next s, sn_applied (ts_snap s)) of
           (False, Some a) \<Rightarrow> (s\<lparr>ts_restore_kind := Resume\<rparr>,
             [OAdmissionRequest (ts_connect_epoch s) (ts_desired s) (RestoreResume a)])
         | _ \<Rightarrow> (s\<lparr>ts_restore_kind := Checkpoint\<rparr>,
             [OAdmissionRequest (ts_connect_epoch s) (ts_desired s) RestoreCheckpoint])))"

definition schedule_reconnect :: "session \<Rightarrow> session_step" where
  "schedule_reconnect s = (if ts_closed s then (s, [])
     else let attempts = Suc (ts_reconnect_attempts s);
              r = set_snapshot (\<lambda>sn. sn\<lparr>sn_connection := Reconnecting\<rparr>) (s\<lparr>ts_reconnect_attempts := attempts\<rparr>)
          in ((fst r)\<lparr>ts_reconnect_timer :=
                Some (min (ts_base_delay s * 2 ^ (attempts - 1)) max_reconnect_delay)\<rparr>, snd r))"

definition admission_failed :: "nat \<Rightarrow> string \<Rightarrow> session \<Rightarrow> session_step" where
  "admission_failed epoch message s =
     (if ts_closed s \<or> epoch \<noteq> ts_connect_epoch s then (s, [])
      else then_do (set_snapshot (\<lambda>sn. sn\<lparr>sn_message := Some message\<rparr>) (s\<lparr>ts_admission_pending := False\<rparr>))
             schedule_reconnect)"

definition admission_granted :: "nat \<Rightarrow> admission \<Rightarrow> session \<Rightarrow> session_step" where
  "admission_granted epoch ad s =
     (if ts_closed s \<or> epoch \<noteq> ts_connect_epoch s then (s, [])
      else let s1 = s\<lparr>ts_admission_pending := False\<rparr> in
        if ad_terminal ad \<noteq> ts_terminal s \<or> Some (ad_incarnation ad) \<noteq> ts_incarnation s
        then admission_failed epoch ''The terminal changed before it could be opened.'' s1
        else if ad_expired ad
        then admission_failed epoch ''The terminal admission expired before connection.'' s1
        else case ad_socket_error ad of
          Some e \<Rightarrow> admission_failed epoch e s1
        | None \<Rightarrow> set_snapshot (\<lambda>sn. sn\<lparr>sn_connection := Connecting\<rparr>)
            (s1\<lparr>ts_socket := Some (ts_next_socket s1), ts_next_socket := Suc (ts_next_socket s1)\<rparr>))"

definition socket_opened :: "nat \<Rightarrow> session \<Rightarrow> session_step" where
  "socket_opened k s = (if ts_socket s = Some k
     then set_snapshot (\<lambda>sn. sn\<lparr>sn_connection := Restoring\<rparr>) s else (s, []))"

definition socket_failed :: "nat \<Rightarrow> session \<Rightarrow> session_step" where
  "socket_failed k s = (if ts_socket s = Some k
     then set_snapshot (\<lambda>sn. sn\<lparr>sn_message := Some ''The terminal connection failed.''\<rparr>) s else (s, []))"

definition terminal_close_message :: "int \<Rightarrow> string \<Rightarrow> string option" where
  "terminal_close_message code reason =
     (if reason = ''viewer_too_slow''
      then Some ''Terminal output outpaced this viewer; restoring the latest screen.''
      else if reason = ''server_shutdown'' then Some ''The terminal server closed the connection; reconnecting.''
      else if reason = ''terminal_unavailable'' then Some ''The terminal is temporarily unavailable; reconnecting.''
      else if reason = ''protocol_error''
      then Some ''The terminal connection encountered a protocol error; reconnecting.''
      else if code = 1013 then Some ''Terminal output outpaced this viewer; restoring the latest screen.''
      else None)"

definition socket_closed :: "nat \<Rightarrow> int \<Rightarrow> string \<Rightarrow> session \<Rightarrow> session_step" where
  "socket_closed k code reason s =
     (if ts_socket s \<noteq> Some k then (s, [])
      else then_do
        (set_snapshot (\<lambda>sn. sn\<lparr>sn_role := Observer, sn_caught_up := False, sn_input_available := False,
           sn_message := (case terminal_close_message code reason of
              Some m \<Rightarrow> Some m | None \<Rightarrow> sn_message sn)\<rparr>)
          ((clear_pending_output_ack (s\<lparr>ts_socket := None\<rparr>))\<lparr>ts_active_seq := None\<rparr>))
        (\<lambda>s. if ts_closed s then (s, []) else schedule_reconnect s))"

definition retry_connection :: "session \<Rightarrow> session_step" where
  "retry_connection s = (if ts_closed s \<or> ts_socket s \<noteq> None then (s, [])
     else connect (s\<lparr>ts_reconnect_timer := None, ts_connect_epoch := Suc (ts_connect_epoch s),
            ts_admission_pending := False\<rparr>))"

definition reconnect_timer_fires :: "session \<Rightarrow> session_step" where
  "reconnect_timer_fires s = (if ts_reconnect_timer s = None then (s, [])
     else connect (s\<lparr>ts_reconnect_timer := None\<rparr>))"

definition handle_online :: "session \<Rightarrow> session_step" where
  "handle_online s = (if ts_online_listener s then retry_connection s else (s, []))"

subsection \<open>The panel's other calls\<close>

definition resize_terminal :: "int \<Rightarrow> int \<Rightarrow> session \<Rightarrow> (session_step \<times> bool) result" where
  "resize_terminal columns rows s =
     (if \<not> sn_input_available (ts_snap s) then Inr ((s, []), False)
      else if ts_incarnation s = None then Inl ''terminal_incarnation_unavailable''
      else Inr (send_raw (CResize (sn_epoch (ts_snap s)) columns rows) s))"

definition send_identity_frame :: "client_frame \<Rightarrow> session \<Rightarrow> (session_step \<times> bool) result" where
  "send_identity_frame frame s =
     (if ts_incarnation s = None then Inl ''terminal_incarnation_unavailable'' else Inr (send_raw frame s))"

definition claim_control :: "session \<Rightarrow> (session_step \<times> bool) result" where
  "claim_control s =
     (if sn_lifecycle (ts_snap s) \<noteq> Running \<or> sn_control_pending (ts_snap s) then Inr ((s, []), False)
      else case send_identity_frame CClaimControl s of
        Inl e \<Rightarrow> Inl e
      | Inr (r, sent) \<Rightarrow> Inr (if sent
          then then_do r (\<lambda>s. set_snapshot (\<lambda>sn. sn\<lparr>sn_control_pending := True\<rparr>) (s\<lparr>ts_desired := Controller\<rparr>))
          else r, sent))"

definition release_control :: "session \<Rightarrow> (session_step \<times> bool) result" where
  "release_control s = (case send_identity_frame CReleaseControl s of
     Inl e \<Rightarrow> Inl e
   | Inr (r, sent) \<Rightarrow> Inr (if sent then ((fst r)\<lparr>ts_desired := Observer\<rparr>, snd r) else r, sent))"

definition close_session :: "session \<Rightarrow> session_step" where
  "close_session s = then_do
     (close_socket 1000 ''viewer_detached'' (s\<lparr>ts_closed := True\<rparr>))
     (\<lambda>s. set_snapshot (\<lambda>sn. sn\<lparr>sn_connection := Closed, sn_role := Observer, sn_caught_up := False,
          sn_input_available := False, sn_retry_available := False\<rparr>)
        (drop_control (clear_pending_output_ack (s\<lparr>ts_admission_pending := False,
           ts_connect_epoch := Suc (ts_connect_epoch s), ts_reconnect_timer := None,
           ts_online_listener := False, ts_socket := None\<rparr>))))"

subsection \<open>Events\<close>

datatype session_event =
    EvConnect
  | EvRetryConnection
  | EvAdmissionGranted nat admission
  | EvAdmissionFailed nat string
  | EvSocketOpened nat
  | EvSocketFailed nat
  | EvSocketClosed nat int string
  | EvReceive nat received_frame
  | EvReconnectTimer
  | EvOnline
  | EvAckTimer
  | EvApply "unit result"
  | EvSendInput bytes
  | EvRetryInput
  | EvDiscardInput bool
  | EvResize int int
  | EvClaimControl
  | EvReleaseControl
  | EvClose

definition settle :: "session \<Rightarrow> (session_step \<times> bool) result \<Rightarrow> session_step" where
  "settle s r = (case r of Inl e \<Rightarrow> (s, [OUncaught e]) | Inr (t, _) \<Rightarrow> t)"

definition session_event_step :: "(bytes \<Rightarrow> string) \<Rightarrow> session_event \<Rightarrow> session \<Rightarrow> session_step" where
  "session_event_step sha256 ev s = (case ev of
     EvConnect \<Rightarrow> connect s
   | EvRetryConnection \<Rightarrow> retry_connection s
   | EvAdmissionGranted epoch ad \<Rightarrow> admission_granted epoch ad s
   | EvAdmissionFailed epoch message \<Rightarrow> admission_failed epoch message s
   | EvSocketOpened k \<Rightarrow> socket_opened k s
   | EvSocketFailed k \<Rightarrow> socket_failed k s
   | EvSocketClosed k code reason \<Rightarrow> socket_closed k code reason s
   | EvReceive k raw \<Rightarrow> receive_server_frame raw k s
   | EvReconnectTimer \<Rightarrow> reconnect_timer_fires s
   | EvOnline \<Rightarrow> handle_online s
   | EvAckTimer \<Rightarrow> ack_timer_fires s
   | EvApply sink \<Rightarrow> run_apply sha256 sink s
   | EvSendInput bs \<Rightarrow> fst (send_input bs s)
   | EvRetryInput \<Rightarrow> fst (retry_not_sent_input s)
   | EvDiscardInput socket_open \<Rightarrow> fst (discard_unconfirmed_input socket_open s)
   | EvResize columns rows \<Rightarrow> settle s (resize_terminal columns rows s)
   | EvClaimControl \<Rightarrow> settle s (claim_control s)
   | EvReleaseControl \<Rightarrow> settle s (release_control s)
   | EvClose \<Rightarrow> close_session s)"

definition run_session :: "(bytes \<Rightarrow> string) \<Rightarrow> session_event list \<Rightarrow> session \<Rightarrow> session_step" where
  "run_session sha256 = run_steps (session_event_step sha256)"

end
