(* ===== verification/SessionInput.thy ===== *)
theory SessionInput
  imports TerminalSession
begin

text \<open>
  Properties of the input path of a terminal session: the loop that drains the queue returns, the queue
  and the ledger stay within their bounds in every run of the session, and the input frames one call
  puts on the wire are in order and carry the authority the session holds.
\<close>

section \<open>Definitions\<close>

text \<open>The loop of \<^verbatim>\<open>#drainInputQueue\<close> stopped after \<open>n\<close> passes; \<open>None\<close> when it has not returned by
  then.\<close>

primrec drain_fuel :: "nat \<Rightarrow> session \<Rightarrow> session_step option" where
  "drain_fuel 0 s = None"
| "drain_fuel (Suc n) s = (case drain_round s of
     (Return s', outs) \<Rightarrow> Some (s', outs)
   | (Continue s', outs) \<Rightarrow> map_option (\<lambda>r. (fst r, outs @ snd r)) (drain_fuel n s'))"

definition queue_ok :: "session \<Rightarrow> bool" where
  "queue_ok s \<longleftrightarrow> sequencer_ok (ts_seq s) \<and>
     (\<forall>bs \<in> set (ts_queued s). bs \<noteq> [] \<and> int (length bs) \<le> max_input_bytes) \<and>
     ts_queued_bytes s = sum_list (map (\<lambda>bs. int (length bs)) (ts_queued s)) \<and>
     length (ts_queued s) + length (sq_pending (ts_seq s)) \<le> max_queued_input_entries \<and>
     ts_queued_bytes s + sq_bytes (ts_seq s) \<le> max_queued_input_bytes"

definition sent_inputs :: "session_output list \<Rightarrow> sequenced_input list" where
  "sent_inputs outs = List.map_filter (\<lambda>ev. case ev of OSend k (CInput i) \<Rightarrow> Some i | _ \<Rightarrow> None) outs"

section \<open>Lemmas\<close>

subsection \<open>The drain loop returns\<close>

lemma drain_loop_fuel: "drain_measure s < n \<Longrightarrow> drain_fuel n s = Some (drain_loop s)"
proof (induction n arbitrary: s)
  case (Suc n)
  show ?case
  proof (cases "drain_round s")
    case (Pair r outs)
    then show ?thesis
      using Suc drain_round_decreases [of s]
      by (cases r) (auto simp: drain_loop.simps [of s] Let_def)
  qed
qed simp

lemma sent_inputs_append [simp]: "sent_inputs (a @ b) = sent_inputs a @ sent_inputs b"
  by (simp add: sent_inputs_def map_filter_def)

lemma sent_inputs_simps [simp]:
  "sent_inputs [] = []"
  "sent_inputs (OSend k (CInput i) # outs) = i # sent_inputs outs"
  "sent_inputs (OPublish sn # outs) = sent_inputs outs"
  "sent_inputs (OSocketClose k c r # outs) = sent_inputs outs"
  by (simp_all add: sent_inputs_def map_filter_def)

lemma send_input_frame_sent:
  "sent_inputs (snd (fst (send_input_frame i s))) = (if snd (send_input_frame i s) then [i] else [])"
  by (auto simp: send_input_frame_def send_raw_def split: option.splits list.splits)

lemma drain_loop_induct [case_names Return Continue]:
  assumes "\<And>s s' outs. drain_round s = (Return s', outs) \<Longrightarrow> P s (s', outs)"
    and "\<And>s s' outs r. drain_round s = (Continue s', outs) \<Longrightarrow> P s' r \<Longrightarrow> r = drain_loop s' \<Longrightarrow>
      P s (fst r, outs @ snd r)"
  shows "P s (drain_loop s)"
proof (induction s rule: drain_loop.induct)
  case (1 s)
  show ?case
  proof (cases "drain_round s")
    case (Pair r outs)
    then show ?thesis
      using 1 assms by (cases r) (auto simp: drain_loop.simps [of s] Let_def)
  qed
qed

text \<open>What a single pass does: it stops without sending, or it takes one input, from the replays or
  from the queue, and sends it or marks it as not sent.\<close>

lemma drain_round_cases:
  obtains (stop) "drain_round s = (Return s, [])" "snd (next_replay (ts_seq s)) = None"
      "input_available (ts_seq s) \<longrightarrow> ts_queued s = [] \<or>
         (\<exists>reason. snd (sequence_input (hd (ts_queued s)) (ts_seq s)) = Blocked reason)"
  | (replay) q i where "next_replay (ts_seq s) = (q, Some i)"
      "drain_round s = drain_sent (in_seq i) (send_input_frame i (s\<lparr>ts_seq := q\<rparr>))"
  | (fresh) bs rest q i where "snd (next_replay (ts_seq s)) = None" "ts_queued s = bs # rest" "input_available (ts_seq s)"
      "sequence_input bs (ts_seq s) = (q, Sequenced i)"
      "drain_round s = drain_sent (in_seq i) (send_input_frame i
         (s\<lparr>ts_queued := rest, ts_queued_bytes := ts_queued_bytes s - int (length bs), ts_seq := q\<rparr>))"
proof (cases "snd (next_replay (ts_seq s))")
  case (Some i)
  then obtain q where "next_replay (ts_seq s) = (q, Some i)"
    by (cases "next_replay (ts_seq s)") auto
  then show ?thesis
    using replay by (simp add: drain_round_def)
next
  case None
  then have none: "next_replay (ts_seq s) = (ts_seq s, None)"
    using next_replay_None by (cases "next_replay (ts_seq s)") auto
  show ?thesis
  proof (cases "input_available (ts_seq s) \<and> ts_queued s \<noteq> []")
    case False
    then show ?thesis
      using stop none by (auto simp: drain_round_def split: list.splits)
  next
    case True
    then obtain bs rest where queue: "ts_queued s = bs # rest"
      by (cases "ts_queued s") auto
    show ?thesis
    proof (cases rule: sequence_input_cases [of bs "ts_seq s"])
      case (blocked reason)
      then have "drain_round s = (Return s, [])"
        using none queue True by (simp add: drain_round_def Let_def)
      then show ?thesis
        using stop none blocked queue by auto
    next
      case (sequenced inc epoch n)
      then show ?thesis
        using fresh none queue True by (simp add: drain_round_def Let_def)
    qed
  qed
qed

subsection \<open>Bounds of the queue and the ledger\<close>

lemma queue_okI_same:
  "queue_ok s \<Longrightarrow> ts_seq s' = ts_seq s \<Longrightarrow> ts_queued s' = ts_queued s \<Longrightarrow> ts_queued_bytes s' = ts_queued_bytes s \<Longrightarrow>
     queue_ok s'"
  by (simp add: queue_ok_def)

lemma queue_okI_shrunk:
  assumes "queue_ok s" "sequencer_ok q" "length (sq_pending q) \<le> length (sq_pending (ts_seq s))"
    "sq_bytes q \<le> sq_bytes (ts_seq s)" "ts_seq s' = q" "ts_queued s' = ts_queued s"
    "ts_queued_bytes s' = ts_queued_bytes s"
  shows "queue_ok s'"
  using assms by (simp add: queue_ok_def)

lemma length_pending_set_state [simp]:
  "length (sq_pending (set_state k st q)) = length (sq_pending q)" "sq_bytes (set_state k st q) = sq_bytes q"
  "length (sq_pending (reopen_gap n q)) = length (sq_pending q)" "sq_bytes (reopen_gap n q) = sq_bytes q"
  by (simp_all add: set_state_def reopen_gap_def jmap_map_def)

lemma retire_through_shrinks:
  "length (sq_pending (retire_through n q)) \<le> length (sq_pending q)" "sq_bytes (retire_through n q) \<le> sq_bytes q"
  using sum_entry_bytes_nonneg by (simp_all add: length_dropWhile_le retire_through_def)

lemma mark_refused_ok [sedes_inv]: "queue_ok s \<Longrightarrow> queue_ok (mark_refused k s)"
  by (rule queue_okI_shrunk [of s "mark_not_sent k (ts_seq s)"])
    (auto simp: mark_refused_def queue_ok_def mark_not_sent_def sedes_inv)

lemma next_replay_size:
  "length (sq_pending (fst (next_replay q))) = length (sq_pending q)" "sq_bytes (fst (next_replay q)) = sq_bytes q"
  by (auto simp: next_replay_def split: option.splits)

lemma retry_not_sent_size:
  "length (sq_pending (fst (retry_not_sent q))) = length (sq_pending q)" "sq_bytes (fst (retry_not_sent q)) = sq_bytes q"
  by (auto simp: retry_not_sent_def split: list.splits)

lemma sequence_input_size:
  assumes "sequencer_ok q" "sequence_input bs q = (q', Sequenced i)"
  shows "length (sq_pending q') = Suc (length (sq_pending q))" "sq_bytes q' = sq_bytes q + int (length bs)"
    "sequencer_ok q'"
proof -
  show "sequencer_ok q'"
    using sequence_input_ok [OF assms(1), of bs] assms(2) by simp
  show "length (sq_pending q') = Suc (length (sq_pending q))" "sq_bytes q' = sq_bytes q + int (length bs)"
    using assms next_is_fresh [OF assms(1)]
    by (cases rule: sequence_input_cases [of bs q]; auto simp: length_jmap_set jmap_has_def)+
qed

lemma resolve_input_size:
  "length (sq_pending (resolve_input seq outcome n message q)) \<le> length (sq_pending q)"
  "sq_bytes (resolve_input seq outcome n message q) \<le> sq_bytes q"
  using retire_through_shrinks [of "resolve_mark seq outcome n" q]
  by (cases outcome; simp add: resolve_input_cases Let_def set_state_def jmap_map_def)+

lemma lose_control_size:
  "lose_control n q = Inr q' \<Longrightarrow> length (sq_pending q') \<le> length (sq_pending q) \<and> sq_bytes q' \<le> sq_bytes q"
  using retire_through_shrinks
  by (auto simp: lose_control_def drop_authority_def split: option.splits sum.splits)

lemma adopt_controller_size:
  "adopt_controller inc epoch n q = Inr q' \<Longrightarrow>
     length (sq_pending q') \<le> length (sq_pending q) \<and> sq_bytes q' \<le> sq_bytes q"
  using retire_through_shrinks [of n q]
  by (auto simp: adopt_controller_def Let_def jmap_map_def split: sum.splits)

lemma discard_uncertain_size:
  "sq_bytes (fst (discard_uncertain q)) \<le> sq_bytes q"
  using sum_entry_bytes_nonneg by (auto simp: discard_uncertain_def split: option.splits)

lemma send_input_frame_ok [sedes_inv]: "queue_ok s \<Longrightarrow> queue_ok (fst (fst (send_input_frame i s)))"
  by (rule queue_okI_same [of s]) (simp_all add: send_input_frame_def)

lemma drain_sent_ok:
  assumes "queue_ok (fst (fst r))"
  shows "case fst (drain_sent k r) of Return s' \<Rightarrow> queue_ok s' | Continue s' \<Rightarrow> queue_ok s'"
  using assms by (simp add: drain_sent_def sedes_inv)

lemma dequeued_ok:
  assumes ok: "queue_ok s" and queue: "ts_queued s = bs # rest"
    and seq: "sequence_input bs (ts_seq s) = (q, Sequenced i)"
  shows "queue_ok (s\<lparr>ts_queued := rest, ts_queued_bytes := ts_queued_bytes s - int (length bs), ts_seq := q\<rparr>)"
  using ok queue sequence_input_size [OF _ seq] by (simp add: queue_ok_def)

lemma drain_round_ok:
  assumes "queue_ok s"
  shows "case fst (drain_round s) of Return s' \<Rightarrow> queue_ok s' | Continue s' \<Rightarrow> queue_ok s'"
proof (cases rule: drain_round_cases [of s])
  case stop
  then show ?thesis
    using assms by simp
next
  case (replay q i)
  have "queue_ok (s\<lparr>ts_seq := q\<rparr>)"
    using assms next_replay_ok [of "ts_seq s"] next_replay_size [of "ts_seq s"] replay(1)
    by - (rule queue_okI_shrunk [of s q], auto simp: queue_ok_def)
  then show ?thesis
    using replay(2) by (simp add: drain_sent_ok send_input_frame_ok)
next
  case (fresh bs rest q i)
  then show ?thesis
    using dequeued_ok [OF assms] by (simp add: drain_sent_ok send_input_frame_ok)
qed

lemma drain_loop_ok [sedes_inv]:
  assumes "queue_ok s"
  shows "queue_ok (fst (drain_loop s))"
proof -
  have "queue_ok s \<longrightarrow> queue_ok (fst (drain_loop s))"
  proof (rule drain_loop_induct [of "\<lambda>s r. queue_ok s \<longrightarrow> queue_ok (fst r)"])
    show "queue_ok s \<longrightarrow> queue_ok (fst (s', outs))" if "drain_round s = (Return s', outs)" for s s' outs
      using that drain_round_ok [of s] by auto
    show "queue_ok s \<longrightarrow> queue_ok (fst (fst r, outs @ snd r))"
      if "drain_round s = (Continue s', outs)" "queue_ok s' \<longrightarrow> queue_ok (fst r)" for s s' outs r
      using that drain_round_ok [of s] by auto
  qed
  then show ?thesis
    using assms by simp
qed

lemma drain_input_queue_ok [sedes_inv]: "queue_ok s \<Longrightarrow> queue_ok (fst (drain_input_queue s))"
  by (simp add: drain_input_queue_def sedes_inv)

subsection \<open>Every event keeps the bounds\<close>

lemma queue_ok_neutral [simp]:
  "queue_ok (s\<lparr>ts_snap := sn\<rparr>) = queue_ok s" "queue_ok (s\<lparr>ts_socket := so\<rparr>) = queue_ok s"
  "queue_ok (s\<lparr>ts_next_socket := n\<rparr>) = queue_ok s" "queue_ok (s\<lparr>ts_link := l\<rparr>) = queue_ok s"
  "queue_ok (s\<lparr>ts_closed := b\<rparr>) = queue_ok s" "queue_ok (s\<lparr>ts_admission_pending := b\<rparr>) = queue_ok s"
  "queue_ok (s\<lparr>ts_online_listener := b\<rparr>) = queue_ok s" "queue_ok (s\<lparr>ts_connect_epoch := n\<rparr>) = queue_ok s"
  "queue_ok (s\<lparr>ts_reconnect_attempts := n\<rparr>) = queue_ok s" "queue_ok (s\<lparr>ts_reconnect_timer := t\<rparr>) = queue_ok s"
  "queue_ok (s\<lparr>ts_pending_ack := a\<rparr>) = queue_ok s" "queue_ok (s\<lparr>ts_ack_timer := so\<rparr>) = queue_ok s"
  "queue_ok (s\<lparr>ts_jobs := js\<rparr>) = queue_ok s" "queue_ok (s\<lparr>ts_restore_next := b\<rparr>) = queue_ok s"
  "queue_ok (s\<lparr>ts_restore_kind := rk\<rparr>) = queue_ok s" "queue_ok (s\<lparr>ts_active_seq := aseq\<rparr>) = queue_ok s"
  "queue_ok (s\<lparr>ts_active := act\<rparr>) = queue_ok s" "queue_ok (s\<lparr>ts_desired := r\<rparr>) = queue_ok s"
  by (simp_all add: queue_ok_def)

lemma queue_ok_neutral_ops [simp]:
  "queue_ok (fst (set_snapshot p s)) = queue_ok s"
  "queue_ok (set_snapshot_quietly p s) = queue_ok s"
  "queue_ok (fst (close_socket c r s)) = queue_ok s"
  "queue_ok (fst (publish_input_availability s)) = queue_ok s"
  "queue_ok (fst (fst (send_raw f s))) = queue_ok s"
  "queue_ok (add_job j s) = queue_ok s"
  "queue_ok (queue_output_ack a k s) = queue_ok s"
  "queue_ok (clear_pending_output_ack s) = queue_ok s"
  by (auto simp: set_snapshot_def set_snapshot_quietly_def close_socket_def publish_input_availability_def
      send_raw_def add_job_def queue_output_ack_def clear_pending_output_ack_def split: option.splits list.splits)

lemma queue_ok_failures [simp]:
  "queue_ok (fst (fail_protocol m s)) = queue_ok s"
  "queue_ok (fst (fail_apply m s)) = queue_ok s"
  "queue_ok (fst (flush_output_ack k s)) = queue_ok s"
  "queue_ok (enqueue_sequenced n k act s) = queue_ok s"
  "queue_ok (fst (snapshot_applied n s)) = queue_ok s"
  "queue_ok (sequenced_applied k n s) = queue_ok s"
  by (auto simp: fail_protocol_def fail_apply_def flush_output_ack_def enqueue_sequenced_def snapshot_applied_def
      sequenced_applied_def Let_def split: option.splits)

lemma queue_ok_connection [simp]:
  "queue_ok (fst (schedule_reconnect s)) = queue_ok s"
  "queue_ok (fst (connect s)) = queue_ok s"
  "queue_ok (fst (admission_failed n m s)) = queue_ok s"
  "queue_ok (fst (admission_granted n ad s)) = queue_ok s"
  "queue_ok (fst (socket_opened k s)) = queue_ok s" "queue_ok (fst (socket_failed k s)) = queue_ok s"
  "queue_ok (fst (socket_closed k c r s)) = queue_ok s"
  "queue_ok (fst (retry_connection s)) = queue_ok s"
  "queue_ok (fst (reconnect_timer_fires s)) = queue_ok s" "queue_ok (fst (handle_online s)) = queue_ok s"
  "queue_ok (fst (ack_timer_fires s)) = queue_ok s"
  by (auto simp: schedule_reconnect_def connect_def admission_failed_def admission_granted_def socket_opened_def
      socket_failed_def socket_closed_def retry_connection_def reconnect_timer_fires_def handle_online_def
      ack_timer_fires_def Let_def split: option.splits bool.splits)

lemma new_ledger_ok:
  "queue_ok s \<Longrightarrow> sequencer_ok q \<Longrightarrow> length (sq_pending q) \<le> length (sq_pending (ts_seq s)) \<Longrightarrow>
     sq_bytes q \<le> sq_bytes (ts_seq s) \<Longrightarrow> queue_ok (s\<lparr>ts_seq := q\<rparr>)"
  by (rule queue_okI_shrunk [of s q]) simp_all

lemma queue_ok_sequencer: "queue_ok s \<Longrightarrow> sequencer_ok (ts_seq s)"
  by (simp add: queue_ok_def)

lemma drop_control_ok [sedes_inv]: "queue_ok s \<Longrightarrow> queue_ok (drop_control s)"
  unfolding drop_control_def
  by (rule new_ledger_ok) (auto simp: drop_authority_def intro: drop_authority_ok [unfolded drop_authority_def] queue_ok_sequencer)

lemma lost_ok: "queue_ok s \<Longrightarrow> lose_control n (ts_seq s) = Inr q \<Longrightarrow> queue_ok (s\<lparr>ts_seq := q\<rparr>)"
  using lose_control_size lose_control_ok queue_ok_sequencer by (blast intro: new_ledger_ok)

lemma adopted_ok: "queue_ok s \<Longrightarrow> adopt_controller inc e n (ts_seq s) = Inr q \<Longrightarrow> queue_ok (s\<lparr>ts_seq := q\<rparr>)"
  using adopt_controller_size adopt_controller_ok queue_ok_sequencer by (blast intro: new_ledger_ok)

lemma adopt_role_ok: "queue_ok s \<Longrightarrow> adopt_role rf s = Inr r \<Longrightarrow> queue_ok (fst r)"
  by (auto simp: adopt_role_def Let_def lost_ok adopted_ok drain_input_queue_ok split: sum.splits if_splits)

lemma apply_lifecycle_ok [sedes_inv]: "queue_ok s \<Longrightarrow> queue_ok (fst (apply_lifecycle l r m s))"
  by (simp add: apply_lifecycle_def drop_control_ok)

lemma attached_role_ok:
  "queue_ok s \<Longrightarrow> queue_ok (fst (if af_lifecycle frame = Running
     then (case adopt_role frame s of Inl e \<Rightarrow> fail_apply e s | Inr r \<Rightarrow> r)
     else (case lose_control (Some (rf_accepted frame)) (ts_seq s) of
         Inl e \<Rightarrow> fail_apply e s | Inr q \<Rightarrow> set_snapshot (p q) (s\<lparr>ts_seq := q\<rparr>))))"
  by (auto simp: adopt_role_ok lost_ok split: sum.splits)

lemma attached_resized_ok [sedes_inv]: "queue_ok s \<Longrightarrow> queue_ok (fst (attached_resized af s))"
  unfolding attached_resized_def fst_then_do by (rule attached_role_ok) simp

lemma caught_up_ok [sedes_inv]: "queue_ok s \<Longrightarrow> queue_ok (fst (caught_up k n s))"
  by (simp add: caught_up_def drain_input_queue_ok)

lemma run_job_ok [sedes_inv]: "queue_ok s \<Longrightarrow> queue_ok (fst (fst (run_job sha sink job s)))"
  by (cases job)
    (auto simp: run_job_def start_snapshot_end_def start_sequenced_def start_action_def sedes_inv
      split: option.splits sum.splits apply_action.splits)

lemma run_apply_ok [sedes_inv]: "queue_ok s \<Longrightarrow> queue_ok (fst (run_apply sha sink s))"
  using run_job_ok [of s sha sink "hd (ts_jobs s)"]
  by (auto simp: run_apply_def split: list.splits prod.splits)

lemma send_raw_ok: "send_raw f s = ((s', outs), b) \<Longrightarrow> queue_ok s' = queue_ok s"
  using queue_ok_neutral_ops(5) [of f s] by simp

lemma enqueue_input_ok [sedes_inv]:
  assumes "queue_ok s" "bs \<noteq> []" "int (length bs) \<le> max_input_bytes"
  shows "queue_ok (fst (fst (enqueue_input bs s)))"
proof (cases "max_queued_input_entries \<le> length (ts_queued s) + length (sq_pending (ts_seq s)) \<or>
    max_queued_input_bytes < ts_queued_bytes s + sq_bytes (ts_seq s) + int (length bs)")
  case True
  then show ?thesis
    using assms by (simp add: enqueue_input_def)
next
  case False
  then have "queue_ok (s\<lparr>ts_queued := ts_queued s @ [bs], ts_queued_bytes := ts_queued_bytes s + int (length bs)\<rparr>)"
    using assms unfolding queue_ok_def by auto
  then show ?thesis
    using False by (simp add: enqueue_input_def)
qed

lemma first_input_ok:
  assumes "queue_ok s" "ts_queued s = []" "sequence_input bs (ts_seq s) = (q, Sequenced i)"
  shows "queue_ok (s\<lparr>ts_seq := q\<rparr>)"
proof -
  have "sequencer_ok q"
    using sequence_input_size(3) assms queue_ok_sequencer by blast
  moreover have "ts_queued_bytes s = 0"
    using assms by (simp add: queue_ok_def)
  ultimately show ?thesis
    using assms(2) by (simp add: queue_ok_def sequencer_ok_def max_in_flight_entries_def max_in_flight_bytes_def
        max_queued_input_entries_def max_queued_input_bytes_def)
qed

lemma send_input_ok [sedes_inv]:
  assumes ok: "queue_ok s"
  shows "queue_ok (fst (fst (send_input bs s)))"
proof (cases rule: sequence_input_cases [of bs "ts_seq s"])
  case (blocked reason)
  then show ?thesis
    using ok by (auto simp: send_input_def enqueue_input_ok)
next
  case (sequenced inc epoch n)
  let ?r = "sequence_input bs (ts_seq s)"
  obtain i where i: "?r = (fst ?r, Sequenced i)"
    using sequenced by simp
  have "queue_ok (fst (fst (send_input_frame i (s\<lparr>ts_seq := fst ?r\<rparr>))))" if "ts_queued s = []"
    using first_input_ok [OF ok that i] by (rule send_input_frame_ok)
  then show ?thesis
    using ok by (subst send_input_def, subst i)
      (auto simp: enqueue_input_ok mark_refused_ok split: prod.splits)
qed

lemma retry_not_sent_input_ok [sedes_inv]:
  assumes ok: "queue_ok s"
  shows "queue_ok (fst (fst (retry_not_sent_input s)))"
proof -
  have ledger: "queue_ok (s\<lparr>ts_seq := fst (retry_not_sent (ts_seq s))\<rparr>)"
    using ok by (intro new_ledger_ok) (simp_all add: retry_not_sent_size retry_not_sent_ok queue_ok_sequencer)
  then show ?thesis
    using ok ledger by (auto simp: retry_not_sent_input_def mark_refused_ok send_input_frame_def send_raw_ok
        split: prod.splits option.splits)
qed

lemma discard_unconfirmed_input_ok [sedes_inv]:
  assumes ok: "queue_ok s"
  shows "queue_ok (fst (fst (discard_unconfirmed_input b s)))"
proof -
  let ?q = "fst (discard_uncertain (ts_seq s))"
  have q: "sequencer_ok ?q"
    using ok discard_uncertain_ok queue_ok_sequencer by blast
  then have "queue_ok (s\<lparr>ts_seq := ?q, ts_queued := [], ts_queued_bytes := 0\<rparr>)"
    by (simp add: queue_ok_def sequencer_ok_def max_in_flight_entries_def max_in_flight_bytes_def
        max_queued_input_entries_def max_queued_input_bytes_def)
  moreover have "?q = ts_seq s" if "\<not> snd (discard_uncertain (ts_seq s))"
    using that by (auto simp: discard_uncertain_def split: option.splits)
  ultimately show ?thesis
    using ok by (auto simp: discard_unconfirmed_input_def split: prod.splits bool.splits)
qed

lemma handle_removed_ok [sedes_inv]:
  assumes ok: "queue_ok s"
  shows "queue_ok (fst (handle_removed k s))"
proof -
  have "sequencer_ok (drop_authority (ts_seq s))"
    using ok drop_authority_ok queue_ok_sequencer by blast
  then have "queue_ok (t\<lparr>ts_queued := [], ts_queued_bytes := 0, ts_seq := drop_authority (ts_seq s)\<rparr>)" for t
    by (simp add: queue_ok_def sequencer_ok_def max_in_flight_entries_def max_in_flight_bytes_def
        max_queued_input_entries_def max_queued_input_bytes_def)
  then show ?thesis
    using ok by (simp add: handle_removed_def Let_def)
qed

lemma handle_input_result_ok [sedes_inv]:
  assumes "queue_ok s"
  shows "queue_ok (fst (handle_input_result seq outcome n m s))"
proof -
  have "queue_ok (s\<lparr>ts_seq := resolve_input seq outcome (Some n) m (ts_seq s)\<rparr>)"
    using assms by (intro new_ledger_ok resolve_input_ok resolve_input_size queue_ok_sequencer)
  then show ?thesis
    by (auto simp: handle_input_result_def Let_def drain_input_queue_ok)
qed

lemma handle_frame_ok [sedes_inv]: "queue_ok s \<Longrightarrow> queue_ok (fst (handle_frame frame k s))"
  by (cases frame)
    (auto simp: handle_frame_def handle_snapshot_chunk_def Let_def adopt_role_ok handle_input_result_ok
      handle_removed_ok apply_lifecycle_ok split: option.splits sum.splits)

lemma session_event_step_ok: "queue_ok s \<Longrightarrow> queue_ok (fst (session_event_step sha ev s))"
  by (cases ev)
    (auto simp: session_event_step_def receive_server_frame_def settle_def resize_terminal_def claim_control_def
      release_control_def send_identity_frame_def close_session_def handle_frame_ok run_apply_ok send_input_ok
      retry_not_sent_input_ok discard_unconfirmed_input_ok drop_control_ok send_raw_ok split: received_frame.splits prod.splits)

interpretation input_bounds: reactive_invariant "session_event_step sha" "\<lambda>_. True" "\<lambda>s _. queue_ok s" for sha
  by unfold_locales (rule session_event_step_ok)

subsection \<open>Order of the inputs one drain sends\<close>

definition sends_after :: "int \<Rightarrow> sequencer \<Rightarrow> bool" where
  "sends_after m q \<longleftrightarrow> (\<forall>k i. first_replay (sq_pending q) = Some (k, i) \<longrightarrow> m < k) \<and>
     (\<forall>n. sq_next q = Some n \<longrightarrow> m < n)"

lemma first_replay_advances:
  "consecutive (map fst es) \<Longrightarrow> first_replay es = Some (k, i) \<Longrightarrow>
     first_replay (jmap_map (\<lambda>k' e. if k' = k then e\<lparr>pi_state := Replayed\<rparr> else e) es) = Some (k', i') \<Longrightarrow> k < k'"
proof (induction es)
  case (Cons x es)
  obtain a e where x: "x = (a, e)"
    by (cases x)
  have above: "a < k''" if "(k'', e'') \<in> set es" for k'' e''
    using Cons.prems(1) consecutive_above [of a "map fst es" k''] that by (force simp: x)
  show ?case
  proof (cases "pi_state e")
    case Replayed
    have "k \<noteq> a"
      using Cons.prems(2) first_replay_in above by (fastforce simp: x Replayed)
    then show ?thesis
      using Cons by (auto simp: x Replayed consecutive_Cons)
  next
    case Replay
    then have "first_replay (jmap_map (\<lambda>k' e. if k' = a then e\<lparr>pi_state := Replayed\<rparr> else e) es) = Some (k', i')"
      using Cons.prems by (simp add: x)
    then obtain e'' where "(k', e'') \<in> set (jmap_map (\<lambda>k' e. if k' = a then e\<lparr>pi_state := Replayed\<rparr> else e) es)"
      using first_replay_in by blast
    then show ?thesis
      using above Cons.prems Replay by (auto simp: x jmap_map_def)
  qed (use Cons.prems x in auto)
qed simp

lemma first_replay_snoc: "first_replay es = None \<Longrightarrow> pi_state e = Sent \<Longrightarrow> first_replay (es @ [(k, e)]) = None"
  by (induction es rule: first_replay.induct) (auto split: pending_state.splits)

lemma next_replay_Some:
  assumes "sequencer_ok q" "next_replay q = (q', Some i)"
  shows "first_replay (sq_pending q) = Some (in_seq i, i)" "q' = set_state (in_seq i) Replayed q"
proof -
  obtain k where k: "first_replay (sq_pending q) = Some (k, i)" "q' = set_state k Replayed q"
    using assms(2) by (auto simp: next_replay_def split: if_splits option.splits)
  obtain e where "(k, e) \<in> set (sq_pending q)" "pi_input e = i"
    using first_replay_in [OF k(1)] by blast
  then have "in_seq i = k"
    using assms(1) by (force simp: sequencer_ok_def entry_ok_def)
  then show "first_replay (sq_pending q) = Some (in_seq i, i)" "q' = set_state (in_seq i) Replayed q"
    using k by simp_all
qed

lemma next_replay_order:
  assumes ok: "sequencer_ok q" and replay: "next_replay q = (q', Some i)"
  shows "sends_after (in_seq i) q'" "sends_after m q \<Longrightarrow> m < in_seq i"
proof -
  note first = next_replay_Some [OF ok replay]
  have "in_seq i \<in> set (pending_keys q)"
    using first_replay_in [OF first(1)] by (force simp: pending_keys_def)
  then have "in_seq i \<le> last (pending_keys q)" "pending_keys q \<noteq> []"
    using ok consecutive_le_last by (auto simp: sequencer_ok_def)
  then have "in_seq i < n" if "sq_next q = Some n" for n
    using ok that by (auto simp: sequencer_ok_def)
  moreover have "in_seq i < k" if "first_replay (sq_pending q') = Some (k, j)" for k j
    using first_replay_advances [OF _ first(1)] that ok first(2)
    by (simp add: sequencer_ok_def pending_keys_def set_state_def)
  ultimately show "sends_after (in_seq i) q'"
    using first(2) by (simp add: sends_after_def set_state_def)
  show "m < in_seq i" if "sends_after m q"
    using that first(1) by (simp add: sends_after_def)
qed

lemma sequence_input_order:
  assumes ok: "sequencer_ok q" and none: "snd (next_replay q) = None" "input_available q"
    and seq: "sequence_input bs q = (q', Sequenced i)"
  shows "sends_after (in_seq i) q'" "sends_after m q \<Longrightarrow> m < in_seq i" "in_bytes i = bs"
    "first_replay (sq_pending q') = None" "first_replay (sq_pending q) = None"
proof -
  show first: "first_replay (sq_pending q) = None"
    using none by (auto simp: next_replay_def input_available_def split: if_splits option.splits)
  obtain n where n: "sq_next q = Some n" "in_seq i = n" "in_bytes i = bs" "sq_next q' = Some (n + 1)"
      "sq_pending q' = jmap_set n \<lparr>pi_input = i, pi_state = Sent\<rparr> (sq_pending q)"
    using seq by (cases rule: sequence_input_cases [of bs q]) auto
  have "sq_pending q' = sq_pending q @ [(n, \<lparr>pi_input = i, pi_state = Sent\<rparr>)]"
    using n(5) jmap_set_absent [OF next_is_fresh [OF ok n(1)]] by simp
  then show none': "first_replay (sq_pending q') = None"
    using first first_replay_snoc by simp
  show "sends_after (in_seq i) q'" "sends_after m q \<Longrightarrow> m < in_seq i" "in_bytes i = bs"
    using n none' by (simp_all add: sends_after_def)
qed

definition drains_in_order :: "session \<Rightarrow> session_step \<Rightarrow> bool" where
  "drains_in_order s r \<longleftrightarrow>
     (\<forall>m. sends_after m (ts_seq s) \<longrightarrow> (\<forall>i \<in> set (sent_inputs (snd r)). m < in_seq i)) \<and>
     sorted_wrt (<) (map in_seq (sent_inputs (snd r))) \<and>
     (\<exists>rs ns k. sent_inputs (snd r) = rs @ ns \<and> (\<forall>i \<in> set rs. \<exists>e \<in> set (sq_pending (ts_seq s)). pi_input (snd e) = i) \<and>
        (first_replay (sq_pending (ts_seq s)) = None \<longrightarrow> rs = []) \<and>
        map in_bytes ns = take (length ns) (ts_queued s) \<and> ts_queued (fst r) = drop k (ts_queued s) \<and>
        length ns \<le> k \<and> k \<le> Suc (length ns))"

lemma drains_nothing:
  "ts_queued (fst r) = drop k (ts_queued s) \<Longrightarrow> k \<le> 1 \<Longrightarrow> sent_inputs (snd r) = [] \<Longrightarrow> drains_in_order s r"
  unfolding drains_in_order_def by (auto intro!: exI [of _ k])

lemma drain_sent_Return:
  "drain_sent seq r = (Return s', outs) \<longleftrightarrow> \<not> snd r \<and> s' = mark_refused seq (fst (fst r)) \<and> outs = snd (fst r)"
  by (auto simp: drain_sent_def)

lemma mark_refused_simps [simp]: "ts_queued (mark_refused k s) = ts_queued s"
  by (simp add: mark_refused_def)

lemma refused_pass:
  "drain_sent seq (send_input_frame i s) = (Return s', outs) \<Longrightarrow> ts_queued s' = ts_queued s \<and> sent_inputs outs = []"
  using send_input_frame_sent [of i s] by (auto simp: drain_sent_Return send_input_frame_def)

lemma sent_pass:
  "drain_sent seq (send_input_frame i s) = (Continue s', outs) \<Longrightarrow>
     ts_queued s' = ts_queued s \<and> ts_seq s' = ts_seq s \<and> sent_inputs outs = [i]"
  using send_input_frame_sent [of i s] by (auto simp: drain_sent_Continue send_input_frame_def)

lemma drain_return_in_order:
  assumes "drain_round s = (Return s', outs)"
  shows "drains_in_order s (s', outs)"
proof (cases rule: drain_round_cases [of s])
  case stop
  then show ?thesis
    using assms by (intro drains_nothing [of _ 0]) auto
next
  case (replay q i)
  then show ?thesis
    using refused_pass [OF trans [OF replay(2) [symmetric] assms]] by (intro drains_nothing [of _ 0]) auto
next
  case (fresh bs rest q i)
  then show ?thesis
    using refused_pass [OF trans [OF fresh(5) [symmetric] assms]] by (intro drains_nothing [of _ 1]) auto
qed

lemma drains_after_replay:
  assumes ok: "sequencer_ok (ts_seq s)" and replay: "next_replay (ts_seq s) = (q, Some i)"
    and step: "ts_queued s' = ts_queued s" "ts_seq s' = q" "sent_inputs outs = [i]"
    and rest: "drains_in_order s' r"
  shows "drains_in_order s (fst r, outs @ snd r)"
proof -
  note order = next_replay_order [OF ok replay] and first = next_replay_Some [OF ok replay]
  obtain rs ns k where rsns: "sent_inputs (snd r) = rs @ ns"
      "\<forall>i \<in> set rs. \<exists>e \<in> set (sq_pending q). pi_input (snd e) = i"
      "map in_bytes ns = take (length ns) (ts_queued s)" "ts_queued (fst r) = drop k (ts_queued s)"
      "length ns \<le> k" "k \<le> Suc (length ns)"
    using rest step unfolding drains_in_order_def by auto
  have later: "\<forall>j \<in> set (sent_inputs (snd r)). in_seq i < in_seq j" "sorted_wrt (<) (map in_seq (sent_inputs (snd r)))"
    using rest order(1) step(2) unfolding drains_in_order_def by auto
  have ledger: "\<exists>e' \<in> set (sq_pending (ts_seq s)). pi_input (snd e') = pi_input (snd e)" if e: "e \<in> set (sq_pending q)" for e
  proof -
    obtain x where "x \<in> set (sq_pending (ts_seq s))"
        "e = (fst x, if fst x = in_seq i then (snd x)\<lparr>pi_state := Replayed\<rparr> else snd x)"
      using e first(2) by (auto simp: set_state_def jmap_map_def split_def)
    then show ?thesis
      by (intro bexI [of _ x]) auto
  qed
  have "\<exists>e \<in> set (sq_pending (ts_seq s)). pi_input (snd e) = i"
    using first_replay_in [OF first(1)] by force
  then have "\<forall>j \<in> set (i # rs). \<exists>e \<in> set (sq_pending (ts_seq s)). pi_input (snd e) = j"
    using rsns(2) ledger by (metis set_ConsD)
  then have "\<exists>rs' ns k. sent_inputs (outs @ snd r) = rs' @ ns \<and>
      (\<forall>i \<in> set rs'. \<exists>e \<in> set (sq_pending (ts_seq s)). pi_input (snd e) = i) \<and>
      (first_replay (sq_pending (ts_seq s)) = None \<longrightarrow> rs' = []) \<and>
      map in_bytes ns = take (length ns) (ts_queued s) \<and> ts_queued (fst r) = drop k (ts_queued s) \<and>
      length ns \<le> k \<and> k \<le> Suc (length ns)"
    using rsns step(3) first(1) by (intro exI [of _ "i # rs"] exI [of _ ns] exI [of _ k]) auto
  moreover have "\<forall>j \<in> set (sent_inputs (outs @ snd r)). m < in_seq j" if "sends_after m (ts_seq s)" for m
    using order(2) [OF that] later(1) step(3) by fastforce
  ultimately show ?thesis
    using later step(3) unfolding drains_in_order_def by auto
qed

lemma drains_after_fresh:
  assumes ok: "sequencer_ok (ts_seq s)" and none: "snd (next_replay (ts_seq s)) = None" "input_available (ts_seq s)"
    and queue: "ts_queued s = bs # rest" and seq: "sequence_input bs (ts_seq s) = (q, Sequenced i)"
    and step: "ts_queued s' = rest" "ts_seq s' = q" "sent_inputs outs = [i]"
    and run: "drains_in_order s' r"
  shows "drains_in_order s (fst r, outs @ snd r)"
proof -
  note order = sequence_input_order [OF ok none seq]
  obtain ns k where ns: "sent_inputs (snd r) = ns" "map in_bytes ns = take (length ns) rest"
      "ts_queued (fst r) = drop k rest" "length ns \<le> k" "k \<le> Suc (length ns)"
    using run step order(4) unfolding drains_in_order_def by auto
  have later: "\<forall>j \<in> set (sent_inputs (snd r)). in_seq i < in_seq j" "sorted_wrt (<) (map in_seq (sent_inputs (snd r)))"
    using run order(1) step(2) unfolding drains_in_order_def by auto
  have "\<exists>rs' ns k. sent_inputs (outs @ snd r) = rs' @ ns \<and>
      (\<forall>i \<in> set rs'. \<exists>e \<in> set (sq_pending (ts_seq s)). pi_input (snd e) = i) \<and>
      (first_replay (sq_pending (ts_seq s)) = None \<longrightarrow> rs' = []) \<and>
      map in_bytes ns = take (length ns) (ts_queued s) \<and> ts_queued (fst r) = drop k (ts_queued s) \<and>
      length ns \<le> k \<and> k \<le> Suc (length ns)"
    using ns step(3) order(3) queue by (intro exI [of _ "[]"] exI [of _ "i # ns"] exI [of _ "Suc k"]) auto
  moreover have "\<forall>j \<in> set (sent_inputs (outs @ snd r)). m < in_seq j" if "sends_after m (ts_seq s)" for m
    using order(2) [OF that] later(1) step(3) by fastforce
  ultimately show ?thesis
    using later step(3) unfolding drains_in_order_def by auto
qed

lemma drain_loop_in_order: "queue_ok s \<longrightarrow> drains_in_order s (drain_loop s)"
proof (rule drain_loop_induct [of "\<lambda>s r. queue_ok s \<longrightarrow> drains_in_order s r"])
  show "queue_ok s \<longrightarrow> drains_in_order s (s', outs)" if "drain_round s = (Return s', outs)" for s s' outs
    using drain_return_in_order [OF that] by simp
next
  fix s s' outs r
  assume round: "drain_round s = (Continue s', outs)" and rest: "queue_ok s' \<longrightarrow> drains_in_order s' r"
  show "queue_ok s \<longrightarrow> drains_in_order s (fst r, outs @ snd r)"
  proof
    assume ok: "queue_ok s"
    then have rest': "drains_in_order s' r"
      using rest round drain_round_ok [OF ok] by simp
    show "drains_in_order s (fst r, outs @ snd r)"
    proof (cases rule: drain_round_cases [of s])
      case (replay q i)
      then show ?thesis
        using drains_after_replay [OF queue_ok_sequencer [OF ok] replay(1) _ _ _ rest']
          sent_pass [OF trans [OF replay(2) [symmetric] round]] by simp
    next
      case (fresh bs rest q i)
      then show ?thesis
        using drains_after_fresh [OF queue_ok_sequencer [OF ok] fresh(1,3,2,4) _ _ _ rest']
          sent_pass [OF trans [OF fresh(5) [symmetric] round]] by simp
    qed (use round in simp)
  qed
qed

subsection \<open>Nothing that could be sent stays behind\<close>

definition link_open :: "session \<Rightarrow> bool" where
  "link_open s \<longleftrightarrow> ts_socket s \<noteq> None \<and> drain_measure s \<le> length (ts_link s) \<and> (\<forall>b \<in> set (ts_link s). b)"

definition drained :: "session \<Rightarrow> bool" where
  "drained s \<longleftrightarrow> snd (next_replay (ts_seq s)) = None \<and>
     (input_available (ts_seq s) \<longrightarrow> ts_queued s = [] \<or>
        (\<exists>reason. snd (sequence_input (hd (ts_queued s)) (ts_seq s)) = Blocked reason))"

lemma send_input_frame_open:
  assumes "ts_socket s = Some k" "ts_link s = True # link"
  shows "send_input_frame i s = ((s\<lparr>ts_link := link\<rparr>, [OSend k (CInput i)]), True)"
  using assms by (simp add: send_input_frame_def send_raw_def)

lemma drain_sent_open:
  assumes "ts_socket s \<noteq> None" "ts_link s \<noteq> []" "\<forall>b \<in> set (ts_link s). b"
  shows "\<exists>outs. drain_sent seq (send_input_frame i s) = (Continue (s\<lparr>ts_link := tl (ts_link s)\<rparr>), outs)"
  using assms by (cases "ts_link s") (auto simp: send_input_frame_open drain_sent_def)

lemma drain_round_open:
  assumes "link_open s"
  shows "(fst (drain_round s) = Return s \<and> drained s) \<or> (\<exists>s'. fst (drain_round s) = Continue s' \<and> link_open s')"
proof (cases rule: drain_round_cases [of s])
  case stop
  then show ?thesis
    by (simp add: drained_def)
next
  case (replay q i)
  have "ts_link s \<noteq> []"
    using assms replays_next_replay [OF replay(1)] by (auto simp: link_open_def drain_measure_def)
  then obtain outs where "drain_round s = (Continue (s\<lparr>ts_seq := q, ts_link := tl (ts_link s)\<rparr>), outs)"
    using drain_sent_open [of "s\<lparr>ts_seq := q\<rparr>" "in_seq i" i] assms replay(2) by (auto simp: link_open_def)
  then show ?thesis
    using drain_round_decreases [of s] assms list.set_sel(2) [of "ts_link s"]
    by (fastforce simp: link_open_def)
next
  case (fresh bs rest q i)
  have "ts_link s \<noteq> []"
    using assms fresh(2) by (auto simp: link_open_def drain_measure_def)
  then obtain outs where "drain_round s = (Continue (s\<lparr>ts_queued := rest,
      ts_queued_bytes := ts_queued_bytes s - int (length bs), ts_seq := q, ts_link := tl (ts_link s)\<rparr>), outs)"
    using drain_sent_open [of "s\<lparr>ts_queued := rest, ts_queued_bytes := ts_queued_bytes s - int (length bs), ts_seq := q\<rparr>"
        "in_seq i" i] assms fresh(5) by (auto simp: link_open_def)
  then show ?thesis
    using drain_round_decreases [of s] assms list.set_sel(2) [of "ts_link s"]
    by (fastforce simp: link_open_def)
qed

lemma drain_loop_drained: "link_open s \<longrightarrow> drained (fst (drain_loop s))"
proof (rule drain_loop_induct [of "\<lambda>s r. link_open s \<longrightarrow> drained (fst r)"])
  show "link_open s \<longrightarrow> drained (fst (s', outs))" if "drain_round s = (Return s', outs)" for s s' outs
    using drain_round_open [of s] that by auto
  show "link_open s \<longrightarrow> drained (fst (fst r, outs @ snd r))"
    if "drain_round s = (Continue s', outs)" "link_open s' \<longrightarrow> drained (fst r)" for s s' outs r
    using drain_round_open [of s] that by auto
qed

lemma pass_sends_one:
  "drain_sent seq (send_input_frame i s) = (r, outs) \<Longrightarrow>
     length (sent_inputs outs) \<le> 1 \<and> (\<forall>s'. r = Return s' \<longrightarrow> sent_inputs outs = [])"
  using send_input_frame_sent [of i s] by (auto simp: drain_sent_def split: if_splits)

lemma drain_round_sends_one:
  assumes "drain_round s = (r, outs)"
  shows "length (sent_inputs outs) \<le> 1 \<and> (\<forall>s'. r = Return s' \<longrightarrow> sent_inputs outs = [])"
proof (cases rule: drain_round_cases [of s])
  case (replay q i)
  then show ?thesis
    using pass_sends_one [OF trans [OF replay(2) [symmetric] assms]] by blast
next
  case (fresh bs rest q i)
  then show ?thesis
    using pass_sends_one [OF trans [OF fresh(5) [symmetric] assms]] by blast
qed (use assms in auto)

lemma drain_loop_sends: "length (sent_inputs (snd (drain_loop s))) \<le> drain_measure s"
proof (rule drain_loop_induct [of "\<lambda>s r. length (sent_inputs (snd r)) \<le> drain_measure s"])
  show "length (sent_inputs (snd (s', outs))) \<le> drain_measure s" if "drain_round s = (Return s', outs)" for s s' outs
    using drain_round_sends_one [OF that] by simp
  show "length (sent_inputs (snd (fst r, outs @ snd r))) \<le> drain_measure s"
    if "drain_round s = (Continue s', outs)" "length (sent_inputs (snd r)) \<le> drain_measure s'" for s s' outs r
    using that drain_round_sends_one [OF that(1)] drain_round_decreases [OF that(1)] by simp
qed

section \<open>Properties\<close>

text \<open>C16. The loop that drains the input queue returns: from any state of the session, the body of
  the \<^verbatim>\<open>while (true)\<close> runs at most once more than there are queued inputs and entries waiting for
  replay, and it sends at most that many frames. When the socket takes every frame, it returns with no
  replay left, and with the queue empty unless the ledger takes no more input.\<close>

theorem drain_returns:
  "drain_fuel (Suc (length (ts_queued s) + replays (ts_seq s))) s = Some (drain_loop s) \<and>
   length (sent_inputs (snd (drain_loop s))) \<le> length (ts_queued s) + replays (ts_seq s) \<and>
   (ts_socket s \<noteq> None \<and> length (ts_queued s) + replays (ts_seq s) \<le> length (ts_link s) \<and> (\<forall>b \<in> set (ts_link s). b) \<longrightarrow>
     drained (fst (drain_loop s)))"
  using drain_loop_fuel [of s "Suc (length (ts_queued s) + replays (ts_seq s))"] drain_loop_sends [of s]
    drain_loop_drained [of s]
  by (simp add: drain_measure_def link_open_def del: drain_fuel.simps)

text \<open>A session with input 5 waiting for its replay and one chunk in the queue.\<close>

definition waiting_session :: session where
  "waiting_session =
     \<lparr>ts_terminal = ''t'', ts_incarnation = Some ''i'', ts_producer = ''p'', ts_desired = Controller,
      ts_base_delay = 500,
      ts_seq = \<lparr>sq_producer = ''p'', sq_incarnation = Some ''i'', sq_epoch = Some 2, sq_next = Some 6,
        sq_pending = [(5, \<lparr>pi_input = \<lparr>in_incarnation = ''i'', in_epoch = 2, in_producer = ''p'', in_seq = 5,
          in_bytes = [65]\<rparr>, pi_state = Replay\<rparr>)], sq_bytes = 1, sq_uncertain = None\<rparr>,
      ts_snap = \<lparr>sn_connection = Ready, sn_role = Controller, sn_control_pending = False, sn_epoch = 2,
        sn_lifecycle = Running, sn_revision = 1, sn_rows = 24, sn_columns = 80, sn_applied = Some 0,
        sn_caught_up = True, sn_input_available = True, sn_retry_available = False, sn_uncertain = None,
        sn_queued_count = 1, sn_queued_bytes = 2, sn_overflowed = False, sn_message = None\<rparr>,
      ts_socket = Some 0, ts_next_socket = 1, ts_link = [True, True], ts_closed = False,
      ts_admission_pending = False, ts_online_listener = True, ts_connect_epoch = 1,
      ts_reconnect_attempts = 0, ts_reconnect_timer = None, ts_pending_ack = None, ts_ack_timer = None,
      ts_jobs = [], ts_restore_next = False, ts_restore_kind = Checkpoint, ts_active_seq = None,
      ts_active = None, ts_queued = [[66, 67]], ts_queued_bytes = 2\<rparr>"

theorem drain_returns_witness:
  "drain_fuel 3 waiting_session = Some (drain_loop waiting_session) \<and> drained (fst (drain_loop waiting_session))"
proof -
  have start: "ts_socket waiting_session = Some 0" "ts_queued waiting_session = [[66, 67]]"
      "ts_link waiting_session = [True, True]" "replays (ts_seq waiting_session) = 1"
    by (simp_all add: waiting_session_def replays_def)
  then show ?thesis
    using drain_returns [of waiting_session] by (simp add: numeral_3_eq_3 del: drain_fuel.simps)
qed


lemma waiting_session_ok: "queue_ok waiting_session"
  by (simp add: queue_ok_def waiting_session_def sequencer_ok_def pending_keys_def entry_ok_def entry_bytes_def
      authority_available_def max_in_flight_entries_def max_in_flight_bytes_def max_queued_input_entries_def
      max_queued_input_bytes_def max_input_bytes_def)


text \<open>C18. In every run of a session, the unsent and unconfirmed input stays bounded: the ledger holds
  at most 24 entries and 128 KiB, the queue and the ledger together at most 256 entries and 256 KiB,
  the byte counters are exact, and every queued chunk is between 1 byte and 64 KiB long.\<close>

theorem session_input_bounds:
  assumes "new_session terminal incarnation lifecycle revision rows columns producer role delay link = Inr s0"
    and s: "s = fst (run_session sha256 evs s0)"
  shows "length (sq_pending (ts_seq s)) \<le> 24 \<and> sq_bytes (ts_seq s) \<le> 131072 \<and>
    length (ts_queued s) + length (sq_pending (ts_seq s)) \<le> 256 \<and>
    ts_queued_bytes s + sq_bytes (ts_seq s) \<le> 262144 \<and>
    ts_queued_bytes s = sum_list (map (\<lambda>bs. int (length bs)) (ts_queued s)) \<and>
    sq_bytes (ts_seq s) = sum_list (map entry_bytes (sq_pending (ts_seq s))) \<and>
    (\<forall>bs \<in> set (ts_queued s). 0 < length bs \<and> length bs \<le> 65536)"
proof -
  have "queue_ok s0"
    using assms(1) new_sequencer_ok [of producer]
    by (auto simp: new_session_def queue_ok_def new_sequencer_def max_queued_input_bytes_def split: sum.splits if_splits)
  then have "queue_ok s"
    unfolding s run_session_def by (rule input_bounds.run_from_start) simp
  then show ?thesis
    by (auto simp: queue_ok_def sequencer_ok_def max_in_flight_entries_def max_in_flight_bytes_def
        max_queued_input_entries_def max_queued_input_bytes_def max_input_bytes_def)
qed

text \<open>A session that connects, is attached as controller, catches up and takes two inputs.\<close>

definition typing_events :: "session_event list" where
  "typing_events =
     [EvConnect,
      EvAdmissionGranted 1 \<lparr>ad_terminal = ''t'', ad_incarnation = ''i'', ad_expired = False, ad_socket_error = None\<rparr>,
      EvReceive 0 (Received ''t'' ''i'' (FAttached \<lparr>rf_role = Controller, rf_epoch = 1, rf_accepted = 0,
        rf_incarnation = ''i'', af_lifecycle = Running, af_revision = 1, af_rows = 24, af_columns = 80,
        af_restore = Resume\<rparr>)),
      EvReceive 0 (Received ''t'' ''i'' (FCaughtUp 0)),
      EvApply (Inr ()), EvApply (Inr ()), EvApply (Inr ()), EvSendInput [65], EvSendInput [66, 67]]"

theorem session_input_bounds_witness:
  "\<exists>s0 s. new_session ''t'' (Some ''i'') Running 1 24 80 ''p'' Controller 500 [True, True] = Inr s0 \<and>
     s = fst (run_session (\<lambda>_. []) typing_events s0) \<and>
     length (sq_pending (ts_seq s)) = 2 \<and> sq_bytes (ts_seq s) = 3 \<and> length (sq_pending (ts_seq s)) \<le> 24"
proof -
  let ?n = "new_session ''t'' (Some ''i'') Running 1 24 80 ''p'' Controller 500 [True, True]"
  obtain s0 where s0: "?n = Inr s0"
    by (simp add: new_session_def new_sequencer_def)
  have "case ?n of Inl _ \<Rightarrow> False | Inr s \<Rightarrow>
      (let q = ts_seq (fst (run_session (\<lambda>_. []) typing_events s)) in length (sq_pending q) = 2 \<and> sq_bytes q = 3)"
    by code_simp
  then have "length (sq_pending (ts_seq (fst (run_session (\<lambda>_. []) typing_events s0)))) = 2"
      "sq_bytes (ts_seq (fst (run_session (\<lambda>_. []) typing_events s0))) = 3"
    using s0 by (simp_all add: Let_def)
  then show ?thesis
    using session_input_bounds [OF s0 refl, of "\<lambda>_. []" typing_events] s0 by blast
qed

end
