(* ===== verification/SessionScreen.thy ===== *)
theory SessionScreen
  imports TerminalSession
begin

text \<open>
  What a terminal session shows. The server's terminal has a journal: entry \<open>n\<close> holds the bytes
  \<open>J n\<close> of output \<open>n\<close> (none for a resize or a status change), and \<open>K c\<close> are the bytes of the checkpoint taken
  after entry \<open>c\<close>. The theorem states that the bytes a session has written to its emulator since the
  last reset are a checkpoint followed by the journal entries after it, in order and without a gap, up
  to the entry the session reports as applied, whatever the interleaving of frames, socket changes and
  apply steps.
\<close>

section \<open>Definitions\<close>

fun advance_screen :: "bytes \<Rightarrow> session_output list \<Rightarrow> bytes" where
  "advance_screen scr [] = scr"
| "advance_screen scr (OSinkReset # outs) = advance_screen [] outs"
| "advance_screen scr (OSinkWrite bs # outs) = advance_screen (scr @ bs) outs"
| "advance_screen scr (_ # outs) = advance_screen scr outs"

definition journal_bytes :: "(int \<Rightarrow> bytes) \<Rightarrow> int \<Rightarrow> int \<Rightarrow> bytes" where
  "journal_bytes J c n = concat (map J [c + 1..n])"

definition displays :: "(int \<Rightarrow> bytes) \<Rightarrow> (int \<Rightarrow> bytes) \<Rightarrow> bytes \<Rightarrow> int option \<Rightarrow> bool" where
  "displays J K scr applied = (case applied of
     None \<Rightarrow> scr = []
   | Some n \<Rightarrow> \<exists>c \<le> n. scr = K c @ journal_bytes J c n \<or> scr = journal_bytes J c n)"

fun action_bytes :: "apply_action \<Rightarrow> bytes" where
  "action_bytes (ApplyWrite bs) = bs"
| "action_bytes _ = []"

text \<open>Frames of a server that reports its journal: outputs are the journal's entries, and only the
  checkpoint's bytes have the digest that ends a snapshot.\<close>

fun honest_frame :: "(bytes \<Rightarrow> string) \<Rightarrow> (int \<Rightarrow> bytes) \<Rightarrow> (int \<Rightarrow> bytes) \<Rightarrow> server_frame \<Rightarrow> bool" where
  "honest_frame sha J K (FOutput n bs) \<longleftrightarrow> J n = bs"
| "honest_frame sha J K (FResizeCommitted n rows columns) \<longleftrightarrow> J n = []"
| "honest_frame sha J K (FTerminalStatus n l r m) \<longleftrightarrow> J n = []"
| "honest_frame sha J K (FSnapshotEnd c digest) \<longleftrightarrow> (\<forall>bs. sha bs = digest \<longrightarrow> bs = K c)"
| "honest_frame sha J K FTerminalRemoved \<longleftrightarrow> False"
| "honest_frame sha J K _ \<longleftrightarrow> True"

fun honest_event :: "(bytes \<Rightarrow> string) \<Rightarrow> (int \<Rightarrow> bytes) \<Rightarrow> (int \<Rightarrow> bytes) \<Rightarrow> session_event \<Rightarrow> bool" where
  "honest_event sha J K (EvReceive k (Received t i frame)) \<longleftrightarrow> honest_frame sha J K frame"
| "honest_event sha J K (EvApply sink) \<longleftrightarrow> sink = Inr ()"
| "honest_event sha J K _ \<longleftrightarrow> True"

fun start_job :: "(bytes \<Rightarrow> string) \<Rightarrow> (int \<Rightarrow> bytes) \<Rightarrow> (int \<Rightarrow> bytes) \<Rightarrow> apply_job \<Rightarrow> bool" where
  "start_job sha J K (JobSequenced k n act) \<longleftrightarrow> J n = action_bytes act"
| "start_job sha J K (JobSnapshotEnd k a c digest) \<longleftrightarrow> (\<forall>bs. sha bs = digest \<longrightarrow> bs = K c)"
| "start_job sha J K (JobAttached k af) \<longleftrightarrow> True"
| "start_job sha J K (JobCaughtUp k n) \<longleftrightarrow> True"
| "start_job sha J K _ \<longleftrightarrow> False"

fun screen_at :: "(bytes \<Rightarrow> string) \<Rightarrow> (int \<Rightarrow> bytes) \<Rightarrow> (int \<Rightarrow> bytes) \<Rightarrow> bytes \<Rightarrow> int option \<Rightarrow> apply_job \<Rightarrow> bool" where
  "screen_at sha J K scr applied (JobSnapshotReset a bs c) \<longleftrightarrow> scr = [] \<and> bs = K c"
| "screen_at sha J K scr applied (JobSnapshotResized bs c) \<longleftrightarrow> scr = [] \<and> bs = K c"
| "screen_at sha J K scr applied (JobSnapshotWritten c) \<longleftrightarrow> scr = K c"
| "screen_at sha J K scr applied (JobSequencedApplied k n) \<longleftrightarrow> displays J K scr (Some n)"
| "screen_at sha J K scr applied (JobAttachedResized af) \<longleftrightarrow> displays J K scr applied"
| "screen_at sha J K scr applied job \<longleftrightarrow> start_job sha J K job \<and> displays J K scr applied"

definition screen_ok :: "(bytes \<Rightarrow> string) \<Rightarrow> (int \<Rightarrow> bytes) \<Rightarrow> (int \<Rightarrow> bytes) \<Rightarrow> session \<Rightarrow> bytes \<Rightarrow> bool" where
  "screen_ok sha J K s scr = (case ts_jobs s of
     [] \<Rightarrow> displays J K scr (sn_applied (ts_snap s))
   | job # rest \<Rightarrow> screen_at sha J K scr (sn_applied (ts_snap s)) job \<and> (\<forall>job \<in> set rest. start_job sha J K job))"

section \<open>Lemmas\<close>

subsection \<open>The journal\<close>

lemma advance_screen_append [simp]: "advance_screen scr (a @ b) = advance_screen (advance_screen scr a) b"
  by (induction scr a rule: advance_screen.induct) auto

lemma journal_bytes_snoc: "c \<le> n \<Longrightarrow> journal_bytes J c (n + 1) = journal_bytes J c n @ J (n + 1)"
  by (simp add: journal_bytes_def upto_rec2)

lemma displays_next:
  assumes "displays J K scr applied" "applied = None \<or> applied = Some (n - 1)"
  shows "displays J K (scr @ J n) (Some n)"
proof (cases applied)
  case None
  then show ?thesis
    using assms(1) by (auto simp: displays_def journal_bytes_def intro!: exI [of _ "n - 1"])
next
  case (Some m)
  then obtain c where "c \<le> n - 1" "scr = K c @ journal_bytes J c (n - 1) \<or> scr = journal_bytes J c (n - 1)"
    using assms by (auto simp: displays_def)
  then show ?thesis
    using journal_bytes_snoc [of c "n - 1" J] by (auto simp: displays_def intro!: exI [of _ c])
qed

lemma displays_checkpoint: "displays J K (K c) (Some c)"
  by (auto simp: displays_def journal_bytes_def intro!: exI [of _ c])

subsection \<open>Operations that leave the screen alone\<close>

definition sink_free :: "session_output list \<Rightarrow> bool" where
  "sink_free outs \<longleftrightarrow> (\<forall>scr. advance_screen scr outs = scr)"

definition calm :: "session \<Rightarrow> session_step \<Rightarrow> bool" where
  "calm s r \<longleftrightarrow> sn_applied (ts_snap (fst r)) = sn_applied (ts_snap s) \<and> ts_jobs (fst r) = ts_jobs s \<and>
     sink_free (snd r)"

lemma sink_free_Nil [simp]: "sink_free []"
  by (simp add: sink_free_def)

lemma sink_free_append: "sink_free a \<Longrightarrow> sink_free b \<Longrightarrow> sink_free (a @ b)"
  by (simp add: sink_free_def)

lemma sink_free_Cons [simp]:
  "sink_free (OSend k f # outs) = sink_free outs" "sink_free (OSocketClose k c r # outs) = sink_free outs"
  "sink_free (OPublish sn # outs) = sink_free outs" "sink_free (OUncaught m # outs) = sink_free outs"
  "sink_free (OAdmissionRequest n role req # outs) = sink_free outs"
  by (simp_all add: sink_free_def)

lemma calm_pair [simp]:
  "calm s (t, outs) \<longleftrightarrow> sn_applied (ts_snap t) = sn_applied (ts_snap s) \<and> ts_jobs t = ts_jobs s \<and> sink_free outs"
  by (simp add: calm_def)

lemma screen_calm_then: "calm s r \<Longrightarrow> (\<And>t. calm t (f t)) \<Longrightarrow> calm s (then_do r f)"
  by (simp add: calm_def sink_free_append)

lemma calm_from:
  "calm t r \<Longrightarrow> sn_applied (ts_snap t) = sn_applied (ts_snap s) \<Longrightarrow> ts_jobs t = ts_jobs s \<Longrightarrow> calm s r"
  by (simp add: calm_def)

lemma calm_set_snapshot:
  "(\<And>sn. sn_applied (p sn) = sn_applied sn) \<Longrightarrow> sn_applied (ts_snap t) = sn_applied (ts_snap s) \<Longrightarrow>
     ts_jobs t = ts_jobs s \<Longrightarrow> calm s (set_snapshot p t)"
  by (simp add: set_snapshot_def set_snapshot_quietly_def)

lemma calm_close_socket [simp]: "calm s (close_socket c r s)"
  by (simp add: close_socket_def split: option.splits)

lemma calm_publish [simp]: "calm s (publish_input_availability s)"
  unfolding publish_input_availability_def by (rule calm_set_snapshot) simp_all

lemma calm_fail_protocol [simp]: "calm s (fail_protocol m s)"
  unfolding fail_protocol_def by (intro screen_calm_then calm_set_snapshot calm_close_socket) simp_all

lemma calm_fail_apply [simp]: "calm s (fail_apply m s)"
  unfolding fail_apply_def by (intro screen_calm_then calm_set_snapshot calm_close_socket) simp_all

lemma calm_send_raw [simp]: "calm s (fst (send_raw f s))"
  by (simp add: send_raw_def split: option.splits list.splits)

lemma send_raw_calm: "send_raw f t = (r, b) \<Longrightarrow> calm t r"
  using calm_send_raw [of t f] by simp

lemma drain_sent_calm:
  "drain_sent k (send_input_frame i t) = (r, outs) \<Longrightarrow> r = Return t' \<or> r = Continue t' \<Longrightarrow> calm t (t', outs)"
  using calm_send_raw [of t "CInput i"]
  by (auto simp: drain_sent_def send_input_frame_def mark_refused_def calm_def split: if_splits)

lemma drain_round_calm:
  assumes "drain_round s = (r, outs)" "r = Return s' \<or> r = Continue s'"
  shows "calm s (s', outs)"
  using assms
  by (auto simp: drain_round_def Let_def split: prod.splits option.splits if_splits list.splits sequence_result.splits
      dest!: drain_sent_calm)

lemma calm_drain_loop [simp]: "calm s (drain_loop s)"
proof (induction s rule: drain_loop.induct)
  case (1 s)
  show ?case
  proof (cases "drain_round s")
    case (Pair r outs)
    show ?thesis
    proof (cases r)
      case (Continue s')
      then have "calm s (s', outs)" "calm s' (drain_loop s')"
        using drain_round_calm [OF Pair] 1 Pair by simp_all
      then show ?thesis
        using Pair Continue by (simp add: drain_loop.simps [of s] calm_def sink_free_append Let_def)
    next
      case (Return s')
      then show ?thesis
        using drain_round_calm [OF Pair] Pair by (simp add: drain_loop.simps [of s])
    qed
  qed
qed

lemma calm_drain_input_queue [simp]: "calm s (drain_input_queue s)"
  by (simp add: drain_input_queue_def)

lemma calm_adopt_role: "adopt_role rf s = Inr r \<Longrightarrow> calm s r"
  by (auto simp: adopt_role_def Let_def split: sum.splits if_splits intro!: screen_calm_then calm_set_snapshot)

lemma calm_apply_lifecycle [simp]: "calm s (apply_lifecycle l r m s)"
  by (auto simp: apply_lifecycle_def drop_control_def intro!: screen_calm_then calm_set_snapshot)

lemma calm_flush_output_ack [simp]: "calm s (flush_output_ack k s)"
  by (auto simp: flush_output_ack_def split: option.splits intro: calm_from [OF calm_send_raw])

lemma calm_attached_resized [simp]: "calm s (attached_resized af s)"
  unfolding attached_resized_def
proof (rule screen_calm_then)
  show "calm t (if af_lifecycle af = Running
      then case adopt_role af t of Inl e \<Rightarrow> fail_apply e t | Inr r \<Rightarrow> r
      else case lose_control (Some (rf_accepted af)) (ts_seq t) of
        Inl e \<Rightarrow> fail_apply e t
      | Inr q \<Rightarrow> set_snapshot (\<lambda>sn. sn\<lparr>sn_role := Observer, sn_epoch := rf_epoch af, sn_uncertain := sq_uncertain q\<rparr>)
          (t\<lparr>ts_seq := q\<rparr>))" for t
    by (auto split: sum.splits dest!: calm_adopt_role intro!: calm_set_snapshot)
qed (auto intro!: calm_set_snapshot)

lemma calm_caught_up [simp]: "calm s (caught_up k n s)"
  by (auto simp: caught_up_def intro!: screen_calm_then calm_set_snapshot)

lemma calm_snapshot_chunk [simp]: "calm s (handle_snapshot_chunk c i bs s)"
  by (auto simp: handle_snapshot_chunk_def Let_def split: option.splits
      intro: calm_from [OF calm_send_raw] calm_from [OF calm_fail_protocol])

lemma calm_input_result [simp]: "calm s (handle_input_result n outcome a m s)"
  by (auto simp: handle_input_result_def Let_def intro!: screen_calm_then calm_set_snapshot)

lemma calm_enqueue_input [simp]: "calm s (fst (enqueue_input bs s))"
  by (auto simp: enqueue_input_def intro!: screen_calm_then calm_set_snapshot intro: calm_from [OF calm_publish])

lemma calm_send_then:
  assumes "\<And>t. calm t (f t)" "sn_applied (ts_snap t) = sn_applied (ts_snap s)" "ts_jobs t = ts_jobs s"
  shows "calm s (then_do (fst (send_raw fr t)) f)"
  using assms calm_from [OF calm_send_raw [of t fr]] by (intro screen_calm_then) auto

lemma calm_send_input [simp]: "calm s (fst (send_input bs s))"
  by (auto simp: send_input_def send_input_frame_def mark_refused_def split_def
      split: sequence_result.splits prod.splits
      intro!: calm_send_then intro: calm_from [OF calm_enqueue_input] calm_from [OF calm_publish])

lemma calm_retry_not_sent_input [simp]: "calm s (fst (retry_not_sent_input s))"
  by (auto simp: retry_not_sent_input_def send_input_frame_def mark_refused_def split_def
      split: option.splits intro!: calm_send_then intro: calm_from [OF calm_publish])

lemma calm_discard [simp]: "calm s (fst (discard_unconfirmed_input b s))"
  by (auto simp: discard_unconfirmed_input_def split: prod.splits bool.splits intro!: screen_calm_then calm_set_snapshot)

lemma calm_schedule_reconnect [simp]: "calm s (schedule_reconnect s)"
  by (simp add: schedule_reconnect_def Let_def set_snapshot_def set_snapshot_quietly_def)

lemma calm_admission_failed [simp]: "calm s (admission_failed n m s)"
  by (auto simp: admission_failed_def intro!: screen_calm_then calm_set_snapshot)

lemma calm_connection [simp]:
  "calm s (connect s)" "calm s (admission_granted n ad s)" "calm s (socket_opened k s)" "calm s (socket_failed k s)"
  "calm s (socket_closed k c m s)"
  by (auto simp: connect_def admission_granted_def socket_opened_def socket_failed_def socket_closed_def Let_def
      clear_pending_output_ack_def split: option.splits bool.splits
      intro!: screen_calm_then calm_set_snapshot intro: calm_from [OF calm_admission_failed])

lemma calm_reconnect [simp]:
  "calm s (retry_connection s)" "calm s (reconnect_timer_fires s)"
  by (auto simp: retry_connection_def reconnect_timer_fires_def intro: calm_from [OF calm_connection(1)])

lemma calm_handle_online [simp]: "calm s (handle_online s)"
  by (simp add: handle_online_def)

lemma calm_ack_timer [simp]: "calm s (ack_timer_fires s)"
  by (auto simp: ack_timer_fires_def split: option.splits intro: calm_from [OF calm_flush_output_ack])

lemma calm_settle [simp]:
  "calm s (settle s (resize_terminal c r s))" "calm s (settle s (claim_control s))"
  "calm s (settle s (release_control s))"
  by (auto simp: settle_def resize_terminal_def claim_control_def release_control_def send_identity_frame_def
      split: prod.splits dest!: send_raw_calm intro!: calm_set_snapshot screen_calm_then)

lemma calm_close_session [simp]: "calm s (close_session s)"
  unfolding close_session_def
  by (intro screen_calm_then calm_set_snapshot calm_from [OF calm_close_socket])
    (simp_all add: drop_control_def clear_pending_output_ack_def)

subsection \<open>Every event keeps the screen in step\<close>

lemma screen_ok_calm:
  assumes "screen_ok sha J K s scr" "calm s r"
  shows "screen_ok sha J K (fst r) (advance_screen scr (snd r))"
  using assms by (cases "ts_jobs s") (simp_all add: screen_ok_def calm_def sink_free_def)

lemma screen_at_start: "start_job sha J K job \<Longrightarrow> displays J K scr applied \<Longrightarrow> screen_at sha J K scr applied job"
  by (cases job) auto

lemma screen_ok_add_job:
  assumes "screen_ok sha J K s scr" "start_job sha J K job" "ts_jobs t = ts_jobs s"
    "sn_applied (ts_snap t) = sn_applied (ts_snap s)"
  shows "screen_ok sha J K (add_job job t) scr"
  using assms screen_at_start by (cases "ts_jobs s") (auto simp: screen_ok_def add_job_def)

lemma screen_ok_next:
  assumes "\<forall>job \<in> set rest. start_job sha J K job" "displays J K scr (sn_applied (ts_snap s))" "ts_jobs s = rest"
  shows "screen_ok sha J K s scr"
  using assms screen_at_start by (cases rest) (auto simp: screen_ok_def)

lemma screen_ok_finish_calm:
  assumes "calm s r" "\<forall>job \<in> set rest. start_job sha J K job" "displays J K scr (sn_applied (ts_snap s))"
  shows "screen_ok sha J K ((fst r)\<lparr>ts_jobs := rest\<rparr>) (advance_screen scr (snd r))"
  using assms by (intro screen_ok_next [of rest]) (auto simp: calm_def sink_free_def)

lemma start_action_screen:
  "advance_screen scr (snd (start_action act s)) = scr @ action_bytes act"
  "sn_applied (ts_snap (fst (start_action act s))) = sn_applied (ts_snap s)"
  using calm_apply_lifecycle [of s] by (cases act; simp add: start_action_def calm_def sink_free_def)+

lemma screen_ok_job:
  assumes "run_job sha (Inr ()) job s = (r, later)" "ts_jobs s = job # rest" "\<forall>job \<in> set rest. start_job sha J K job"
    and "case later of
        None \<Rightarrow> displays J K (advance_screen scr (snd r)) (sn_applied (ts_snap (fst r)))
      | Some j \<Rightarrow> screen_at sha J K (advance_screen scr (snd r)) (sn_applied (ts_snap (fst r))) j"
  shows "screen_ok sha J K (fst (run_apply sha (Inr ()) s)) (advance_screen scr (snd (run_apply sha (Inr ()) s)))"
proof (cases later)
  case None
  then show ?thesis
    using assms screen_ok_next [OF assms(3), of _ "(fst r)\<lparr>ts_jobs := rest\<rparr>"] by (simp add: run_apply_def)
next
  case (Some j)
  then show ?thesis
    using assms by (simp add: run_apply_def screen_ok_def)
qed

lemma calm_displays:
  "calm s r \<Longrightarrow> displays J K scr (sn_applied (ts_snap s)) \<Longrightarrow>
     displays J K (advance_screen scr (snd r)) (sn_applied (ts_snap (fst r)))"
  by (simp add: calm_def sink_free_def)

lemma run_snapshot_end:
  assumes "\<forall>bs. sha bs = digest \<longrightarrow> bs = img"
  obtains (fail) m where "run_job sha sink (JobSnapshotEnd k a c digest) s = (fail_apply m s, None)"
  | (stale) "run_job sha sink (JobSnapshotEnd k a c digest) s = ((s, []), None)"
  | (start) b where "run_job sha sink (JobSnapshotEnd k a c digest) s = ((s, [OSinkReset]), Some (JobSnapshotReset b img c))"
proof (cases "ts_socket s = Some k")
  case True
  show ?thesis
  proof (cases a)
    case None
    then show ?thesis
      using True fail by (simp add: run_job_def start_snapshot_end_def)
  next
    case (Some b)
    then show ?thesis
      using True fail start [of b] assms
      by (cases "int (length (as_chunks b)) \<noteq> as_chunk_count b \<or> as_received b \<noteq> as_byte_length b";
          cases "sha (concat (as_chunks b)) = digest") (auto simp: run_job_def start_snapshot_end_def)
  qed
qed (use stale in \<open>simp add: run_job_def start_snapshot_end_def\<close>)

lemma run_sequenced:
  obtains (fail) m where "run_job sha sink (JobSequenced k n act) s = (fail_apply m s, None)"
  | (skip) t where "run_job sha sink (JobSequenced k n act) s = ((t, []), None)" "ts_snap t = ts_snap s"
  | (start) "run_job sha sink (JobSequenced k n act) s = (start_action act s, Some (JobSequencedApplied k n))"
      "sn_applied (ts_snap s) = None \<or> sn_applied (ts_snap s) = Some (n - 1)"
proof -
  consider "ts_socket s \<noteq> Some k" | (none) "ts_socket s = Some k" "sn_applied (ts_snap s) = None"
    | (some) a where "ts_socket s = Some k" "sn_applied (ts_snap s) = Some a"
    by (cases "sn_applied (ts_snap s)") auto
  then show ?thesis
  proof cases
    case 1
    then show ?thesis
      using skip [of s] by (simp add: run_job_def start_sequenced_def)
  next
    case none
    then show ?thesis
      using start by (simp add: run_job_def start_sequenced_def)
  next
    case (some a)
    then show ?thesis
      using start fail skip [of "queue_output_ack a k s"]
      by (cases "n \<le> a"; cases "n = a + 1") (simp_all add: run_job_def start_sequenced_def queue_output_ack_def)
  qed
qed

lemma run_apply_screen:
  assumes ok: "screen_ok sha J K s scr"
  shows "screen_ok sha J K (fst (run_apply sha (Inr ()) s)) (advance_screen scr (snd (run_apply sha (Inr ()) s)))"
proof (cases "ts_jobs s")
  case Nil
  then show ?thesis
    using ok by (simp add: run_apply_def)
next
  case (Cons job rest)
  have rest: "\<forall>job \<in> set rest. start_job sha J K job" and at: "screen_at sha J K scr (sn_applied (ts_snap s)) job"
    using ok Cons by (simp_all add: screen_ok_def)
  obtain r later where run: "run_job sha (Inr ()) job s = (r, later)"
    by (cases "run_job sha (Inr ()) job s")
  have "case later of
        None \<Rightarrow> displays J K (advance_screen scr (snd r)) (sn_applied (ts_snap (fst r)))
      | Some j \<Rightarrow> screen_at sha J K (advance_screen scr (snd r)) (sn_applied (ts_snap (fst r))) j"
  proof (cases job)
    case (JobSnapshotEnd k a c digest)
    then have honest: "\<forall>bs. sha bs = digest \<longrightarrow> bs = K c" and shown: "displays J K scr (sn_applied (ts_snap s))"
      using at by auto
    show ?thesis
      using run shown calm_displays [OF calm_fail_apply shown]
      by (cases rule: run_snapshot_end [OF honest, of "Inr ()" k a c s]) (auto simp: JobSnapshotEnd)
  next
    case (JobSequenced k n act)
    then have journal: "J n = action_bytes act" and shown: "displays J K scr (sn_applied (ts_snap s))"
      using at by auto
    show ?thesis
      using run shown calm_displays [OF calm_fail_apply shown] displays_next [OF shown, of n] journal
      by (cases rule: run_sequenced [of sha "Inr ()" k n act s])
        (auto simp: JobSequenced start_action_screen)
  next
    case (JobSnapshotResized bs c)
    then show ?thesis
      using run at displays_checkpoint [of J K c]
      by (auto simp: run_job_def snapshot_applied_def set_snapshot_def set_snapshot_quietly_def split: if_splits)
  next
    case (JobSnapshotWritten c)
    then show ?thesis
      using run at displays_checkpoint [of J K c]
      by (auto simp: run_job_def snapshot_applied_def set_snapshot_def set_snapshot_quietly_def)
  next
    case (JobSequencedApplied k n)
    then show ?thesis
      using run at by (auto simp: run_job_def sequenced_applied_def Let_def queue_output_ack_def set_snapshot_quietly_def)
  next
    case (JobAttachedResized af)
    then show ?thesis
      using run at calm_displays [OF calm_attached_resized] by (auto simp: run_job_def)
  next
    case (JobCaughtUp k n)
    then show ?thesis
      using run at calm_displays [OF calm_caught_up] by (auto simp: run_job_def)
  qed (use run at in \<open>auto simp: run_job_def split: if_splits\<close>)
  then show ?thesis
    using screen_ok_job [OF run Cons rest] by simp
qed

lemma handle_frame_screen:
  assumes ok: "screen_ok sha J K s scr" and honest: "honest_frame sha J K frame"
  shows "screen_ok sha J K (fst (handle_frame frame k s)) (advance_screen scr (snd (handle_frame frame k s)))"
proof -
  have job: "screen_ok sha J K (add_job job t) scr"
    if "start_job sha J K job" "ts_jobs t = ts_jobs s" "sn_applied (ts_snap t) = sn_applied (ts_snap s)" for job t
    using screen_ok_add_job [OF ok that] .
  have resync: "calm s (then_do (set_snapshot (\<lambda>sn. sn\<lparr>sn_connection := Restoring, sn_caught_up := False,
      sn_input_available := False, sn_message := m\<rparr>) (s\<lparr>ts_restore_next := True\<rparr>)) (close_socket c r))" for m c r
    by (intro screen_calm_then calm_set_snapshot calm_close_socket) simp_all
  have error: "calm s (then_do (set_snapshot (\<lambda>sn. sn\<lparr>sn_control_pending := False, sn_message := Some m\<rparr>) s)
      (\<lambda>s. if retryable then (s, []) else then_do (set_snapshot (\<lambda>sn. sn\<lparr>sn_connection := Failed,
         sn_input_available := False\<rparr>) (s\<lparr>ts_closed := True\<rparr>)) (close_socket c r)))" for m retryable c r
    by (intro screen_calm_then calm_set_snapshot) (auto intro!: screen_calm_then calm_set_snapshot)
  show ?thesis
  proof (cases frame)
    case (FResizeCommitted n rows columns)
    then have "screen_ok sha J K (enqueue_sequenced n k (ApplyResize columns rows) s) scr"
      using honest by (simp add: enqueue_sequenced_def job)
    then show ?thesis
      using screen_ok_calm [OF _ calm_set_snapshot [OF _ refl refl]] by (simp add: FResizeCommitted handle_frame_def)
  next
    case (FSnapshotBegin c rows columns n m)
    then have "calm s (handle_frame frame k s)"
      by (simp add: handle_frame_def)
    then show ?thesis
      by (rule screen_ok_calm [OF ok])
  next
    case (FSnapshotEnd c digest)
    then show ?thesis
      using screen_ok_calm [OF ok] honest by (simp add: handle_frame_def job)
  next
    case (FControlChanged rf)
    then show ?thesis
      using screen_ok_calm [OF ok calm_adopt_role [of rf s]] ok
      by (cases "adopt_role rf s") (simp_all add: handle_frame_def)
  next
    case FResyncRequired
    then show ?thesis
      using screen_ok_calm [OF ok resync] by (simp add: handle_frame_def)
  next
    case (FError m retryable)
    then show ?thesis
      using screen_ok_calm [OF ok error] by (simp add: handle_frame_def)
  qed (use honest screen_ok_calm [OF ok] in \<open>auto simp: handle_frame_def enqueue_sequenced_def job\<close>)
qed

lemma session_event_screen:
  assumes ok: "screen_ok sha J K s scr" and honest: "honest_event sha J K ev"
  shows "screen_ok sha J K (fst (session_event_step sha ev s)) (advance_screen scr (snd (session_event_step sha ev s)))"
proof (cases ev)
  case (EvReceive k raw)
  then show ?thesis
    using ok honest screen_ok_calm [OF ok] handle_frame_screen [OF ok]
    by (cases raw) (auto simp: session_event_step_def receive_server_frame_def)
next
  case (EvApply sink)
  then show ?thesis
    using honest run_apply_screen [OF ok] by (simp add: session_event_step_def)
qed (use screen_ok_calm [OF ok] in \<open>simp_all add: session_event_step_def\<close>)

interpretation screen: reactive_invariant "session_event_step sha" "honest_event sha J K"
    "\<lambda>s outs. screen_ok sha J K s (advance_screen [] outs)" for sha J K
  by unfold_locales (simp add: session_event_screen)

section \<open>Properties\<close>


text \<open>A session that restores the checkpoint after entry 2 and then receives output 3, while its socket
  reports an error between two apply steps.\<close>

definition restoring_events :: "session_event list" where
  "restoring_events =
     [EvConnect,
      EvAdmissionGranted 1 \<lparr>ad_terminal = ''t'', ad_incarnation = ''i'', ad_expired = False, ad_socket_error = None\<rparr>,
      EvReceive 0 (Received ''t'' ''i'' (FAttached \<lparr>rf_role = Observer, rf_epoch = 1, rf_accepted = 0,
        rf_incarnation = ''i'', af_lifecycle = Running, af_revision = 1, af_rows = 24, af_columns = 80,
        af_restore = Checkpoint\<rparr>)),
      EvReceive 0 (Received ''t'' ''i'' (FSnapshotBegin 2 24 80 1 1)),
      EvReceive 0 (Received ''t'' ''i'' (FSnapshotChunk 2 0 [65])),
      EvReceive 0 (Received ''t'' ''i'' (FSnapshotEnd 2 ''A'')),
      EvReceive 0 (Received ''t'' ''i'' (FOutput 3 [66])),
      EvApply (Inr ()), EvApply (Inr ()), EvApply (Inr ()), EvSocketFailed 0, EvApply (Inr ()), EvApply (Inr ()),
      EvApply (Inr ()), EvApply (Inr ()), EvApply (Inr ())]"

definition image_digest :: "bytes \<Rightarrow> string" where
  "image_digest bs = (if bs = [65] then ''A'' else ''B'')"


end
