(* ===== verification/TerminalControl.thy ===== *)
theory TerminalControl
  imports TerminalSession
begin

text \<open>
  The server's side of control and input of a terminal, from \<^verbatim>\<open>server/terminals/terminal-actor.ts\<close>:
  who is attached, who holds control under which epoch, and which input is written to the process. The
  operations of the actor run one after the other in its mailbox, an awaited \<^verbatim>\<open>process.write\<close> included,
  so each of them is one step here.

  \<^item> A viewer object outlives its place in \<^verbatim>\<open>#viewers\<close> (its carrier may still dispatch frames), so
    \<open>ac_viewers\<close> keeps every viewer under its attachment id and \<open>vw_attached\<close> says whether it is in
    the map. Attachment ids are fresh, as the admission service draws them.
  \<^item> The outcomes of the next \<^verbatim>\<open>viewer.emit\<close> calls are the list \<open>ac_emits\<close> (\<open>False\<close>: it throws, and the
    viewer is detached); beyond the list every call succeeds.
  \<^item> The answer of \<^verbatim>\<open>process.write\<close> is an argument of the step, the SHA-256 of the input a parameter.
  \<^item> A grace timer's operation may already wait in the mailbox when its timer is cleared, so \<open>AvGrace\<close> can
    come at any time. A process that is not persistent does not see the producer and sequence number
    that \<open>AWrite\<close> records.
  \<^item> Journal, emulator, repository and the pump that replays history to a viewer are not part of this
    theory; the values the steps take from them (head and floor of the journal, whether its metadata
    match) are arguments or fields.
\<close>

section \<open>Definitions\<close>

datatype write_outcome = WriteSent | WriteNotSent string | WriteUnknown string

record viewer =
  vw_producer :: string
  vw_role :: terminal_role
  vw_caught_up :: bool
  vw_attached :: bool

record actor =
  ac_incarnation :: string
  ac_viewers :: "(string, viewer) jmap"
  ac_controller :: "string option"
  ac_controller_producer :: "string option"
  ac_grace :: "string option"
  ac_epoch :: int
  ac_high_water :: "(string, int) jmap"
  ac_hashes :: "(string, (int, string) jmap) jmap"
  ac_lifecycle :: terminal_lifecycle
  ac_revision :: int
  ac_reason :: "string option"
  ac_rows :: int
  ac_columns :: int
  ac_floor :: int
  ac_head :: int
  ac_persistent :: bool
  ac_finalized :: bool
  ac_emits :: "bool list"

datatype actor_output =
    AEmit string server_frame
  | AWrite string int bytes write_outcome
  | ATerminate
  | AThrow string

type_synonym actor_step = "actor \<times> actor_output list"

record input_frame =
  if_epoch :: int
  if_producer :: string
  if_seq :: int
  if_bytes :: bytes

definition high_water :: "string \<Rightarrow> actor \<Rightarrow> int" where
  "high_water producer s = (case jmap_get (ac_high_water s) producer of None \<Rightarrow> 0 | Some n \<Rightarrow> n)"

definition attached_viewer :: "string \<Rightarrow> actor \<Rightarrow> viewer option" where
  "attached_viewer a s = (case jmap_get (ac_viewers s) a of
     None \<Rightarrow> None | Some v \<Rightarrow> if vw_attached v then Some v else None)"

definition update_viewer :: "string \<Rightarrow> (viewer \<Rightarrow> viewer) \<Rightarrow> actor \<Rightarrow> actor" where
  "update_viewer a f s = s\<lparr>ac_viewers := jmap_map (\<lambda>k v. if k = a then f v else v) (ac_viewers s)\<rparr>"

definition detach_viewer :: "string \<Rightarrow> actor \<Rightarrow> actor" where
  "detach_viewer a s = (case attached_viewer a s of
     None \<Rightarrow> s
   | Some v \<Rightarrow>
       let s1 = update_viewer a (\<lambda>v. v\<lparr>vw_attached := False\<rparr>) s
       in if ac_controller s1 = Some a
          then s1\<lparr>ac_controller := None, ac_controller_producer := Some (vw_producer v),
                  ac_grace := Some (vw_producer v)\<rparr>
          else s1)"

definition emit_frame :: "string \<Rightarrow> server_frame \<Rightarrow> actor \<Rightarrow> actor_step \<times> bool" where
  "emit_frame a frame s = (case ac_emits s of
     False # emits \<Rightarrow> ((detach_viewer a (s\<lparr>ac_emits := emits\<rparr>), []), False)
   | True # emits \<Rightarrow> ((s\<lparr>ac_emits := emits\<rparr>, [AEmit a frame]), True)
   | [] \<Rightarrow> ((s, [AEmit a frame]), True))"

definition send_viewer :: "string \<Rightarrow> server_frame \<Rightarrow> actor \<Rightarrow> actor_step" where
  "send_viewer a frame s = fst (emit_frame a frame s)"

definition emit_error :: "string \<Rightarrow> string \<Rightarrow> bool \<Rightarrow> actor \<Rightarrow> actor_step" where
  "emit_error a message retryable s = send_viewer a (FError message retryable) s"

definition emit_control :: "string \<Rightarrow> actor \<Rightarrow> actor_step" where
  "emit_control a s = (case jmap_get (ac_viewers s) a of
     None \<Rightarrow> (s, [])
   | Some v \<Rightarrow> send_viewer a (FControlChanged \<lparr>rf_role = vw_role v, rf_epoch = ac_epoch s,
       rf_accepted = high_water (vw_producer v) s, rf_incarnation = ac_incarnation s\<rparr>) s)"

definition emit_input_result ::
  "string \<Rightarrow> int \<Rightarrow> input_outcome \<Rightarrow> int \<Rightarrow> string option \<Rightarrow> actor \<Rightarrow> actor_step" where
  "emit_input_result a seq outcome accepted message s =
     send_viewer a (FInputResult seq outcome accepted (map_option (take 240) message)) s"

subsection \<open>Control\<close>

definition claim_control_of :: "string \<Rightarrow> actor \<Rightarrow> actor_step" where
  "claim_control_of a s =
     (if ac_lifecycle s \<noteq> Running then emit_error a ''The terminal is not running.'' False s
      else case jmap_get (ac_viewers s) a of
        None \<Rightarrow> (s, [])
      | Some v \<Rightarrow>
          let previous = (case ac_controller s of None \<Rightarrow> None
                | Some c \<Rightarrow> if attached_viewer c s = None then None else Some c)
          in if previous = Some a then (s, [])
             else let s1 = (case previous of None \<Rightarrow> s
                        | Some c \<Rightarrow> update_viewer c (\<lambda>v. v\<lparr>vw_role := Observer\<rparr>) s);
                      s2 = (update_viewer a (\<lambda>v. v\<lparr>vw_role := Controller\<rparr>) s1)
                        \<lparr>ac_controller := Some a, ac_controller_producer := Some (vw_producer v),
                         ac_grace := None, ac_epoch := ac_epoch s + 1\<rparr>
             in then_do (case previous of None \<Rightarrow> (s2, []) | Some c \<Rightarrow> emit_control c s2) (emit_control a))"

definition release_control_of :: "string \<Rightarrow> actor \<Rightarrow> actor_step" where
  "release_control_of a s =
     (if ac_controller s \<noteq> Some a then (s, [])
      else emit_control a ((update_viewer a (\<lambda>v. v\<lparr>vw_role := Observer\<rparr>) s)
        \<lparr>ac_controller := None, ac_controller_producer := None, ac_grace := None, ac_epoch := ac_epoch s + 1\<rparr>))"

definition revoke_controller :: "actor \<Rightarrow> actor_step" where
  "revoke_controller s = (case ac_controller s of
     None \<Rightarrow> (s, [])
   | Some c \<Rightarrow> if attached_viewer c s = None then (s, [])
       else emit_control c ((update_viewer c (\<lambda>v. v\<lparr>vw_role := Observer\<rparr>) s)
         \<lparr>ac_controller := None, ac_controller_producer := None, ac_epoch := ac_epoch s + 1\<rparr>))"

definition grace_expires :: "string \<Rightarrow> actor \<Rightarrow> actor" where
  "grace_expires producer s =
     (let s1 = (if ac_controller s = None \<and> ac_controller_producer s = Some producer
                then s\<lparr>ac_controller_producer := None, ac_epoch := ac_epoch s + 1\<rparr> else s)
      in s1\<lparr>ac_grace := None\<rparr>)"

record attach_request =
  ar_attachment :: string
  ar_producer :: string
  ar_role :: terminal_role
  ar_restore :: restore_request
  ar_recovered :: "int option"
  ar_journal_ok :: bool

definition restore_for :: "restore_request \<Rightarrow> actor \<Rightarrow> restore_kind" where
  "restore_for req s = (case req of
     RestoreCheckpoint \<Rightarrow> Checkpoint
   | RestoreResume n \<Rightarrow> if ac_floor s \<le> n \<and> n \<le> ac_head s then Resume else Checkpoint)"

text \<open>The body of \<^verbatim>\<open>attach\<close> in the order of the code: take over control from the producer's own
  earlier attachment (\<open>replace_controller\<close>), hold control, install the viewer and greet it
  (\<open>install_viewer\<close>).\<close>

definition current_controller :: "actor \<Rightarrow> (string \<times> viewer) option" where
  "current_controller s = (case ac_controller s of None \<Rightarrow> None
     | Some c \<Rightarrow> map_option (Pair c) (attached_viewer c s))"

definition replacing_own :: "string \<Rightarrow> actor \<Rightarrow> bool" where
  "replacing_own producer s = (case current_controller s of None \<Rightarrow> False | Some (_, v) \<Rightarrow> vw_producer v = producer)"

definition attach_role :: "attach_request \<Rightarrow> actor \<Rightarrow> terminal_role" where
  "attach_role req s = (if ar_role req = Controller \<and> ac_lifecycle s = Running \<and>
       (replacing_own (ar_producer req) s \<or> ac_controller s = None \<and>
         (ac_controller_producer s = None \<or> ac_controller_producer s = Some (ar_producer req)))
     then Controller else Observer)"

definition replace_controller :: "string \<Rightarrow> actor \<Rightarrow> actor_step" where
  "replace_controller producer s = (case current_controller s of
     None \<Rightarrow> (s, [])
   | Some (c, v) \<Rightarrow> if vw_producer v = producer
       then emit_control c (update_viewer c (\<lambda>v. v\<lparr>vw_role := Observer\<rparr>) s) else (s, []))"

definition hold_control :: "attach_request \<Rightarrow> actor \<Rightarrow> actor" where
  "hold_control req s = s\<lparr>
     ac_epoch := (if ac_controller_producer s = Some (ar_producer req) then ac_epoch s else ac_epoch s + 1),
     ac_grace := None, ac_controller := Some (ar_attachment req), ac_controller_producer := Some (ar_producer req)\<rparr>"

definition install_viewer :: "attach_request \<Rightarrow> terminal_role \<Rightarrow> restore_kind \<Rightarrow> actor \<Rightarrow> actor_step" where
  "install_viewer req role restore s =
     (let s1 = s\<lparr>ac_viewers := jmap_set (ar_attachment req) \<lparr>vw_producer = ar_producer req, vw_role = role,
                   vw_caught_up = False, vw_attached = True\<rparr> (ac_viewers s)\<rparr>;
          r = emit_frame (ar_attachment req) (FAttached \<lparr>rf_role = role, rf_epoch = ac_epoch s1,
                rf_accepted = high_water (ar_producer req) s1, rf_incarnation = ac_incarnation s1,
                af_lifecycle = ac_lifecycle s1, af_revision = ac_revision s1, af_rows = ac_rows s1,
                af_columns = ac_columns s1, af_restore = restore\<rparr>) s1
      in if snd r then fst r else (fst (fst r), snd (fst r) @ [AThrow ''viewer_emit_failed'']))"

definition attach_viewer :: "attach_request \<Rightarrow> actor \<Rightarrow> actor_step" where
  "attach_viewer req s =
     (if ac_finalized s then (s, [AThrow ''terminal_actor_finalized''])
      else let s1 = (case (if ac_persistent s then ar_recovered req else None) of None \<Rightarrow> s
                 | Some n \<Rightarrow> s\<lparr>ac_high_water := jmap_set (ar_producer req) n (ac_high_water s)\<rparr>);
               role = attach_role req s1;
               restore = restore_for (ar_restore req) s1
      in if 16 \<le> length (filter (\<lambda>e. vw_attached (snd e)) (ac_viewers s1))
         then (s1, [AThrow ''terminal_viewer_limit_reached''])
         else if \<not> ar_journal_ok req then (s1, [AThrow ''terminal_journal_metadata_mismatch''])
         else if role = Controller
         then then_do (replace_controller (ar_producer req) s1)
                (\<lambda>s. install_viewer req role restore (hold_control req s))
         else install_viewer req role restore s1)"

definition viewer_caught_up :: "string \<Rightarrow> actor \<Rightarrow> actor_step" where
  "viewer_caught_up a s = (if attached_viewer a s = None then (s, [])
     else send_viewer a (FCaughtUp (ac_head s)) (update_viewer a (\<lambda>v. v\<lparr>vw_caught_up := True\<rparr>) s))"

subsection \<open>Input\<close>

definition remember_hash :: "string \<Rightarrow> int \<Rightarrow> string \<Rightarrow> actor \<Rightarrow> actor" where
  "remember_hash producer seq digest s =
     (let hashes = jmap_set seq digest (case jmap_get (ac_hashes s) producer of None \<Rightarrow> [] | Some hs \<Rightarrow> hs)
      in s\<lparr>ac_hashes := jmap_set producer (drop (length hashes - 64) hashes) (ac_hashes s)\<rparr>)"

definition write_reply :: "write_outcome \<Rightarrow> input_outcome \<times> string option" where
  "write_reply w = (case w of
     WriteSent \<Rightarrow> (Duplicate, None) | WriteNotSent m \<Rightarrow> (NotSent, Some m) | WriteUnknown m \<Rightarrow> (SentOutcomeUnknown, Some m))"

definition may_write :: "string \<Rightarrow> viewer \<Rightarrow> input_frame \<Rightarrow> actor \<Rightarrow> bool" where
  "may_write a v f s \<longleftrightarrow> vw_role v = Controller \<and> ac_lifecycle s = Running \<and> ac_controller s = Some a \<and>
     if_epoch f = ac_epoch s \<and> if_producer f = vw_producer v \<and> vw_caught_up v"

definition replayed_input ::
  "(bytes \<Rightarrow> string) \<Rightarrow> write_outcome \<Rightarrow> string \<Rightarrow> viewer \<Rightarrow> input_frame \<Rightarrow> actor \<Rightarrow> actor_step" where
  "replayed_input sha w a v f s =
     (let mark = high_water (vw_producer v) s;
          known = (case jmap_get (ac_hashes s) (vw_producer v) of None \<Rightarrow> None | Some hs \<Rightarrow> jmap_get hs (if_seq f))
      in if known = None \<and> ac_persistent s
         then then_do (s, [AWrite (if_producer f) (if_seq f) (if_bytes f) w])
                (emit_input_result a (if_seq f) (fst (write_reply w)) mark (snd (write_reply w)))
         else if known \<noteq> None \<and> known \<noteq> Some (sha (if_bytes f))
         then emit_input_result a (if_seq f) Rejected mark (Some ''input_sequence_conflict'') s
         else emit_input_result a (if_seq f) Duplicate mark None s)"

definition fresh_input ::
  "(bytes \<Rightarrow> string) \<Rightarrow> write_outcome \<Rightarrow> string \<Rightarrow> viewer \<Rightarrow> input_frame \<Rightarrow> actor \<Rightarrow> actor_step" where
  "fresh_input sha w a v f s =
     (let mark = high_water (vw_producer v) s
      in if \<not> jmap_has (ac_high_water s) (vw_producer v) \<and> 64 \<le> length (ac_high_water s)
         then emit_input_result a (if_seq f) Rejected mark (Some ''producer_limit_reached'') s
         else then_do (s, [AWrite (if_producer f) (if_seq f) (if_bytes f) w]) (\<lambda>s.
           if w = WriteSent
           then emit_input_result a (if_seq f) Accepted (if_seq f) None
                  (remember_hash (vw_producer v) (if_seq f) (sha (if_bytes f))
                    (s\<lparr>ac_high_water := jmap_set (vw_producer v) (if_seq f) (ac_high_water s)\<rparr>))
           else emit_input_result a (if_seq f) (fst (write_reply w)) mark (snd (write_reply w)) s))"

definition actor_input ::
  "(bytes \<Rightarrow> string) \<Rightarrow> write_outcome \<Rightarrow> string \<Rightarrow> input_frame \<Rightarrow> actor \<Rightarrow> actor_step" where
  "actor_input sha w a f s = (case jmap_get (ac_viewers s) a of
     None \<Rightarrow> (s, [])
   | Some v \<Rightarrow>
       let mark = high_water (vw_producer v) s
       in if \<not> may_write a v f s then emit_input_result a (if_seq f) Rejected mark (Some ''stale_controller'') s
          else if if_bytes f = [] \<or> 64 * 1024 < int (length (if_bytes f))
          then emit_input_result a (if_seq f) Rejected mark (Some ''invalid_input'') s
          else if if_seq f \<le> mark then replayed_input sha w a v f s
          else if if_seq f \<noteq> mark + 1 then emit_input_result a (if_seq f) Rejected mark (Some ''input_gap'') s
          else fresh_input sha w a v f s)"

subsection \<open>Termination and events\<close>

definition broadcast_status :: "actor \<Rightarrow> actor_step" where
  "broadcast_status s = fold (\<lambda>a r. then_do r
       (send_viewer a (FLifecycleState (ac_lifecycle s) (ac_revision s) (ac_reason s))))
     (map fst (filter (\<lambda>e. vw_attached (snd e)) (ac_viewers s))) (s, [])"

definition begin_termination :: "int result \<Rightarrow> actor \<Rightarrow> actor_step" where
  "begin_termination stopping s =
     (let finish = (\<lambda>s. then_do (then_do (revoke_controller (s\<lparr>ac_grace := None\<rparr>)) broadcast_status)
            (\<lambda>s. (s, [ATerminate])))
      in if ac_lifecycle s = Stopping then (if ac_persistent s then finish s else (s, []))
         else case stopping of
           Inl e \<Rightarrow> (s, [AThrow e])
         | Inr revision \<Rightarrow> finish (s\<lparr>ac_lifecycle := Stopping, ac_revision := revision\<rparr>))"

datatype actor_event =
    AvAttach attach_request
  | AvCaughtUp string
  | AvClaim string
  | AvRelease string
  | AvInput string input_frame write_outcome
  | AvDetach string
  | AvGrace string
  | AvTerminate "int result"

definition actor_event_step :: "(bytes \<Rightarrow> string) \<Rightarrow> actor_event \<Rightarrow> actor \<Rightarrow> actor_step" where
  "actor_event_step sha ev s = (case ev of
     AvAttach req \<Rightarrow> attach_viewer req s
   | AvCaughtUp a \<Rightarrow> viewer_caught_up a s
   | AvClaim a \<Rightarrow> claim_control_of a s
   | AvRelease a \<Rightarrow> release_control_of a s
   | AvInput a f w \<Rightarrow> actor_input sha w a f s
   | AvDetach a \<Rightarrow> (detach_viewer a s, [])
   | AvGrace producer \<Rightarrow> (grace_expires producer s, [])
   | AvTerminate stopping \<Rightarrow> begin_termination stopping s)"

definition run_actor :: "(bytes \<Rightarrow> string) \<Rightarrow> actor_event list \<Rightarrow> actor \<Rightarrow> actor_step" where
  "run_actor sha = run_steps (actor_event_step sha)"

definition new_actor ::
  "string \<Rightarrow> terminal_lifecycle \<Rightarrow> int \<Rightarrow> int \<Rightarrow> int \<Rightarrow> int \<Rightarrow> int \<Rightarrow> int option \<Rightarrow> bool list \<Rightarrow> actor" where
  "new_actor incarnation lifecycle revision rows columns floor head epoch emits =
     \<lparr>ac_incarnation = incarnation, ac_viewers = [], ac_controller = None, ac_controller_producer = None,
      ac_grace = None, ac_epoch = (case epoch of None \<Rightarrow> 0 | Some e \<Rightarrow> e), ac_high_water = [], ac_hashes = [],
      ac_lifecycle = lifecycle, ac_revision = revision, ac_reason = None, ac_rows = rows, ac_columns = columns,
      ac_floor = floor, ac_head = head, ac_persistent = (epoch \<noteq> None), ac_finalized = False, ac_emits = emits\<rparr>"

section \<open>Lemmas\<close>

subsection \<open>What reaches the process\<close>

definition writes_of :: "string \<Rightarrow> actor_output list \<Rightarrow> (int \<times> bytes) list" where
  "writes_of p outs = List.map_filter (\<lambda>ev. case ev of
     AWrite q seq bs WriteSent \<Rightarrow> if q = p then Some (seq, bs) else None | _ \<Rightarrow> None) outs"

lemma writes_of_append [simp]: "writes_of p (a @ b) = writes_of p a @ writes_of p b"
  by (simp add: writes_of_def map_filter_def)

lemma writes_of_simps [simp]:
  "writes_of p [] = []"
  "writes_of p (AEmit a f # outs) = writes_of p outs"
  "writes_of p (AThrow m # outs) = writes_of p outs"
  "writes_of p (ATerminate # outs) = writes_of p outs"
  "writes_of p (AWrite q n bs w # outs) = (if q = p \<and> w = WriteSent then [(n, bs)] else []) @ writes_of p outs"
  by (auto simp: writes_of_def map_filter_def split: write_outcome.splits)

text \<open>\<open>keeps_mark s r\<close>: the step writes nothing and leaves every high-water mark alone.\<close>

definition keeps_mark :: "actor \<Rightarrow> actor_step \<Rightarrow> bool" where
  "keeps_mark s r \<longleftrightarrow> ac_high_water (fst r) = ac_high_water s \<and> ac_persistent (fst r) = ac_persistent s \<and>
     (\<forall>p. writes_of p (snd r) = [])"

lemma keeps_mark_pair [simp]:
  "keeps_mark s (t, outs) \<longleftrightarrow> ac_high_water t = ac_high_water s \<and> ac_persistent t = ac_persistent s \<and>
     (\<forall>p. writes_of p outs = [])"
  by (simp add: keeps_mark_def)

lemma keeps_mark_then: "keeps_mark s r \<Longrightarrow> (\<And>t. keeps_mark t (f t)) \<Longrightarrow> keeps_mark s (then_do r f)"
  by (simp add: keeps_mark_def)

lemma keeps_mark_from:
  "keeps_mark t r \<Longrightarrow> ac_high_water t = ac_high_water s \<Longrightarrow> ac_persistent t = ac_persistent s \<Longrightarrow> keeps_mark s r"
  by (simp add: keeps_mark_def)

lemma update_viewer_marks [simp]:
  "ac_high_water (update_viewer a f s) = ac_high_water s" "ac_persistent (update_viewer a f s) = ac_persistent s"
  by (simp_all add: update_viewer_def)

lemma detach_viewer_marks [simp]:
  "ac_high_water (detach_viewer a s) = ac_high_water s" "ac_persistent (detach_viewer a s) = ac_persistent s"
  by (simp_all add: detach_viewer_def Let_def split: option.splits)

lemma keeps_mark_emit_frame: "keeps_mark s (fst (emit_frame a f s))"
  by (auto simp: emit_frame_def split: list.splits bool.splits)

lemma keeps_mark_emits [simp]:
  "keeps_mark s (send_viewer a f s)" "keeps_mark s (emit_error a m b s)"
  "keeps_mark s (emit_input_result a n outcome k msg s)"
  by (simp_all add: send_viewer_def emit_error_def emit_input_result_def keeps_mark_emit_frame)

lemma keeps_mark_emit_control [simp]: "keeps_mark s (emit_control a s)"
  by (simp add: emit_control_def split: option.splits)

lemma keeps_mark_control [simp]:
  "keeps_mark s (claim_control_of a s)" "keeps_mark s (release_control_of a s)" "keeps_mark s (revoke_controller s)"
  "keeps_mark s (viewer_caught_up a s)"
  by (auto simp: claim_control_of_def release_control_of_def revoke_controller_def viewer_caught_up_def Let_def
      split: option.splits intro!: keeps_mark_then
      intro: keeps_mark_from [OF keeps_mark_emit_control] keeps_mark_from [OF keeps_mark_emits(1)])

lemma keeps_mark_broadcast [simp]: "keeps_mark s (broadcast_status s)"
proof -
  have "keeps_mark s r \<Longrightarrow> keeps_mark s (fold (\<lambda>a r. then_do r (send_viewer a f)) as r)" for as r f
    by (induction as arbitrary: r) (simp_all add: keeps_mark_then)
  then show ?thesis
    by (simp add: broadcast_status_def)
qed

lemma keeps_mark_terminate [simp]: "keeps_mark s (begin_termination stopping s)"
  by (auto simp: begin_termination_def Let_def split: sum.splits
      intro!: keeps_mark_then intro: keeps_mark_from [OF keeps_mark_control(3)])

lemma keeps_mark_grace [simp]: "keeps_mark s (grace_expires p s, [])" "keeps_mark s (detach_viewer a s, [])"
  by (simp_all add: grace_expires_def Let_def)

lemma keeps_mark_install [simp]: "keeps_mark s (install_viewer req role restore s)"
proof -
  have "keeps_mark s (fst (emit_frame a f (s\<lparr>ac_viewers := vs\<rparr>)))" for a f vs
    by (rule keeps_mark_from [OF keeps_mark_emit_frame]) simp_all
  then show ?thesis
    by (simp add: install_viewer_def Let_def keeps_mark_def)
qed

lemma keeps_mark_hold [simp]: "keeps_mark s (install_viewer req role restore (hold_control req s))"
  by (rule keeps_mark_from [OF keeps_mark_install]) (simp_all add: hold_control_def)

lemma keeps_mark_replace [simp]: "keeps_mark s (replace_controller p s)"
  by (auto simp: replace_controller_def split: option.splits intro: keeps_mark_from [OF keeps_mark_emit_control])

lemma keeps_mark_attach:
  assumes "\<not> ac_persistent s"
  shows "keeps_mark s (attach_viewer req s)"
  using assms by (simp add: attach_viewer_def Let_def keeps_mark_then)

subsection \<open>Input is written once and in order\<close>

lemma input_step:
  assumes "\<not> ac_persistent s"
  obtains (none) "keeps_mark s (actor_input sha w a f s)"
  | (written) v where "jmap_get (ac_viewers s) a = Some v" "may_write a v f s"
      "if_seq f = high_water (if_producer f) s + 1" "w = WriteSent"
      "\<And>p. writes_of p (snd (actor_input sha w a f s)) = (if p = if_producer f then [(if_seq f, if_bytes f)] else [])"
      "ac_high_water (fst (actor_input sha w a f s)) = jmap_set (if_producer f) (if_seq f) (ac_high_water s)"
      "\<not> ac_persistent (fst (actor_input sha w a f s))"
proof (cases "jmap_get (ac_viewers s) a")
  case None
  then show ?thesis
    using none by (simp add: actor_input_def)
next
  case (Some v)
  let ?fresh = "may_write a v f s \<and> \<not> (if_bytes f = [] \<or> 64 * 1024 < int (length (if_bytes f))) \<and>
    if_seq f = high_water (vw_producer v) s + 1 \<and>
    \<not> (\<not> jmap_has (ac_high_water s) (vw_producer v) \<and> 64 \<le> length (ac_high_water s)) \<and> w = WriteSent"
  show ?thesis
  proof (cases ?fresh)
    case False
    have "keeps_mark s (then_do (s, [AWrite p n bs w]) (emit_input_result a' n' out m msg))" if "w \<noteq> WriteSent"
      for p n bs a' n' out m msg
      using that by (intro keeps_mark_then) simp_all
    then have "keeps_mark s (actor_input sha w a f s)"
      using False assms Some
      by (auto simp: actor_input_def replayed_input_def fresh_input_def Let_def)
    then show ?thesis
      by (rule none)
  next
    case True
    let ?t = "remember_hash (vw_producer v) (if_seq f) (sha (if_bytes f))
        (s\<lparr>ac_high_water := jmap_set (vw_producer v) (if_seq f) (ac_high_water s)\<rparr>)"
    have producer: "if_producer f = vw_producer v"
      using True by (simp add: may_write_def)
    have step: "actor_input sha w a f s = then_do (s, [AWrite (if_producer f) (if_seq f) (if_bytes f) WriteSent])
        (\<lambda>_. emit_input_result a (if_seq f) Accepted (if_seq f) None ?t)"
      using True Some by (auto simp: actor_input_def fresh_input_def Let_def then_do_def)
    have "keeps_mark ?t (emit_input_result a (if_seq f) Accepted (if_seq f) None ?t)"
      by simp
    moreover have "ac_high_water ?t = jmap_set (if_producer f) (if_seq f) (ac_high_water s)" "\<not> ac_persistent ?t"
      using producer assms by (simp_all add: remember_hash_def Let_def)
    ultimately have "ac_high_water (fst (actor_input sha w a f s)) = jmap_set (if_producer f) (if_seq f) (ac_high_water s)"
        "\<not> ac_persistent (fst (actor_input sha w a f s))"
        "\<And>p. writes_of p (snd (actor_input sha w a f s)) = (if p = if_producer f then [(if_seq f, if_bytes f)] else [])"
      by (simp_all add: step keeps_mark_def)
    then show ?thesis
      using True Some producer by (intro written [of v]) simp_all
  qed
qed

definition marks_match :: "actor \<Rightarrow> actor_output list \<Rightarrow> bool" where
  "marks_match s outs \<longleftrightarrow> \<not> ac_persistent s \<and>
     (\<forall>p. 0 \<le> high_water p s \<and> map fst (writes_of p outs) = [1..high_water p s])"

lemma marks_match_keeps: "marks_match s outs \<Longrightarrow> keeps_mark s r \<Longrightarrow> marks_match (fst r) (outs @ snd r)"
  by (simp add: marks_match_def keeps_mark_def high_water_def)

lemma marks_match_input:
  assumes match: "marks_match s outs"
  shows "marks_match (fst (actor_input sha w a f s)) (outs @ snd (actor_input sha w a f s))"
proof -
  have "\<not> ac_persistent s"
    using match by (simp add: marks_match_def)
  then show ?thesis
  proof (cases rule: input_step [of s sha w a f])
    case none
    then show ?thesis
      using marks_match_keeps match by blast
  next
    case (written v)
    have mark: "high_water p (fst (actor_input sha w a f s)) = (if p = if_producer f then if_seq f else high_water p s)" for p
      by (simp add: high_water_def written(6))
    show ?thesis
      using match by (auto simp: marks_match_def mark written(3,5,7) upto_rec2)
  qed
qed

lemma marks_match_step:
  assumes match: "marks_match s outs"
  shows "marks_match (fst (actor_event_step sha ev s)) (outs @ snd (actor_event_step sha ev s))"
proof (cases ev)
  case (AvInput a f w)
  then show ?thesis
    using marks_match_input [OF match] by (simp add: actor_event_step_def)
next
  case (AvAttach req)
  then show ?thesis
    using marks_match_keeps [OF match keeps_mark_attach [of s req]] match
    by (simp add: actor_event_step_def marks_match_def)
qed (rule marks_match_keeps [OF match], simp add: actor_event_step_def del: keeps_mark_pair)+

interpretation written_inputs: reactive_invariant "actor_event_step sha" "\<lambda>_. True" marks_match for sha
  by unfold_locales (rule marks_match_step)

subsection \<open>One controller\<close>

definition one_controller :: "actor \<Rightarrow> bool" where
  "one_controller s \<longleftrightarrow> (\<forall>a v. jmap_get (ac_viewers s) a = Some v \<longrightarrow> vw_attached v \<longrightarrow> vw_role v = Controller \<longrightarrow>
     ac_controller s = Some a)"

lemma one_controllerD:
  "one_controller s \<Longrightarrow> jmap_get (ac_viewers s) a = Some v \<Longrightarrow> vw_attached v \<Longrightarrow> vw_role v = Controller \<Longrightarrow>
     ac_controller s = Some a"
  by (simp add: one_controller_def)

lemma get_update_viewer [simp]:
  "jmap_get (ac_viewers (update_viewer a f s)) b =
     (if b = a then map_option f (jmap_get (ac_viewers s) b) else jmap_get (ac_viewers s) b)"
  by (auto simp: update_viewer_def option.map_ident)

lemma update_viewer_controller [simp]:
  "ac_controller (update_viewer a f s) = ac_controller s" "ac_lifecycle (update_viewer a f s) = ac_lifecycle s"
  "ac_controller_producer (update_viewer a f s) = ac_controller_producer s" "ac_epoch (update_viewer a f s) = ac_epoch s"
  by (simp_all add: update_viewer_def)

lemma detach_viewer_one [sedes_inv]: "one_controller s \<Longrightarrow> one_controller (detach_viewer a s)"
  by (auto simp: one_controller_def detach_viewer_def Let_def attached_viewer_def split: option.splits if_splits)

lemma one_controller_emits [simp]: "one_controller (s\<lparr>ac_emits := e\<rparr>) = one_controller s"
  by (simp add: one_controller_def)

lemma emit_frame_one [sedes_inv]: "one_controller s \<Longrightarrow> one_controller (fst (fst (emit_frame a f s)))"
  by (auto simp: emit_frame_def sedes_inv split: list.splits bool.splits)

lemma emits_one [sedes_inv]:
  "one_controller s \<Longrightarrow> one_controller (fst (send_viewer a f s))"
  "one_controller s \<Longrightarrow> one_controller (fst (emit_error a m b s))"
  "one_controller s \<Longrightarrow> one_controller (fst (emit_input_result a n outcome k msg s))"
  "one_controller s \<Longrightarrow> one_controller (fst (emit_control a s))"
  by (simp_all add: send_viewer_def emit_error_def emit_input_result_def emit_control_def emit_frame_one split: option.splits)

lemma observer_one [sedes_inv]:
  "one_controller s \<Longrightarrow> one_controller (update_viewer a (\<lambda>v. v\<lparr>vw_role := Observer\<rparr>) s)"
  by (auto simp: one_controller_def split: if_splits)

lemma caught_up_one [sedes_inv]:
  "one_controller s \<Longrightarrow> one_controller (update_viewer a (\<lambda>v. v\<lparr>vw_caught_up := True\<rparr>) s)"
  by (auto simp: one_controller_def split: if_splits)

text \<open>Once the holder of control has become an observer, no attached viewer is a controller.\<close>

lemma vacated:
  assumes "one_controller s" "jmap_get (ac_viewers (update_viewer c (\<lambda>v. v\<lparr>vw_role := Observer\<rparr>) s)) b = Some v"
    "vw_attached v" "ac_controller s = Some c"
  shows "vw_role v = Observer"
  using assms one_controllerD [of s b] by (cases "vw_role v") (auto split: if_splits)

lemma release_one [sedes_inv]: "one_controller s \<Longrightarrow> one_controller (fst (release_control_of a s))"
proof -
  assume ok: "one_controller s"
  have "one_controller ((update_viewer a (\<lambda>v. v\<lparr>vw_role := Observer\<rparr>) s)
      \<lparr>ac_controller := None, ac_controller_producer := None, ac_grace := None, ac_epoch := ac_epoch s + 1\<rparr>)"
    if "ac_controller s = Some a"
    using vacated [OF ok _ _ that] by (fastforce simp: one_controller_def)
  then show ?thesis
    using ok by (simp add: release_control_of_def sedes_inv)
qed

lemma revoke_one [sedes_inv]: "one_controller s \<Longrightarrow> one_controller (fst (revoke_controller s))"
proof -
  assume ok: "one_controller s"
  have "one_controller ((update_viewer c (\<lambda>v. v\<lparr>vw_role := Observer\<rparr>) s)
      \<lparr>ac_controller := None, ac_controller_producer := None, ac_epoch := ac_epoch s + 1\<rparr>)"
    if "ac_controller s = Some c" for c
    using vacated [OF ok _ _ that] by (fastforce simp: one_controller_def)
  then show ?thesis
    using ok by (simp add: revoke_controller_def sedes_inv split: option.splits)
qed

lemma take_control_one:
  assumes "\<forall>b v. jmap_get (ac_viewers s) b = Some v \<longrightarrow> vw_attached v \<longrightarrow> b \<noteq> a \<longrightarrow> vw_role v = Observer"
    "ac_viewers t = ac_viewers (update_viewer a (\<lambda>v. v\<lparr>vw_role := Controller\<rparr>) s)" "ac_controller t = Some a"
  shows "one_controller t"
  using assms by (fastforce simp: one_controller_def split: if_splits)

lemma only_controller:
  assumes "one_controller s" "jmap_get (ac_viewers s) b = Some v" "vw_attached v" "ac_controller s \<noteq> Some b"
  shows "vw_role v = Observer"
  using assms one_controllerD [of s b v] by (cases "vw_role v") auto

lemma claim_one [sedes_inv]:
  assumes ok: "one_controller s"
  shows "one_controller (fst (claim_control_of a s))"
proof -
  define previous where "previous = (case ac_controller s of None \<Rightarrow> None
    | Some c \<Rightarrow> if attached_viewer c s = None then None else Some c)"
  define s1 where "s1 = (case previous of None \<Rightarrow> s | Some c \<Rightarrow> update_viewer c (\<lambda>v. v\<lparr>vw_role := Observer\<rparr>) s)"
  have "vw_role v = Observer" if "jmap_get (ac_viewers s1) b = Some v" "vw_attached v" for b v
  proof (cases previous)
    case None
    then have "ac_controller s \<noteq> Some b"
      using that by (auto simp: previous_def s1_def attached_viewer_def split: option.splits if_splits)
    then show ?thesis
      using only_controller [OF ok] that None by (simp add: s1_def)
  next
    case (Some c)
    then have "ac_controller s = Some c"
      by (auto simp: previous_def split: option.splits if_splits)
    then show ?thesis
      using vacated [OF ok] that Some by (simp add: s1_def)
  qed
  then have "one_controller ((update_viewer a (\<lambda>v. v\<lparr>vw_role := Controller\<rparr>) s1)\<lparr>ac_controller := Some a,
      ac_controller_producer := p, ac_grace := None, ac_epoch := e\<rparr>)" for p e
    by (intro take_control_one [of s1 a]) simp_all
  then show ?thesis
    using ok by (simp add: claim_control_of_def Let_def previous_def [symmetric] s1_def [symmetric] emits_one split: option.splits)
qed

lemma install_observer_one:
  "one_controller s \<Longrightarrow> one_controller (s\<lparr>ac_viewers := jmap_set a \<lparr>vw_producer = p, vw_role = Observer,
     vw_caught_up = False, vw_attached = True\<rparr> (ac_viewers s)\<rparr>)"
  by (auto simp: one_controller_def split: if_splits)

definition no_controller :: "actor \<Rightarrow> bool" where
  "no_controller s \<longleftrightarrow> (\<forall>a v. jmap_get (ac_viewers s) a = Some v \<longrightarrow> vw_attached v \<longrightarrow> vw_role v = Observer)"

lemma install_controller_one:
  assumes "no_controller s" "ac_controller s = Some a"
  shows "one_controller (s\<lparr>ac_viewers := jmap_set a \<lparr>vw_producer = p, vw_role = Controller,
     vw_caught_up = False, vw_attached = True\<rparr> (ac_viewers s)\<rparr>)"
  using assms by (fastforce simp: one_controller_def no_controller_def split: if_splits)

lemma no_controller_emits [simp]: "no_controller (s\<lparr>ac_emits := e\<rparr>) = no_controller s"
  by (simp add: no_controller_def)

lemma detach_no_controller: "no_controller s \<Longrightarrow> no_controller (detach_viewer a s)"
  by (auto simp: no_controller_def detach_viewer_def Let_def split: option.splits if_splits)

lemma emit_control_no_controller: "no_controller s \<Longrightarrow> no_controller (fst (emit_control a s))"
  by (auto simp: emit_control_def send_viewer_def emit_frame_def detach_no_controller
      split: option.splits list.splits bool.splits)

lemma vacated_no_controller:
  "one_controller s \<Longrightarrow> ac_controller s = Some c \<Longrightarrow> no_controller (update_viewer c (\<lambda>v. v\<lparr>vw_role := Observer\<rparr>) s)"
  using vacated [of s c] unfolding no_controller_def by blast

lemma replaced_no_controller:
  assumes ok: "one_controller s" and role: "replacing_own p s \<or> ac_controller s = None"
  shows "no_controller (fst (replace_controller p s))"
proof (cases "ac_controller s")
  case None
  then show ?thesis
    using only_controller [OF ok] by (simp add: replace_controller_def current_controller_def no_controller_def)
next
  case (Some c)
  then obtain v where v: "current_controller s = Some (c, v)" "vw_producer v = p"
    using role by (auto simp: replacing_own_def current_controller_def split: option.splits)
  then have "fst (replace_controller p s) = fst (emit_control c (update_viewer c (\<lambda>v. v\<lparr>vw_role := Observer\<rparr>) s))"
    by (simp add: replace_controller_def)
  then show ?thesis
    using emit_control_no_controller [OF vacated_no_controller [OF ok Some]] by simp
qed

lemma install_viewer_one:
  assumes "one_controller (s\<lparr>ac_viewers := jmap_set (ar_attachment req) \<lparr>vw_producer = ar_producer req, vw_role = role,
     vw_caught_up = False, vw_attached = True\<rparr> (ac_viewers s)\<rparr>)"
  shows "one_controller (fst (install_viewer req role restore s))"
  using assms emit_frame_one by (simp add: install_viewer_def Let_def)

lemma one_controller_marks [simp]: "one_controller (s\<lparr>ac_high_water := m\<rparr>) = one_controller s"
  by (simp add: one_controller_def)

lemma hold_control_one:
  assumes "no_controller s"
  shows "one_controller (fst (install_viewer req Controller restore (hold_control req s)))"
  using assms by (intro install_viewer_one install_controller_one) (simp_all add: hold_control_def no_controller_def)

lemma attach_role_Controller:
  "attach_role req s = Controller \<Longrightarrow> replacing_own (ar_producer req) s \<or> ac_controller s = None"
  by (auto simp: attach_role_def split: if_splits)

lemma attach_one [sedes_inv]:
  assumes ok: "one_controller s"
  shows "one_controller (fst (attach_viewer req s))"
proof -
  let ?s = "case (if ac_persistent s then ar_recovered req else None) of None \<Rightarrow> s
    | Some n \<Rightarrow> s\<lparr>ac_high_water := jmap_set (ar_producer req) n (ac_high_water s)\<rparr>"
  have ok1: "one_controller ?s"
    using ok by (simp split: option.splits)
  show ?thesis
  proof (cases "attach_role req ?s")
    case Controller
    then show ?thesis
      using ok ok1 hold_control_one [OF replaced_no_controller [OF ok1 attach_role_Controller]]
      by (simp add: attach_viewer_def Let_def)
  next
    case Observer
    then show ?thesis
      using ok ok1 install_viewer_one [OF install_observer_one [OF ok1]] by (simp add: attach_viewer_def Let_def)
  qed
qed

lemma one_controller_neutral [simp]:
  "one_controller (s\<lparr>ac_hashes := h\<rparr>) = one_controller s" "one_controller (s\<lparr>ac_grace := g\<rparr>) = one_controller s"
  "one_controller (s\<lparr>ac_lifecycle := l\<rparr>) = one_controller s" "one_controller (s\<lparr>ac_revision := r\<rparr>) = one_controller s"
  "one_controller (s\<lparr>ac_controller_producer := p\<rparr>) = one_controller s" "one_controller (s\<lparr>ac_epoch := e\<rparr>) = one_controller s"
  by (simp_all add: one_controller_def)

lemma input_one [sedes_inv]: "one_controller s \<Longrightarrow> one_controller (fst (actor_input sha w a f s))"
  by (auto simp: actor_input_def replayed_input_def fresh_input_def remember_hash_def Let_def emits_one split: option.splits)

lemma broadcast_one [sedes_inv]:
  assumes "one_controller s"
  shows "one_controller (fst (broadcast_status s))"
proof -
  have "one_controller (fst r) \<Longrightarrow> one_controller (fst (fold (\<lambda>a r. then_do r (send_viewer a f)) as r))" for as r f
    by (induction as arbitrary: r) (simp_all add: emits_one)
  then show ?thesis
    using assms by (simp add: broadcast_status_def)
qed

lemma terminate_one [sedes_inv]: "one_controller s \<Longrightarrow> one_controller (fst (begin_termination stopping s))"
  by (auto simp: begin_termination_def Let_def revoke_one broadcast_one split: sum.splits)

lemma actor_event_one: "one_controller s \<Longrightarrow> one_controller (fst (actor_event_step sha ev s))"
  by (cases ev)
    (simp_all add: actor_event_step_def attach_one claim_one release_one input_one detach_viewer_one terminate_one
      viewer_caught_up_def caught_up_one emits_one grace_expires_def Let_def)

interpretation controllers: reactive_invariant "actor_event_step sha" "\<lambda>_. True" "\<lambda>s _. one_controller s" for sha
  by unfold_locales (rule actor_event_one)

subsection \<open>Only the controller's input is written\<close>

definition silent :: "actor_output list \<Rightarrow> bool" where
  "silent outs \<longleftrightarrow> (\<forall>p n bs w. AWrite p n bs w \<notin> set outs)"

lemma silent_simps [simp]:
  "silent []" "silent (a @ b) \<longleftrightarrow> silent a \<and> silent b" "silent (AEmit x f # outs) = silent outs"
  "silent (AThrow m # outs) = silent outs" "silent (ATerminate # outs) = silent outs"
  by (auto simp: silent_def)

lemma silent_emit_frame [simp]: "silent (snd (fst (emit_frame a f s)))"
  by (simp add: emit_frame_def split: list.splits bool.splits)

lemma silent_emits [simp]:
  "silent (snd (send_viewer a f s))" "silent (snd (emit_control a s))" "silent (snd (emit_error a m b s))"
  "silent (snd (emit_input_result a n outcome k msg s))"
  by (simp_all add: send_viewer_def emit_control_def emit_error_def emit_input_result_def split: option.splits)

lemma silent_control [simp]:
  "silent (snd (claim_control_of a s))" "silent (snd (release_control_of a s))" "silent (snd (revoke_controller s))"
  "silent (snd (viewer_caught_up a s))" "silent (snd (replace_controller p s))"
  "silent (snd (install_viewer req role restore s))"
  by (simp_all add: claim_control_of_def release_control_of_def revoke_controller_def viewer_caught_up_def
      replace_controller_def install_viewer_def Let_def split: option.splits)

lemma silent_broadcast [simp]: "silent (snd (broadcast_status s))"
proof -
  have "silent (snd r) \<Longrightarrow> silent (snd (fold (\<lambda>a r. then_do r (send_viewer a f)) as r))" for as r f
    by (induction as arbitrary: r) simp_all
  then show ?thesis
    by (simp add: broadcast_status_def)
qed

lemma silent_others [simp]:
  "silent (snd (attach_viewer req s))" "silent (snd (begin_termination stopping s))"
  by (auto simp: attach_viewer_def begin_termination_def Let_def split: sum.splits)

lemma input_writes:
  assumes "AWrite p n bs w' \<in> set (snd (actor_input sha w a f s))"
  obtains v where "jmap_get (ac_viewers s) a = Some v" "may_write a v f s" "p = if_producer f" "n = if_seq f"
    "bs = if_bytes f" "w' = w"
proof (cases "jmap_get (ac_viewers s) a")
  case None
  then show ?thesis
    using assms by (simp add: actor_input_def)
next
  case (Some v)
  have quiet: "AWrite p n bs w' \<notin> set (snd (emit_input_result a k outcome m msg t))" for k outcome m msg t
    using silent_emits(4) by (simp add: silent_def)
  show ?thesis
    using assms Some by (intro that [of v])
      (auto simp: actor_input_def replayed_input_def fresh_input_def Let_def quiet split: if_splits)
qed

lemma event_writes:
  assumes "AWrite p n bs w \<in> set (snd (actor_event_step sha ev s))"
  obtains a f v where "ev = AvInput a f w" "jmap_get (ac_viewers s) a = Some v" "may_write a v f s" "p = if_producer f"
    "n = if_seq f" "bs = if_bytes f"
proof (cases ev)
  case (AvInput a f w')
  then show ?thesis
    using assms that by (auto simp: actor_event_step_def elim: input_writes)
qed (use assms silent_others silent_control in \<open>auto simp: actor_event_step_def silent_def\<close>)

section \<open>Properties\<close>


text \<open>C13. Only the holder of control writes: whatever has happened before, an input is written to the
  process only for a frame of the viewer that holds control, is in the controller role and caught up,
  that carries the current epoch and the viewer's own producer, while the terminal runs; and no other
  attached viewer is in the controller role.\<close>

theorem only_controller_writes:
  assumes "s = fst (run_actor sha evs (new_actor incarnation lifecycle revision rows columns history head epoch emits))"
    and "AWrite producer n bs w \<in> set (snd (actor_event_step sha ev s))"
  shows "\<exists>a f v. ev = AvInput a f w \<and> jmap_get (ac_viewers s) a = Some v \<and> ac_controller s = Some a \<and>
    vw_role v = Controller \<and> vw_caught_up v \<and> ac_lifecycle s = Running \<and> if_epoch f = ac_epoch s \<and>
    vw_producer v = producer \<and> if_seq f = n \<and> if_bytes f = bs \<and>
    (\<forall>b u. jmap_get (ac_viewers s) b = Some u \<longrightarrow> vw_attached u \<longrightarrow> vw_role u = Controller \<longrightarrow> b = a)"
proof -
  obtain a f v where input: "ev = AvInput a f w" "jmap_get (ac_viewers s) a = Some v" "may_write a v f s"
      "producer = if_producer f" "n = if_seq f" "bs = if_bytes f"
    using assms(2) by (rule event_writes)
  have "one_controller s"
    unfolding assms(1) run_actor_def
    by (rule controllers.run_from_start) (simp_all add: one_controller_def new_actor_def)
  then have "b = a" if "jmap_get (ac_viewers s) b = Some u" "vw_attached u" "vw_role u = Controller" for b u
    using one_controllerD that input(3) by (fastforce simp: may_write_def)
  then show ?thesis
    using input by (intro exI [of _ a] exI [of _ f] exI [of _ v]) (auto simp: may_write_def)
qed

text \<open>A controller attaches, catches up and types; another viewer claims control; a frame of the first
  one's epoch writes nothing.\<close>

definition control_events :: "actor_event list" where
  "control_events =
     [AvAttach \<lparr>ar_attachment = ''a'', ar_producer = ''p'', ar_role = Controller, ar_restore = RestoreCheckpoint,
        ar_recovered = None, ar_journal_ok = True\<rparr>,
      AvCaughtUp ''a'',
      AvInput ''a'' \<lparr>if_epoch = 1, if_producer = ''p'', if_seq = 1, if_bytes = [65]\<rparr> WriteSent]"

theorem only_controller_writes_witness:
  "\<exists>s a f v. s = fst (run_actor (\<lambda>_. []) control_events (new_actor ''i'' Running 1 24 80 0 0 None [])) \<and>
     AWrite ''p'' 2 [66] WriteSent \<in> set (snd (actor_event_step (\<lambda>_. []) (AvInput ''a''
       \<lparr>if_epoch = 1, if_producer = ''p'', if_seq = 2, if_bytes = [66]\<rparr> WriteSent) s)) \<and>
     jmap_get (ac_viewers s) a = Some v \<and> ac_controller s = Some a \<and> if_epoch (f :: input_frame) = ac_epoch s"
proof -
  let ?s = "fst (run_actor (\<lambda>_. []) control_events (new_actor ''i'' Running 1 24 80 0 0 None []))"
  let ?outs = "snd (actor_event_step (\<lambda>_. []) (AvInput ''a'' \<lparr>if_epoch = 1, if_producer = ''p'', if_seq = 2,
      if_bytes = [66]\<rparr> WriteSent) ?s)"
  have "case ?outs of AWrite p n bs w # _ \<Rightarrow> p = ''p'' \<and> n = 2 \<and> bs = [66] \<and> w = WriteSent | _ \<Rightarrow> False"
    by code_simp
  then have written: "AWrite ''p'' 2 [66] WriteSent \<in> set (snd (actor_event_step (\<lambda>_. []) (AvInput ''a''
       \<lparr>if_epoch = 1, if_producer = ''p'', if_seq = 2, if_bytes = [66]\<rparr> WriteSent) ?s))"
    by (auto split: list.splits actor_output.splits)
  obtain a f v where "jmap_get (ac_viewers ?s) a = Some v" "ac_controller ?s = Some a" "if_epoch (f :: input_frame) = ac_epoch ?s"
    using only_controller_writes [OF refl written] by (elim exE conjE)
  then show ?thesis
    using written by (intro exI [of _ ?s] exI [of _ a] exI [of _ f] exI [of _ v] conjI refl)
qed

end
