(* ===== verification/EditSemantics.thy ===== *)
theory EditSemantics
  imports Prelude "HOL-Library.Multiset"
begin

text \<open>
  The edit tool's text semantics, \<^verbatim>\<open>server/workspace-tools/edit-semantics.ts\<close>: an edit request replaces
  several texts of a file at once, each of which must occur exactly once, with line endings and byte
  order mark kept, and with a fuzzy match (quotes, dashes, spaces, trailing blanks, Unicode
  compatibility forms) when an exact one fails.

  A JavaScript string is its list of UTF-16 code units, integers here. The Unicode normalization
  \<^verbatim>\<open>normalize("NFKC")\<close> and the \<^verbatim>\<open>diff\<close> package (\<^verbatim>\<open>diffLines\<close>, \<^verbatim>\<open>createTwoFilesPatch\<close>) are parameters.
  \<^verbatim>\<open>indexOf\<close> gives \<open>-1\<close> when there is no match and \<^verbatim>\<open>slice\<close> counts negative positions from the end, as in
  JavaScript. A thrown \<^verbatim>\<open>WorkspaceToolError(code)\<close> is \<open>Inl code\<close>.
\<close>

section \<open>Definitions\<close>

type_synonym utext = "int list"

definition edit_failed :: string where
  "edit_failed = ''workspace_tools_edit_failed''"

subsection \<open>Strings\<close>

fun find_text :: "utext \<Rightarrow> utext \<Rightarrow> nat option" where
  "find_text needle [] = (if needle = [] then Some 0 else None)"
| "find_text needle (c # cs) = (if take (length needle) (c # cs) = needle then Some 0
     else map_option Suc (find_text needle cs))"

definition index_of :: "utext \<Rightarrow> utext \<Rightarrow> int" where
  "index_of needle s = (case find_text needle s of None \<Rightarrow> - 1 | Some i \<Rightarrow> int i)"

definition js_clamp :: "nat \<Rightarrow> int \<Rightarrow> nat" where
  "js_clamp n i = nat (if i < 0 then max (int n + i) 0 else min i (int n))"

definition js_slice :: "utext \<Rightarrow> int \<Rightarrow> int \<Rightarrow> utext" where
  "js_slice s i j = take (js_clamp (length s) j - js_clamp (length s) i) (drop (js_clamp (length s) i) s)"

definition js_slice_from :: "utext \<Rightarrow> int \<Rightarrow> utext" where
  "js_slice_from s i = drop (js_clamp (length s) i) s"

definition js_whitespace :: "int \<Rightarrow> bool" where
  "js_whitespace c \<longleftrightarrow> c \<in> {9, 10, 11, 12, 13, 32, 160, 5760, 8232, 8233, 8239, 8287, 12288, 65279} \<or>
     8192 \<le> c \<and> c \<le> 8202"

definition trim_end :: "utext \<Rightarrow> utext" where
  "trim_end s = rev (dropWhile js_whitespace (rev s))"

fun split_at_lf :: "utext \<Rightarrow> utext list" where
  "split_at_lf [] = [[]]"
| "split_at_lf (c # cs) = (if c = 10 then [] # split_at_lf cs
     else case split_at_lf cs of [] \<Rightarrow> [[c]] | l # ls \<Rightarrow> (c # l) # ls)"

fun join_lf :: "utext list \<Rightarrow> utext" where
  "join_lf [] = []"
| "join_lf [l] = l"
| "join_lf (l # ls) = l @ 10 # join_lf ls"

subsection \<open>Line endings and normalization\<close>

definition strip_bom :: "utext \<Rightarrow> utext \<times> utext" where
  "strip_bom content = (case content of c # cs \<Rightarrow> if c = 65279 then ([65279], cs) else ([], content) | [] \<Rightarrow> ([], []))"

definition detect_line_ending :: "utext \<Rightarrow> utext" where
  "detect_line_ending content =
     (let crlf = index_of [13, 10] content; lf = index_of [10] content
      in if lf = - 1 \<or> crlf = - 1 then [10] else if crlf < lf then [13, 10] else [10])"

fun replace_crlf :: "utext \<Rightarrow> utext" where
  "replace_crlf [] = []"
| "replace_crlf [c] = [c]"
| "replace_crlf (c # d # cs) = (if c = 13 \<and> d = 10 then 10 # replace_crlf cs else c # replace_crlf (d # cs))"

definition normalize_to_lf :: "utext \<Rightarrow> utext" where
  "normalize_to_lf content = map (\<lambda>c. if c = 13 then 10 else c) (replace_crlf content)"

definition restore_line_endings :: "utext \<Rightarrow> utext \<Rightarrow> utext" where
  "restore_line_endings content ending =
     (if ending = [13, 10] then concat (map (\<lambda>c. if c = 10 then [13, 10] else [c]) content) else content)"

definition fold_character :: "int \<Rightarrow> int" where
  "fold_character c =
     (if c \<in> {8216, 8217, 8218, 8219} then 39
      else if c \<in> {8220, 8221, 8222, 8223} then 34
      else if 8208 \<le> c \<and> c \<le> 8213 \<or> c = 8722 then 45
      else if c = 160 \<or> 8194 \<le> c \<and> c \<le> 8202 \<or> c \<in> {8239, 8287, 12288} then 32
      else c)"

definition normalize_for_fuzzy_match :: "(utext \<Rightarrow> utext) \<Rightarrow> utext \<Rightarrow> utext" where
  "normalize_for_fuzzy_match nfkc content =
     map fold_character (join_lf (map trim_end (split_at_lf (nfkc content))))"

subsection \<open>Matching\<close>

record replacement =
  rp_index :: int
  rp_length :: nat
  rp_text :: utext

lemma find_text_length: "find_text needle s = Some i \<Longrightarrow> i + length needle \<le> length s"
proof (induction s arbitrary: i)
  case (Cons c cs)
  show ?case
  proof (cases "take (length needle) (c # cs) = needle")
    case True
    then show ?thesis
      using Cons.prems by (metis add_0 find_text.simps(2) length_take min.bounded_iff nle_le option.inject)
  next
    case False
    then show ?thesis
      using Cons by auto
  qed
qed (auto split: if_splits)

function count_matches :: "utext \<Rightarrow> utext \<Rightarrow> nat" where
  "count_matches needle s = (if needle = [] then 0 else case find_text needle s of
     None \<Rightarrow> 0
   | Some i \<Rightarrow> Suc (count_matches needle (drop (i + max 1 (length needle)) s)))"
  by pat_completeness auto
termination
proof (relation "measure (\<lambda>(needle, s). length s)")
  fix needle s :: utext and i
  assume "needle \<noteq> []" "find_text needle s = Some i"
  then show "((needle, drop (i + max 1 (length needle)) s), needle, s) \<in> measure (\<lambda>(needle, s). length s)"
    using find_text_length [of needle s i] by (cases needle) auto
qed simp

declare count_matches.simps [simp del]

definition occurrences :: "(utext \<Rightarrow> utext) \<Rightarrow> utext \<Rightarrow> utext \<Rightarrow> nat" where
  "occurrences nfkc content needle =
     count_matches (normalize_for_fuzzy_match nfkc needle) (normalize_for_fuzzy_match nfkc content)"

function split_lines_with_endings :: "utext \<Rightarrow> utext list" where
  "split_lines_with_endings s = (if s = [] then [] else case dropWhile (\<lambda>c. c \<noteq> 10) s of
     [] \<Rightarrow> [s]
   | c # rest \<Rightarrow> (takeWhile (\<lambda>c. c \<noteq> 10) s @ [c]) # split_lines_with_endings rest)"
  by pat_completeness auto
termination
proof (relation "measure length")
  fix s :: utext and c rest
  assume "dropWhile (\<lambda>c. c \<noteq> 10) s = c # rest"
  then show "(rest, s) \<in> measure length"
    using length_dropWhile_le [of "\<lambda>c. c \<noteq> 10" s] by simp
qed simp

declare split_lines_with_endings.simps [simp del]

fun spans_from :: "nat \<Rightarrow> utext list \<Rightarrow> (nat \<times> nat) list" where
  "spans_from offset [] = []"
| "spans_from offset (line # ls) = (offset, offset + length line) # spans_from (offset + length line) ls"

definition line_spans :: "utext \<Rightarrow> (nat \<times> nat) list" where
  "line_spans content = spans_from 0 (split_lines_with_endings content)"

fun find_index :: "('a \<Rightarrow> bool) \<Rightarrow> 'a list \<Rightarrow> nat option" where
  "find_index P [] = None"
| "find_index P (x # xs) = (if P x then Some 0 else map_option Suc (find_index P xs))"

definition replacement_line_range :: "(nat \<times> nat) list \<Rightarrow> replacement \<Rightarrow> (nat \<times> nat) result" where
  "replacement_line_range spans r =
     (let start = rp_index r; stop = rp_index r + int (rp_length r)
      in case find_index (\<lambda>(a, b). int a \<le> start \<and> start < int b) spans of
           None \<Rightarrow> Inl edit_failed
         | Some first \<Rightarrow> (case find_index (\<lambda>(a, b). stop \<le> int b) (drop first spans) of
             None \<Rightarrow> Inl edit_failed
           | Some k \<Rightarrow> Inr (first, first + k + 1)))"

definition apply_replacement :: "int \<Rightarrow> replacement \<Rightarrow> utext \<Rightarrow> utext" where
  "apply_replacement offset r s =
     (let i = rp_index r - offset in js_slice s 0 i @ rp_text r @ js_slice_from s (i + int (rp_length r)))"

definition apply_replacements :: "utext \<Rightarrow> replacement list \<Rightarrow> int \<Rightarrow> utext" where
  "apply_replacements content rs offset = fold (apply_replacement offset) (rev rs) content"

record line_group =
  lg_start :: nat
  lg_end :: nat
  lg_replacements :: "replacement list"

fun add_to_groups :: "nat \<times> nat \<Rightarrow> replacement \<Rightarrow> line_group list \<Rightarrow> line_group list" where
  "add_to_groups (first, stop) r groups = (case rev groups of
     g # earlier \<Rightarrow> if first < lg_end g
       then rev earlier @ [g\<lparr>lg_end := max (lg_end g) stop, lg_replacements := lg_replacements g @ [r]\<rparr>]
       else groups @ [\<lparr>lg_start = first, lg_end = stop, lg_replacements = [r]\<rparr>]
   | [] \<Rightarrow> [\<lparr>lg_start = first, lg_end = stop, lg_replacements = [r]\<rparr>])"

fun group_replacements :: "(nat \<times> nat) list \<Rightarrow> replacement list \<Rightarrow> line_group list \<Rightarrow> line_group list result" where
  "group_replacements spans [] groups = Inr groups"
| "group_replacements spans (r # rs) groups = (case replacement_line_range spans r of
     Inl e \<Rightarrow> Inl e | Inr span \<Rightarrow> group_replacements spans rs (add_to_groups span r groups))"

fun assemble :: "utext list \<Rightarrow> utext \<Rightarrow> (nat \<times> nat) list \<Rightarrow> nat \<Rightarrow> line_group list \<Rightarrow> utext" where
  "assemble original base spans line [] = concat (drop line original)"
| "assemble original base spans line (g # gs) =
     concat (take (lg_start g - line) (drop line original)) @
     (let start = fst (spans ! lg_start g); stop = snd (spans ! (lg_end g - 1))
      in apply_replacements (js_slice base (int start) (int stop)) (lg_replacements g) (int start)) @
     assemble original base spans (lg_end g) gs"

definition apply_preserving_unchanged_lines :: "utext \<Rightarrow> utext \<Rightarrow> replacement list \<Rightarrow> utext result" where
  "apply_preserving_unchanged_lines original base rs =
     (let original_lines = split_lines_with_endings original; spans = line_spans base
      in if length original_lines \<noteq> length spans then Inl edit_failed
         else case group_replacements spans rs [] of
           Inl e \<Rightarrow> Inl e | Inr groups \<Rightarrow> Inr (assemble original_lines base spans 0 groups))"

subsection \<open>Edits\<close>

record workspace_edit =
  we_old :: utext
  we_new :: utext

record edit_result =
  er_content :: utext
  er_before :: utext
  er_after :: utext

definition includes_text :: "utext \<Rightarrow> utext \<Rightarrow> bool" where
  "includes_text s needle \<longleftrightarrow> find_text needle s \<noteq> None"

definition normalize_edit :: "workspace_edit \<Rightarrow> workspace_edit" where
  "normalize_edit e = \<lparr>we_old = normalize_to_lf (we_old e), we_new = normalize_to_lf (we_new e)\<rparr>"

fun match_edits :: "(utext \<Rightarrow> utext) \<Rightarrow> bool \<Rightarrow> utext \<Rightarrow> workspace_edit list \<Rightarrow> replacement list result" where
  "match_edits nfkc fuzzy base [] = Inr []"
| "match_edits nfkc fuzzy base (e # es) =
     (let needle = (if fuzzy then normalize_for_fuzzy_match nfkc (we_old e) else we_old e);
          n = occurrences nfkc base (we_old e)
      in if n = 0 then Inl ''workspace_tools_edit_no_match''
         else if n \<noteq> 1 then Inl ''workspace_tools_edit_ambiguous_match''
         else case match_edits nfkc fuzzy base es of
           Inl err \<Rightarrow> Inl err
         | Inr rs \<Rightarrow> Inr (\<lparr>rp_index = index_of needle base, rp_length = length needle, rp_text = we_new e\<rparr> # rs))"

fun overlapping :: "replacement list \<Rightarrow> bool" where
  "overlapping (p # r # rs) \<longleftrightarrow> rp_index r < rp_index p + int (rp_length p) \<or> overlapping (r # rs)"
| "overlapping _ \<longleftrightarrow> False"

definition apply_workspace_tool_edits ::
  "(utext \<Rightarrow> utext) \<Rightarrow> utext \<Rightarrow> workspace_edit list \<Rightarrow> edit_result result" where
  "apply_workspace_tool_edits nfkc content edits =
     (if edits = [] then Inl edit_failed else
      let bom = fst (strip_bom content); body = snd (strip_bom content);
          ending = detect_line_ending body;
          before = normalize_to_lf body;
          normalized = map normalize_edit edits
      in if \<exists>e \<in> set normalized. we_old e = [] then Inl edit_failed
      else let fuzzy = (\<exists>e \<in> set normalized. \<not> includes_text before (we_old e));
               base = (if fuzzy then normalize_for_fuzzy_match nfkc before else before)
      in case match_edits nfkc fuzzy base normalized of
           Inl e \<Rightarrow> Inl e
         | Inr found \<Rightarrow>
             let rs = sort_key rp_index found
             in if overlapping rs then Inl ''workspace_tools_edit_overlap''
                else case (if fuzzy then apply_preserving_unchanged_lines before base rs
                           else Inr (apply_replacements base rs 0)) of
                  Inl e \<Rightarrow> Inl e
                | Inr after \<Rightarrow>
                    if after = before then Inl edit_failed
                    else Inr \<lparr>er_content = bom @ restore_line_endings after ending,
                              er_before = before, er_after = after\<rparr>)"

subsection \<open>Presentation\<close>

record diff_part =
  dp_value :: utext
  dp_added :: bool
  dp_removed :: bool

record line_counter =
  lc_old :: nat
  lc_new :: nat
  lc_first :: "nat option"
  lc_output :: "utext list"

definition show_line :: "char \<Rightarrow> nat \<Rightarrow> utext \<Rightarrow> utext" where
  "show_line sign n line = map of_char (sign # show_nat n @ '' '') @ line"

definition part_lines :: "utext \<Rightarrow> utext list" where
  "part_lines v = split_at_lf (if v \<noteq> [] \<and> last v = 10 then butlast v else v)"

definition present_line :: "diff_part \<Rightarrow> utext \<Rightarrow> line_counter \<Rightarrow> line_counter" where
  "present_line part line st =
     (let first = (case lc_first st of None \<Rightarrow> Some (lc_new st) | Some n \<Rightarrow> Some n)
      in if dp_added part then st\<lparr>lc_first := first,
             lc_output := lc_output st @ [show_line (CHR ''+'') (lc_new st) line], lc_new := lc_new st + 1\<rparr>
         else if dp_removed part then st\<lparr>lc_first := first,
             lc_output := lc_output st @ [show_line (CHR ''-'') (lc_old st) line], lc_old := lc_old st + 1\<rparr>
         else st\<lparr>lc_old := lc_old st + 1, lc_new := lc_new st + 1\<rparr>)"

record edit_presentation =
  ep_diff :: utext
  ep_patch :: utext
  ep_first :: "nat option"

definition workspace_tool_edit_presentation ::
  "(utext \<Rightarrow> utext \<Rightarrow> diff_part list) \<Rightarrow> (utext \<Rightarrow> utext \<Rightarrow> utext \<Rightarrow> utext) \<Rightarrow> utext \<Rightarrow> utext \<Rightarrow> utext \<Rightarrow>
     edit_presentation" where
  "workspace_tool_edit_presentation diff_lines two_files_patch path before after =
     (let st = fold (\<lambda>part st. fold (present_line part) (part_lines (dp_value part)) st) (diff_lines before after)
            \<lparr>lc_old = 1, lc_new = 1, lc_first = None, lc_output = []\<rparr>
      in \<lparr>ep_diff = join_lf (lc_output st), ep_patch = two_files_patch path before after, ep_first = lc_first st\<rparr>)"

section \<open>Lemmas\<close>

subsection \<open>Replacing from the right is replacing all at once\<close>

lemma js_clamp_in: "0 \<le> i \<Longrightarrow> i \<le> int n \<Longrightarrow> js_clamp n i = nat i"
  by (simp add: js_clamp_def)

lemma js_clamp_shift: "int k \<le> i \<Longrightarrow> js_clamp (k + n) i = k + js_clamp n (i - int k)"
  by (auto simp: js_clamp_def min_def)

lemma apply_replacement_append:
  assumes "offset + int (length a) \<le> rp_index r"
  shows "apply_replacement offset r (a @ t) = a @ apply_replacement (offset + int (length a)) r t"
proof -
  let ?i = "rp_index r - offset"
  have i: "int (length a) \<le> ?i" "int (length a) \<le> ?i + int (rp_length r)"
    using assms by simp_all
  have "js_slice (a @ t) 0 ?i = a @ js_slice t 0 (?i - int (length a))"
    using js_clamp_shift [OF i(1), of "length t"] by (simp add: js_slice_def js_clamp_in)
  moreover have "js_slice_from (a @ t) (?i + int (rp_length r)) = js_slice_from t (?i + int (rp_length r) - int (length a))"
    using js_clamp_shift [OF i(2), of "length t"] by (simp add: js_slice_from_def)
  ultimately show ?thesis
    by (simp add: apply_replacement_def Let_def algebra_simps)
qed

lemma apply_replacements_append:
  assumes "\<forall>r \<in> set rs. offset + int (length a) \<le> rp_index r"
  shows "apply_replacements (a @ t) rs offset = a @ apply_replacements t rs (offset + int (length a))"
proof -
  have "fold (apply_replacement offset) xs (a @ t) = a @ fold (apply_replacement (offset + int (length a))) xs t"
    if "set xs \<subseteq> set rs" for xs
    using that assms by (induction xs arbitrary: t) (simp_all add: apply_replacement_append)
  then show ?thesis
    by (simp add: apply_replacements_def)
qed

text \<open>\<open>fits offset s rs\<close>: the replacements lie one behind the other in \<open>s\<close>, which starts at \<open>offset\<close>.\<close>

fun fits :: "int \<Rightarrow> utext \<Rightarrow> replacement list \<Rightarrow> bool" where
  "fits offset s [] \<longleftrightarrow> True"
| "fits offset s (r # rs) \<longleftrightarrow> offset \<le> rp_index r \<and> rp_index r + int (rp_length r) \<le> offset + int (length s) \<and>
     fits (rp_index r + int (rp_length r)) (drop (nat (rp_index r + int (rp_length r) - offset)) s) rs"

definition replaced_text :: "utext \<Rightarrow> int \<Rightarrow> replacement \<Rightarrow> utext" where
  "replaced_text s offset r = take (rp_length r) (drop (nat (rp_index r - offset)) s)"

lemma fits_above: "fits offset s rs \<Longrightarrow> r \<in> set rs \<Longrightarrow> offset \<le> rp_index r"
proof (induction offset s rs rule: fits.induct)
  case (2 offset s r' rs)
  then show ?case
    by force
qed simp

lemma replaced_text_drop:
  assumes "offset + int k \<le> rp_index r"
  shows "replaced_text (drop k s) (offset + int k) r = replaced_text s offset r"
proof -
  have "nat (rp_index r - (offset + int k)) + k = nat (rp_index r - offset)"
    using assms by linarith
  then show ?thesis
    by (simp add: replaced_text_def)
qed

lemma apply_replacements_Cons:
  assumes "fits offset s (r # rs)"
  defines "i \<equiv> nat (rp_index r - offset)"
  shows "apply_replacements s (r # rs) offset =
    take i s @ rp_text r @ apply_replacements (drop (i + rp_length r) s) rs (rp_index r + int (rp_length r))"
proof -
  let ?k = "i + rp_length r"
  let ?rest = "apply_replacements (drop ?k s) rs (offset + int ?k)"
  have k: "?k \<le> length s" "offset + int ?k = rp_index r + int (rp_length r)"
      "nat (rp_index r + int (rp_length r) - offset) = ?k"
    using assms by auto
  have above: "\<forall>x \<in> set rs. offset + int (length (take ?k s)) \<le> rp_index x"
  proof
    fix x
    assume "x \<in> set rs"
    moreover have "fits (rp_index r + int (rp_length r)) (drop ?k s) rs"
      using assms(1) k(3) by simp
    ultimately show "offset + int (length (take ?k s)) \<le> rp_index x"
      using fits_above k(1,2) by fastforce
  qed
  have rest: "apply_replacements s rs offset = take ?k s @ ?rest"
    using apply_replacements_append [OF above, of "drop ?k s"] k(1) by simp
  have "apply_replacements s (r # rs) offset = apply_replacement offset r (take ?k s @ ?rest)"
    using rest by (simp add: apply_replacements_def)
  also have "\<dots> = take i s @ rp_text r @ ?rest"
  proof -
    have "rp_index r - offset = int i" "rp_index r - offset + int (rp_length r) = int ?k"
      using assms by auto
    moreover have "js_slice (take ?k s @ ?rest) 0 (int i) = take i s"
      using k(1) by (simp add: js_slice_def js_clamp_in)
    moreover have "js_slice_from (take ?k s @ ?rest) (int ?k) = ?rest"
      using k(1) by (simp add: js_slice_from_def js_clamp_in)
    ultimately show ?thesis
      by (simp add: apply_replacement_def Let_def)
  qed
  finally show ?thesis
    unfolding k(2) .
qed

lemma replaced_at_once:
  assumes "fits offset s rs"
  shows "\<exists>ps rest. s = concat (map (\<lambda>(gap, old, new). gap @ old) ps) @ rest \<and>
    apply_replacements s rs offset = concat (map (\<lambda>(gap, old, new). gap @ new) ps) @ rest \<and>
    map snd ps = map (\<lambda>r. (replaced_text s offset r, rp_text r)) rs"
  using assms
proof (induction rs arbitrary: offset s)
  case Nil
  then show ?case
    by (intro exI [of _ "[]"] exI [of _ s]) (simp add: apply_replacements_def)
next
  case (Cons r rs)
  define i where "i = nat (rp_index r - offset)"
  let ?k = "i + rp_length r" and ?t = "drop (i + rp_length r) s"
  have k: "?k \<le> length s" "offset + int ?k = rp_index r + int (rp_length r)"
      "nat (rp_index r + int (rp_length r) - offset) = ?k" "int i = rp_index r - offset"
    using Cons.prems by (auto simp: i_def)
  have fits: "fits (rp_index r + int (rp_length r)) ?t rs"
    using Cons.prems k(3) by simp
  then obtain ps rest where ps: "?t = concat (map (\<lambda>(gap, old, new). gap @ old) ps) @ rest"
      "apply_replacements ?t rs (rp_index r + int (rp_length r)) = concat (map (\<lambda>(gap, old, new). gap @ new) ps) @ rest"
      "map snd ps = map (\<lambda>x. (replaced_text ?t (rp_index r + int (rp_length r)) x, rp_text x)) rs"
    using Cons.IH by blast
  have texts: "replaced_text ?t (rp_index r + int (rp_length r)) x = replaced_text s offset x" if "x \<in> set rs" for x
    using replaced_text_drop [of offset ?k x s, unfolded k(2)] fits_above [OF fits that] by simp
  have "s = take i s @ replaced_text s offset r @ ?t"
    by (metis append_take_drop_id drop_drop i_def add.commute replaced_text_def)
  then have "s = concat (map (\<lambda>(gap, old, new). gap @ old) ((take i s, replaced_text s offset r, rp_text r) # ps)) @ rest"
    using ps(1) by simp
  moreover have "apply_replacements s (r # rs) offset =
      concat (map (\<lambda>(gap, old, new). gap @ new) ((take i s, replaced_text s offset r, rp_text r) # ps)) @ rest"
    using apply_replacements_Cons [OF Cons.prems] ps(2) by (simp add: i_def)
  moreover have "map snd ((take i s, replaced_text s offset r, rp_text r) # ps) =
      map (\<lambda>x. (replaced_text s offset x, rp_text x)) (r # rs)"
    using ps(3) texts by simp
  ultimately show ?case
    by blast
qed

subsection \<open>Matches\<close>

lemma find_text_at: "find_text needle s = Some i \<Longrightarrow> take (length needle) (drop i s) = needle"
proof (induction s arbitrary: i)
  case (Cons c cs)
  then show ?case
    by (cases "take (length needle) (c # cs) = needle") auto
qed (auto split: if_splits)

lemma match_edits_exact:
  assumes "match_edits nfkc False base es = Inr rs" "\<forall>e \<in> set es. includes_text base (we_old e)"
  shows "map (\<lambda>r. (replaced_text base 0 r, rp_text r)) rs = map (\<lambda>e. (we_old e, we_new e)) es \<and>
    (\<forall>r \<in> set rs. 0 \<le> rp_index r \<and> rp_index r + int (rp_length r) \<le> int (length base))"
  using assms
proof (induction es arbitrary: rs)
  case (Cons e es)
  obtain i where i: "find_text (we_old e) base = Some i"
    using Cons.prems(2) by (auto simp: includes_text_def)
  obtain rs' where rs': "match_edits nfkc False base es = Inr rs'"
      "rs = \<lparr>rp_index = int i, rp_length = length (we_old e), rp_text = we_new e\<rparr> # rs'"
    using Cons.prems(1) i by (auto simp: Let_def index_of_def split: if_splits sum.splits)
  then show ?case
    using Cons.IH [OF rs'(1)] Cons.prems(2) find_text_at [OF i] find_text_length [OF i]
    by (simp add: replaced_text_def)
qed simp

lemma fits_drop:
  assumes "\<not> overlapping rs" "sorted (map rp_index rs)"
    "\<forall>r \<in> set rs. offset \<le> rp_index r \<and> rp_index r + int (rp_length r) \<le> offset + int (length s)"
  shows "fits offset s rs"
  using assms
proof (induction rs arbitrary: offset s)
  case (Cons r rs)
  let ?k = "nat (rp_index r + int (rp_length r) - offset)"
  have later: "rp_index r + int (rp_length r) \<le> rp_index x" if "x \<in> set rs" for x
    using Cons.prems(1,2) that by (cases rs) force+
  have k: "?k \<le> length s" "int ?k = rp_index r + int (rp_length r) - offset"
    using Cons.prems(3) by auto
  have "fits (rp_index r + int (rp_length r)) (drop ?k s) rs"
  proof (rule Cons.IH)
    show "\<not> overlapping rs"
      using Cons.prems(1) by (cases rs) auto
    show "sorted (map rp_index rs)"
      using Cons.prems(2) by simp
    show "\<forall>x \<in> set rs. rp_index r + int (rp_length r) \<le> rp_index x \<and>
        rp_index x + int (rp_length x) \<le> rp_index r + int (rp_length r) + int (length (drop ?k s))"
      using later Cons.prems(3) k by auto
  qed
  then show ?case
    using Cons.prems(3) by simp
qed simp

subsection \<open>Line endings\<close>

fun crlf_only :: "utext \<Rightarrow> bool" where
  "crlf_only [] \<longleftrightarrow> True"
| "crlf_only [c] \<longleftrightarrow> c \<noteq> 13 \<and> c \<noteq> 10"
| "crlf_only (c # d # cs) \<longleftrightarrow> (if c = 13 then d = 10 \<and> crlf_only cs else c \<noteq> 10 \<and> crlf_only (d # cs))"

lemma restore_crlf_only: "crlf_only s \<Longrightarrow> restore_line_endings (normalize_to_lf s) [13, 10] = s"
  by (induction s rule: crlf_only.induct)
    (auto simp: restore_line_endings_def normalize_to_lf_def split: if_splits)

lemma replace_crlf_id: "13 \<notin> set s \<Longrightarrow> replace_crlf s = s"
  by (induction s rule: replace_crlf.induct) auto

lemma normalize_lf_id: "13 \<notin> set s \<Longrightarrow> normalize_to_lf s = s"
  by (auto simp: normalize_to_lf_def replace_crlf_id intro!: map_idI)

lemma index_of_nonneg: "index_of needle s = - 1 \<longleftrightarrow> find_text needle s = None"
  by (simp add: index_of_def split: option.splits)

lemma find_lf: "find_text [10] s = None \<longleftrightarrow> 10 \<notin> set s"
  by (induction s) auto

lemma crlf_only_no_lf: "crlf_only s \<Longrightarrow> 10 \<notin> set s \<Longrightarrow> 13 \<notin> set s"
  by (induction s rule: crlf_only.induct) (auto split: if_splits)

lemma find_crlf_before_lf:
  "crlf_only s \<Longrightarrow> 10 \<in> set s \<Longrightarrow> \<exists>i. find_text [13, 10] s = Some i \<and> find_text [10] s = Some (Suc i)"
  by (induction s rule: crlf_only.induct) (auto split: if_splits)

lemma detect_crlf_only: "crlf_only s \<Longrightarrow> 10 \<in> set s \<Longrightarrow> detect_line_ending s = [13, 10]"
  using find_crlf_before_lf [of s] by (auto simp: detect_line_ending_def index_of_def Let_def)

lemma detect_no_cr: "13 \<notin> set s \<Longrightarrow> detect_line_ending s = [10]"
proof -
  assume "13 \<notin> set s"
  then have "find_text [13, 10] s = None"
    by (induction s) auto
  then show ?thesis
    by (simp add: detect_line_ending_def index_of_def)
qed

section \<open>Properties\<close>



text \<open>C25. Line endings and the byte order mark survive: for a file whose lines all end in CR LF, or
  that has no carriage return, splitting off the mark, normalizing to LF and restoring the detected
  ending gives the file back.\<close>

theorem line_endings_roundtrip:
  assumes "crlf_only (snd (strip_bom content)) \<or> 13 \<notin> set (snd (strip_bom content))"
  shows "fst (strip_bom content) @ restore_line_endings (normalize_to_lf (snd (strip_bom content)))
    (detect_line_ending (snd (strip_bom content))) = content"
proof -
  let ?body = "snd (strip_bom content)"
  have "restore_line_endings (normalize_to_lf ?body) (detect_line_ending ?body) = ?body"
  proof (cases "13 \<in> set ?body")
    case True
    then have "crlf_only ?body" "10 \<in> set ?body"
      using assms crlf_only_no_lf by blast+
    then show ?thesis
      by (simp add: detect_crlf_only restore_crlf_only)
  next
    case False
    then show ?thesis
      by (simp add: normalize_lf_id detect_no_cr restore_line_endings_def)
  qed
  moreover have "fst (strip_bom content) @ ?body = content"
    by (simp add: strip_bom_def split: list.splits)
  ultimately show ?thesis
    by simp
qed

theorem line_endings_roundtrip_witness:
  "crlf_only (snd (strip_bom [65279, 97, 13, 10, 98, 13, 10])) \<and>
   fst (strip_bom [65279, 97, 13, 10, 98, 13, 10]) @
     restore_line_endings (normalize_to_lf (snd (strip_bom [65279, 97, 13, 10, 98, 13, 10])))
       (detect_line_ending (snd (strip_bom [65279, 97, 13, 10, 98, 13, 10]))) = [65279, 97, 13, 10, 98, 13, 10]"
proof
  show crlf: "crlf_only (snd (strip_bom [65279, 97, 13, 10, 98, 13, 10]))"
    by (simp add: strip_bom_def)
  show "fst (strip_bom [65279, 97, 13, 10, 98, 13, 10]) @
     restore_line_endings (normalize_to_lf (snd (strip_bom [65279, 97, 13, 10, 98, 13, 10])))
       (detect_line_ending (snd (strip_bom [65279, 97, 13, 10, 98, 13, 10]))) = [65279, 97, 13, 10, 98, 13, 10]"
    by (rule line_endings_roundtrip) (use crlf in blast)
qed

end
