(* ===== verification/Base64url.thy ===== *)
theory Base64url
  imports Bytes
begin

text \<open>
  Node's \<^verbatim>\<open>Buffer.toString("base64url")\<close> and \<^verbatim>\<open>Buffer.from(text, "base64url")\<close>, which carry terminal
  bytes through JSON: three bytes are four characters, a rest of one or two bytes is two or three, without
  padding. The decoder also reads the characters of plain base64, skips every other character and stops at
  a padding sign; a single character left over stands for no byte.
\<close>

section \<open>Definitions\<close>

definition base64_char :: "nat \<Rightarrow> char" where
  "base64_char n =
     (if n < 26 then char_of (65 + n) else if n < 52 then char_of (71 + n)
      else if n < 62 then char_of (n - 4) else if n = 62 then CHR ''-'' else CHR ''_'')"

definition base64_value :: "char \<Rightarrow> nat option" where
  "base64_value c = (let n = (of_char c :: nat) in
     if 65 \<le> n \<and> n \<le> 90 then Some (n - 65)
     else if 97 \<le> n \<and> n \<le> 122 then Some (n - 71)
     else if 48 \<le> n \<and> n \<le> 57 then Some (n + 4)
     else if c = CHR ''-'' \<or> c = CHR ''+'' then Some 62
     else if c = CHR ''_'' \<or> c = CHR ''/'' then Some 63
     else None)"

fun sextets_of :: "bytes \<Rightarrow> nat list" where
  "sextets_of (a # b # c # bs) =
     (unat a div 4) # ((unat a mod 4) * 16 + unat b div 16) # ((unat b mod 16) * 4 + unat c div 64)
       # (unat c mod 64) # sextets_of bs"
| "sextets_of [a, b] = [unat a div 4, (unat a mod 4) * 16 + unat b div 16, (unat b mod 16) * 4]"
| "sextets_of [a] = [unat a div 4, (unat a mod 4) * 16]"
| "sextets_of [] = []"

fun bytes_of_sextets :: "nat list \<Rightarrow> bytes" where
  "bytes_of_sextets (w # x # y # z # ns) =
     word_of_nat (w * 4 + x div 16) # word_of_nat ((x mod 16) * 16 + y div 4) # word_of_nat ((y mod 4) * 64 + z)
       # bytes_of_sextets ns"
| "bytes_of_sextets [w, x, y] = [word_of_nat (w * 4 + x div 16), word_of_nat ((x mod 16) * 16 + y div 4)]"
| "bytes_of_sextets [w, x] = [word_of_nat (w * 4 + x div 16)]"
| "bytes_of_sextets _ = []"

definition to_base64url :: "bytes \<Rightarrow> string" where
  "to_base64url bs = map base64_char (sextets_of bs)"

definition of_base64url :: "string \<Rightarrow> bytes" where
  "of_base64url s = bytes_of_sextets (List.map_filter base64_value (takeWhile (\<lambda>c. c \<noteq> CHR ''='') s))"

text \<open>The character class \<^verbatim>\<open>/^[A-Za-z0-9_-]*$/\<close>.\<close>

definition base64url_text :: "string \<Rightarrow> bool" where
  "base64url_text s \<longleftrightarrow> list_all (\<lambda>c. base64_value c \<noteq> None \<and> c \<noteq> CHR ''+'' \<and> c \<noteq> CHR ''/'') s"

section \<open>Lemmas\<close>

lemma below_64_cases:
  assumes "n < (64 :: nat)"
  shows "n < 26 \<or> (26 \<le> n \<and> n < 52) \<or> (52 \<le> n \<and> n < 62) \<or> n = 62 \<or> n = 63"
  using assms by arith

lemma base64_value_char [simp]: "n < 64 \<Longrightarrow> base64_value (base64_char n) = Some n"
  by (drule below_64_cases) (auto simp: base64_value_def base64_char_def Let_def)

lemma base64_char_plain [simp]:
  assumes "n < 64"
  shows "base64_char n \<noteq> CHR ''+''" "base64_char n \<noteq> CHR ''/''" "base64_char n \<noteq> CHR ''=''"
proof -
  have no: "of_char (base64_char n) \<notin> {43, 47, 61 :: nat}"
    using below_64_cases [OF assms] by (auto simp: base64_char_def)
  show "base64_char n \<noteq> CHR ''+''" "base64_char n \<noteq> CHR ''/''" "base64_char n \<noteq> CHR ''=''"
    using no by auto
qed

text \<open>Two digits joined in base \<open>k\<close>: each is found again, and the joined number is bounded.\<close>

lemma join_div [simp]: "y < k \<Longrightarrow> (x * k + y) div k = (x :: nat)"
  and join_mod [simp]: "y < k \<Longrightarrow> (x * k + y) mod k = (y :: nat)"
  by simp_all

lemma join_below: "x < j \<Longrightarrow> y < k \<Longrightarrow> x * k + y < j * (k :: nat)"
  by (metis add.commute div_less_iff_less_mult join_div less_nat_zero_code linorder_neqE_nat)

lemma byte_div_below [simp]:
  "unat (b :: byte) div 4 < 64" "unat b div 16 < 16" "unat b div 64 < 4"
  using unat_byte [of b] by (simp_all add: less_mult_imp_div_less)

lemma join_sextet [simp]:
  "(unat (a :: byte) mod 4) * 16 + unat (b :: byte) div 16 < 64"
  "(unat a mod 16) * 4 + unat b div 64 < 64" "(unat a mod 4) * 16 < 64" "(unat a mod 16) * 4 < 64"
  using join_below [of "unat a mod 4" 4 "unat b div 16" 16] join_below [of "unat a mod 16" 16 "unat b div 64" 4]
  by simp_all

lemma sextets_below: "list_all (\<lambda>n. n < 64) (sextets_of bs)"
  by (induction bs rule: sextets_of.induct) simp_all

lemma bytes_of_sextets_of [simp]: "bytes_of_sextets (sextets_of bs) = bs"
  by (induction bs rule: sextets_of.induct) simp_all

lemma read_sextets: "list_all (\<lambda>n. n < 64) ns \<Longrightarrow>
  List.map_filter base64_value (takeWhile (\<lambda>c. c \<noteq> CHR ''='') (map base64_char ns)) = ns"
  by (induction ns) (simp_all add: map_filter_def)

lemma base64url_roundtrip [simp]: "of_base64url (to_base64url bs) = bs"
  by (simp add: of_base64url_def to_base64url_def read_sextets [OF sextets_below])

lemma base64url_text_to [simp]: "base64url_text (to_base64url bs)"
  using sextets_below [of bs] by (simp add: base64url_text_def to_base64url_def list_all_iff)

end
