(* ===== verification/TerminalJournal.thy ===== *)
theory TerminalJournal
  imports TerminalSession Base64url
begin

text \<open>
  The durable history of a terminal, \<^verbatim>\<open>server/terminals/terminal-journal.ts\<close>: a screen checkpoint and
  the records after it, one line of checksummed JSON each.

  \<^item> A \<open>disk\<close> holds what the store keeps of one terminal: its directory, the quarantined one
    (\<^verbatim>\<open>.corrupt\<close>) and the one being deleted (\<^verbatim>\<open>.deleting\<close>), each a map from file names to bytes.
  \<^item> Every call of the file system that changes something is a \<open>disk_op\<close>, and an operation of the store
    is the list of those it makes. The store syncs a file or a directory before it makes the next change, so
    a crash leaves the disk after some of the operations, the last of them possibly done in part
    (\<open>crashed\<close>). \<^verbatim>\<open>written\<close> arguments are the counts \<^verbatim>\<open>writeSync\<close> reports.
  \<^item> \<^verbatim>\<open>JSON.stringify\<close>, \<^verbatim>\<open>JSON.parse\<close> (with the UTF-8 text of a line) and SHA-256 are the fields of a
    \<open>journal_env\<close>; \<open>json_laws\<close> and \<open>sha_laws\<close> say what the store relies on. JSON values are \<open>json\<close>;
    \<open>JsonOther\<close> stands for what the store never writes (booleans, arrays, numbers that are no integers).
  \<^item> The newline byte does not occur inside a UTF-8 sequence, so lines are cut in the bytes. The format of
    the terminal id is not checked again here: a disk belongs to one terminal.
\<close>

section \<open>Definitions\<close>

subsection \<open>Data\<close>

datatype journal_record =
    JOutput (record_seq: int) (record_data: bytes)
  | JResize (record_seq: int) (record_rows: int) (record_columns: int)
  | JFinal (record_seq: int) (final_lifecycle: terminal_lifecycle) (final_exit_code: "int option")
      (final_exit_signal: "string option") (final_reason: "string option")

definition is_final :: "journal_record \<Rightarrow> bool" where
  "is_final r = (case r of JFinal _ _ _ _ _ \<Rightarrow> True | _ \<Rightarrow> False)"

record checkpoint =
  cp_seq :: int
  cp_rows :: int
  cp_columns :: int
  cp_bytes :: bytes
  cp_sha :: string

record journal_state =
  js_checkpoint :: checkpoint
  js_records :: "journal_record list"
  js_head :: int

datatype json = JsonNull | JsonInt int | JsonString string | JsonObject "(string \<times> json) list" | JsonOther

record journal_env =
  je_stringify :: "json \<Rightarrow> bytes"
  je_parse :: "bytes \<Rightarrow> json option"
  je_sha :: "bytes \<Rightarrow> string"
  je_maximum :: int

datatype file_name = CheckpointFile | CheckpointNext | JournalFile | JournalNext
datatype place = Live | Quarantined | Tombstone

type_synonym directory = "file_name \<Rightarrow> bytes option"
type_synonym disk = "place \<Rightarrow> directory option"

datatype disk_op =
    MakeDirectory
  | OpenEmpty file_name
  | OpenAppend file_name
  | WriteTo file_name bytes
  | TruncateTo file_name nat
  | RenameFile file_name file_name
  | MoveDirectory place place
  | RemoveDirectory place

subsection \<open>The disk\<close>

definition no_files :: directory where
  "no_files = (\<lambda>_. None)"

definition empty_disk :: disk where
  "empty_disk = (\<lambda>_. None)"

definition file_bytes :: "file_name \<Rightarrow> directory \<Rightarrow> bytes" where
  "file_bytes f files = (case files f of None \<Rightarrow> [] | Some bs \<Rightarrow> bs)"

definition in_live :: "(directory \<Rightarrow> directory) \<Rightarrow> disk \<Rightarrow> disk" where
  "in_live g d = d(Live := map_option g (d Live))"

fun do_op :: "disk_op \<Rightarrow> disk \<Rightarrow> disk" where
  "do_op MakeDirectory d = d(Live := Some (case d Live of None \<Rightarrow> no_files | Some files \<Rightarrow> files))"
| "do_op (OpenEmpty f) d = in_live (\<lambda>files. files(f := Some [])) d"
| "do_op (OpenAppend f) d = in_live (\<lambda>files. files(f := Some (file_bytes f files))) d"
| "do_op (WriteTo f bs) d = in_live (\<lambda>files. files(f := Some (file_bytes f files @ bs))) d"
| "do_op (TruncateTo f n) d = in_live (\<lambda>files. files(f := map_option (take n) (files f))) d"
| "do_op (RenameFile f g) d = in_live (\<lambda>files. files(g := files f, f := None)) d"
| "do_op (MoveDirectory p q) d = d(q := d p, p := None)"
| "do_op (RemoveDirectory p) d = d(p := None)"

definition do_ops :: "disk_op list \<Rightarrow> disk \<Rightarrow> disk" where
  "do_ops ops d = fold do_op ops d"

inductive crashed :: "disk_op list \<Rightarrow> disk \<Rightarrow> disk \<Rightarrow> bool" where
  crash_now: "crashed ops d d"
| crash_write: "crashed (WriteTo f bs # ops) d (do_op (WriteTo f (take n bs)) d)"
| crash_remove: "\<forall>f. rest f = None \<or> rest f = files f \<Longrightarrow> d p = Some files \<Longrightarrow>
    crashed (RemoveDirectory p # ops) d (d(p := Some rest))"
| crash_later: "crashed ops (do_op op d) d' \<Longrightarrow> crashed (op # ops) d d'"

subsection \<open>Stored records\<close>

definition max_checkpoint_bytes :: int where
  "max_checkpoint_bytes = 8 * 1024 * 1024"

definition max_stored_checkpoint_bytes :: int where
  "max_stored_checkpoint_bytes = 11185152"

definition empty_sha256 :: string where
  "empty_sha256 = ''e3b0c44298fc1c149afbf4c8996fb92427ae41e4649b934ca495991b7852b855''"

fun lifecycle_text :: "terminal_lifecycle \<Rightarrow> string" where
  "lifecycle_text Reserved = ''reserved''"
| "lifecycle_text Starting = ''starting''"
| "lifecycle_text Running = ''running''"
| "lifecycle_text Stopping = ''stopping''"
| "lifecycle_text Exited = ''exited''"
| "lifecycle_text LifecycleFailed = ''failed''"
| "lifecycle_text Interrupted = ''interrupted''"

definition final_lifecycle_of :: "string \<Rightarrow> terminal_lifecycle option" where
  "final_lifecycle_of s =
     (if s = ''exited'' then Some Exited else if s = ''failed'' then Some LifecycleFailed
      else if s = ''interrupted'' then Some Interrupted else None)"

definition json_nullable :: "('a \<Rightarrow> json) \<Rightarrow> 'a option \<Rightarrow> json" where
  "json_nullable f v = (case v of None \<Rightarrow> JsonNull | Some x \<Rightarrow> f x)"

fun record_core :: "journal_record \<Rightarrow> (string \<times> json) list" where
  "record_core (JOutput seq bs) =
     [(''v'', JsonInt 1), (''seq'', JsonInt seq), (''kind'', JsonString ''output''),
      (''data'', JsonString (to_base64url bs))]"
| "record_core (JResize seq rows columns) =
     [(''v'', JsonInt 1), (''seq'', JsonInt seq), (''kind'', JsonString ''resize''),
      (''rows'', JsonInt rows), (''columns'', JsonInt columns)]"
| "record_core (JFinal seq lifecycle code sig reason) =
     [(''v'', JsonInt 1), (''seq'', JsonInt seq), (''kind'', JsonString ''final_status''),
      (''lifecycle'', JsonString (lifecycle_text lifecycle)), (''exitCode'', json_nullable JsonInt code),
      (''exitSignal'', json_nullable JsonString sig), (''publicReason'', json_nullable JsonString reason)]"

definition with_checksum :: "journal_env \<Rightarrow> (string \<times> json) list \<Rightarrow> json" where
  "with_checksum env payload =
     JsonObject (payload @ [(''checksum'', JsonString (je_sha env (je_stringify env (JsonObject payload))))])"

definition serialize :: "journal_env \<Rightarrow> journal_record \<Rightarrow> bytes" where
  "serialize env r = je_stringify env (with_checksum env (record_core r)) @ [10]"

definition json_field :: "json \<Rightarrow> string \<Rightarrow> json option" where
  "json_field v k = (case v of JsonObject kvs \<Rightarrow> map_of kvs k | _ \<Rightarrow> None)"

definition json_int :: "json option \<Rightarrow> int option" where
  "json_int v = (case v of Some (JsonInt n) \<Rightarrow> Some n | _ \<Rightarrow> None)"

definition json_text :: "json option \<Rightarrow> string option" where
  "json_text v = (case v of Some (JsonString s) \<Rightarrow> Some s | _ \<Rightarrow> None)"

definition int_within :: "int \<Rightarrow> int \<Rightarrow> json option \<Rightarrow> bool" where
  "int_within low high v = (case json_int v of None \<Rightarrow> False | Some n \<Rightarrow> low \<le> n \<and> n \<le> high)"

definition sha_text :: "json option \<Rightarrow> bool" where
  "sha_text v = (case json_text v of None \<Rightarrow> False
     | Some s \<Rightarrow> length s = 64 \<and> list_all (\<lambda>c. hex_value c \<noteq> None \<and> lower_char c = c) s)"

definition base64url_field :: "json option \<Rightarrow> bool" where
  "base64url_field v = (case json_text v of None \<Rightarrow> False
     | Some s \<Rightarrow> base64url_text s \<and> to_base64url (of_base64url s) = s)"

definition seq_field :: "json option \<Rightarrow> bool" where
  "seq_field v = (case json_int v of None \<Rightarrow> False | Some n \<Rightarrow> is_safe_integer n \<and> 1 \<le> n)"

definition is_stored_record :: "json \<Rightarrow> bool" where
  "is_stored_record v =
     (let field = json_field v
      in field ''v'' = Some (JsonInt 1) \<and> seq_field (field ''seq'') \<and> sha_text (field ''checksum'') \<and>
         (if field ''kind'' = Some (JsonString ''output'') then base64url_field (field ''data'')
          else if field ''kind'' = Some (JsonString ''resize'')
          then int_within 1 256 (field ''rows'') \<and> int_within 2 512 (field ''columns'')
          else if field ''kind'' = Some (JsonString ''final_status'')
          then (case json_text (field ''lifecycle'') of None \<Rightarrow> False | Some s \<Rightarrow> final_lifecycle_of s \<noteq> None) \<and>
            (field ''exitCode'' = Some JsonNull \<or> json_int (field ''exitCode'') \<noteq> None) \<and>
            (field ''exitSignal'' = Some JsonNull \<or> json_text (field ''exitSignal'') \<noteq> None) \<and>
            (field ''publicReason'' = Some JsonNull \<or> json_text (field ''publicReason'') \<noteq> None)
          else False))"

definition without_checksum :: "json \<Rightarrow> json" where
  "without_checksum v = (case v of
     JsonObject kvs \<Rightarrow> JsonObject (filter (\<lambda>p. fst p \<noteq> ''checksum'') kvs) | _ \<Rightarrow> v)"

definition decode_record :: "json \<Rightarrow> journal_record option" where
  "decode_record v =
     (let field = json_field v
      in case json_int (field ''seq'') of None \<Rightarrow> None | Some seq \<Rightarrow>
         (if field ''kind'' = Some (JsonString ''output'')
          then map_option (\<lambda>s. JOutput seq (of_base64url s)) (json_text (field ''data''))
          else if field ''kind'' = Some (JsonString ''resize'')
          then (case (json_int (field ''rows''), json_int (field ''columns'')) of
                  (Some rows, Some columns) \<Rightarrow> Some (JResize seq rows columns) | _ \<Rightarrow> None)
          else if field ''kind'' = Some (JsonString ''final_status'')
          then (case Option.bind (json_text (field ''lifecycle'')) final_lifecycle_of of
                  None \<Rightarrow> None
                | Some lifecycle \<Rightarrow> Some (JFinal seq lifecycle (json_int (field ''exitCode''))
                    (json_text (field ''exitSignal'')) (json_text (field ''publicReason''))))
          else None))"

subsection \<open>Reading\<close>

definition checkpoint_core :: "checkpoint \<Rightarrow> (string \<times> json) list" where
  "checkpoint_core cp =
     [(''v'', JsonInt 1), (''seq'', JsonInt (cp_seq cp)), (''rows'', JsonInt (cp_rows cp)),
      (''columns'', JsonInt (cp_columns cp)), (''data'', JsonString (to_base64url (cp_bytes cp))),
      (''sha256'', JsonString (cp_sha cp))]"

definition is_stored_checkpoint :: "json \<Rightarrow> bool" where
  "is_stored_checkpoint v =
     (let field = json_field v
      in field ''v'' = Some (JsonInt 1) \<and> seq_field (field ''seq'') \<and>
         int_within 1 256 (field ''rows'') \<and> int_within 2 512 (field ''columns'') \<and>
         base64url_field (field ''data'') \<and>
         (case json_text (field ''data'') of None \<Rightarrow> False
          | Some s \<Rightarrow> int (length s) \<le> 11184811 \<and> int (length (of_base64url s)) \<le> max_checkpoint_bytes) \<and>
         sha_text (field ''sha256'') \<and> sha_text (field ''checksum''))"

definition decode_checkpoint :: "json \<Rightarrow> checkpoint option" where
  "decode_checkpoint v =
     (let field = json_field v
      in case (json_int (field ''seq''), json_int (field ''rows''), json_int (field ''columns''),
               json_text (field ''data''), json_text (field ''sha256'')) of
           (Some seq, Some rows, Some columns, Some s, Some sha) \<Rightarrow> Some
             \<lparr>cp_seq = seq, cp_rows = rows, cp_columns = columns, cp_bytes = of_base64url s, cp_sha = sha\<rparr>
         | _ \<Rightarrow> None)"

definition initial_checkpoint :: checkpoint where
  "initial_checkpoint = \<lparr>cp_seq = 0, cp_rows = 1, cp_columns = 2, cp_bytes = [], cp_sha = empty_sha256\<rparr>"

definition checksum_matches :: "journal_env \<Rightarrow> json \<Rightarrow> bool" where
  "checksum_matches env v \<longleftrightarrow>
     json_field v ''checksum'' = Some (JsonString (je_sha env (je_stringify env (without_checksum v))))"

definition read_checkpoint :: "journal_env \<Rightarrow> directory \<Rightarrow> checkpoint result" where
  "read_checkpoint env files = (case files CheckpointFile of
     None \<Rightarrow> Inr initial_checkpoint
   | Some bs \<Rightarrow>
       if max_stored_checkpoint_bytes < int (length bs) then Inl ''terminal_journal_record_invalid''
       else case je_parse env bs of
         None \<Rightarrow> Inl ''terminal_journal_corrupt''
       | Some v \<Rightarrow>
           if \<not> is_stored_checkpoint v then Inl ''terminal_journal_record_invalid''
           else if \<not> checksum_matches env v then Inl ''terminal_journal_corrupt''
           else case decode_checkpoint v of
             None \<Rightarrow> Inl ''terminal_journal_record_invalid''
           | Some cp \<Rightarrow> if je_sha env (cp_bytes cp) \<noteq> cp_sha cp then Inl ''terminal_journal_corrupt'' else Inr cp)"

fun split_on :: "'a \<Rightarrow> 'a list \<Rightarrow> 'a list list" where
  "split_on x [] = [[]]"
| "split_on x (y # ys) = (if y = x then [] # split_on x ys
     else case split_on x ys of [] \<Rightarrow> [[y]] | l # ls \<Rightarrow> (y # l) # ls)"

definition complete_part :: "bytes \<Rightarrow> bytes" where
  "complete_part bs = rev (dropWhile (\<lambda>b. b \<noteq> 10) (rev bs))"

definition read_line :: "journal_env \<Rightarrow> int \<Rightarrow> journal_record list \<Rightarrow> bytes \<Rightarrow> journal_record result" where
  "read_line env floor records line = (case je_parse env line of
     None \<Rightarrow> Inl ''terminal_journal_corrupt''
   | Some v \<Rightarrow>
       if \<not> is_stored_record v then Inl ''terminal_journal_record_invalid''
       else if \<not> checksum_matches env v then Inl ''terminal_journal_corrupt''
       else case decode_record v of
         None \<Rightarrow> Inl ''terminal_journal_record_invalid''
       | Some r \<Rightarrow>
           if (if records = [] then floor + 1 < record_seq r else record_seq r \<noteq> record_seq (last records) + 1)
           then Inl ''terminal_journal_gap''
           else if records \<noteq> [] \<and> is_final (last records) then Inl ''terminal_journal_record_invalid''
           else Inr r)"

primrec read_lines ::
  "journal_env \<Rightarrow> int \<Rightarrow> journal_record list \<Rightarrow> bytes list \<Rightarrow> journal_record list result" where
  "read_lines env floor records [] = Inr records"
| "read_lines env floor records (line # lines) =
     (if line = [] then read_lines env floor records lines
      else case read_line env floor records line of
        Inl e \<Rightarrow> Inl e | Inr r \<Rightarrow> read_lines env floor (records @ [r]) lines)"

definition journal_suffix :: "checkpoint \<Rightarrow> journal_record list \<Rightarrow> journal_state" where
  "journal_suffix cp records =
     (let rest = filter (\<lambda>r. cp_seq cp < record_seq r) records
      in \<lparr>js_checkpoint = cp, js_records = rest, js_head = (if rest = [] then cp_seq cp else record_seq (last rest))\<rparr>)"

definition journal_read :: "journal_env \<Rightarrow> disk \<Rightarrow> disk \<times> journal_state result" where
  "journal_read env d =
     (let files = (case d Live of None \<Rightarrow> no_files | Some files \<Rightarrow> files)
      in case read_checkpoint env files of
        Inl e \<Rightarrow> (d, Inl e)
      | Inr cp \<Rightarrow>
          let content = file_bytes JournalFile files; whole = complete_part content;
              d1 = (if whole = content then d else do_op (TruncateTo JournalFile (length whole)) d)
          in case read_lines env (cp_seq cp) [] (split_on 10 whole) of
               Inl e \<Rightarrow> (d1, Inl e) | Inr records \<Rightarrow> (d1, Inr (journal_suffix cp records)))"

subsection \<open>Writing\<close>

definition live_files :: "disk \<Rightarrow> directory" where
  "live_files d = (case d Live of None \<Rightarrow> no_files | Some files \<Rightarrow> files)"

definition append_ops :: "nat \<Rightarrow> bytes \<Rightarrow> disk_op list" where
  "append_ops written line = [OpenAppend JournalFile, WriteTo JournalFile (take written line)]"

definition journal_append :: "journal_env \<Rightarrow> nat \<Rightarrow> journal_record \<Rightarrow> disk \<Rightarrow> disk_op list \<times> unit result" where
  "journal_append env written r d =
     (let line = serialize env r
      in if je_maximum env < int (length (file_bytes JournalFile (live_files d))) + int (length line)
         then ([MakeDirectory], Inl ''terminal_journal_quota_exceeded'')
         else (MakeDirectory # append_ops written line,
               if written < length line then Inl ''terminal_journal_short_write'' else Inr ()))"

definition replacement_ops :: "file_name \<Rightarrow> file_name \<Rightarrow> nat \<Rightarrow> bytes \<Rightarrow> disk_op list" where
  "replacement_ops temporary f written bs =
     [OpenEmpty temporary, WriteTo temporary (take written bs)] @
     (if written < length bs then [] else [RenameFile temporary f])"

definition records_follow :: "int \<Rightarrow> journal_record list \<Rightarrow> bool" where
  "records_follow seq records \<longleftrightarrow> (\<forall>i < length records.
     record_seq (records ! i) = seq + int i + 1 \<and> \<not> (0 < i \<and> is_final (records ! (i - 1))))"

definition stored_checkpoint :: "journal_env \<Rightarrow> checkpoint \<Rightarrow> json" where
  "stored_checkpoint env cp = with_checksum env (checkpoint_core cp)"

definition journal_compact ::
  "journal_env \<Rightarrow> nat \<Rightarrow> nat \<Rightarrow> checkpoint \<Rightarrow> journal_record list \<Rightarrow> disk \<Rightarrow> disk_op list \<times> checkpoint result" where
  "journal_compact env written1 written2 snapshot records d =
     (if max_checkpoint_bytes < int (length (cp_bytes snapshot)) then ([], Inl ''terminal_checkpoint_too_large'')
      else if \<not> records_follow (cp_seq snapshot) records then ([], Inl ''terminal_journal_gap'')
      else let cp = snapshot\<lparr>cp_sha := je_sha env (cp_bytes snapshot)\<rparr>;
               journal = concat (map (serialize env) records);
               stored = je_stringify env (stored_checkpoint env cp)
      in if je_maximum env < int (length journal) then ([MakeDirectory], Inl ''terminal_journal_quota_exceeded'')
         else if written1 < length stored
         then (MakeDirectory # replacement_ops CheckpointNext CheckpointFile written1 stored,
               Inl ''terminal_journal_short_write'')
         else (MakeDirectory # replacement_ops CheckpointNext CheckpointFile written1 stored @
                 replacement_ops JournalNext JournalFile written2 journal,
               if written2 < length journal then Inl ''terminal_journal_short_write'' else Inr cp))"

definition quarantine_ops :: "disk \<Rightarrow> disk_op list" where
  "quarantine_ops d =
     (if d Live = None then []
      else (if d Quarantined = None then [] else [RemoveDirectory Quarantined]) @ [MoveDirectory Live Quarantined])"

datatype journal_recovery = RecoveryOk journal_state | RecoveryCorrupt

definition journal_recover :: "journal_env \<Rightarrow> disk \<Rightarrow> disk \<times> journal_recovery" where
  "journal_recover env d = (case journal_read env d of
     (d1, Inr st) \<Rightarrow> (d1, RecoveryOk st)
   | (d1, Inl _) \<Rightarrow> (do_ops (quarantine_ops d1) d1, RecoveryCorrupt))"

definition delete_ops :: "disk \<Rightarrow> disk_op list" where
  "delete_ops d =
     (if d Tombstone = None then [] else [RemoveDirectory Tombstone]) @
     (if d Live = None then [] else [MoveDirectory Live Tombstone, RemoveDirectory Tombstone]) @
     (if d Quarantined = None then [] else [RemoveDirectory Quarantined])"

subsection \<open>What the store relies on\<close>

definition stored_object :: "json \<Rightarrow> bool" where
  "stored_object v = (case v of
     JsonObject kvs \<Rightarrow> distinct (map fst kvs) \<and> list_all (\<lambda>(k, x). k \<in>
         {''v'', ''seq'', ''kind'', ''data'', ''rows'', ''columns'', ''lifecycle'', ''exitCode'', ''exitSignal'',
          ''publicReason'', ''sha256'', ''checksum''} \<and>
         (case x of JsonObject _ \<Rightarrow> False | JsonOther \<Rightarrow> False | _ \<Rightarrow> True)) kvs
   | _ \<Rightarrow> False)"

definition json_laws :: "journal_env \<Rightarrow> bool" where
  "json_laws env \<longleftrightarrow> (\<forall>v. stored_object v \<longrightarrow>
     je_parse env (je_stringify env v) = Some v \<and> je_stringify env v \<noteq> [] \<and> 10 \<notin> set (je_stringify env v))"

definition sha_laws :: "journal_env \<Rightarrow> bool" where
  "sha_laws env \<longleftrightarrow> (\<forall>bs. sha_text (Some (JsonString (je_sha env bs))))"

text \<open>What a caller may hand to \<^verbatim>\<open>append\<close> and \<^verbatim>\<open>compact\<close>: the numbers the frame schemas and the process
  interface admit.\<close>

definition record_ok :: "journal_record \<Rightarrow> bool" where
  "record_ok r \<longleftrightarrow> is_safe_integer (record_seq r) \<and> 1 \<le> record_seq r \<and> (case r of
     JOutput _ _ \<Rightarrow> True
   | JResize _ rows columns \<Rightarrow> 1 \<le> rows \<and> rows \<le> 256 \<and> 2 \<le> columns \<and> columns \<le> 512
   | JFinal _ lifecycle _ _ _ \<Rightarrow> lifecycle \<in> {Exited, LifecycleFailed, Interrupted})"

definition checkpoint_ok :: "journal_env \<Rightarrow> checkpoint \<Rightarrow> bool" where
  "checkpoint_ok env cp \<longleftrightarrow> is_safe_integer (cp_seq cp) \<and> 1 \<le> cp_seq cp \<and>
     1 \<le> cp_rows cp \<and> cp_rows cp \<le> 256 \<and> 2 \<le> cp_columns cp \<and> cp_columns cp \<le> 512 \<and>
     int (length (cp_bytes cp)) \<le> max_checkpoint_bytes \<and>
     int (length (je_stringify env (stored_checkpoint env cp))) \<le> max_stored_checkpoint_bytes"

section \<open>Lemmas\<close>

subsection \<open>Lines\<close>

lemma split_on_not_empty [simp]: "split_on x ys \<noteq> []"
  by (cases ys) (auto split: list.splits)

lemma split_on_append: "split_on x (ys @ x # zs) = split_on x ys @ split_on x zs"
proof (induction ys)
  case (Cons y ys)
  then show ?case
    by (cases "split_on x ys") auto
qed simp

lemma split_on_none: "x \<notin> set ys \<Longrightarrow> split_on x ys = [ys]"
  by (induction ys) auto

lemma complete_part_newline [simp]: "complete_part (bs @ [10]) = bs @ [10]"
  by (simp add: complete_part_def)

lemma complete_part_Nil [simp]: "complete_part [] = []"
  by (simp add: complete_part_def)

lemma complete_part_torn: "complete_part bs = bs \<Longrightarrow> 10 \<notin> set torn \<Longrightarrow> complete_part (bs @ torn) = bs"
  by (induction torn rule: rev_induct) (simp_all add: complete_part_def flip: append_assoc)

lemma complete_part_cases:
  assumes "complete_part bs = bs"
  obtains "bs = []" | bs' where "bs = bs' @ [10]"
proof (cases bs rule: rev_cases)
  case (snoc bs' b)
  then have "dropWhile (\<lambda>b. b \<noteq> 10) (rev bs) = rev bs"
    using assms by (metis complete_part_def rev_rev_ident)
  then have "b = 10"
    using snoc by (auto simp only: dropWhile_eq_self_iff rev_append rev.simps append.simps list.sel)
  then show ?thesis
    using snoc that by simp
qed (use that in simp)

lemma complete_part_again [simp]: "complete_part (complete_part bs) = complete_part bs"
  by (simp add: complete_part_def)

lemma complete_part_take: "take (length (complete_part bs)) bs = complete_part bs"
proof -
  have "rev bs = takeWhile (\<lambda>b. b \<noteq> 10) (rev bs) @ dropWhile (\<lambda>b. b \<noteq> 10) (rev bs)"
    by simp
  then have "bs = complete_part bs @ rev (takeWhile (\<lambda>b. b \<noteq> 10) (rev bs))"
    by (metis complete_part_def rev_append rev_rev_ident)
  then show ?thesis
    by (metis append_eq_conv_conj)
qed

lemma read_lines_append:
  "read_lines env floor rs (as @ bs) = (case read_lines env floor rs as of
     Inl e \<Rightarrow> Inl e | Inr rs' \<Rightarrow> read_lines env floor rs' bs)"
  by (induction as arbitrary: rs) (auto split: sum.splits)

definition file_records :: "journal_env \<Rightarrow> int \<Rightarrow> bytes \<Rightarrow> journal_record list result" where
  "file_records env floor content = read_lines env floor [] (split_on 10 content)"

lemma file_records_Nil [simp]: "file_records env floor [] = Inr []"
  by (simp add: file_records_def)

lemma file_records_line:
  assumes "complete_part content = content" and "10 \<notin> set line" and "line \<noteq> []"
  shows "file_records env floor (content @ line @ [10]) = (case file_records env floor content of
     Inl e \<Rightarrow> Inl e | Inr rs \<Rightarrow> map_sum id (\<lambda>r. rs @ [r]) (read_line env floor rs line))"
proof -
  have lines: "split_on 10 (line @ [10]) = [line, []]"
    using assms(2) by (simp add: split_on_append split_on_none)
  show ?thesis
    using assms(1)
  proof (cases rule: complete_part_cases)
    case 1
    then show ?thesis
      using assms(3) lines by (simp add: file_records_def split: sum.splits)
  next
    case (2 bs')
    then show ?thesis
      using assms(3) lines
      by (simp add: file_records_def split_on_append read_lines_append split: sum.splits)
  qed
qed

subsection \<open>A stored record is read back\<close>

lemma json_int_nullable [simp]:
  "json_int (Some (json_nullable JsonInt v)) = v" "json_text (Some (json_nullable JsonString t)) = t"
  by (simp_all add: json_int_def json_text_def json_nullable_def split: option.splits)

lemma json_nullable_null [simp]:
  "json_nullable JsonInt v = JsonNull \<longleftrightarrow> v = None" "json_nullable JsonString t = JsonNull \<longleftrightarrow> t = None"
  by (simp_all add: json_nullable_def split: option.splits)

lemma json_scalars [simp]:
  "json_int (Some (JsonInt n)) = Some n" "json_text (Some (JsonString s)) = Some s"
  by (simp_all add: json_int_def json_text_def)

lemma final_lifecycle_text [simp]:
  "l \<in> {Exited, LifecycleFailed, Interrupted} \<Longrightarrow> final_lifecycle_of (lifecycle_text l) = Some l"
  by (auto simp: final_lifecycle_of_def)

lemma nullable_scalar: "case json_nullable JsonInt v of JsonObject _ \<Rightarrow> False | JsonOther \<Rightarrow> False | _ \<Rightarrow> True"
  "case json_nullable JsonString t of JsonObject _ \<Rightarrow> False | JsonOther \<Rightarrow> False | _ \<Rightarrow> True"
  by (simp_all add: json_nullable_def split: option.splits)

lemma no_checksum_core: "\<forall>p \<in> set (record_core r). fst p \<noteq> ''checksum''"
  by (cases r) simp_all

lemma without_with_checksum:
  "\<forall>p \<in> set payload. fst p \<noteq> ''checksum'' \<Longrightarrow> without_checksum (with_checksum env payload) = JsonObject payload"
  by (simp add: without_checksum_def with_checksum_def)

lemma checksum_matches_with:
  assumes "\<forall>p \<in> set payload. fst p \<noteq> ''checksum''"
  shows "checksum_matches env (with_checksum env payload)"
proof -
  have "map_of payload ''checksum'' = None"
    using assms by (auto simp: map_of_eq_None_iff)
  then show ?thesis
    using without_with_checksum [OF assms, of env]
    by (simp add: checksum_matches_def json_field_def with_checksum_def map_add_def)
qed

lemma stored_record_object: "stored_object (with_checksum env (record_core r))"
  using nullable_scalar by (cases r) (simp_all add: with_checksum_def stored_object_def)

lemma stored_record_fields:
  assumes "sha_laws env" and "record_ok r"
  shows "is_stored_record (with_checksum env (record_core r))"
    and "decode_record (with_checksum env (record_core r)) = Some r"
proof -
  have checksum: "sha_text (Some (JsonString (je_sha env bs)))" for bs
    using assms(1) by (simp add: sha_laws_def)
  show "is_stored_record (with_checksum env (record_core r))"
    using assms(2) checksum
    by (cases r) (auto simp: is_stored_record_def with_checksum_def json_field_def record_ok_def seq_field_def
        base64url_field_def int_within_def Let_def)
  show "decode_record (with_checksum env (record_core r)) = Some r"
    using assms(2)
    by (cases r) (simp_all add: decode_record_def with_checksum_def json_field_def record_ok_def Let_def)
qed

definition follows :: "int \<Rightarrow> journal_record list \<Rightarrow> journal_record \<Rightarrow> bool" where
  "follows floor rs r \<longleftrightarrow> (if rs = [] then record_seq r \<le> floor + 1
     else record_seq r = record_seq (last rs) + 1 \<and> \<not> is_final (last rs))"

lemma read_line_stored:
  assumes "json_laws env" and "sha_laws env" and "record_ok r" and "follows floor rs r"
  shows "read_line env floor rs (je_stringify env (with_checksum env (record_core r))) = Inr r"
proof -
  have "je_parse env (je_stringify env (with_checksum env (record_core r))) = Some (with_checksum env (record_core r))"
    using assms(1) stored_record_object by (simp add: json_laws_def)
  then show ?thesis
    using stored_record_fields [OF assms(2,3)] checksum_matches_with [OF no_checksum_core] assms(4)
    by (auto simp: read_line_def follows_def split: if_splits)
qed

lemma stringified_line:
  assumes "json_laws env"
  shows "je_stringify env (with_checksum env (record_core r)) \<noteq> []"
    and "10 \<notin> set (je_stringify env (with_checksum env (record_core r)))"
  using assms stored_record_object by (simp_all add: json_laws_def)

lemma file_records_serialized:
  assumes "json_laws env" and "sha_laws env" and "record_ok r" and "complete_part content = content"
    and "file_records env floor content = Inr rs" and "follows floor rs r"
  shows "file_records env floor (content @ serialize env r) = Inr (rs @ [r])"
  using assms file_records_line [OF assms(4) stringified_line(2) [OF assms(1)] stringified_line(1) [OF assms(1)]]
  by (simp add: serialize_def read_line_stored)

lemma read_line_follows: "read_line env floor rs line = Inr r \<Longrightarrow> follows floor rs r"
  by (auto simp: read_line_def follows_def split: option.splits if_splits)

subsection \<open>What a successful read returns\<close>

definition chain :: "int \<Rightarrow> journal_record list \<Rightarrow> bool" where
  "chain floor rs \<longleftrightarrow> (\<forall>i < length rs. follows floor (take i rs) (rs ! i))"

lemma chain_Nil [simp]: "chain floor []"
  by (simp add: chain_def)

lemma chain_snoc [simp]: "chain floor (rs @ [r]) \<longleftrightarrow> chain floor rs \<and> follows floor rs r"
  by (auto simp: chain_def nth_append less_Suc_eq)

lemma read_lines_chain: "read_lines env floor rs lines = Inr rs' \<Longrightarrow> chain floor rs \<Longrightarrow> chain floor rs'"
  by (induction lines arbitrary: rs) (auto split: if_splits sum.splits dest: read_line_follows)

lemma file_records_chain: "file_records env floor content = Inr rs \<Longrightarrow> chain floor rs"
  by (simp add: file_records_def read_lines_chain)

lemma chain_last:
  assumes "chain floor rs" and "rs \<noteq> []" and "r \<in> set rs"
  shows "record_seq r \<le> record_seq (last rs)"
  using assms
proof (induction rs rule: rev_induct)
  case (snoc x rs)
  then show ?case
    by (cases "rs = []") (fastforce simp: follows_def)+
qed simp

lemma chain_numbers:
  assumes "chain floor rs" and "floor \<le> low"
  shows "map record_seq (filter (\<lambda>r. low < record_seq r) rs) =
    [low + 1..(if rs = [] then low else max low (record_seq (last rs)))]"
  using assms
proof (induction rs rule: rev_induct)
  case (snoc x rs)
  then have IH: "map record_seq (filter (\<lambda>r. low < record_seq r) rs) =
      [low + 1..(if rs = [] then low else max low (record_seq (last rs)))]"
    by simp
  show ?case
  proof (cases "rs = []")
    case True
    then have "record_seq x \<le> low + 1"
      using snoc.prems by (auto simp: follows_def chain_snoc [of floor "[]" x, simplified])
    then show ?thesis
      using True by (auto simp: upto.simps max_def)
  next
    case False
    then have "record_seq x = record_seq (last rs) + 1"
      using snoc.prems by (simp add: follows_def)
    then show ?thesis
      using IH False by (auto simp: upto_rec2 max_def)
  qed
qed simp

lemma chain_suffix_finals:
  assumes "chain floor rs" and "Suc i < length (filter (\<lambda>r. low < record_seq r) rs)"
  shows "\<not> is_final (filter (\<lambda>r. low < record_seq r) rs ! i)"
  using assms
proof (induction rs rule: rev_induct)
  case (snoc x rs)
  let ?f = "filter (\<lambda>r. low < record_seq r)"
  show ?case
  proof (cases "Suc i < length (?f rs)")
    case True
    then show ?thesis using snoc by (simp add: nth_append)
  next
    case False
    then have i: "Suc i = length (?f rs)" and x: "low < record_seq x" and "rs \<noteq> []"
      using snoc.prems(2) by (auto split: if_splits)
    then have lst: "\<not> is_final (last rs)" and mem: "last rs \<in> set rs"
      using snoc.prems(1) by (auto simp: follows_def)
    have "low < record_seq (last rs)"
    proof -
      obtain r where "r \<in> set rs" "low < record_seq r"
        using i by (metis filter_empty_conv length_greater_0_conv zero_less_Suc)
      then show ?thesis
        using chain_last [of floor rs r] snoc.prems(1) \<open>rs \<noteq> []\<close> by simp
    qed
    then have "last (?f rs) = last rs"
      using \<open>rs \<noteq> []\<close> by (cases rs rule: rev_cases) simp_all
    then have "?f rs ! i = last rs"
      using i by (metis diff_Suc_1 last_conv_nth list.size(3) nat.distinct(1))
    then show ?thesis
      using lst i x by (simp add: nth_append)
  qed
qed simp

definition continuous :: "journal_state \<Rightarrow> bool" where
  "continuous st \<longleftrightarrow>
     map record_seq (js_records st) = [cp_seq (js_checkpoint st) + 1..js_head st] \<and>
     cp_seq (js_checkpoint st) \<le> js_head st \<and>
     (\<forall>i. Suc i < length (js_records st) \<longrightarrow> \<not> is_final (js_records st ! i))"

lemma continuous_suffix:
  assumes "chain (cp_seq cp) rs"
  shows "continuous (journal_suffix cp rs)"
proof -
  let ?f = "filter (\<lambda>r. cp_seq cp < record_seq r) rs"
  have nums: "map record_seq ?f = [cp_seq cp + 1..(if rs = [] then cp_seq cp else max (cp_seq cp) (record_seq (last rs)))]"
    (is "_ = [_..?h]") using chain_numbers [OF assms order_refl] .
  have head: "(if ?f = [] then cp_seq cp else record_seq (last ?f)) = ?h"
  proof (cases "?f = []")
    case True
    then have "[cp_seq cp + 1..?h] = []" using nums by simp
    then show ?thesis using True by (auto split: if_splits)
  next
    case False
    then have "[cp_seq cp + 1..?h] \<noteq> []" using nums by (metis map_is_Nil_conv)
    then have "cp_seq cp + 1 \<le> ?h" by (metis upto_empty not_le)
    then have "last [cp_seq cp + 1..?h] = ?h" by (subst upto_rec2) simp_all
    then show ?thesis using False nums by (metis last_map)
  qed
  show ?thesis
    using nums head chain_suffix_finals [OF assms]
    by (auto simp: continuous_def journal_suffix_def Let_def)
qed

subsection \<open>A disk that stores a history\<close>

text \<open>\<open>stores env st d\<close>: the disk holds the history \<open>st\<close>, in whole lines, with a journal that can be
  continued. \<open>rs\<close> are all the records in the file, the ones the checkpoint covers included.\<close>

definition stores :: "journal_env \<Rightarrow> journal_state \<Rightarrow> disk \<Rightarrow> bool" where
  "stores env st d \<longleftrightarrow> (\<exists>rs. read_checkpoint env (live_files d) = Inr (js_checkpoint st) \<and>
     complete_part (file_bytes JournalFile (live_files d)) = file_bytes JournalFile (live_files d) \<and>
     file_records env (cp_seq (js_checkpoint st)) (file_bytes JournalFile (live_files d)) = Inr rs \<and>
     (rs \<noteq> [] \<longrightarrow> cp_seq (js_checkpoint st) \<le> record_seq (last rs) \<and>
       (record_seq (last rs) = cp_seq (js_checkpoint st) \<longrightarrow> \<not> is_final (last rs))) \<and>
     st = journal_suffix (js_checkpoint st) rs)"

lemma journal_suffix_simps [simp]:
  "js_checkpoint (journal_suffix cp rs) = cp"
  "js_records (journal_suffix cp rs) = filter (\<lambda>r. cp_seq cp < record_seq r) rs"
  by (simp_all add: journal_suffix_def Let_def)

lemma live_files_in_live [simp]: "d Live \<noteq> None \<Longrightarrow> live_files (in_live g d) = g (live_files d)"
  by (auto simp: live_files_def in_live_def)

lemma in_live_present [simp]: "in_live g d Live = None \<longleftrightarrow> d Live = None"
  by (simp add: in_live_def)

lemma live_files_make [simp]:
  "live_files (do_op MakeDirectory d) = live_files d" "do_op MakeDirectory d Live \<noteq> None"
  by (simp_all add: live_files_def)

lemma live_files_ops [simp]:
  assumes "d Live \<noteq> None"
  shows "live_files (do_op (OpenEmpty f) d) = (live_files d)(f := Some [])"
    and "live_files (do_op (OpenAppend f) d) = (live_files d)(f := Some (file_bytes f (live_files d)))"
    and "live_files (do_op (WriteTo f bs) d) = (live_files d)(f := Some (file_bytes f (live_files d) @ bs))"
    and "live_files (do_op (TruncateTo f n) d) = (live_files d)(f := map_option (take n) (live_files d f))"
    and "live_files (do_op (RenameFile f g) d) = (live_files d)(g := live_files d f, f := None)"
  using assms by (simp_all add: fun_eq_iff)

lemma live_present [simp]:
  "do_op (OpenEmpty f) d Live = None \<longleftrightarrow> d Live = None"
  "do_op (OpenAppend f) d Live = None \<longleftrightarrow> d Live = None"
  "do_op (WriteTo f bs) d Live = None \<longleftrightarrow> d Live = None"
  "do_op (TruncateTo f n) d Live = None \<longleftrightarrow> d Live = None"
  "do_op (RenameFile f g) d Live = None \<longleftrightarrow> d Live = None"
  by simp_all

declare do_op.simps [simp del]

lemma file_bytes_set [simp]:
  "file_bytes f (files(g := v)) = (if g = f then case v of None \<Rightarrow> [] | Some bs \<Rightarrow> bs else file_bytes f files)"
  by (simp add: file_bytes_def)

lemma file_bytes_take [simp]:
  "file_bytes f (files(f := map_option (take n) (files f))) = take n (file_bytes f files)"
  by (simp add: file_bytes_def split: option.splits)

lemma journal_read_live:
  "journal_read env d = (case read_checkpoint env (live_files d) of
     Inl e \<Rightarrow> (d, Inl e)
   | Inr cp \<Rightarrow>
       let content = file_bytes JournalFile (live_files d); whole = complete_part content
       in (if whole = content then d else do_op (TruncateTo JournalFile (length whole)) d,
           map_sum id (journal_suffix cp) (file_records env (cp_seq cp) whole)))"
  by (auto simp: journal_read_def live_files_def file_records_def Let_def split: sum.splits)

lemma stores_read: "stores env st d \<Longrightarrow> journal_read env d = (d, Inr st)"
  by (auto simp: stores_def journal_read_live Let_def)

lemma empty_stores: "stores env (journal_suffix initial_checkpoint []) empty_disk"
  by (simp add: stores_def live_files_def empty_disk_def no_files_def read_checkpoint_def file_bytes_def)

lemma stores_continuous:
  assumes "stores env st d"
  shows "continuous st"
proof -
  obtain rs where "file_records env (cp_seq (js_checkpoint st)) (file_bytes JournalFile (live_files d)) = Inr rs"
    "st = journal_suffix (js_checkpoint st) rs"
    using assms by (auto simp: stores_def)
  then show ?thesis
    by (metis continuous_suffix file_records_chain)
qed

lemma stores_cong:
  assumes "stores env st d"
    and "live_files d' CheckpointFile = live_files d CheckpointFile"
    and "file_bytes JournalFile (live_files d') = file_bytes JournalFile (live_files d)"
  shows "stores env st d'"
  using assms by (simp add: stores_def read_checkpoint_def)

definition appendable :: "journal_state \<Rightarrow> journal_record \<Rightarrow> bool" where
  "appendable st r \<longleftrightarrow> record_ok r \<and> record_seq r = js_head st + 1 \<and>
     (js_records st \<noteq> [] \<longrightarrow> \<not> is_final (last (js_records st)))"

definition extend_state :: "journal_state \<Rightarrow> journal_record \<Rightarrow> journal_state" where
  "extend_state st r = st\<lparr>js_records := js_records st @ [r], js_head := record_seq r\<rparr>"

lemma journal_suffix_head:
  assumes "chain floor rs" and "rs \<noteq> []" and "cp_seq cp \<le> record_seq (last rs)"
  shows "js_head (journal_suffix cp rs) = record_seq (last rs)"
proof (cases "cp_seq cp < record_seq (last rs)")
  case True
  then have "last (filter (\<lambda>r. cp_seq cp < record_seq r) rs) = last rs"
    and "filter (\<lambda>r. cp_seq cp < record_seq r) rs \<noteq> []"
    using assms(2) by (cases rs rule: rev_cases; simp)+
  then show ?thesis by (simp add: journal_suffix_def Let_def)
next
  case False
  then have "filter (\<lambda>r. cp_seq cp < record_seq r) rs = []"
    using assms chain_last [OF assms(1,2)] by (fastforce simp: filter_empty_conv)
  then show ?thesis using False assms(3) by (simp add: journal_suffix_def Let_def)
qed

lemma journal_suffix_snoc:
  "cp_seq cp < record_seq r \<Longrightarrow> journal_suffix cp (rs @ [r]) = extend_state (journal_suffix cp rs) r"
  by (simp add: journal_suffix_def extend_state_def Let_def)

lemma appendable_follows:
  assumes "appendable st r" and "chain floor rs" and "st = journal_suffix cp rs" and "floor = cp_seq cp"
    and "rs \<noteq> [] \<longrightarrow> cp_seq cp \<le> record_seq (last rs) \<and> (record_seq (last rs) = cp_seq cp \<longrightarrow> \<not> is_final (last rs))"
  shows "follows floor rs r" and "cp_seq cp < record_seq r"
proof -
  have seq: "record_seq r = js_head st + 1"
    using assms(1) by (simp add: appendable_def)
  have "follows floor rs r \<and> cp_seq cp < record_seq r"
  proof (cases "rs = []")
    case True
    then have "js_head st = cp_seq cp" by (simp add: assms(3) journal_suffix_def)
    then show ?thesis using True seq assms(4) by (simp add: follows_def)
  next
    case False
    then have head: "js_head st = record_seq (last rs)"
      using journal_suffix_head [OF assms(2) False] assms(3,5) by simp
    have "\<not> is_final (last rs)"
    proof (cases "record_seq (last rs) = cp_seq cp")
      case True
      then show ?thesis using False assms(5) by simp
    next
      case lt: False
      then have "cp_seq cp < record_seq (last rs)" using False assms(5) by simp
      then have "js_records st \<noteq> [] \<and> last (js_records st) = last rs"
        using False by (cases rs rule: rev_cases) (simp_all add: assms(3))
      then show ?thesis using assms(1) by (simp add: appendable_def)
    qed
    then show ?thesis using False seq head assms(5) by (simp add: follows_def)
  qed
  then show "follows floor rs r" "cp_seq cp < record_seq r" by simp_all
qed

lemma stores_extend:
  assumes "json_laws env" and "sha_laws env" and "stores env st d" and "appendable st r"
    and "live_files d' CheckpointFile = live_files d CheckpointFile"
    and "file_bytes JournalFile (live_files d') = file_bytes JournalFile (live_files d) @ serialize env r"
  shows "stores env (extend_state st r) d'"
proof -
  let ?c = "js_checkpoint st" and ?content = "file_bytes JournalFile (live_files d)"
  obtain rs where read: "read_checkpoint env (live_files d) = Inr ?c"
    and whole: "complete_part ?content = ?content" and rs: "file_records env (cp_seq ?c) ?content = Inr rs"
    and ends: "rs \<noteq> [] \<longrightarrow> cp_seq ?c \<le> record_seq (last rs) \<and>
       (record_seq (last rs) = cp_seq ?c \<longrightarrow> \<not> is_final (last rs))" and st: "st = journal_suffix ?c rs"
    using assms(3) by (auto simp: stores_def)
  note next_record = appendable_follows [OF assms(4) file_records_chain [OF rs] st refl ends]
  have "file_records env (cp_seq ?c) (?content @ serialize env r) = Inr (rs @ [r])"
    using file_records_serialized [OF assms(1,2) _ whole rs next_record(1)] assms(4)
    by (simp add: appendable_def)
  moreover have "complete_part (?content @ serialize env r) = ?content @ serialize env r"
    by (simp add: serialize_def flip: append_assoc)
  moreover have "extend_state st r = journal_suffix ?c (rs @ [r])"
    using journal_suffix_snoc [OF next_record(2)] st by simp
  ultimately show ?thesis
    using read next_record(2) assms(5,6) by (auto simp: stores_def read_checkpoint_def extend_state_def)
qed

lemma stores_torn:
  assumes "json_laws env" and "stores env st d"
    and "live_files d' CheckpointFile = live_files d CheckpointFile"
    and "file_bytes JournalFile (live_files d') = file_bytes JournalFile (live_files d) @ torn"
    and "10 \<notin> set torn" and "d' Live \<noteq> None"
  shows "\<exists>d''. journal_read env d' = (d'', Inr st) \<and> stores env st d''"
proof -
  let ?content = "file_bytes JournalFile (live_files d)"
  let ?d = "if torn = [] then d' else do_op (TruncateTo JournalFile (length ?content)) d'"
  have read: "read_checkpoint env (live_files d') = Inr (js_checkpoint st)"
    and whole: "complete_part ?content = ?content"
    using assms(2,3) by (auto simp: stores_def read_checkpoint_def)
  have cut: "complete_part (?content @ torn) = ?content"
    using complete_part_torn [OF whole assms(5)] .
  have "stores env st ?d"
    using assms(4,6) by (intro stores_cong [OF assms(2)]) (simp_all add: assms(3) del: file_bytes_set)
  moreover have "journal_read env d' = (?d, Inr st)"
    using assms(2) read cut by (auto simp: journal_read_live Let_def assms(4) stores_def)
  ultimately show ?thesis by blast
qed

subsection \<open>Crashes\<close>

inductive_simps crashed_simps:
  "crashed [] d d'" "crashed (MakeDirectory # ops) d d'" "crashed (OpenAppend f # ops) d d'"
  "crashed (OpenEmpty f # ops) d d'" "crashed (WriteTo f bs # ops) d d'" "crashed (RenameFile f g # ops) d d'"
  "crashed (MoveDirectory p q # ops) d d'" "crashed (RemoveDirectory p # ops) d d'"

lemma do_ops_simps [simp]:
  "do_ops [] d = d" "do_ops (op # ops) d = do_ops ops (do_op op d)"
  "do_ops (ops @ ops') d = do_ops ops' (do_ops ops d)"
  by (simp_all add: do_ops_def)

lemma crashed_done: "crashed ops d (do_ops ops d)"
proof (induction ops arbitrary: d)
  case Nil
  then show ?case by (simp add: crash_now)
next
  case (Cons op ops)
  then show ?case by (simp add: crash_later)
qed

lemma crashed_append: "crashed (ops @ ops') d d' \<Longrightarrow> crashed ops d d' \<or> crashed ops' (do_ops ops d) d'"
proof (induction ops arbitrary: d)
  case (Cons op ops)
  from Cons.prems have "crashed (op # (ops @ ops')) d d'" by simp
  then show ?case
  proof cases
    case crash_later
    then show ?thesis using Cons.IH [of "do_op op d"] by (auto intro: crashed.crash_later)
  qed (auto intro: crashed.intros simp del: fun_upd_apply)
qed simp

definition recovers :: "journal_env \<Rightarrow> journal_state \<Rightarrow> disk \<Rightarrow> bool" where
  "recovers env st d \<longleftrightarrow> (\<exists>d'. journal_read env d = (d', Inr st) \<and> stores env st d')"

lemma stores_recovers: "stores env st d \<Longrightarrow> recovers env st d"
  using stores_read by (auto simp: recovers_def)

lemma written_recovers:
  assumes "json_laws env" and "sha_laws env" and "stores env st d" and "appendable st r" and "d' Live \<noteq> None"
    and "live_files d' CheckpointFile = live_files d CheckpointFile"
    and "file_bytes JournalFile (live_files d') = file_bytes JournalFile (live_files d) @ take n (serialize env r)"
  shows "recovers env st d' \<or> n \<ge> length (serialize env r) \<and> stores env (extend_state st r) d'"
proof (cases "length (serialize env r) \<le> n")
  case True
  then show ?thesis using stores_extend [OF assms(1-4,6)] assms(7) by simp
next
  case False
  then have "take n (serialize env r) = take n (je_stringify env (with_checksum env (record_core r)))"
    by (simp add: serialize_def)
  then have "10 \<notin> set (take n (serialize env r))"
    using stringified_line(2) [OF assms(1), of r] by (metis in_set_takeD)
  then show ?thesis
    using stores_torn [OF assms(1,3,6,7) _ assms(5)] by (auto simp: recovers_def)
qed

lemma append_recovers:
  assumes "json_laws env" and "sha_laws env" and "stores env st d" and "appendable st r"
    and "crashed (fst (journal_append env written r d)) d d'"
  shows "recovers env st d' \<or> recovers env (extend_state st r) d'"
proof -
  let ?m = "do_op MakeDirectory d" and ?o = "do_op (OpenAppend JournalFile) (do_op MakeDirectory d)"
  have made: "stores env st ?m" and opened: "stores env st ?o"
    by (auto intro!: stores_cong [OF assms(3)])
  have wrote: "recovers env st (do_op (WriteTo JournalFile (take n (serialize env r))) ?o) \<or>
      recovers env (extend_state st r) (do_op (WriteTo JournalFile (take n (serialize env r))) ?o)" for n
    using written_recovers [OF assms(1,2) opened assms(4),
        of "do_op (WriteTo JournalFile (take n (serialize env r))) ?o" n] stores_recovers by auto
  show ?thesis
    using assms(5) stores_recovers [OF assms(3)] stores_recovers [OF made] stores_recovers [OF opened] wrote
    by (auto simp: journal_append_def append_ops_def Let_def crashed_simps simp del: live_files_ops split: if_splits)
qed

lemma append_done:
  assumes "json_laws env" and "sha_laws env" and "stores env st d" and "appendable st r"
    and "journal_append env written r d = (ops, Inr ())"
  shows "stores env (extend_state st r) (do_ops ops d)"
proof -
  let ?o = "do_op (OpenAppend JournalFile) (do_op MakeDirectory d)"
  have ops: "ops = [MakeDirectory, OpenAppend JournalFile, WriteTo JournalFile (serialize env r)]"
    using assms(5) by (auto simp: journal_append_def append_ops_def Let_def split: if_splits)
  have "stores env st ?o"
    by (auto intro!: stores_cong [OF assms(3)])
  then show ?thesis
    unfolding ops by (auto intro!: stores_extend [OF assms(1,2) _ assms(4)])
qed

subsection \<open>Compaction\<close>

lemma length_sextets: "length (sextets_of bs) = (4 * length bs + 2) div 3"
  by (induction bs rule: sextets_of.induct) simp_all

lemma stored_checkpoint_object: "stored_object (stored_checkpoint env cp)"
  by (simp add: stored_checkpoint_def with_checksum_def stored_object_def checkpoint_core_def)

lemma read_checkpoint_stored:
  assumes "json_laws env" and "sha_laws env" and "checkpoint_ok env cp" and "cp_sha cp = je_sha env (cp_bytes cp)"
    and "files CheckpointFile = Some (je_stringify env (stored_checkpoint env cp))"
  shows "read_checkpoint env files = Inr cp"
proof -
  have parse: "je_parse env (je_stringify env (stored_checkpoint env cp)) = Some (stored_checkpoint env cp)"
    using assms(1) stored_checkpoint_object by (simp add: json_laws_def)
  have sha: "sha_text (Some (JsonString (je_sha env bs)))" for bs
    using assms(2) by (simp add: sha_laws_def)
  have "length (cp_bytes cp) \<le> 8388608"
    using assms(3) by (simp add: checkpoint_ok_def max_checkpoint_bytes_def)
  then have "int (length (to_base64url (cp_bytes cp))) \<le> 11184811"
    by (simp add: to_base64url_def length_sextets)
  then have stored: "is_stored_checkpoint (stored_checkpoint env cp)"
    using assms(3) sha
    by (simp add: is_stored_checkpoint_def stored_checkpoint_def with_checksum_def checkpoint_core_def json_field_def
        checkpoint_ok_def seq_field_def base64url_field_def int_within_def assms(4))
  have matches: "checksum_matches env (stored_checkpoint env cp)"
    unfolding stored_checkpoint_def by (rule checksum_matches_with) (simp add: checkpoint_core_def)
  have "decode_checkpoint (stored_checkpoint env cp) = Some cp"
    by (simp add: decode_checkpoint_def stored_checkpoint_def with_checksum_def checkpoint_core_def json_field_def)
  then show ?thesis
    using assms(3,5) parse stored matches by (simp add: read_checkpoint_def checkpoint_ok_def assms(4))
qed

lemma decode_record_ok:
  "is_stored_record v \<Longrightarrow> decode_record v = Some r \<Longrightarrow> record_ok r"
  by (auto simp: is_stored_record_def decode_record_def record_ok_def seq_field_def int_within_def Let_def
      final_lifecycle_of_def split: option.splits if_splits)

lemma read_line_ok: "read_line env floor rs line = Inr r \<Longrightarrow> record_ok r"
  by (auto simp: read_line_def split: option.splits if_splits intro: decode_record_ok)

lemma read_lines_ok:
  "read_lines env floor rs lines = Inr rs' \<Longrightarrow> \<forall>r \<in> set rs. record_ok r \<Longrightarrow> \<forall>r \<in> set rs'. record_ok r"
proof (induction lines arbitrary: rs)
  case (Cons line lines)
  show ?case
  proof (cases "line = []")
    case False
    then obtain r where r: "read_line env floor rs line = Inr r"
      using Cons.prems(1) by (auto split: sum.splits)
    show ?thesis
      using Cons.prems False r read_line_ok [OF r] by (intro Cons.IH [of "rs @ [r]"]) auto
  qed (use Cons in simp)
qed simp

lemma read_line_floor:
  "read_line env floor rs line = Inr r \<Longrightarrow> floor \<le> low \<Longrightarrow> read_line env low rs line = Inr r"
  by (auto simp: read_line_def split: option.splits if_splits)

lemma read_lines_floor:
  "read_lines env floor rs lines = Inr rs' \<Longrightarrow> floor \<le> low \<Longrightarrow> read_lines env low rs lines = Inr rs'"
  by (induction lines arbitrary: rs) (auto split: if_splits sum.splits dest: read_line_floor)

lemma chain_floor: "chain floor rs \<Longrightarrow> floor \<le> low \<Longrightarrow> chain low rs"
  by (auto simp: chain_def follows_def split: if_splits)

lemma chain_filter:
  assumes "chain floor rs" and "floor \<le> low"
  shows "chain low (filter (\<lambda>r. low < record_seq r) rs)"
  using assms
proof (induction rs rule: rev_induct)
  case (snoc x rs)
  let ?f = "filter (\<lambda>r. low < record_seq r) rs"
  have "follows low ?f x" if x: "low < record_seq x"
  proof (cases "rs = [] \<or> record_seq (last rs) \<le> low")
    case True
    then have "?f = []"
      using chain_last [of floor rs] snoc.prems(1) by (fastforce simp: filter_empty_conv)
    then show ?thesis using True snoc.prems by (auto simp: follows_def split: if_splits)
  next
    case False
    then have "?f \<noteq> [] \<and> last ?f = last rs" by (cases rs rule: rev_cases) simp_all
    then show ?thesis using False snoc.prems(1) by (simp add: follows_def)
  qed
  then show ?case using snoc by simp
qed simp

lemma file_records_written:
  assumes "json_laws env" and "sha_laws env"
  shows "chain floor rs \<Longrightarrow> \<forall>r \<in> set rs. record_ok r \<Longrightarrow>
    complete_part (concat (map (serialize env) rs)) = concat (map (serialize env) rs) \<and>
    file_records env floor (concat (map (serialize env) rs)) = Inr rs"
proof (induction rs rule: rev_induct)
  case (snoc r rs)
  have "complete_part (bs @ serialize env r) = bs @ serialize env r" for bs
    by (simp add: serialize_def flip: append_assoc)
  with snoc show ?case
    using file_records_serialized [OF assms, of r "concat (map (serialize env) rs)" floor rs] by simp
qed simp

definition compactable :: "journal_env \<Rightarrow> journal_state \<Rightarrow> checkpoint \<Rightarrow> bool" where
  "compactable env st cp \<longleftrightarrow> checkpoint_ok env (cp\<lparr>cp_sha := je_sha env (cp_bytes cp)\<rparr>) \<and>
     cp_seq (js_checkpoint st) \<le> cp_seq cp \<and> cp_seq cp \<le> js_head st \<and>
     (js_records st \<noteq> [] \<longrightarrow> is_final (last (js_records st)) \<longrightarrow> cp_seq cp < js_head st)"

definition records_after :: "int \<Rightarrow> journal_state \<Rightarrow> journal_record list" where
  "records_after seq st = filter (\<lambda>r. seq < record_seq r) (js_records st)"

definition compacted :: "journal_env \<Rightarrow> journal_state \<Rightarrow> checkpoint \<Rightarrow> journal_state" where
  "compacted env st cp = \<lparr>js_checkpoint = cp\<lparr>cp_sha := je_sha env (cp_bytes cp)\<rparr>,
     js_records = records_after (cp_seq cp) st, js_head = js_head st\<rparr>"

lemma upto_end:
  assumes "[a + 1..b] = [a + 1..c]" and "a \<le> b" and "a \<le> (c :: int)"
  shows "b = c"
proof -
  have "length [a + 1..b] = length [a + 1..c]" using assms(1) by (rule arg_cong)
  then show ?thesis using assms(2,3) by simp
qed

lemma filter_upto: "a \<le> b \<Longrightarrow> filter (\<lambda>i. b < i) [a + 1..c] = [b + 1..(c :: int)]"
proof (induction "nat (c - a)" arbitrary: c)
  case (Suc n)
  then show ?case by (cases "b < c") (auto simp: upto_rec2 filter_empty_conv)
qed simp

lemma suffix_compacted:
  assumes "chain (cp_seq old) rs" and "cp_seq old \<le> cp_seq cp" and "cp_seq cp \<le> js_head (journal_suffix old rs)"
  shows "journal_suffix cp rs =
    \<lparr>js_checkpoint = cp, js_records = records_after (cp_seq cp) (journal_suffix old rs),
      js_head = js_head (journal_suffix old rs)\<rparr>"
proof -
  let ?old = "journal_suffix old rs" and ?new = "journal_suffix cp rs"
  have recs: "js_records ?new = records_after (cp_seq cp) ?old"
    using assms(2) by (auto simp: records_after_def intro!: filter_cong)
  have old: "map record_seq (js_records ?old) = [cp_seq old + 1..js_head ?old]"
    using continuous_suffix [OF assms(1)] by (simp add: continuous_def)
  have new: "map record_seq (js_records ?new) = [cp_seq cp + 1..js_head ?new]" "cp_seq cp \<le> js_head ?new"
    using continuous_suffix [OF chain_floor [OF assms(1,2)]] by (simp_all add: continuous_def)
  have "map record_seq (js_records ?new) = filter (\<lambda>i. cp_seq cp < i) [cp_seq old + 1..js_head ?old]"
    unfolding recs records_after_def old [symmetric] by (simp add: filter_map comp_def)
  then have "js_head ?new = js_head ?old"
    using filter_upto [OF assms(2)] new assms(3) by (intro upto_end [of "cp_seq cp"]) simp_all
  then show ?thesis
    using recs by (intro journal_state.equality) simp_all
qed

lemma compacted_suffix:
  assumes "chain (cp_seq old) rs" and "st = journal_suffix old rs" and "cp_seq old \<le> cp_seq cp"
    and "cp_seq cp \<le> js_head st"
  shows "compacted env st cp = journal_suffix (cp\<lparr>cp_sha := je_sha env (cp_bytes cp)\<rparr>) rs"
  using suffix_compacted [OF assms(1), of "cp\<lparr>cp_sha := je_sha env (cp_bytes cp)\<rparr>"] assms(2-4)
  by (simp add: compacted_def)

lemma stores_compacted:
  assumes "stores env st d" and "compactable env st cp"
    and read: "read_checkpoint env (live_files d') = Inr (cp\<lparr>cp_sha := je_sha env (cp_bytes cp)\<rparr>)"
    and same: "file_bytes JournalFile (live_files d') = file_bytes JournalFile (live_files d)"
  shows "stores env (compacted env st cp) d'"
proof -
  let ?c = "js_checkpoint st" and ?content = "file_bytes JournalFile (live_files d)"
    and ?new = "cp\<lparr>cp_sha := je_sha env (cp_bytes cp)\<rparr>"
  obtain rs where whole: "complete_part ?content = ?content"
    and rs: "file_records env (cp_seq ?c) ?content = Inr rs"
    and ends: "rs \<noteq> [] \<longrightarrow> cp_seq ?c \<le> record_seq (last rs) \<and>
       (record_seq (last rs) = cp_seq ?c \<longrightarrow> \<not> is_final (last rs))" and st: "st = journal_suffix ?c rs"
    using assms(1) by (auto simp: stores_def)
  have chain: "chain (cp_seq ?c) rs" using rs by (rule file_records_chain)
  have seqs: "cp_seq ?c \<le> cp_seq cp" "cp_seq cp \<le> js_head st"
    using assms(2) by (simp_all add: compactable_def)
  have "compacted env st cp = journal_suffix ?new rs"
    using compacted_suffix [OF chain st seqs] .
  moreover have "file_records env (cp_seq cp) ?content = Inr rs"
    using read_lines_floor [OF _ seqs(1)] rs by (simp add: file_records_def)
  moreover have "cp_seq cp \<le> record_seq (last rs) \<and> (record_seq (last rs) = cp_seq cp \<longrightarrow> \<not> is_final (last rs))"
    if "rs \<noteq> []"
  proof -
    have head: "js_head st = record_seq (last rs)"
      using journal_suffix_head [OF chain that, of ?c] ends that by (simp flip: st)
    have recs: "js_records st = filter (\<lambda>r. cp_seq ?c < record_seq r) rs"
      by (metis journal_suffix_simps(2) st)
    have "last (js_records st) = last rs" "js_records st \<noteq> []" if "cp_seq ?c < record_seq (last rs)"
      using \<open>rs \<noteq> []\<close> that unfolding recs by (cases rs rule: rev_cases; simp)+
    then show ?thesis
      using head seqs ends \<open>rs \<noteq> []\<close> assms(2) by (auto simp: compactable_def)
  qed
  ultimately show ?thesis
    using read whole same by (auto simp: stores_def compacted_def)
qed

lemma stored_records_ok:
  assumes "stores env st d"
  shows "\<forall>r \<in> set (js_records st). record_ok r" and "chain (cp_seq (js_checkpoint st)) (js_records st)"
proof -
  let ?c = "js_checkpoint st" and ?content = "file_bytes JournalFile (live_files d)"
  obtain rs where rs: "file_records env (cp_seq ?c) ?content = Inr rs" and st: "st = journal_suffix ?c rs"
    using assms by (auto simp: stores_def)
  have recs: "js_records st = filter (\<lambda>r. cp_seq ?c < record_seq r) rs"
    by (metis journal_suffix_simps(2) st)
  show "\<forall>r \<in> set (js_records st). record_ok r"
    using rs read_lines_ok [of env "cp_seq ?c" "[]"] by (auto simp: file_records_def recs)
  show "chain (cp_seq ?c) (js_records st)"
    unfolding recs by (rule chain_filter [OF file_records_chain [OF rs] order_refl])
qed

lemma stores_rewritten:
  assumes "json_laws env" and "sha_laws env" and "stores env st d" and "compactable env st cp"
    and read: "read_checkpoint env (live_files d') = Inr (cp\<lparr>cp_sha := je_sha env (cp_bytes cp)\<rparr>)"
    and same: "file_bytes JournalFile (live_files d') =
      concat (map (serialize env) (records_after (cp_seq cp) st))"
  shows "stores env (compacted env st cp) d'"
proof -
  let ?rs = "records_after (cp_seq cp) st" and ?new = "cp\<lparr>cp_sha := je_sha env (cp_bytes cp)\<rparr>"
  have seqs: "cp_seq (js_checkpoint st) \<le> cp_seq cp" "cp_seq cp \<le> js_head st"
    using assms(4) by (simp_all add: compactable_def)
  have chain: "chain (cp_seq cp) ?rs"
    using chain_filter [OF stored_records_ok(2) [OF assms(3)] seqs(1)] by (simp add: records_after_def)
  have written: "complete_part (concat (map (serialize env) ?rs)) = concat (map (serialize env) ?rs)"
    "file_records env (cp_seq cp) (concat (map (serialize env) ?rs)) = Inr ?rs"
    using file_records_written [OF assms(1,2) chain] stored_records_ok(1) [OF assms(3)]
    by (auto simp: records_after_def)
  have above: "cp_seq cp < record_seq (last ?rs)" if "?rs \<noteq> []"
    using last_in_set [OF that] by (simp add: records_after_def)
  obtain rs0 where st: "st = journal_suffix (js_checkpoint st) rs0"
    and rs0: "file_records env (cp_seq (js_checkpoint st)) (file_bytes JournalFile (live_files d)) = Inr rs0"
    using assms(3) by (auto simp: stores_def)
  have "compacted env st cp = journal_suffix ?new rs0"
    using compacted_suffix [OF file_records_chain [OF rs0] st seqs] .
  moreover have "filter (\<lambda>r. cp_seq cp < record_seq r) rs0 = ?rs"
    using arg_cong [OF calculation, of js_records] by (simp add: compacted_def)
  moreover have "filter (\<lambda>r. cp_seq cp < record_seq r) ?rs = ?rs"
    by (simp add: records_after_def)
  ultimately have state: "compacted env st cp = journal_suffix ?new ?rs"
    by (simp add: journal_suffix_def)
  have new: "js_checkpoint (compacted env st cp) = ?new"
    by (simp add: compacted_def)
  show ?thesis
    unfolding stores_def new same
  proof (intro exI [of _ ?rs] conjI impI)
    show "read_checkpoint env (live_files d') = Inr ?new" by (rule read)
    show "complete_part (concat (map (serialize env) ?rs)) = concat (map (serialize env) ?rs)" by (rule written)
    show "file_records env (cp_seq ?new) (concat (map (serialize env) ?rs)) = Inr ?rs" by (simp add: written)
    show "compacted env st cp = journal_suffix ?new ?rs" by (rule state)
  qed (use above in force)+
qed

end
