(* ===== verification/JournalCrash.thy ===== *)
theory JournalCrash
  imports TerminalJournal
begin

text \<open>
  What the terminal journal promises across crashes: \<open>store_run\<close> are the disks that appends and compactions
  leave, each of them finished or cut anywhere by a crash after which the store reads the journal again.
  \<open>acked\<close> are the records whose \<^verbatim>\<open>append\<close> returned. The last section gives an instance of the JSON and hash
  parameters that satisfies their laws.
\<close>

section \<open>Definitions\<close>

inductive store_run :: "journal_env \<Rightarrow> journal_record list \<Rightarrow> disk \<Rightarrow> bool" for env where
  run_start: "store_run env [] empty_disk"
| run_append: "store_run env acked d \<Longrightarrow> journal_read env d = (d, Inr st) \<Longrightarrow> appendable st r \<Longrightarrow>
    journal_append env written r d = (ops, Inr ()) \<Longrightarrow> store_run env (acked @ [r]) (do_ops ops d)"
| run_append_cut: "store_run env acked d \<Longrightarrow> journal_read env d = (d, Inr st) \<Longrightarrow> appendable st r \<Longrightarrow>
    crashed (fst (journal_append env written r d)) d d' \<Longrightarrow> store_run env acked (fst (journal_read env d'))"
| run_compact: "store_run env acked d \<Longrightarrow> journal_read env d = (d, Inr st) \<Longrightarrow> compactable env st cp \<Longrightarrow>
    crashed (fst (journal_compact env written1 written2 cp (records_after (cp_seq cp) st) d)) d d' \<Longrightarrow>
    store_run env acked (fst (journal_read env d'))"

section \<open>Lemmas\<close>

lemma stores_make: "stores env st d \<Longrightarrow> stores env st (do_op MakeDirectory d)"
  by (auto intro!: stores_cong [of env st d])

lemma stores_other:
  assumes "stores env st d" and "d Live \<noteq> None" and "f \<noteq> CheckpointFile" and "f \<noteq> JournalFile"
  shows "stores env st (do_op (OpenEmpty f) d)" and "stores env st (do_op (WriteTo f bs) d)"
  using assms by (auto intro!: stores_cong [OF assms(1)])

lemma stores_write_other:
  "stores env st d \<Longrightarrow> d Live \<noteq> None \<Longrightarrow> stores env st (do_op (WriteTo CheckpointNext bs) (do_op (OpenEmpty CheckpointNext) d))"
  "stores env st d \<Longrightarrow> d Live \<noteq> None \<Longrightarrow> stores env st (do_op (WriteTo JournalNext bs) (do_op (OpenEmpty JournalNext) d))"
  by (simp_all add: stores_other)

lemma replacement_before:
  assumes "crashed (replacement_ops temporary f written bs) d d'" and "stores env st d" and "d Live \<noteq> None"
    and "temporary \<in> {CheckpointNext, JournalNext}"
  shows "stores env st d' \<or>
    length bs \<le> written \<and> d' = do_ops (replacement_ops temporary f written bs) d"
proof -
  have temporary: "temporary \<noteq> CheckpointFile" "temporary \<noteq> JournalFile"
    using assms(4) by auto
  note keeps = assms(2) stores_other [OF assms(2,3) temporary]
    stores_other(2) [OF stores_other(1) [OF assms(2,3) temporary] _ temporary]
  show ?thesis
    using assms(1,3) keeps
    by (auto simp: replacement_ops_def crashed_simps simp del: live_files_ops split: if_splits)
qed

text \<open>The disks between the two renames of a compaction and after both.\<close>

lemma checkpoint_replaced:
  assumes "d Live \<noteq> None" and "length bs \<le> written"
  defines "d' \<equiv> do_ops (replacement_ops CheckpointNext CheckpointFile written bs) d"
  shows "live_files d' CheckpointFile = Some bs" and "d' Live \<noteq> None"
    and "file_bytes JournalFile (live_files d') = file_bytes JournalFile (live_files d)"
  using assms(1,2) by (simp_all add: d'_def replacement_ops_def file_bytes_def)

lemma journal_replaced:
  assumes "d Live \<noteq> None" and "length bs \<le> written"
  defines "d' \<equiv> do_ops (replacement_ops JournalNext JournalFile written bs) d"
  shows "live_files d' CheckpointFile = live_files d CheckpointFile"
    and "file_bytes JournalFile (live_files d') = bs"
  using assms(1,2) by (simp_all add: d'_def replacement_ops_def file_bytes_def)

abbreviation stamped :: "journal_env \<Rightarrow> checkpoint \<Rightarrow> checkpoint" where
  "stamped env cp \<equiv> cp\<lparr>cp_sha := je_sha env (cp_bytes cp)\<rparr>"

abbreviation stored_text :: "journal_env \<Rightarrow> checkpoint \<Rightarrow> bytes" where
  "stored_text env cp \<equiv> je_stringify env (stored_checkpoint env (stamped env cp))"

abbreviation journal_text :: "journal_env \<Rightarrow> journal_state \<Rightarrow> checkpoint \<Rightarrow> bytes" where
  "journal_text env st cp \<equiv> concat (map (serialize env) (records_after (cp_seq cp) st))"

abbreviation between :: "journal_env \<Rightarrow> checkpoint \<Rightarrow> nat \<Rightarrow> disk \<Rightarrow> disk" where
  "between env cp written d \<equiv>
     do_ops (replacement_ops CheckpointNext CheckpointFile written (stored_text env cp)) (do_op MakeDirectory d)"

lemma read_stamped:
  assumes "json_laws env" and "sha_laws env" and "compactable env st cp"
    and "live_files d CheckpointFile = Some (stored_text env cp)"
  shows "read_checkpoint env (live_files d) = Inr (stamped env cp)"
  using assms by (intro read_checkpoint_stored) (simp_all add: compactable_def)

lemma between_stores:
  assumes "json_laws env" and "sha_laws env" and "stores env st d" and "compactable env st cp"
    and "length (stored_text env cp) \<le> written"
  shows "stores env (compacted env st cp) (between env cp written d)"
  using checkpoint_replaced [where d = "do_op MakeDirectory d", OF _ assms(5)]
  by (intro stores_compacted [OF assms(3,4)] read_stamped [OF assms(1,2,4)]) simp_all

lemma done_stores:
  assumes "json_laws env" and "sha_laws env" and "stores env st d" and "compactable env st cp"
    and "length (stored_text env cp) \<le> written1" and "length (journal_text env st cp) \<le> written2"
  shows "stores env (compacted env st cp)
    (do_ops (replacement_ops JournalNext JournalFile written2 (journal_text env st cp)) (between env cp written1 d))"
proof -
  have live: "between env cp written1 d Live \<noteq> None"
    "live_files (between env cp written1 d) CheckpointFile = Some (stored_text env cp)"
    using checkpoint_replaced [where d = "do_op MakeDirectory d", OF _ assms(5)] by simp_all
  show ?thesis
    using journal_replaced [where d = "between env cp written1 d", OF live(1) assms(6)] live(2)
    by (intro stores_rewritten [OF assms(1-4)] read_stamped [OF assms(1,2,4)]) simp_all
qed

lemma compact_cut_stores:
  assumes "json_laws env" and "sha_laws env" and "stores env st d" and "compactable env st cp"
    and "crashed (fst (journal_compact env written1 written2 cp (records_after (cp_seq cp) st) d)) d d'"
  shows "stores env st d' \<or> stores env (compacted env st cp) d'"
proof -
  let ?made = "do_op MakeDirectory d"
    and ?first = "replacement_ops CheckpointNext CheckpointFile written1 (stored_text env cp)"
    and ?second = "replacement_ops JournalNext JournalFile written2 (journal_text env st cp)"
  have made: "stores env st ?made" "?made Live \<noteq> None"
    using stores_make [OF assms(3)] by simp_all
  have first: "stores env st d' \<or> length (stored_text env cp) \<le> written1 \<and> d' = between env cp written1 d"
    if "crashed ?first ?made d'" for d'
    using replacement_before [OF that made] by simp
  have second: "stores env (compacted env st cp) d'"
    if "length (stored_text env cp) \<le> written1" "crashed ?second (between env cp written1 d) d'" for d'
    using replacement_before [OF that(2) between_stores [OF assms(1-4) that(1)]] done_stores [OF assms(1-4) that(1)]
      checkpoint_replaced(2) [where d = ?made, OF made(2) that(1)] by auto
  have both: "stores env st d' \<or> stores env (compacted env st cp) d'"
    if "length (stored_text env cp) \<le> written1" "crashed (?first @ ?second) ?made d'" for d'
    using crashed_append [OF that(2)] first second [OF that(1)] between_stores [OF assms(1-4) that(1)] by auto
  show ?thesis
    using assms(3,5) made(1) first both
    by (auto simp: journal_compact_def Let_def crashed_simps split: if_splits)
qed

lemma compact_done:
  assumes "json_laws env" and "sha_laws env" and "stores env st d" and "compactable env st cp"
    and "journal_compact env written1 written2 cp (records_after (cp_seq cp) st) d = (ops, Inr cp')"
  shows "stores env (compacted env st cp) (do_ops ops d)" and "cp' = stamped env cp"
proof -
  have "length (stored_text env cp) \<le> written1" "length (journal_text env st cp) \<le> written2"
    and ops: "ops = MakeDirectory # replacement_ops CheckpointNext CheckpointFile written1 (stored_text env cp) @
      replacement_ops JournalNext JournalFile written2 (journal_text env st cp)"
    and cp': "cp' = stamped env cp"
    using assms(5) by (auto simp: journal_compact_def Let_def split: if_splits)
  then show "stores env (compacted env st cp) (do_ops ops d)" "cp' = stamped env cp"
    using done_stores [OF assms(1-4)] by simp_all
qed

subsection \<open>Acknowledged records survive\<close>

definition covers :: "journal_state \<Rightarrow> journal_record list \<Rightarrow> bool" where
  "covers st acked \<longleftrightarrow> (\<forall>r \<in> set acked. record_seq r \<le> cp_seq (js_checkpoint st) \<or> r \<in> set (js_records st))"

lemma covers_extend: "covers st acked \<Longrightarrow> covers (extend_state st r) acked"
  and covers_extend_new: "covers st acked \<Longrightarrow> covers (extend_state st r) (acked @ [r])"
  by (auto simp: covers_def extend_state_def)

lemma covers_compacted: "compactable env st cp \<Longrightarrow> covers st acked \<Longrightarrow> covers (compacted env st cp) acked"
  by (auto simp: covers_def compacted_def compactable_def records_after_def)

lemma recovers_read: "recovers env st d \<Longrightarrow> stores env st (fst (journal_read env d))"
  by (auto simp: recovers_def)

lemma store_run_covers:
  assumes "json_laws env" and "sha_laws env" and "store_run env acked d"
  shows "\<exists>st. stores env st d \<and> covers st acked"
  using assms(3)
proof (induction rule: store_run.induct)
  case run_start
  then show ?case using empty_stores [of env] by (auto simp: covers_def)
next
  case (run_append acked d st r written ops)
  then have "stores env st d" "covers st acked" using stores_read by fastforce+
  then show ?case
    using append_done [OF assms(1,2) _ run_append.hyps(3,4)] covers_extend_new by blast
next
  case (run_append_cut acked d st r written d')
  then have "stores env st d" "covers st acked" using stores_read by fastforce+
  then show ?case
    using append_recovers [OF assms(1,2) _ run_append_cut.hyps(3,4)] recovers_read covers_extend by blast
next
  case (run_compact acked d st cp written1 written2 d')
  then have "stores env st d" "covers st acked" using stores_read by fastforce+
  then show ?case
    using compact_cut_stores [OF assms(1,2) _ run_compact.hyps(3,4)] covers_compacted [OF run_compact.hyps(3)]
      recovers_read [OF stores_recovers] by blast
qed


text \<open>C11. Whatever bytes are on the disk, a journal that reads is continuous: its records carry the numbers
  after the checkpoint up to the head, one each and in order, and none follows a final status.\<close>

theorem read_is_continuous:
  assumes "snd (journal_read env d) = Inr st"
  shows "continuous st"
proof -
  obtain cp where cp: "read_checkpoint env (live_files d) = Inr cp"
    using assms by (cases "read_checkpoint env (live_files d)") (simp_all add: journal_read_live)
  let ?c = "complete_part (file_bytes JournalFile (live_files d))"
  obtain rs where rs: "file_records env (cp_seq cp) ?c = Inr rs" "st = journal_suffix cp rs"
    using assms cp by (cases "file_records env (cp_seq cp) ?c") (auto simp: journal_read_live Let_def)
  then show ?thesis
    using continuous_suffix [OF file_records_chain [OF rs(1)]] by simp
qed

subsection \<open>Deletion and quarantine\<close>

lemma crashed_move: "crashed [MoveDirectory p q] d d' \<longleftrightarrow> d' = d \<or> d' = do_op (MoveDirectory p q) d"
  by (auto simp: crashed_simps)

text \<open>Deleting a terminal's history removes all of it, also when an earlier attempt was cut by a crash; at
  no moment is a live directory left with only some of its files.\<close>

lemma delete_clears: "do_ops (delete_ops d) d = empty_disk"
proof
  fix p
  show "do_ops (delete_ops d) d p = empty_disk p"
    by (cases p) (simp_all add: delete_ops_def empty_disk_def do_op.simps)
qed

lemma delete_atomic: "crashed (delete_ops d) d d' \<Longrightarrow> d' Live = d Live \<or> d' Live = None"
  by (auto simp: delete_ops_def crashed_simps do_op.simps split: if_splits)

lemma quarantine_keeps: "d Live = Some files \<Longrightarrow> do_ops (quarantine_ops d) d Quarantined = Some files"
  by (simp add: quarantine_ops_def do_op.simps)

section \<open>An instance of the parameters\<close>

text \<open>A text format for flat objects with the laws of JSON the store uses: every field is its key in
  hexadecimal, a colon, the value with a tag (a text without these signs as it is, any other in
  hexadecimal), and a semicolon.\<close>

definition of_ascii :: "bytes \<Rightarrow> string" where
  "of_ascii bs = map (\<lambda>b. char_of (unat b)) bs"

definition show_int :: "int \<Rightarrow> string" where
  "show_int i = (if i < 0 then CHR ''-'' # show_nat (nat (- i)) else show_nat (nat i))"

definition read_int :: "string \<Rightarrow> int" where
  "read_int s = (case s of [] \<Rightarrow> 0 | c # cs \<Rightarrow> if c = CHR ''-'' then - int (read_nat cs) else int (read_nat s))"

definition plain_char :: "char \<Rightarrow> bool" where
  "plain_char c \<longleftrightarrow> (of_char c :: nat) \<notin> {10, 58, 59}"

fun flat_value :: "json \<Rightarrow> string" where
  "flat_value (JsonInt i) = CHR ''i'' # show_int i"
| "flat_value (JsonString s) = (if list_all plain_char s then CHR ''p'' # s else CHR ''s'' # to_hex (ascii s))"
| "flat_value _ = ''n''"

definition flat_field :: "string \<times> json \<Rightarrow> string" where
  "flat_field p = to_hex (ascii (fst p)) @ CHR '':'' # flat_value (snd p)"

definition flat_stringify :: "json \<Rightarrow> bytes" where
  "flat_stringify v = ascii (CHR ''{'' # (case v of
     JsonObject kvs \<Rightarrow> concat (map (\<lambda>p. flat_field p @ '';'') kvs) | _ \<Rightarrow> []))"

definition read_flat_value :: "string \<Rightarrow> json" where
  "read_flat_value s = (case s of
     [] \<Rightarrow> JsonOther
   | c # cs \<Rightarrow> if c = CHR ''i'' then JsonInt (read_int cs) else if c = CHR ''p'' then JsonString cs
       else if c = CHR ''s'' then JsonString (of_ascii (of_hex cs)) else JsonNull)"

definition read_flat_field :: "string \<Rightarrow> string \<times> json" where
  "read_flat_field s = (case split_on (CHR '':'') s of
     [k, v] \<Rightarrow> (of_ascii (of_hex k), read_flat_value v) | _ \<Rightarrow> ([], JsonOther))"

definition flat_parse :: "bytes \<Rightarrow> json option" where
  "flat_parse bs = (case of_ascii bs of
     [] \<Rightarrow> None
   | c # cs \<Rightarrow> Some (JsonObject (map read_flat_field (butlast (split_on (CHR '';'') cs)))))"

definition flat_env :: "int \<Rightarrow> journal_env" where
  "flat_env maximum = \<lparr>je_stringify = flat_stringify, je_parse = flat_parse,
     je_sha = (\<lambda>_. replicate 64 (CHR ''0'')), je_maximum = maximum\<rparr>"

lemma of_ascii_ascii [simp]: "of_ascii (ascii s) = s"
  by (induction s) (simp_all add: of_ascii_def ascii_def)

lemma plain_none:
  assumes "list_all plain_char s"
  shows "CHR '':'' \<notin> set s" and "CHR '';'' \<notin> set s" and "CHR 0x0A \<notin> set s"
  using assms by (auto simp: plain_char_def list_all_iff)

lemma plain_digits: "n < 16 \<Longrightarrow> plain_char (hex_digit n)" "list_all plain_char (show_nat n)"
  using show_nat_digits [of n] by (auto simp: hex_digit_def plain_char_def list_all_iff is_digit_def)

lemma plain_hex: "list_all plain_char (to_hex bs)"
  by (induction bs) (simp_all add: to_hex_def plain_digits)

lemma show_nat_sign: "hd (show_nat n) \<noteq> CHR ''-''"
  using show_nat_digits [of n] by (cases "show_nat n") (auto simp: is_digit_def)

lemma read_shown_int [simp]: "read_int (show_int i) = i"
  using show_nat_sign [of "nat i"] read_show_nat [of "nat i"]
  by (cases "show_nat (nat i)") (simp_all add: read_int_def show_int_def)

lemma plain_value: "list_all plain_char (flat_value v)"
  using plain_hex plain_digits(2) by (cases v) (simp_all add: show_int_def plain_char_def)

definition flat_scalar :: "json \<Rightarrow> bool" where
  "flat_scalar v = (case v of JsonObject _ \<Rightarrow> False | JsonOther \<Rightarrow> False | _ \<Rightarrow> True)"

lemma read_flat_value: "flat_scalar v \<Longrightarrow> read_flat_value (flat_value v) = v"
  by (cases v) (simp_all add: flat_scalar_def read_flat_value_def)

lemma read_flat_field: "flat_scalar (snd p) \<Longrightarrow> read_flat_field (flat_field p) = p"
  using plain_none(1) [OF plain_hex] plain_none(1) [OF plain_value]
  by (simp add: read_flat_field_def flat_field_def split_on_append split_on_none read_flat_value)

lemma flat_field_none: "CHR '';'' \<notin> set (flat_field p)" "CHR 0x0A \<notin> set (flat_field p)"
  using plain_none(2,3) [OF plain_hex] plain_none(2,3) [OF plain_value] by (auto simp: flat_field_def)

lemma split_flat_fields:
  "split_on (CHR '';'') (concat (map (\<lambda>p. flat_field p @ '';'') kvs)) = map flat_field kvs @ [[]]"
  by (induction kvs) (simp_all add: split_on_append split_on_none flat_field_none)

lemma unat_ten: "unat (10 :: byte) = 10"
  by simp

lemma newline_ascii: "CHR 0x0A \<notin> set s \<Longrightarrow> 10 \<notin> set (ascii s)"
proof (induction s)
  case (Cons c s)
  have "unat (word_of_nat (of_char c) :: byte) = of_char c" by simp
  moreover have "of_char c \<noteq> (10 :: nat)"
  proof
    assume "of_char c = (10 :: nat)"
    then have "of_char c = (of_char (CHR 0x0A) :: nat)" by simp
    then have "c = CHR 0x0A" by (simp only: of_char_eq_iff)
    then show False using Cons.prems by simp
  qed
  ultimately have "(word_of_nat (of_char c) :: byte) \<noteq> 10" by (metis unat_ten)
  then show ?case using Cons by (simp add: ascii_def)
qed (simp add: ascii_def)

lemma list_all_values: "list_all (\<lambda>(k, x). k \<in> K \<and> B x) kvs \<Longrightarrow> \<forall>p \<in> set kvs. B (snd p)"
  by (auto simp: list_all_iff)

lemma stored_scalars: "stored_object (JsonObject kvs) \<Longrightarrow> \<forall>p \<in> set kvs. flat_scalar (snd p)"
  unfolding stored_object_def flat_scalar_def json.case by (elim conjE) (rule list_all_values)

lemma flat_env_laws: "json_laws (flat_env maximum)" "sha_laws (flat_env maximum)"
proof -
  have "flat_parse (flat_stringify v) = Some v \<and> flat_stringify v \<noteq> [] \<and> 10 \<notin> set (flat_stringify v)"
    if v: "stored_object v" for v
  proof -
    obtain kvs where kvs: "v = JsonObject kvs" "\<forall>p \<in> set kvs. flat_scalar (snd p)"
      using v stored_scalars by (cases v) (simp_all add: stored_object_def)
    have "map (read_flat_field \<circ> flat_field) kvs = kvs"
      using kvs(2) by (simp add: map_idI read_flat_field)
    moreover have "10 \<notin> set (flat_stringify v)"
      unfolding flat_stringify_def by (rule newline_ascii) (auto simp: kvs(1) flat_field_none)
    moreover have "flat_stringify v \<noteq> []"
      by (simp add: flat_stringify_def ascii_def)
    moreover have "flat_parse (flat_stringify v) = Some (JsonObject (map (read_flat_field \<circ> flat_field) kvs))"
      by (simp add: kvs(1) flat_parse_def flat_stringify_def split_flat_fields)
    ultimately show ?thesis
      by (simp add: kvs(1))
  qed
  then show "json_laws (flat_env maximum)" by (simp add: json_laws_def flat_env_def)
  show "sha_laws (flat_env maximum)" by (simp add: sha_laws_def flat_env_def sha_text_def hex_value_def lower_char_def Let_def list_all_iff)
qed

definition sample_record :: journal_record where
  "sample_record = JOutput 1 [104, 105]"

definition sample_disk :: disk where
  "sample_disk = do_ops (fst (journal_append (flat_env 1000) 1000 sample_record empty_disk)) empty_disk"

lemma sample_append_ok: "snd (journal_append (flat_env 1000) 1000 sample_record empty_disk) = Inr ()"
  by code_simp

lemma sample_appendable: "appendable (journal_suffix initial_checkpoint []) sample_record"
  by (simp add: appendable_def sample_record_def record_ok_def is_safe_integer_def max_safe_integer_def
      journal_suffix_def initial_checkpoint_def)

lemma sample_append:
  "journal_append (flat_env 1000) 1000 sample_record empty_disk =
     (fst (journal_append (flat_env 1000) 1000 sample_record empty_disk), Inr ())"
  by (metis prod.collapse sample_append_ok)

lemma sample_run: "store_run (flat_env 1000) [sample_record] sample_disk"
  using run_append [OF run_start stores_read [OF empty_stores] sample_appendable sample_append]
  by (simp add: sample_disk_def)

lemma sample_stores:
  "stores (flat_env 1000) (extend_state (journal_suffix initial_checkpoint []) sample_record) sample_disk"
  using append_done [OF flat_env_laws empty_stores sample_appendable sample_append] by (simp add: sample_disk_def)


lemma read_is_continuous_witness:
  "continuous (extend_state (journal_suffix initial_checkpoint []) sample_record)"
  using read_is_continuous [of "flat_env 1000" sample_disk] stores_read [OF sample_stores] by simp

end
