(* ===== verification/TerminalHistory.thy ===== *)
theory TerminalHistory
  imports JournalCrash
begin

text \<open>
  How a terminal's history is recorded and recovered: the recording half of
  \<^verbatim>\<open>server/terminals/terminal-actor.ts\<close> (output, resize, checkpoint, exit, finalization, restore from a
  remote host), the row it keeps through \<^verbatim>\<open>server/terminals/terminal-repository.ts\<close>, and the
  reconciliation of both at a restart by \<^verbatim>\<open>server/terminals/terminal-service.ts\<close>.

  \<^item> Each operation of the actor runs alone in its mailbox, so each is one step. Its outputs list, in order,
    the changes of the disk (\<open>HDisk\<close>), the rows it commits (\<open>HRow\<close>) and what viewers are shown, so that a
    crash is a cut of this list.
  \<^item> A SQL statement of the repository is a function on the row; \<^verbatim>\<open>updated_at\<close> and the other time stamps are
    left out. \<open>history_io\<close> says how the file system and the database answer during a step: the counts
    \<^verbatim>\<open>writeSync\<close> reports and whether a statement succeeds. The emulator is third-party: what
    \<^verbatim>\<open>checkpoint()\<close> returns and whether the output erased the scrollback are part of it.
  \<^item> \<open>hs_terminal\<close> is the actor's copy of the row, \<open>hs_row\<close> the row in the database.
\<close>

section \<open>Definitions\<close>

subsection \<open>Rows\<close>

record terminal_row =
  rw_lifecycle :: terminal_lifecycle
  rw_revision :: int
  rw_rows :: int
  rw_columns :: int
  rw_initial_rows :: int
  rw_initial_columns :: int
  rw_floor :: int
  rw_head :: int
  rw_exit_code :: "int option"
  rw_exit_signal :: "string option"
  rw_reason :: "string option"

definition final_state :: "terminal_lifecycle \<Rightarrow> bool" where
  "final_state l \<longleftrightarrow> l = Exited \<or> l = LifecycleFailed \<or> l = Interrupted"

definition update_head :: "int \<Rightarrow> terminal_row \<Rightarrow> terminal_row" where
  "update_head seq row = (if rw_head row < seq then row\<lparr>rw_head := seq\<rparr> else row)"

definition advance_history_floor :: "int \<Rightarrow> terminal_row \<Rightarrow> terminal_row result" where
  "advance_history_floor seq row =
     (if rw_floor row < seq \<and> seq \<le> rw_head row then Inr (row\<lparr>rw_floor := seq\<rparr>)
      else Inl ''terminal_history_floor_transition_invalid'')"

definition resize_row :: "int \<Rightarrow> int \<Rightarrow> int \<Rightarrow> terminal_row \<Rightarrow> terminal_row" where
  "resize_row rows columns seq row = row\<lparr>rw_rows := rows, rw_columns := columns, rw_head := seq\<rparr>"

definition mark_stopping :: "int \<Rightarrow> terminal_row \<Rightarrow> terminal_row result" where
  "mark_stopping revision row =
     (if rw_lifecycle row = Running \<and> rw_revision row = revision
      then Inr (row\<lparr>rw_lifecycle := Stopping, rw_revision := rw_revision row + 1\<rparr>)
      else Inl ''terminal_revision_conflict'')"

record final_status =
  fs_lifecycle :: terminal_lifecycle
  fs_code :: "int option"
  fs_signal :: "string option"
  fs_reason :: "string option"

definition finalize_row :: "final_status \<Rightarrow> int \<Rightarrow> terminal_row \<Rightarrow> terminal_row" where
  "finalize_row fs seq row =
     (if final_state (rw_lifecycle row) then row
      else row\<lparr>rw_lifecycle := fs_lifecycle fs, rw_head := seq, rw_exit_code := fs_code fs,
        rw_exit_signal := fs_signal fs, rw_reason := fs_reason fs, rw_revision := rw_revision row + 1\<rparr>)"

definition reconcile_row :: "int \<Rightarrow> int \<Rightarrow> int \<Rightarrow> int \<Rightarrow> final_status option \<Rightarrow> terminal_row \<Rightarrow> terminal_row" where
  "reconcile_row head floor rows columns final row =
     (let row1 = row\<lparr>rw_head := head, rw_floor := floor, rw_rows := rows, rw_columns := columns\<rparr>
      in case final of
           None \<Rightarrow> row1
         | Some fs \<Rightarrow> row1\<lparr>rw_lifecycle := fs_lifecycle fs, rw_exit_code := fs_code fs,
             rw_exit_signal := fs_signal fs, rw_reason := fs_reason fs,
             rw_revision := rw_revision row +
               (if rw_lifecycle row \<noteq> fs_lifecycle fs \<or> rw_exit_code row \<noteq> fs_code fs \<or>
                   rw_exit_signal row \<noteq> fs_signal fs \<or> rw_reason row \<noteq> fs_reason fs then 1 else 0)\<rparr>)"

definition mark_journal_corrupt :: "terminal_row \<Rightarrow> terminal_row" where
  "mark_journal_corrupt row = row\<lparr>rw_lifecycle := LifecycleFailed,
     rw_revision := rw_revision row +
       (if rw_lifecycle row \<noteq> LifecycleFailed \<or> rw_reason row \<noteq> Some ''history_corrupt'' then 1 else 0),
     rw_rows := rw_initial_rows row, rw_columns := rw_initial_columns row, rw_floor := 0, rw_head := 0,
     rw_exit_code := None, rw_exit_signal := None, rw_reason := Some ''history_corrupt''\<rparr>"

text \<open>\<^verbatim>\<open>recoverInterrupted\<close>; the flag says whether the terminal runs on this host or over a transport that the
  restart closed.\<close>

definition recover_interrupted :: "bool \<Rightarrow> terminal_row \<Rightarrow> terminal_row" where
  "recover_interrupted here row =
     (if rw_lifecycle row = Reserved
      then row\<lparr>rw_lifecycle := LifecycleFailed, rw_reason := Some ''start_not_attempted'',
             rw_revision := rw_revision row + 1\<rparr>
      else if here \<and> rw_lifecycle row \<in> {Starting, Running, Stopping}
      then row\<lparr>rw_lifecycle := Interrupted, rw_reason := Some ''server_restarted'',
             rw_revision := rw_revision row + 1\<rparr>
      else row)"

subsection \<open>The recording actor\<close>

record history_io =
  hi_append :: "nat option"
  hi_final :: "nat option"
  hi_checkpoint_file :: nat
  hi_journal_file :: nat
  hi_update :: bool
  hi_floor :: bool
  hi_finalize :: bool
  hi_erased :: bool
  hi_snapshot :: bytes

record history =
  hs_disk :: disk
  hs_row :: terminal_row
  hs_terminal :: terminal_row
  hs_bytes :: int
  hs_records :: int
  hs_finalized :: bool
  hs_detached :: bool
  hs_persistent :: bool

datatype history_output =
    HDisk "disk_op list"
  | HRow terminal_row
  | HBroadcast journal_record
  | HStatus
  | HKill
  | HAcknowledge
  | HSummary
  | HFinalized
  | HResync int
  | HThrow string

type_synonym history_step = "history \<times> history_output list"

definition checkpoint_after_bytes :: int where
  "checkpoint_after_bytes = 4 * 1024 * 1024"

definition checkpoint_after_records :: int where
  "checkpoint_after_records = 2048"

definition append_record :: "journal_env \<Rightarrow> nat option \<Rightarrow> journal_record \<Rightarrow> history \<Rightarrow> history_step \<times> bool" where
  "append_record env written r h =
     (let res = journal_append env (case written of None \<Rightarrow> length (serialize env r) | Some n \<Rightarrow> n) r (hs_disk h)
      in ((h\<lparr>hs_disk := do_ops (fst res) (hs_disk h)\<rparr>, [HDisk (fst res)]), snd res = Inr ()))"

definition commit_row :: "terminal_row \<Rightarrow> history \<Rightarrow> history_step" where
  "commit_row row h = (h\<lparr>hs_row := row\<rparr>, [HRow row])"

definition read_ops :: "journal_env \<Rightarrow> disk \<Rightarrow> disk_op list" where
  "read_ops env d = (case read_checkpoint env (live_files d) of
     Inl e \<Rightarrow> []
   | Inr cp \<Rightarrow>
       let content = file_bytes JournalFile (live_files d); whole = complete_part content
       in if whole = content then [] else [TruncateTo JournalFile (length whole)])"

definition final_of :: "journal_record \<Rightarrow> final_status option" where
  "final_of r = (case r of
     JFinal _ l code sig reason \<Rightarrow> Some \<lparr>fs_lifecycle = l, fs_code = code, fs_signal = sig, fs_reason = reason\<rparr>
   | _ \<Rightarrow> None)"

definition row_status :: "terminal_row \<Rightarrow> final_status" where
  "row_status row = \<lparr>fs_lifecycle = rw_lifecycle row, fs_code = rw_exit_code row,
     fs_signal = rw_exit_signal row, fs_reason = rw_reason row\<rparr>"

definition has_durable_final_status :: "journal_env \<Rightarrow> history \<Rightarrow> bool" where
  "has_durable_final_status env h = (case snd (journal_read env (hs_disk h)) of
     Inl e \<Rightarrow> False
   | Inr st \<Rightarrow> js_head st = rw_head (hs_terminal h) \<and> js_records st \<noteq> [] \<and>
       final_of (last (js_records st)) = Some (row_status (hs_terminal h)))"

definition read_history :: "journal_env \<Rightarrow> history \<Rightarrow> history_step" where
  "read_history env h = (h\<lparr>hs_disk := fst (journal_read env (hs_disk h))\<rparr>, [HDisk (read_ops env (hs_disk h))])"

definition finalize :: "journal_env \<Rightarrow> history_io \<Rightarrow> final_status \<Rightarrow> history \<Rightarrow> history_step" where
  "finalize env io fs h =
     (if hs_finalized h then (h, [])
      else if final_state (rw_lifecycle (hs_terminal h))
      then then_do (read_history env (h\<lparr>hs_finalized := True\<rparr>))
             (\<lambda>h1. (h1, (if has_durable_final_status env h \<and> hs_persistent h then [HAcknowledge] else []) @
               [HFinalized, HStatus]))
      else let seq = rw_head (hs_terminal h) + 1;
               r = JFinal seq (fs_lifecycle fs) (fs_code fs) (fs_signal fs) (fs_reason fs);
               res = append_record env (hi_final io) r (h\<lparr>hs_finalized := True\<rparr>);
               status = (if snd res then fs
                 else \<lparr>fs_lifecycle = LifecycleFailed, fs_code = None, fs_signal = None,
                       fs_reason = Some ''history_write_failed''\<rparr>);
               head = (if snd res then seq else rw_head (hs_terminal h))
      in then_do (fst res) (\<lambda>h1.
           if \<not> hi_finalize io then (h1, [HFinalized, HThrow ''terminal_finalize_failed''])
           else let row = finalize_row status head (hs_row h1)
                in then_do (commit_row row h1) (\<lambda>h2. (h2\<lparr>hs_terminal := row\<rparr>,
                     (if snd res \<and> hs_persistent h then [HAcknowledge] else []) @ [HSummary, HFinalized] @
                     (if snd res then [HBroadcast r] else [HStatus])))))"

definition history_write_failed :: final_status where
  "history_write_failed = \<lparr>fs_lifecycle = LifecycleFailed, fs_code = None, fs_signal = None,
     fs_reason = Some ''history_write_failed''\<rparr>"

definition fail_history_write :: "journal_env \<Rightarrow> history_io \<Rightarrow> history \<Rightarrow> history_step" where
  "fail_history_write env io h = then_do (h, [HKill]) (finalize env io history_write_failed)"

definition write_checkpoint :: "journal_env \<Rightarrow> history_io \<Rightarrow> history \<Rightarrow> history_step \<times> bool" where
  "write_checkpoint env io h =
     (let t = hs_terminal h
      in if rw_head t \<le> rw_floor t then ((h, []), True)
         else let res = journal_compact env (hi_checkpoint_file io) (hi_journal_file io)
                \<lparr>cp_seq = rw_head t, cp_rows = rw_rows t, cp_columns = rw_columns t,
                 cp_bytes = hi_snapshot io, cp_sha = []\<rparr> [] (hs_disk h);
                  h1 = h\<lparr>hs_disk := do_ops (fst res) (hs_disk h)\<rparr>
         in case snd res of
              Inl e \<Rightarrow> ((h1, [HDisk (fst res)]), False)
            | Inr cp \<Rightarrow> if \<not> hi_floor io then ((h1, [HDisk (fst res)]), False)
                else case advance_history_floor (rw_head t) (hs_row h) of
                  Inl e \<Rightarrow> ((h1, [HDisk (fst res)]), False)
                | Inr row \<Rightarrow> ((h1\<lparr>hs_row := row, hs_terminal := row, hs_bytes := 0, hs_records := 0\<rparr>,
                    [HDisk (fst res), HRow row]), True))"

text \<open>After the record is in the journal and the row: a checkpoint when it is time for one, then the viewers.\<close>

definition publish_record :: "journal_env \<Rightarrow> history_io \<Rightarrow> bool \<Rightarrow> journal_record \<Rightarrow> history \<Rightarrow> history_step" where
  "publish_record env io due r h =
     (if due
      then let res = write_checkpoint env io h
           in then_do (fst res) (\<lambda>h1. if snd res then (h1, [HBroadcast r]) else fail_history_write env io h1)
      else (h, [HBroadcast r]))"

definition record_output :: "journal_env \<Rightarrow> history_io \<Rightarrow> bytes \<Rightarrow> history \<Rightarrow> history_step" where
  "record_output env io bs h =
     (if hs_finalized h \<or> hs_detached h \<or> bs = [] then (h, [])
      else let r = JOutput (rw_head (hs_terminal h) + 1) bs;
               res = append_record env (hi_append io) r h
      in then_do (fst res) (\<lambda>h1.
           if \<not> snd res then fail_history_write env io h1
           else let h2 = h1\<lparr>hs_terminal := (hs_terminal h1)\<lparr>rw_head := record_seq r\<rparr>\<rparr>
           in if \<not> hi_update io then fail_history_write env io h2
              else then_do (commit_row (update_head (record_seq r) (hs_row h2)) h2) (\<lambda>h3.
                let h4 = h3\<lparr>hs_bytes := hs_bytes h3 + int (length bs), hs_records := hs_records h3 + 1\<rparr>
                in publish_record env io (hi_erased io \<or> checkpoint_after_bytes \<le> hs_bytes h4 \<or>
                     checkpoint_after_records \<le> hs_records h4) r h4)))"

definition record_resize :: "journal_env \<Rightarrow> history_io \<Rightarrow> int \<Rightarrow> int \<Rightarrow> history \<Rightarrow> history_step" where
  "record_resize env io rows columns h =
     (if hs_finalized h \<or> hs_detached h then (h, [])
      else let seq = rw_head (hs_terminal h) + 1;
               r = JResize seq rows columns;
               res = append_record env (hi_append io) r h
      in then_do (fst res) (\<lambda>h1.
           if \<not> snd res then fail_history_write env io h1
           else let h2 = h1\<lparr>hs_terminal := (hs_terminal h1)\<lparr>rw_rows := rows, rw_columns := columns, rw_head := seq\<rparr>\<rparr>
           in if \<not> hi_update io then fail_history_write env io h2
              else let row = resize_row rows columns seq (hs_row h2)
              in then_do (commit_row row h2) (\<lambda>h3.
                let h4 = h3\<lparr>hs_terminal := row, hs_records := hs_records h3 + 1\<rparr>
                in publish_record env io (checkpoint_after_records \<le> hs_records h4) r h4)))"

datatype exit_disposition = ExitExited | ExitInterrupted

record terminal_exit =
  te_disposition :: exit_disposition
  te_code :: "int option"
  te_signal :: "string option"
  te_diagnostic :: "string option"

definition exit_status :: "terminal_exit \<Rightarrow> final_status" where
  "exit_status e =
     \<lparr>fs_lifecycle = (if te_disposition e = ExitExited then Exited else Interrupted),
      fs_code = te_code e, fs_signal = te_signal e,
      fs_reason = (if te_disposition e = ExitInterrupted
        then Some (case te_diagnostic e of None \<Rightarrow> ''provider_connection_lost'' | Some d \<Rightarrow> d) else None)\<rparr>"

definition begin_stopping :: "int \<Rightarrow> history \<Rightarrow> history_step" where
  "begin_stopping revision h =
     (if rw_lifecycle (hs_terminal h) = Stopping then (h, if hs_persistent h then [HStatus] else [])
      else case mark_stopping revision (hs_row h) of
        Inl e \<Rightarrow> (h, [HThrow e])
      | Inr row \<Rightarrow> then_do (commit_row row h) (\<lambda>h1. (h1\<lparr>hs_terminal := row\<rparr>, [HStatus])))"

text \<open>A snapshot from the host of a remote terminal replaces the history from a number of its own on.\<close>

definition restore_remote ::
  "journal_env \<Rightarrow> history_io \<Rightarrow> int \<Rightarrow> int \<Rightarrow> bytes \<Rightarrow> history \<Rightarrow> history_step" where
  "restore_remote env io rows columns bs h =
     (if hs_finalized h \<or> hs_detached h then (h, [])
      else let ended = final_state (rw_lifecycle (hs_terminal h));
               r0 = (if ended then read_history env h else (h, []))
      in if ended \<and> has_durable_final_status env h then r0
         else then_do r0 (\<lambda>h1.
           let seq = rw_head (hs_terminal h1) + 1;
               res = journal_compact env (hi_checkpoint_file io) (hi_journal_file io)
                 \<lparr>cp_seq = seq, cp_rows = rows, cp_columns = columns, cp_bytes = bs, cp_sha = []\<rparr> [] (hs_disk h1);
               h2 = h1\<lparr>hs_disk := do_ops (fst res) (hs_disk h1)\<rparr>
           in then_do (h2, [HDisk (fst res)]) (\<lambda>h2. case snd res of
                Inl e \<Rightarrow> (h2, [HThrow e])
              | Inr cp \<Rightarrow>
                  let fs = row_status (hs_terminal h2);
                      r = JFinal (seq + 1) (fs_lifecycle fs) (fs_code fs) (fs_signal fs) (fs_reason fs);
                      app = (if ended then append_record env (hi_final io) r h2 else ((h2, []), True))
                  in then_do (fst app) (\<lambda>h3.
                       if \<not> snd app \<or> \<not> hi_update io then (h3, [HThrow ''terminal_restore_failed''])
                       else let row = reconcile_row (if ended then seq + 1 else seq) seq rows columns
                                  (if ended then Some fs else None) (hs_row h3)
                       in then_do (commit_row row h3) (\<lambda>h4.
                            (h4\<lparr>hs_terminal := row, hs_bytes := 0, hs_records := 0\<rparr>, [HResync seq, HSummary]))))))"

datatype history_event =
    HvOutput history_io bytes
  | HvResize history_io int int
  | HvExit history_io terminal_exit
  | HvFail history_io final_status
  | HvStopping int

definition history_event_step :: "journal_env \<Rightarrow> history_event \<Rightarrow> history \<Rightarrow> history_step" where
  "history_event_step env ev h = (case ev of
     HvOutput io bs \<Rightarrow> record_output env io bs h
   | HvResize io rows columns \<Rightarrow> record_resize env io rows columns h
   | HvExit io e \<Rightarrow> finalize env io (exit_status e) h
   | HvFail io fs \<Rightarrow> finalize env io fs h
   | HvStopping revision \<Rightarrow> begin_stopping revision h)"

definition run_history :: "journal_env \<Rightarrow> history_event list \<Rightarrow> history \<Rightarrow> history_step" where
  "run_history env = run_steps (history_event_step env)"

definition new_history :: "terminal_row \<Rightarrow> bool \<Rightarrow> disk \<Rightarrow> history" where
  "new_history row persistent d = \<lparr>hs_disk = d, hs_row = row, hs_terminal = row, hs_bytes = 0, hs_records = 0,
     hs_finalized = False, hs_detached = False, hs_persistent = persistent\<rparr>"

subsection \<open>Recovery at a restart\<close>

definition replayed_size :: "journal_state \<Rightarrow> terminal_row \<Rightarrow> int \<times> int" where
  "replayed_size st row = fold (\<lambda>r size. case r of JResize _ rows columns \<Rightarrow> (rows, columns) | _ \<Rightarrow> size)
     (js_records st)
     (if 0 < cp_seq (js_checkpoint st) then (cp_rows (js_checkpoint st), cp_columns (js_checkpoint st))
      else (rw_initial_rows row, rw_initial_columns row))"

definition replayed_final :: "journal_state \<Rightarrow> final_status option" where
  "replayed_final st = fold (\<lambda>r final. case final_of r of None \<Rightarrow> final | Some fs \<Rightarrow> Some fs) (js_records st) None"

definition recover_terminal :: "journal_env \<Rightarrow> bool \<Rightarrow> disk \<Rightarrow> terminal_row \<Rightarrow> disk \<times> terminal_row" where
  "recover_terminal env here d row0 =
     (let row = recover_interrupted here row0
      in case journal_recover env d of
           (d1, RecoveryCorrupt) \<Rightarrow> (d1, mark_journal_corrupt row)
         | (d1, RecoveryOk st) \<Rightarrow>
             if js_head st < rw_head row then (do_ops (quarantine_ops d1) d1, mark_journal_corrupt row)
             else let size = replayed_size st row
                  in (d1, reconcile_row (js_head st) (cp_seq (js_checkpoint st)) (fst size) (snd size)
                        (replayed_final st) row))"

end
