(* ===== verification/HistoryRecovery.thy ===== *)
theory HistoryRecovery
  imports TerminalHistory
begin

text \<open>
  Recording and recovery together: whatever the actor recorded before a crash, at whatever point of a disk
  change or between two statements the crash came, the service's recovery brings the row in line with the
  journal and loses no record a viewer was shown.
\<close>

section \<open>Definitions\<close>

fun durable_one :: "history_output \<Rightarrow> disk \<times> terminal_row \<Rightarrow> disk \<times> terminal_row" where
  "durable_one (HDisk ops) x = (do_ops ops (fst x), snd x)"
| "durable_one (HRow row) x = (fst x, row)"
| "durable_one _ x = x"

definition durable :: "history_output list \<Rightarrow> disk \<times> terminal_row \<Rightarrow> disk \<times> terminal_row" where
  "durable outs x = fold durable_one outs x"

text \<open>A crash after the outputs \<open>pre\<close>, possibly inside the disk change that comes next.\<close>

definition crash_after ::
  "history_output list \<Rightarrow> disk \<times> terminal_row \<Rightarrow> history_output list \<Rightarrow> disk \<times> terminal_row \<Rightarrow> bool" where
  "crash_after outs x pre x' \<longleftrightarrow> (\<exists>rest. outs = pre @ rest \<and>
     (x' = durable pre x \<or>
      (\<exists>ops rest' d'. rest = HDisk ops # rest' \<and> crashed ops (fst (durable pre x)) d' \<and>
        x' = (d', snd (durable pre x)))))"

text \<open>The stored checkpoint has room for 341 characters around its data; \<^verbatim>\<open>JSON.stringify\<close> needs at most 219.\<close>

definition json_size_law :: "journal_env \<Rightarrow> bool" where
  "json_size_law env \<longleftrightarrow> (\<forall>cp. is_safe_integer (cp_seq cp) \<and> 1 \<le> cp_seq cp \<and> 1 \<le> cp_rows cp \<and> cp_rows cp \<le> 256 \<and>
     2 \<le> cp_columns cp \<and> cp_columns cp \<le> 512 \<and> cp_sha cp = je_sha env (cp_bytes cp) \<longrightarrow>
     length (je_stringify env (stored_checkpoint env cp)) \<le> 341 + length (to_base64url (cp_bytes cp)))"

definition env_laws :: "journal_env \<Rightarrow> bool" where
  "env_laws env \<longleftrightarrow> json_laws env \<and> sha_laws env \<and> json_size_law env"

definition io_clean :: "history_io \<Rightarrow> bool" where
  "io_clean io \<longleftrightarrow> hi_update io \<and> hi_floor io \<and> hi_finalize io"

text \<open>No append is torn, and only sizes the frame schema admits are recorded.\<close>

definition io_whole :: "history_io \<Rightarrow> bool" where
  "io_whole io \<longleftrightarrow> hi_append io = None \<and> hi_final io = None"

definition event_io :: "history_event \<Rightarrow> history_io option" where
  "event_io ev = (case ev of HvOutput io _ \<Rightarrow> Some io | HvResize io _ _ \<Rightarrow> Some io | HvExit io _ \<Rightarrow> Some io
     | HvFail io _ \<Rightarrow> Some io | HvStopping _ \<Rightarrow> None)"

definition event_ok :: "history_event \<Rightarrow> bool" where
  "event_ok ev \<longleftrightarrow> (case event_io ev of None \<Rightarrow> True | Some io \<Rightarrow> io_whole io) \<and>
     (case ev of HvResize _ rows columns \<Rightarrow> 1 \<le> rows \<and> rows \<le> 256 \<and> 2 \<le> columns \<and> columns \<le> 512
      | HvFail _ fs \<Rightarrow> final_state (fs_lifecycle fs) | _ \<Rightarrow> True)"

definition event_clean :: "history_event \<Rightarrow> bool" where
  "event_clean ev \<longleftrightarrow> (case event_io ev of None \<Rightarrow> True | Some io \<Rightarrow> io_clean io)"

section \<open>Lemmas\<close>

subsection \<open>Traces\<close>

definition held :: "journal_state \<Rightarrow> journal_record set \<Rightarrow> bool" where
  "held st A \<longleftrightarrow> (\<forall>r \<in> A. record_seq r \<le> cp_seq (js_checkpoint st) \<or> r \<in> set (js_records st))"

definition good :: "journal_env \<Rightarrow> journal_record set \<Rightarrow> disk \<times> terminal_row \<Rightarrow> bool" where
  "good env A x \<longleftrightarrow> (\<exists>st. recovers env st (fst x) \<and> held st A \<and> rw_head (snd x) \<le> js_head st)"

fun shown_one :: "history_output \<Rightarrow> journal_record set" where
  "shown_one (HBroadcast r) = {r}"
| "shown_one _ = {}"

definition shown :: "history_output list \<Rightarrow> journal_record set" where
  "shown outs = (\<Union>out \<in> set outs. shown_one out)"

primrec safe_trace ::
  "journal_env \<Rightarrow> journal_record set \<Rightarrow> disk \<times> terminal_row \<Rightarrow> history_output list \<Rightarrow> bool" where
  "safe_trace env A x [] = good env A x"
| "safe_trace env A x (out # outs) = (good env A x \<and>
     (\<forall>ops d'. out = HDisk ops \<longrightarrow> crashed ops (fst x) d' \<longrightarrow> good env A (d', snd x)) \<and>
     safe_trace env (A \<union> shown_one out) (durable_one out x) outs)"

lemma durable_simps [simp]:
  "durable [] x = x" "durable (out # outs) x = durable outs (durable_one out x)"
  "durable (outs @ outs') x = durable outs' (durable outs x)"
  by (simp_all add: durable_def)

lemma shown_simps [simp]:
  "shown [] = {}" "shown (out # outs) = shown_one out \<union> shown outs" "shown (outs @ outs') = shown outs \<union> shown outs'"
  by (auto simp: shown_def)

lemma held_mono: "held st B \<Longrightarrow> A \<subseteq> B \<Longrightarrow> held st A"
  by (auto simp: held_def)

lemma good_mono: "good env B x \<Longrightarrow> A \<subseteq> B \<Longrightarrow> good env A x"
  by (auto simp: good_def intro: held_mono)

lemma safe_trace_mono: "safe_trace env B x outs \<Longrightarrow> A \<subseteq> B \<Longrightarrow> safe_trace env A x outs"
proof (induction outs arbitrary: A B x)
  case (Cons out outs)
  have "safe_trace env (A \<union> shown_one out) (durable_one out x) outs"
    by (rule Cons.IH [of "B \<union> shown_one out"]) (use Cons.prems in auto)
  moreover have less: "good env B y \<Longrightarrow> good env A y" for y
    using Cons.prems(2) by (rule good_mono [rotated])
  have "good env A x" using Cons.prems(1) by (auto intro: less)
  moreover have "\<forall>ops d'. out = HDisk ops \<longrightarrow> crashed ops (fst x) d' \<longrightarrow> good env A (d', snd x)"
    using Cons.prems(1) less by simp
  ultimately show ?case by simp
qed (simp add: good_mono)

lemma safe_trace_good: "safe_trace env A x outs \<Longrightarrow> good env A x"
  by (cases outs) simp_all

lemma safe_trace_append:
  "safe_trace env A x (outs @ outs') \<longleftrightarrow>
     safe_trace env A x outs \<and> safe_trace env (A \<union> shown outs) (durable outs x) outs'"
  by (induction outs arbitrary: A x) (auto dest: safe_trace_good simp: Un_assoc)

lemma safe_trace_crash:
  assumes "safe_trace env A x outs" and "crash_after outs x pre x'"
  shows "good env (A \<union> shown pre) x'"
proof -
  obtain rest where outs: "outs = pre @ rest"
    and x': "x' = durable pre x \<or> (\<exists>ops rest' d'. rest = HDisk ops # rest' \<and>
      crashed ops (fst (durable pre x)) d' \<and> x' = (d', snd (durable pre x)))"
    using assms(2) by (auto simp: crash_after_def)
  have "safe_trace env (A \<union> shown pre) (durable pre x) rest"
    using assms(1) by (simp add: outs safe_trace_append)
  then show ?thesis using x' safe_trace_good [of env "A \<union> shown pre" "durable pre x" rest] by auto
qed

subsection \<open>What the actor keeps\<close>

text \<open>\<open>holds env A n fresh in_step d row\<close>: the disk stores a history with head \<open>n\<close> that has the records
  \<open>A\<close>; it is not ended when \<open>fresh\<close>, and the row agrees with it when \<open>in_step\<close>.\<close>

definition holds ::
  "journal_env \<Rightarrow> journal_record set \<Rightarrow> int \<Rightarrow> bool \<Rightarrow> bool \<Rightarrow> disk \<Rightarrow> terminal_row \<Rightarrow> bool" where
  "holds env A n fresh in_step d row \<longleftrightarrow> (\<exists>st. stores env st d \<and> held st A \<and> js_head st = n \<and> rw_head row \<le> n \<and>
     (fresh \<longrightarrow> js_records st \<noteq> [] \<longrightarrow> \<not> is_final (last (js_records st))) \<and>
     (in_step \<longrightarrow> rw_floor row = cp_seq (js_checkpoint st)))"

lemma holds_good: "holds env A n fresh in_step d row \<Longrightarrow> good env A (d, row)"
  by (auto simp: holds_def good_def intro: stores_recovers)

lemma holds_mono: "holds env B n fresh in_step d row \<Longrightarrow> A \<subseteq> B \<Longrightarrow> holds env A n fresh in_step d row"
  by (auto simp: holds_def intro: held_mono)

lemma holds_weaken: "holds env A n fresh in_step d row \<Longrightarrow> holds env A n False in_step d row"
  by (auto simp: holds_def)

lemma holds_row:
  "holds env A n fresh in_step d row \<Longrightarrow> rw_head row' \<le> n \<Longrightarrow> rw_floor row' = rw_floor row \<Longrightarrow>
     holds env A n fresh in_step d row'"
  by (auto simp: holds_def)

lemma held_extend: "held st A \<Longrightarrow> held (extend_state st r) (insert r A)"
  by (auto simp: held_def extend_state_def)

lemma head_at_least: "stores env st d \<Longrightarrow> cp_seq (js_checkpoint st) \<le> js_head st"
  by (drule stores_continuous) (simp add: continuous_def)

lemma append_holds:
  assumes "env_laws env" and "holds env A n True in_step d row" and "record_ok r" and "record_seq r = n + 1"
    and "journal_append env (length (serialize env r)) r d = (ops, res)"
  shows "safe_trace env A (d, row) [HDisk ops]"
    and "if res = Inr () then holds env (insert r A) (n + 1) (\<not> is_final r) in_step (do_ops ops d) row
      else holds env A n True in_step (do_ops ops d) row"
proof -
  obtain st where st: "stores env st d" "held st A" "js_head st = n" "rw_head row \<le> n"
    "js_records st \<noteq> [] \<longrightarrow> \<not> is_final (last (js_records st))" "in_step \<longrightarrow> rw_floor row = cp_seq (js_checkpoint st)"
    using assms(2) by (auto simp: holds_def)
  have laws: "json_laws env" "sha_laws env" using assms(1) by (simp_all add: env_laws_def)
  have may: "appendable st r" using st(3,5) assms(3,4) by (simp add: appendable_def)
  have cut: "good env A (d', row)" if "crashed ops d d'" for d'
  proof -
    have "crashed (fst (journal_append env (length (serialize env r)) r d)) d d'"
      using that assms(5) by simp
    from append_recovers [OF laws st(1) may this] show ?thesis
    proof
      assume "recovers env st d'"
      then show ?thesis using st(2,3,4) by (auto simp: good_def)
    next
      assume "recovers env (extend_state st r) d'"
      moreover have "held (extend_state st r) A" using held_mono [OF held_extend [OF st(2)]] by blast
      moreover have "rw_head row \<le> js_head (extend_state st r)" using st(4) assms(4) by (simp add: extend_state_def)
      ultimately show ?thesis by (auto simp: good_def)
    qed
  qed
  then show "safe_trace env A (d, row) [HDisk ops]"
    using cut [OF crash_now] cut [OF crashed_done] by simp
  show "if res = Inr () then holds env (insert r A) (n + 1) (\<not> is_final r) in_step (do_ops ops d) row
      else holds env A n True in_step (do_ops ops d) row"
  proof (cases "res = Inr ()")
    case True
    then have "stores env (extend_state st r) (do_ops ops d)"
      using append_done [OF laws st(1) may] assms(5) by simp
    then have "holds env (insert r A) (n + 1) (\<not> is_final r) in_step (do_ops ops d) row"
      unfolding holds_def using held_extend [OF st(2), of r] st(4,6) assms(4)
      by (intro exI [of _ "extend_state st r"] conjI) (simp_all add: extend_state_def)
    then show ?thesis using True by simp
  next
    case False
    then have "ops = [MakeDirectory]"
      using assms(5) by (auto simp: journal_append_def Let_def split: if_splits)
    then have "stores env st (do_ops ops d)" using stores_make [OF st(1)] by simp
    then show ?thesis using False st by (auto simp: holds_def)
  qed
qed

lemma stored_seqs: "stores env st d \<Longrightarrow> r \<in> set (js_records st) \<Longrightarrow> record_seq r \<le> js_head st"
proof -
  assume "stores env st d" "r \<in> set (js_records st)"
  then have "record_seq r \<in> set [cp_seq (js_checkpoint st) + 1..js_head st]"
    using stores_continuous [of env st d] by (metis continuous_def image_eqI set_map)
  then show ?thesis by simp
qed

lemma nothing_after_head: "stores env st d \<Longrightarrow> records_after (js_head st) st = []"
  using stored_seqs by (fastforce simp: records_after_def filter_empty_conv)

lemma held_compacted: "held st A \<Longrightarrow> cp_seq (js_checkpoint st) \<le> cp_seq cp \<Longrightarrow> held (compacted env st cp) A"
  by (fastforce simp: held_def compacted_def records_after_def)

lemma snapshot_ok:
  assumes "env_laws env" and "is_safe_integer (cp_seq cp)" and "1 \<le> cp_seq cp"
    and "1 \<le> cp_rows cp" and "cp_rows cp \<le> 256" and "2 \<le> cp_columns cp" and "cp_columns cp \<le> 512"
    and "int (length (cp_bytes cp)) \<le> max_checkpoint_bytes"
  shows "checkpoint_ok env (stamped env cp)"
proof -
  have "length (to_base64url (cp_bytes cp)) \<le> 11184811"
    using assms(8) by (simp add: to_base64url_def length_sextets max_checkpoint_bytes_def)
  moreover have "length (stored_text env cp) \<le> 341 + length (to_base64url (cp_bytes (stamped env cp)))"
    using assms(1-7) unfolding env_laws_def json_size_law_def
    by (elim conjE) (drule spec [of _ "stamped env cp"], simp)
  ultimately show ?thesis
    using assms by (simp add: checkpoint_ok_def max_stored_checkpoint_bytes_def)
qed

lemma compact_holds:
  assumes "env_laws env" and "holds env A n True in_step d row"
    and "is_safe_integer n" and "1 \<le> n" and "cp_seq cp = n"
    and "1 \<le> cp_rows cp" and "cp_rows cp \<le> 256" and "2 \<le> cp_columns cp" and "cp_columns cp \<le> 512"
    and result: "journal_compact env w1 w2 cp [] d = (ops, res)"
  shows "safe_trace env A (d, row) [HDisk ops]" (is ?trace)
    and "case res of Inl _ \<Rightarrow> holds env A n True in_step (do_ops ops d) row
      | Inr _ \<Rightarrow> \<forall>row'. rw_head row' \<le> n \<longrightarrow> rw_floor row' = n \<or> \<not> in_step \<longrightarrow>
          holds env A n True in_step (do_ops ops d) row'" (is ?held)
proof -
  obtain st where st: "stores env st d" "held st A" "js_head st = n" "rw_head row \<le> n"
    "js_records st \<noteq> [] \<longrightarrow> \<not> is_final (last (js_records st))" "in_step \<longrightarrow> rw_floor row = cp_seq (js_checkpoint st)"
    using assms(2) by (auto simp: holds_def)
  have laws: "json_laws env" "sha_laws env" using assms(1) by (simp_all add: env_laws_def)
  have kept: "good env A (d', row)" if "stores env st d' \<or> stores env (compacted env st cp) d'"
    and "compactable env st cp" for d'
    using that st(2-4) held_compacted [OF st(2), of cp env]
    by (auto simp: good_def compacted_def compactable_def intro: stores_recovers)
  have old: "holds env A n True in_step d' row" if "stores env st d'" for d'
    using that st by (auto simp: holds_def)
  have "?trace \<and> ?held"
  proof (cases "int (length (cp_bytes cp)) \<le> max_checkpoint_bytes")
    case False
    then have none: "ops = []" "res = Inl ''terminal_checkpoint_too_large''"
      using result by (simp_all add: journal_compact_def)
    show ?thesis
      using holds_good [OF assms(2)] assms(2) by (simp add: none crashed_simps)
  next
    case True
    have may: "compactable env st cp"
      using snapshot_ok [OF assms(1) _ _ assms(6-9) True] assms(3-5) head_at_least [OF st(1)] st(3,5)
      by (simp add: compactable_def)
    have no_rest: "records_after (cp_seq cp) st = []"
      using nothing_after_head [OF st(1)] st(3) assms(5) by simp
    have cut: "stores env st d' \<or> stores env (compacted env st cp) d'" if "crashed ops d d'" for d'
    proof -
      have "crashed (fst (journal_compact env w1 w2 cp (records_after (cp_seq cp) st) d)) d d'"
        using that by (simp add: no_rest result)
      then show ?thesis by (rule compact_cut_stores [OF laws st(1) may])
    qed
    have ?trace
      using kept [OF _ may] cut cut [OF crash_now] cut [OF crashed_done] by simp
    moreover have ?held
    proof (cases res)
      case (Inr cp')
      then have "stores env (compacted env st cp) (do_ops ops d)"
        using compact_done(1) [OF laws st(1) may] result by (simp add: no_rest)
      then show ?thesis
        using Inr held_compacted [OF st(2), of cp env] may st(3) assms(5) no_rest
        by (auto simp: holds_def compactable_def compacted_def intro!: exI)
    next
      case (Inl e)
      have live: "do_op MakeDirectory d Live \<noteq> None" by simp
      have short: "stores env st (do_ops (replacement_ops CheckpointNext CheckpointFile w1 (stored_text env cp))
          (do_op MakeDirectory d))" if "w1 < length (stored_text env cp)"
        using replacement_before [OF crashed_done stores_make [OF st(1)] live] that by fastforce
      have "stores env st (do_ops ops d)"
        using result Inl short stores_make [OF st(1)] st(1)
        by (auto simp: journal_compact_def Let_def records_follow_def split: if_splits)
      then show ?thesis using Inl old by simp
    qed
    ultimately show ?thesis ..
  qed
  then show ?trace ?held by simp_all
qed

subsection \<open>Every step keeps it\<close>

definition size_ok :: "terminal_row \<Rightarrow> bool" where
  "size_ok row \<longleftrightarrow> 1 \<le> rw_rows row \<and> rw_rows row \<le> 256 \<and> 2 \<le> rw_columns row \<and> rw_columns row \<le> 512"

definition live_row :: "terminal_row \<Rightarrow> bool" where
  "live_row row \<longleftrightarrow> size_ok row \<and> \<not> final_state (rw_lifecycle row) \<and> 0 \<le> rw_floor row"

definition kept :: "journal_env \<Rightarrow> journal_record set \<Rightarrow> bool \<Rightarrow> bool \<Rightarrow> history \<Rightarrow> bool" where
  "kept env A c q h \<longleftrightarrow> (\<exists>n. holds env A n (\<not> hs_finalized h) c (hs_disk h) (hs_row h) \<and>
     (\<not> hs_finalized h \<longrightarrow> n = rw_head (hs_terminal h) \<and> live_row (hs_terminal h) \<and> live_row (hs_row h) \<and> 0 \<le> n) \<and>
     (c \<or> q \<and> \<not> hs_finalized h \<longrightarrow> hs_row h = hs_terminal h \<and> rw_head (hs_row h) = n))"

definition traced :: "journal_env \<Rightarrow> journal_record set \<Rightarrow> history \<Rightarrow> history_step \<Rightarrow> bool" where
  "traced env A h r \<longleftrightarrow> durable (snd r) (hs_disk h, hs_row h) = (hs_disk (fst r), hs_row (fst r)) \<and>
     safe_trace env A (hs_disk h, hs_row h) (snd r)"

definition fine :: "journal_env \<Rightarrow> journal_record set \<Rightarrow> bool \<Rightarrow> bool \<Rightarrow> history \<Rightarrow> history_step \<Rightarrow> bool" where
  "fine env A c q h r \<longleftrightarrow> traced env A h r \<and> kept env (A \<union> shown (snd r)) c q (fst r) \<and>
     (\<not> hs_finalized (fst r) \<longrightarrow> rw_head (hs_terminal (fst r)) \<le> rw_head (hs_terminal h) + 1)"

lemma kept_good: "kept env A c q h \<Longrightarrow> good env A (hs_disk h, hs_row h)"
  by (auto simp: kept_def intro: holds_good)

lemma kept_mono: "kept env B c q h \<Longrightarrow> A \<subseteq> B \<Longrightarrow> kept env A c q h"
  by (auto simp: kept_def intro: holds_mono)

lemma traced_then:
  "traced env A h r \<Longrightarrow> traced env (A \<union> shown (snd r)) (fst r) (f (fst r)) \<Longrightarrow> traced env A h (then_do r f)"
  by (auto simp: traced_def safe_trace_append)

lemma traced_mono: "traced env B h r \<Longrightarrow> A \<subseteq> B \<Longrightarrow> traced env A h r"
  by (auto simp: traced_def intro: safe_trace_mono)

lemma fine_mono: "fine env B c q h r \<Longrightarrow> A \<subseteq> B \<Longrightarrow> fine env A c q h r"
  unfolding fine_def by (meson Un_mono kept_mono order_refl traced_mono)

lemma fine_then:
  assumes "traced env A h r" and "fine env (A \<union> shown (snd r)) c q (fst r) (f (fst r))"
    and "hs_finalized (fst (f (fst r))) \<or> rw_head (hs_terminal (fst (f (fst r)))) \<le> rw_head (hs_terminal h) + 1"
  shows "fine env A c q h (then_do r f)"
  using assms traced_then by (auto simp: fine_def Un_assoc)

lemma fine_after:
  assumes "traced env A h (h1, outs)" and "shown outs = {}" and "fine env A c q h1 (f h1)"
    and "hs_finalized (fst (f h1)) \<or> rw_head (hs_terminal (fst (f h1))) \<le> rw_head (hs_terminal h) + 1"
  shows "fine env A c q h (then_do (h1, outs) f)"
  by (rule fine_then) (use assms in simp_all)

lemma fine_settled: "fine env A c False h r \<Longrightarrow> hs_finalized (fst r) \<Longrightarrow> fine env A c q h r"
  by (simp add: fine_def kept_def)

lemma traced_quiet:
  assumes "good env A (hs_disk h, hs_row h)" and "shown outs \<subseteq> A"
    and "\<forall>out \<in> set outs. (\<nexists>ops. out = HDisk ops) \<and> (\<nexists>row. out = HRow row)"
    and "hs_disk h' = hs_disk h" and "hs_row h' = hs_row h"
  shows "traced env A h (h', outs)"
proof -
  have "durable outs x = x" if "\<forall>out \<in> set outs. (\<nexists>ops. out = HDisk ops) \<and> (\<nexists>row. out = HRow row)" for outs x
    using that
  proof (induction outs)
    case (Cons out outs)
    then show ?case by (cases out) auto
  qed simp
  moreover have "safe_trace env A x outs"
    if "good env A x" "shown outs \<subseteq> A" "\<forall>out \<in> set outs. (\<nexists>ops. out = HDisk ops) \<and> (\<nexists>row. out = HRow row)" for x outs
    using that
  proof (induction outs)
    case (Cons out outs)
    then have "A \<union> shown_one out = A" by auto
    with Cons show ?case by (cases out) auto
  qed simp
  ultimately show ?thesis using assms by (simp add: traced_def)
qed

lemma traced_row:
  "good env A (hs_disk h, hs_row h) \<Longrightarrow> good env A (hs_disk h, row) \<Longrightarrow> hs_disk h' = hs_disk h \<Longrightarrow> hs_row h' = row \<Longrightarrow>
     traced env A h (h', [HRow row])"
  by (simp add: traced_def)

lemma append_kept:
  assumes "env_laws env" and "kept env A c q h" and "\<not> hs_finalized h" and "written = None"
    and "record_ok r" and "record_seq r = rw_head (hs_terminal h) + 1" and "append_record env written r h = (s, ok)"
  shows "traced env A h s" and "snd s = [HDisk (fst (journal_append env (length (serialize env r)) r (hs_disk h)))]"
    and "\<exists>d. fst s = h\<lparr>hs_disk := d\<rparr> \<and>
      (if ok then holds env (insert r A) (record_seq r) (\<not> is_final r) c d (hs_row h)
       else holds env A (rw_head (hs_terminal h)) True c d (hs_row h))"
proof -
  obtain ops res where result: "journal_append env (length (serialize env r)) r (hs_disk h) = (ops, res)"
    by fastforce
  have s: "s = (h\<lparr>hs_disk := do_ops ops (hs_disk h)\<rparr>, [HDisk ops])" and ok: "ok \<longleftrightarrow> res = Inr ()"
    using assms(4,7) result by (auto simp: append_record_def Let_def)
  have held: "holds env A (rw_head (hs_terminal h)) True c (hs_disk h) (hs_row h)"
    using assms(2,3) by (auto simp: kept_def)
  show "traced env A h s"
    using append_holds(1) [OF assms(1) held assms(5,6) result] by (simp add: traced_def s)
  show "snd s = [HDisk (fst (journal_append env (length (serialize env r)) r (hs_disk h)))]"
    by (simp add: s result)
  show "\<exists>d. fst s = h\<lparr>hs_disk := d\<rparr> \<and>
      (if ok then holds env (insert r A) (record_seq r) (\<not> is_final r) c d (hs_row h)
       else holds env A (rw_head (hs_terminal h)) True c d (hs_row h))"
    using append_holds(2) [OF assms(1) held assms(5,6) result] assms(6)
    by (auto simp: s ok split: if_splits intro!: exI)
qed

lemma fine_quiet:
  assumes "kept env B c q h'" and "A \<union> shown outs \<subseteq> B"
    and "\<forall>out \<in> set outs. (\<nexists>ops. out = HDisk ops) \<and> (\<nexists>row. out = HRow row)"
    and "hs_disk h' = hs_disk h" and "hs_row h' = hs_row h"
    and "hs_finalized h' \<or> rw_head (hs_terminal h') \<le> rw_head (hs_terminal h) + 1"
  shows "fine env A c q h (h', outs)"
proof -
  have "good env B (hs_disk h, hs_row h)" using kept_good [OF assms(1)] assms(4,5) by simp
  then have "traced env B h (h', outs)" using assms by (intro traced_quiet) auto
  then show ?thesis
    using assms traced_mono [of env B] kept_mono [OF assms(1,2)] by (auto simp: fine_def)
qed

lemma finalize_row_live:
  "live_row row \<Longrightarrow> finalize_row fs n row = row\<lparr>rw_lifecycle := fs_lifecycle fs, rw_head := n, rw_exit_code := fs_code fs,
     rw_exit_signal := fs_signal fs, rw_reason := fs_reason fs, rw_revision := rw_revision row + 1\<rparr>"
  by (simp add: finalize_row_def live_row_def)

lemma finalize_fine:
  assumes "env_laws env" and "kept env A c q h" and "hi_final io = None" and "c \<longrightarrow> hi_finalize io"
    and "final_state (fs_lifecycle fs)" and "hs_finalized h \<or> rw_head (hs_terminal h) + 1 \<le> max_safe_integer"
  shows "fine env A c q h (finalize env io fs h)" and "hs_finalized (fst (finalize env io fs h))"
proof -
  have "fine env A c q h (finalize env io fs h) \<and> hs_finalized (fst (finalize env io fs h))"
  proof (cases "hs_finalized h")
    case True
    then show ?thesis using assms(2) fine_quiet [OF assms(2), of A "[]" h] by (simp add: finalize_def)
  next
    case False
    let ?n = "rw_head (hs_terminal h)" and ?h = "h\<lparr>hs_finalized := True\<rparr>"
    let ?r = "JFinal (?n + 1) (fs_lifecycle fs) (fs_code fs) (fs_signal fs) (fs_reason fs)"
    have held: "holds env A ?n True c (hs_disk h) (hs_row h)" and live: "live_row (hs_terminal h)" "live_row (hs_row h)"
      and n: "0 \<le> ?n" and agree: "c \<longrightarrow> hs_row h = hs_terminal h \<and> rw_head (hs_row h) = ?n"
      using assms(2) False by (auto simp: kept_def)
    have ok: "record_ok ?r" "record_seq ?r = ?n + 1"
      using assms(5,6) False n by (auto simp: record_ok_def is_safe_integer_def final_state_def)
    obtain ops res where result: "journal_append env (length (serialize env ?r)) ?r (hs_disk h) = (ops, res)"
      by fastforce
    let ?d = "do_ops ops (hs_disk h)" and ?ok = "res = Inr ()"
    let ?h1 = "?h\<lparr>hs_disk := ?d\<rparr>"
    have app: "append_record env (hi_final io) ?r ?h = ((?h1, [HDisk ops]), ?ok)"
      by (simp add: append_record_def assms(3) result)
    note appended = append_holds [OF assms(1) held ok result]
    let ?m = "if ?ok then ?n + 1 else ?n" and ?B = "if ?ok then insert ?r A else A"
    have after: "holds env ?B ?m False c ?d (hs_row h)"
      using appended(2) holds_weaken [of env "insert ?r A"] holds_weaken [of env A] by (simp split: if_splits)
    let ?status = "if ?ok then fs else \<lparr>fs_lifecycle = LifecycleFailed, fs_code = None, fs_signal = None,
      fs_reason = Some ''history_write_failed''\<rparr>"
    let ?row = "finalize_row ?status ?m (hs_row h)"
    have row: "rw_head ?row = ?m" "rw_floor ?row = rw_floor (hs_row h)"
      by (simp_all add: finalize_row_live [OF live(2)])
    have committed: "holds env ?B ?m False c ?d ?row"
      by (rule holds_row [OF after]) (simp_all add: row)
    let ?tail = "\<lambda>h2. (h2\<lparr>hs_terminal := ?row\<rparr>, (if ?ok \<and> hs_persistent h then [HAcknowledge] else []) @
      [HSummary, HFinalized] @ (if ?ok then [HBroadcast ?r] else [HStatus]))"
    let ?rest = "\<lambda>h1. if \<not> hi_finalize io then (h1, [HFinalized, HThrow ''terminal_finalize_failed''])
      else then_do (commit_row ?row h1) ?tail"
    have unfold_finalize: "finalize env io fs h = then_do (?h1, [HDisk ops]) ?rest"
      using False live(1) unfolding finalize_def Let_def app by (simp add: live_row_def then_do_def commit_row_def)
    have first: "traced env A h (?h1, [HDisk ops])"
      using appended(1) by (simp add: traced_def)
    have "fine env ?B c q ?h1 (?rest ?h1)"
    proof (cases "hi_finalize io")
      case db: False
      then have "\<not> c" using assms(4) by simp
      then have "kept env ?B c q ?h1" using after by (auto simp: kept_def)
      then show ?thesis using db by (auto intro!: fine_quiet)
    next
      case db: True
      let ?h2 = "?h1\<lparr>hs_row := ?row\<rparr>"
      have "kept env ?B c q (?h2\<lparr>hs_terminal := ?row\<rparr>)"
        using committed row(1) by (auto simp: kept_def)
      then have "fine env ?B c q ?h2 (?tail ?h2)"
        by (rule fine_quiet) (auto split: if_splits)
      moreover have "traced env ?B ?h1 (commit_row ?row ?h1)"
        unfolding commit_row_def
        by (rule traced_row) (use holds_good [OF after] holds_good [OF committed] in simp_all)
      ultimately show ?thesis
        using db by (simp add: fine_then commit_row_def)
    qed
    then have rest: "fine env A c q ?h1 (?rest ?h1)" by (rule fine_mono) auto
    have fin: "hs_finalized (fst (?rest ?h1))" by (simp add: commit_row_def)
    have "fine env A c q h (then_do (?h1, [HDisk ops]) ?rest)"
      by (rule fine_after [where f = ?rest, OF first _ rest disjI1 [OF fin]]) simp
    moreover have "hs_finalized (fst (then_do (?h1, [HDisk ops]) ?rest))"
      unfolding fst_then_do fst_conv by (rule fin)
    ultimately show ?thesis unfolding unfold_finalize by (rule conjI)
  qed
  then show "fine env A c q h (finalize env io fs h)" "hs_finalized (fst (finalize env io fs h))" by simp_all
qed

lemma fail_fine:
  assumes "env_laws env" and "kept env A c q h" and "hi_final io = None" and "c \<longrightarrow> hi_finalize io"
    and "hs_finalized h \<or> rw_head (hs_terminal h) + 1 \<le> max_safe_integer"
  shows "fine env A c q h (fail_history_write env io h)" and "hs_finalized (fst (fail_history_write env io h))"
proof -
  have final: "final_state (fs_lifecycle history_write_failed)"
    by (simp add: final_state_def history_write_failed_def)
  note fin = finalize_fine [OF assms(1-4) final assms(5)]
  have "traced env A h (h, [HKill])"
    by (rule traced_quiet [OF kept_good [OF assms(2)]]) simp_all
  then show "fine env A c q h (fail_history_write env io h)"
    unfolding fail_history_write_def by (rule fine_after) (use fin in simp_all)
  show "hs_finalized (fst (fail_history_write env io h))"
    using fin(2) by (simp add: fail_history_write_def)
qed

lemma checkpoint_kept:
  assumes "env_laws env" and "kept env A c q h" and "\<not> hs_finalized h" and "c \<longrightarrow> hi_floor io"
    and "rw_head (hs_terminal h) \<le> max_safe_integer" and "write_checkpoint env io h = (s, ok)"
  shows "traced env A h s \<and> kept env A c q (fst s) \<and> shown (snd s) = {} \<and> \<not> hs_finalized (fst s) \<and>
    rw_head (hs_terminal (fst s)) = rw_head (hs_terminal h)"
proof (cases "rw_head (hs_terminal h) \<le> rw_floor (hs_terminal h)")
  case True
  then have "s = (h, [])" using assms(6) by (simp add: write_checkpoint_def)
  then show ?thesis
    using assms(2,3) traced_quiet [OF kept_good [OF assms(2)], of "[]" h] by simp
next
  case False
  let ?t = "hs_terminal h"
  let ?cp = "\<lparr>cp_seq = rw_head ?t, cp_rows = rw_rows ?t, cp_columns = rw_columns ?t, cp_bytes = hi_snapshot io, cp_sha = []\<rparr>"
  have held: "holds env A (rw_head ?t) True c (hs_disk h) (hs_row h)" and live: "live_row ?t" "live_row (hs_row h)"
    and n: "0 \<le> rw_head ?t" and agree: "c \<longrightarrow> hs_row h = ?t" and low: "rw_head (hs_row h) \<le> rw_head ?t"
    using assms(2,3) by (auto simp: kept_def holds_def)
  obtain ops res where result: "journal_compact env (hi_checkpoint_file io) (hi_journal_file io) ?cp [] (hs_disk h) = (ops, res)"
    by fastforce
  let ?d = "do_ops ops (hs_disk h)"
  have bounds: "is_safe_integer (rw_head ?t)" "1 \<le> rw_head ?t" "cp_seq ?cp = rw_head ?t" "1 \<le> cp_rows ?cp"
    "cp_rows ?cp \<le> 256" "2 \<le> cp_columns ?cp" "cp_columns ?cp \<le> 512"
    using assms(5) False live(1) by (auto simp: live_row_def size_ok_def is_safe_integer_def)
  note compacted = compact_holds [OF assms(1) held bounds result]
  have disk: "traced env A h (h\<lparr>hs_disk := ?d\<rparr>, [HDisk ops])"
    using compacted(1) by (simp add: traced_def)
  have stay: "?thesis" if s: "s = (h\<lparr>hs_disk := ?d\<rparr>, [HDisk ops])" and h: "holds env A (rw_head ?t) True c ?d (hs_row h)"
    using assms(2,3) disk h by (auto simp: s kept_def)
  have free: "holds env A (rw_head ?t) True c ?d (hs_row h)" if "res = Inr cp" "\<not> c" for cp
    using compacted(2) that low by simp
  show ?thesis
  proof (cases res)
    case (Inl e)
    then show ?thesis
      using assms(6) result False compacted(2) by (intro stay) (auto simp: write_checkpoint_def Let_def)
  next
    case (Inr cp)
    show ?thesis
    proof (cases "hi_floor io \<and> rw_floor (hs_row h) < rw_head ?t \<and> rw_head ?t \<le> rw_head (hs_row h)")
      case True
      let ?row = "(hs_row h)\<lparr>rw_floor := rw_head ?t\<rparr>"
      let ?h = "h\<lparr>hs_disk := ?d, hs_row := ?row, hs_terminal := ?row, hs_bytes := 0, hs_records := 0\<rparr>"
      have s: "s = (?h, [HDisk ops, HRow ?row])"
        using assms(6) result False Inr True by (auto simp: write_checkpoint_def Let_def advance_history_floor_def)
      have row: "holds env A (rw_head ?t) True c ?d ?row"
        using compacted(2) Inr low by simp
      moreover have "good env A (?d, hs_row h)"
        using disk compacted(1) safe_trace_good [of env "A \<union> {}" "(?d, hs_row h)" "[]"] by simp
      ultimately have "traced env A h s"
        using compacted(1) holds_good [OF row] by (simp add: s traced_def)
      moreover have "rw_head (hs_row h) = rw_head ?t" using True low by simp
      ultimately show ?thesis
        using row live n assms(3) by (auto simp: s kept_def live_row_def size_ok_def)
    next
      case no: False
      then have "\<not> c" using assms(4) agree False by auto
      moreover have "s = (h\<lparr>hs_disk := ?d\<rparr>, [HDisk ops])"
        using assms(6) result False Inr no
        by (auto simp: write_checkpoint_def Let_def advance_history_floor_def split: if_splits)
      ultimately show ?thesis using free [OF Inr] by (intro stay) simp_all
    qed
  qed
qed

lemma publish_fine:
  assumes "env_laws env" and "kept env A c q h" and "\<not> hs_finalized h" and "r \<in> A"
    and "hi_final io = None" and "c \<longrightarrow> io_clean io" and "rw_head (hs_terminal h) + 1 \<le> max_safe_integer"
  shows "fine env A c q h (publish_record env io due r h)"
    and "hs_finalized (fst (publish_record env io due r h)) \<or>
      rw_head (hs_terminal (fst (publish_record env io due r h))) = rw_head (hs_terminal h)"
proof -
  have here: "fine env A c q h (h, [HBroadcast r])" if "kept env A c q h" for h
    by (rule fine_quiet [OF that]) (use assms(4) in simp_all)
  have clean: "c \<longrightarrow> hi_floor io" "c \<longrightarrow> hi_finalize io"
    using assms(6) by (simp_all add: io_clean_def)
  have "fine env A c q h (publish_record env io due r h) \<and> (hs_finalized (fst (publish_record env io due r h)) \<or>
      rw_head (hs_terminal (fst (publish_record env io due r h))) = rw_head (hs_terminal h))"
  proof (cases due)
    case True
    obtain h1 outs ok where w: "write_checkpoint env io h = ((h1, outs), ok)" by (metis surj_pair)
    have kept: "traced env A h (h1, outs)" "kept env A c q h1" "shown outs = {}" "\<not> hs_finalized h1"
      "rw_head (hs_terminal h1) = rw_head (hs_terminal h)"
      using checkpoint_kept [OF assms(1-3) clean(1) _ w] assms(7) by simp_all
    note failed = fail_fine [OF assms(1) kept(2) assms(5) clean(2)]
    let ?f = "\<lambda>h1. if ok then (h1, [HBroadcast r]) else fail_history_write env io h1"
    have "fine env A c q h1 (?f h1)" "hs_finalized (fst (?f h1)) \<or> rw_head (hs_terminal (fst (?f h1))) = rw_head (hs_terminal h)"
      using here [OF kept(2)] failed kept(5) assms(7) by auto
    moreover have "publish_record env io due r h = then_do (h1, outs) ?f"
      using True w by (simp add: publish_record_def)
    moreover have "fine env A c q h (then_do (h1, outs) ?f)"
      by (rule fine_after [where f = ?f, OF kept(1,3)]) (use calculation(1,2) in auto)
    ultimately show ?thesis by (simp only: fst_then_do fst_conv simp_thms)
  next
    case False
    then show ?thesis using here [OF assms(2)] by (simp add: publish_record_def)
  qed
  then show "fine env A c q h (publish_record env io due r h)"
    "hs_finalized (fst (publish_record env io due r h)) \<or>
      rw_head (hs_terminal (fst (publish_record env io due r h))) = rw_head (hs_terminal h)"
    by simp_all
qed

text \<open>What output and resize share: append, move the heads, commit the row, publish.\<close>

definition record_step ::
  "journal_env \<Rightarrow> history_io \<Rightarrow> journal_record \<Rightarrow> terminal_row \<Rightarrow> terminal_row \<Rightarrow> (history \<Rightarrow> history) \<Rightarrow> (history \<Rightarrow> bool) \<Rightarrow>
     history \<Rightarrow> history_step" where
  "record_step env io r t row after due h =
     (let res = append_record env (hi_append io) r h
      in then_do (fst res) (\<lambda>h1.
           if \<not> snd res then fail_history_write env io h1
           else let h2 = h1\<lparr>hs_terminal := t\<rparr>
           in if \<not> hi_update io then fail_history_write env io h2
              else then_do (commit_row row h2) (\<lambda>h3. publish_record env io (due (after h3)) r (after h3))))"

lemma record_step_fine:
  assumes "env_laws env" and "kept env A c True h" and "\<not> hs_finalized h" and "io_whole io" and "c \<longrightarrow> io_clean io"
    and "record_ok r" and "record_seq r = rw_head (hs_terminal h) + 1" and "\<not> is_final r"
    and "live_row t" and "rw_head t = record_seq r"
    and "live_row row" and "rw_head row = record_seq r" and "rw_floor row = rw_floor (hs_row h)"
    and after: "\<And>g. hs_disk (after g) = hs_disk g" "\<And>g. hs_row (after g) = hs_row g"
      "\<And>g. hs_finalized (after g) = hs_finalized g"
    and terminal: "\<And>g. hs_row g = row \<Longrightarrow> hs_terminal g = t \<Longrightarrow>
      live_row (hs_terminal (after g)) \<and> rw_head (hs_terminal (after g)) = record_seq r \<and> hs_terminal (after g) = row"
    and "rw_head (hs_terminal h) + 2 \<le> max_safe_integer"
  shows "fine env A c True h (record_step env io r t row after due h)"
proof -
  let ?n = "rw_head (hs_terminal h)"
  obtain s ok where app: "append_record env (hi_append io) r h = (s, ok)" by fastforce
  have whole: "hi_append io = None" "hi_final io = None" using assms(4) by (simp_all add: io_whole_def)
  note appended = append_kept [OF assms(1-3) whole(1) assms(6,7) app]
  obtain d where d: "fst s = h\<lparr>hs_disk := d\<rparr>" and held: "if ok then holds env (insert r A) (?n + 1) True c d (hs_row h)
      else holds env A ?n True c d (hs_row h)"
    using appended(3) assms(7,8) by (auto split: if_splits)
  let ?h1 = "h\<lparr>hs_disk := d\<rparr>"
  obtain outs where s: "s = (?h1, outs)" "shown outs = {}"
    using d appended(2) by (cases s) auto
  have traced: "traced env A h (?h1, outs)" using appended(1) s by simp
  have base: "live_row (hs_terminal h)" "live_row (hs_row h)" "0 \<le> ?n" "hs_row h = hs_terminal h \<and> rw_head (hs_row h) = ?n"
    using assms(2,3) by (auto simp: kept_def)
  have clean: "c \<longrightarrow> hi_finalize io" "c \<longrightarrow> hi_update io" using assms(5) by (simp_all add: io_clean_def)
  let ?h2 = "?h1\<lparr>hs_terminal := t\<rparr>" and ?h3 = "?h1\<lparr>hs_terminal := t, hs_row := row\<rparr>"
  let ?rest = "\<lambda>h1. if \<not> ok then fail_history_write env io h1
      else let h2 = h1\<lparr>hs_terminal := t\<rparr>
           in if \<not> hi_update io then fail_history_write env io h2
              else then_do (commit_row row h2) (\<lambda>h3. publish_record env io (due (after h3)) r (after h3))"
  have "fine env A c True ?h1 (?rest ?h1) \<and>
      (hs_finalized (fst (?rest ?h1)) \<or> rw_head (hs_terminal (fst (?rest ?h1))) \<le> ?n + 1)"
  proof (cases ok)
    case False
    then have "kept env A c True ?h1"
      using held base assms(3) by (auto simp: kept_def)
    then show ?thesis
      using False fail_fine [OF assms(1) _ whole(2) clean(1)] assms(18) by auto
  next
    case True
    have held2: "holds env (insert r A) (?n + 1) True c d (hs_row h)" using held True by simp
    show ?thesis
    proof (cases "hi_update io")
      case False
      then have c: "\<not> c" using clean(2) by simp
      then have kept: "kept env (insert r A) c False ?h2"
        using held2 base assms(3,7,9,10) by (auto simp: kept_def)
      note failed = fail_fine [OF assms(1) kept whole(2) clean(1)]
      have fin: "hs_finalized (fst (fail_history_write env io ?h2))"
        using failed assms(7,10,18) by simp
      have "fine env (insert r A) c False ?h2 (fail_history_write env io ?h2)"
        using failed assms(7,10,18) by simp
      then have "fine env (insert r A) c True ?h2 (fail_history_write env io ?h2)"
        using fin by (rule fine_settled)
      moreover have "traced env (insert r A) ?h1 (fail_history_write env io ?h2)"
        using calculation(1) by (simp add: fine_def traced_def)
      ultimately have "fine env (insert r A) c True ?h1 (fail_history_write env io ?h2)"
        using fin by (simp add: fine_def)
      then have "fine env A c True ?h1 (fail_history_write env io ?h2)" by (rule fine_mono) auto
      then show ?thesis
        using True False fin by simp
    next
      case upd: True
      have row: "holds env (insert r A) (?n + 1) True c d row"
        by (rule holds_row [OF held2]) (use assms(7,12,13) in simp_all)
      have "live_row (hs_terminal (after ?h3)) \<and> rw_head (hs_terminal (after ?h3)) = record_seq r \<and>
          hs_terminal (after ?h3) = row"
        by (rule terminal) simp_all
      then have kept: "kept env (insert r A) c True (after ?h3)" and head: "rw_head (hs_terminal (after ?h3)) = ?n + 1"
        using row base(3) assms(3,7,11,12) by (auto simp: kept_def after)
      have fin: "\<not> hs_finalized (after ?h3)" using assms(3) by (simp add: after)
      let ?p = "publish_record env io (due (after ?h3)) r (after ?h3)"
      note pub = publish_fine [OF assms(1) kept fin _ whole(2) assms(5), of r "due (after ?h3)"]
      have p: "fine env (insert r A) c True (after ?h3) ?p"
        "hs_finalized (fst ?p) \<or> rw_head (hs_terminal (fst ?p)) = ?n + 1"
        using pub head assms(18) by simp_all
      have "traced env (insert r A) ?h1 (commit_row row ?h2)"
        unfolding commit_row_def
        by (rule traced_row) (use holds_good [OF held2] holds_good [OF row] in simp_all)
      moreover have "traced env (insert r A) ?h3 ?p"
        using p(1) by (simp add: fine_def traced_def after)
      ultimately have "traced env (insert r A) ?h1 (then_do (commit_row row ?h2) (\<lambda>h3. publish_record env io (due (after h3)) r (after h3)))"
        by (intro traced_then) (simp_all add: commit_row_def)
      then have "fine env (insert r A) c True ?h1 (then_do (commit_row row ?h2) (\<lambda>h3. publish_record env io (due (after h3)) r (after h3)))"
        using p by (auto simp: fine_def commit_row_def)
      then have "fine env A c True ?h1 (then_do (commit_row row ?h2) (\<lambda>h3. publish_record env io (due (after h3)) r (after h3)))"
        by (rule fine_mono) auto
      then show ?thesis
        using True upd p(2) by (auto simp: commit_row_def)
    qed
  qed
  then have "fine env A c True h (then_do (?h1, outs) ?rest)"
    by (elim conjE) (rule fine_after [where f = ?rest, OF traced s(2)])
  moreover have "record_step env io r t row after due h = then_do (?h1, outs) ?rest"
    unfolding record_step_def app s(1) by (simp only: Let_def fst_conv snd_conv)
  ultimately show ?thesis by simp
qed

lemma append_record_form: "\<exists>d ops ok. append_record env w r h = ((h\<lparr>hs_disk := d\<rparr>, [HDisk ops]), ok)"
  unfolding append_record_def Let_def by blast

lemma record_output_step:
  assumes "\<not> hs_finalized h" and "\<not> hs_detached h" and "bs \<noteq> []"
  shows "record_output env io bs h = record_step env io (JOutput (rw_head (hs_terminal h) + 1) bs)
    ((hs_terminal h)\<lparr>rw_head := rw_head (hs_terminal h) + 1\<rparr>) (update_head (rw_head (hs_terminal h) + 1) (hs_row h))
    (\<lambda>g. g\<lparr>hs_bytes := hs_bytes g + int (length bs), hs_records := hs_records g + 1\<rparr>)
    (\<lambda>g. hi_erased io \<or> checkpoint_after_bytes \<le> hs_bytes g \<or> checkpoint_after_records \<le> hs_records g) h"
proof -
  obtain d ops ok where app: "append_record env (hi_append io) (JOutput (rw_head (hs_terminal h) + 1) bs) h =
      ((h\<lparr>hs_disk := d\<rparr>, [HDisk ops]), ok)"
    using append_record_form by blast
  show ?thesis
    using assms unfolding record_output_def record_step_def app Let_def app by (simp add: then_do_def)
qed

lemma record_resize_step:
  assumes "\<not> hs_finalized h" and "\<not> hs_detached h"
  shows "record_resize env io rows columns h = record_step env io (JResize (rw_head (hs_terminal h) + 1) rows columns)
    ((hs_terminal h)\<lparr>rw_rows := rows, rw_columns := columns, rw_head := rw_head (hs_terminal h) + 1\<rparr>)
    (resize_row rows columns (rw_head (hs_terminal h) + 1) (hs_row h))
    (\<lambda>g. g\<lparr>hs_terminal := resize_row rows columns (rw_head (hs_terminal h) + 1) (hs_row h), hs_records := hs_records g + 1\<rparr>)
    (\<lambda>g. checkpoint_after_records \<le> hs_records g) h"
proof -
  obtain d ops ok where app: "append_record env (hi_append io) (JResize (rw_head (hs_terminal h) + 1) rows columns) h =
      ((h\<lparr>hs_disk := d\<rparr>, [HDisk ops]), ok)"
    using append_record_form by blast
  show ?thesis
    using assms unfolding record_resize_def record_step_def app Let_def app by (simp add: then_do_def commit_row_def)
qed

lemma event_fine:
  assumes "env_laws env" and "kept env A c True h" and "event_ok ev" and "c \<longrightarrow> event_clean ev"
    and "rw_head (hs_terminal h) + 2 \<le> max_safe_integer \<or> hs_finalized h"
  shows "fine env A c True h (history_event_step env ev h)"
proof -
  have skip: "fine env A c True h (h, [])"
    using fine_quiet [OF assms(2), of A "[]" h] by simp
  have base: "live_row (hs_terminal h)" "0 \<le> rw_head (hs_terminal h)" "hs_row h = hs_terminal h"
    if "\<not> hs_finalized h"
    using assms(2) that by (auto simp: kept_def)
  show ?thesis
  proof (cases ev)
    case (HvOutput io bs)
    then have io: "io_whole io" "c \<longrightarrow> io_clean io"
      using assms(3,4) by (simp_all add: event_ok_def event_clean_def event_io_def)
    show ?thesis
    proof (cases "hs_finalized h \<or> hs_detached h \<or> bs = []")
      case True
      then show ?thesis using skip HvOutput by (auto simp: history_event_step_def record_output_def)
    next
      case False
      have "fine env A c True h (record_output env io bs h)"
        using False base assms(5)
        by (subst record_output_step) (auto intro!: record_step_fine [OF assms(1,2) _ io]
            simp: record_ok_def is_final_def live_row_def size_ok_def is_safe_integer_def update_head_def)
      then show ?thesis using HvOutput by (simp add: history_event_step_def)
    qed
  next
    case (HvResize io rows columns)
    then have io: "io_whole io" "c \<longrightarrow> io_clean io"
      and size: "1 \<le> rows" "rows \<le> 256" "2 \<le> columns" "columns \<le> 512"
      using assms(3,4) by (simp_all add: event_ok_def event_clean_def event_io_def)
    show ?thesis
    proof (cases "hs_finalized h \<or> hs_detached h")
      case True
      then show ?thesis using skip HvResize by (auto simp: history_event_step_def record_resize_def)
    next
      case False
      have "fine env A c True h (record_resize env io rows columns h)"
        using False base assms(5) size
        by (subst record_resize_step) (auto intro!: record_step_fine [OF assms(1,2) _ io]
            simp: record_ok_def is_final_def live_row_def size_ok_def is_safe_integer_def resize_row_def)
      then show ?thesis using HvResize by (simp add: history_event_step_def)
    qed
  next
    case (HvExit io e)
    have "final_state (fs_lifecycle (exit_status e))"
      by (simp add: exit_status_def final_state_def)
    then show ?thesis
      using HvExit finalize_fine(1) [OF assms(1,2), of io "exit_status e"] assms(3-5)
      by (auto simp: history_event_step_def event_ok_def event_clean_def event_io_def io_whole_def io_clean_def)
  next
    case (HvFail io fs)
    then show ?thesis
      using finalize_fine(1) [OF assms(1,2), of io fs] assms(3-5)
      by (auto simp: history_event_step_def event_ok_def event_clean_def event_io_def io_whole_def io_clean_def)
  next
    case (HvStopping revision)
    have quiet: "fine env A c True h (h, outs)" if "outs \<in> {[], [HStatus], [HThrow e]}" for outs e
      by (rule fine_quiet [OF assms(2)]) (use that in auto)
    show ?thesis
    proof (cases "rw_lifecycle (hs_terminal h) = Stopping \<or> rw_lifecycle (hs_row h) \<noteq> Running \<or> rw_revision (hs_row h) \<noteq> revision")
      case True
      then show ?thesis
        using quiet HvStopping by (auto simp: history_event_step_def begin_stopping_def mark_stopping_def)
    next
      case False
      let ?row = "(hs_row h)\<lparr>rw_lifecycle := Stopping, rw_revision := rw_revision (hs_row h) + 1\<rparr>"
      obtain n where n: "holds env A n (\<not> hs_finalized h) c (hs_disk h) (hs_row h)"
        "\<not> hs_finalized h \<longrightarrow> n = rw_head (hs_terminal h) \<and> live_row (hs_terminal h) \<and> live_row (hs_row h) \<and> 0 \<le> n"
        "c \<or> \<not> hs_finalized h \<longrightarrow> hs_row h = hs_terminal h \<and> rw_head (hs_row h) = n"
        using assms(2) by (auto simp: kept_def)
      have row: "holds env A n (\<not> hs_finalized h) c (hs_disk h) ?row"
        by (rule holds_row [OF n(1)]) (use n(1) in \<open>auto simp: holds_def\<close>)
      have "kept env A c True (h\<lparr>hs_row := ?row, hs_terminal := ?row\<rparr>)"
        unfolding kept_def using row n by (intro exI [of _ n]) (auto simp: live_row_def size_ok_def final_state_def)
      then have "fine env A c True (h\<lparr>hs_row := ?row\<rparr>) (h\<lparr>hs_row := ?row, hs_terminal := ?row\<rparr>, [HStatus])"
        by (rule fine_quiet) (use n in \<open>auto\<close>)
      moreover have "traced env A h (h\<lparr>hs_row := ?row\<rparr>, [HRow ?row])"
        by (rule traced_row) (use holds_good [OF n(1)] holds_good [OF row] in simp_all)
      moreover have "history_event_step env ev h = then_do (h\<lparr>hs_row := ?row\<rparr>, [HRow ?row])
          (\<lambda>h1. (h1\<lparr>hs_terminal := ?row\<rparr>, [HStatus]))"
        using False HvStopping by (simp add: history_event_step_def begin_stopping_def mark_stopping_def commit_row_def)
      ultimately show ?thesis
        using n by (simp only:) (rule fine_after; auto)
    qed
  qed
qed

lemma run_fine:
  assumes "env_laws env"
  shows "kept env A c True h \<Longrightarrow> \<forall>ev \<in> set evs. event_ok ev \<and> (c \<longrightarrow> event_clean ev) \<Longrightarrow>
    hs_finalized h \<or> rw_head (hs_terminal h) + int (length evs) + 1 \<le> max_safe_integer \<Longrightarrow>
    traced env A h (run_history env evs h) \<and> kept env (A \<union> shown (snd (run_history env evs h))) c True (fst (run_history env evs h))"
proof (induction evs arbitrary: A h)
  case Nil
  then show ?case using traced_quiet [OF kept_good [OF Nil.prems(1)], of "[]" h] by (simp add: run_history_def)
next
  case (Cons ev evs)
  let ?s = "history_event_step env ev h"
  have step: "fine env A c True h ?s"
    using event_fine [OF assms Cons.prems(1), of ev] Cons.prems(2,3) by auto
  have later: "hs_finalized (fst ?s) \<or> rw_head (hs_terminal (fst ?s)) + int (length evs) + 1 \<le> max_safe_integer"
  proof (cases "hs_finalized h")
    case True
    then have "hs_finalized (fst ?s)"
      by (cases ev) (auto simp: history_event_step_def record_output_def record_resize_def finalize_def
          begin_stopping_def commit_row_def split: sum.splits)
    then show ?thesis ..
  next
    case False
    then show ?thesis using step Cons.prems(3) by (auto simp: fine_def)
  qed
  have "traced env (A \<union> shown (snd ?s)) (fst ?s) (run_history env evs (fst ?s)) \<and>
    kept env (A \<union> shown (snd ?s) \<union> shown (snd (run_history env evs (fst ?s)))) c True (fst (run_history env evs (fst ?s)))"
    by (rule Cons.IH) (use step later Cons.prems(2) in \<open>auto simp: fine_def\<close>)
  then show ?case
    using step traced_then [of env A h ?s "run_history env evs"]
    by (simp add: run_history_def fine_def Un_assoc)
qed

definition starts :: "journal_env \<Rightarrow> journal_state \<Rightarrow> disk \<Rightarrow> terminal_row \<Rightarrow> bool" where
  "starts env st d row \<longleftrightarrow> stores env st d \<and> rw_head row = js_head st \<and> rw_floor row = cp_seq (js_checkpoint st) \<and>
     live_row row \<and> (js_records st \<noteq> [] \<longrightarrow> \<not> is_final (last (js_records st)))"

lemma starts_kept: "starts env st d row \<Longrightarrow> kept env {} c True (new_history row persistent d)"
  using head_at_least [of env st d]
  by (auto simp: starts_def kept_def new_history_def holds_def held_def live_row_def)

lemma interrupted_head [simp]: "rw_head (recover_interrupted here row) = rw_head row"
  by (simp add: recover_interrupted_def)

lemma reconcile_simps [simp]:
  "rw_head (reconcile_row n f r c fin row) = n" "rw_floor (reconcile_row n f r c fin row) = f"
  by (simp_all add: reconcile_row_def Let_def split: option.splits)

lemma good_recovers:
  assumes "good env A (d, row)"
  shows "\<exists>st. stores env st (fst (recover_terminal env here d row)) \<and> held st A \<and>
    rw_head (snd (recover_terminal env here d row)) = js_head st \<and>
    rw_floor (snd (recover_terminal env here d row)) = cp_seq (js_checkpoint st)"
proof -
  obtain st d' where st: "journal_read env d = (d', Inr st)" "stores env st d'" "held st A" "rw_head row \<le> js_head st"
    using assms by (auto simp: good_def recovers_def)
  then show ?thesis
    by (auto simp: recover_terminal_def journal_recover_def Let_def)
qed



subsection \<open>The instance\<close>

lemma length_show_nat: "n < 10 ^ Suc k \<Longrightarrow> length (show_nat n) \<le> Suc k"
proof (induction k arbitrary: n)
  case 0
  then show ?case by (subst show_nat.simps) simp
next
  case (Suc k)
  have "length (show_nat (n div 10)) \<le> Suc k"
    using Suc.prems by (intro Suc.IH) (simp add: less_mult_imp_div_less)
  then show ?case by (subst show_nat.simps) simp
qed

lemma length_show_int: "1 \<le> i \<Longrightarrow> i \<le> max_safe_integer \<Longrightarrow> length (show_int i) \<le> 16"
proof -
  assume "1 \<le> i" "i \<le> max_safe_integer"
  then have "nat i < 10 ^ Suc 15" by (simp add: max_safe_integer_def nat_less_iff)
  then show ?thesis using length_show_nat [of "nat i" 15] \<open>1 \<le> i\<close> by (simp add: show_int_def)
qed

lemma length_show_small: "1 \<le> i \<Longrightarrow> i \<le> 512 \<Longrightarrow> length (show_int i) \<le> 3"
  using length_show_nat [of "nat i" 2] by (simp add: show_int_def nat_less_iff)

lemma plain_base64: "list_all plain_char (to_base64url bs)"
proof -
  have "plain_char (base64_char n)" if "n < 64" for n
    using below_64_cases [OF that] by (auto simp: plain_char_def base64_char_def)
  then show ?thesis
    using sextets_below [of bs] by (simp add: to_base64url_def list_all_iff)
qed

lemma length_ascii [simp]: "length (ascii s) = length s"
  by (simp add: ascii_def)

lemma length_flat_field [simp]: "length (flat_field (k, v)) = 2 * length k + 1 + length (flat_value v)"
  by (simp add: flat_field_def)

lemma flat_env_size: "json_size_law (flat_env maximum)"
  unfolding json_size_law_def
proof (intro allI impI)
  fix cp :: checkpoint
  assume cp: "is_safe_integer (cp_seq cp) \<and> 1 \<le> cp_seq cp \<and> 1 \<le> cp_rows cp \<and> cp_rows cp \<le> 256 \<and>
     2 \<le> cp_columns cp \<and> cp_columns cp \<le> 512 \<and> cp_sha cp = je_sha (flat_env maximum) (cp_bytes cp)"
  have sha: "list_all plain_char (replicate 64 (CHR ''0''))"
    by (simp add: list_all_iff plain_char_def)
  have "length (show_int (cp_seq cp)) \<le> 16" "length (show_int (cp_rows cp)) \<le> 3" "length (show_int (cp_columns cp)) \<le> 3"
    using cp length_show_int length_show_small by (auto simp: is_safe_integer_def)
  then show "length (je_stringify (flat_env maximum) (stored_checkpoint (flat_env maximum) cp))
      \<le> 341 + length (to_base64url (cp_bytes cp))"
    using cp sha plain_base64 [of "cp_bytes cp"] length_show_nat [of 1 0]
    by (simp add: flat_env_def stored_checkpoint_def with_checksum_def checkpoint_core_def flat_stringify_def
        show_int_def)
qed

lemma flat_env_ok: "env_laws (flat_env maximum)"
  using flat_env_laws flat_env_size by (simp add: env_laws_def)

definition sample_row :: terminal_row where
  "sample_row = \<lparr>rw_lifecycle = Running, rw_revision = 1, rw_rows = 24, rw_columns = 80, rw_initial_rows = 24,
     rw_initial_columns = 80, rw_floor = 0, rw_head = 0, rw_exit_code = None, rw_exit_signal = None, rw_reason = None\<rparr>"

definition sample_io :: history_io where
  "sample_io = \<lparr>hi_append = None, hi_final = None, hi_checkpoint_file = 500, hi_journal_file = 500,
     hi_update = True, hi_floor = True, hi_finalize = True, hi_erased = False, hi_snapshot = [27, 99]\<rparr>"

definition sample_events :: "history_event list" where
  "sample_events = [HvOutput sample_io [104, 105]]"

lemma sample_starts: "starts (flat_env 100000) (journal_suffix initial_checkpoint []) empty_disk sample_row"
  using empty_stores by (simp add: starts_def sample_row_def live_row_def size_ok_def final_state_def
      journal_suffix_def initial_checkpoint_def)

lemma sample_events_ok: "\<forall>ev \<in> set sample_events. event_ok ev \<and> event_clean ev"
  by (simp add: sample_events_def event_ok_def event_clean_def event_io_def io_whole_def io_clean_def sample_io_def)

definition sample_run :: history_step where
  "sample_run = run_history (flat_env 100000) sample_events (new_history sample_row False empty_disk)"

lemma sample_line: "int (length (serialize (flat_env 100000) (JOutput 1 [104, 105]))) \<le> 100000"
  by code_simp

lemma sample_shown: "HBroadcast (JOutput 1 [104, 105]) \<in> set (snd sample_run)"
proof -
  have fits: "\<not> 100000 < int (length (serialize (flat_env 100000) (JOutput 1 [104, 105])))"
    using sample_line by simp
  have "journal_append (flat_env 100000) (length (serialize (flat_env 100000) (JOutput 1 [104, 105])))
      (JOutput 1 [104, 105]) empty_disk =
    (MakeDirectory # append_ops (length (serialize (flat_env 100000) (JOutput 1 [104, 105])))
      (serialize (flat_env 100000) (JOutput 1 [104, 105])), Inr ())"
    using fits by (simp add: journal_append_def live_files_def empty_disk_def no_files_def file_bytes_def
        flat_env_def Let_def)
  then show ?thesis
    by (simp add: sample_run_def run_history_def sample_events_def history_event_step_def record_output_def
        append_record_def commit_row_def publish_record_def sample_io_def sample_row_def new_history_def
        checkpoint_after_bytes_def checkpoint_after_records_def Let_def)
qed



subsection \<open>Where the journal is fragile\<close>

text \<open>A short write throws, but the torn line stays in the file. A record appended before the next read
  (the final status, when the write failed in the middle of an output) continues that line, and the next
  read takes the whole journal for corrupt. That the joined text is no JSON text is a hypothesis.\<close>

lemma append_after_short_write:
  assumes "json_laws env" and "stores env st d" and "d1 Live \<noteq> None"
    and "live_files d1 CheckpointFile = live_files d CheckpointFile"
    and "file_bytes JournalFile (live_files d1) = file_bytes JournalFile (live_files d) @ torn"
    and "10 \<notin> set torn"
    and "journal_append env written r d1 = (ops, Inr ())"
    and "je_parse env (torn @ je_stringify env (with_checksum env (record_core r))) = None"
  shows "snd (journal_read env (do_ops ops d1)) = Inl ''terminal_journal_corrupt''"
proof -
  let ?content = "file_bytes JournalFile (live_files d)"
    and ?line = "torn @ je_stringify env (with_checksum env (record_core r))"
  have ops: "ops = [MakeDirectory, OpenAppend JournalFile, WriteTo JournalFile (serialize env r)]"
    using assms(7) by (auto simp: journal_append_def append_ops_def Let_def split: if_splits)
  have files: "live_files (do_ops ops d1) CheckpointFile = live_files d CheckpointFile"
    "file_bytes JournalFile (live_files (do_ops ops d1)) = ?content @ ?line @ [10]"
    using assms(3-5) by (simp_all add: ops serialize_def)
  obtain rs where read: "read_checkpoint env (live_files d) = Inr (js_checkpoint st)"
    and whole: "complete_part ?content = ?content"
    and rs: "file_records env (cp_seq (js_checkpoint st)) ?content = Inr rs"
    using assms(2) by (auto simp: stores_def)
  have "file_records env (cp_seq (js_checkpoint st)) (?content @ ?line @ [10]) = Inl ''terminal_journal_corrupt''"
    using file_records_line [OF whole, of ?line] stringified_line [OF assms(1), of r] assms(6,8) rs
    by (simp add: read_line_def)
  moreover have "complete_part (?content @ ?line @ [10]) = ?content @ ?line @ [10]"
    using complete_part_newline [of "?content @ ?line"] by simp
  ultimately show ?thesis
    using files read by (simp add: journal_read_live read_checkpoint_def)
qed

text \<open>The restore of a remote terminal compacts at a number the journal has not reached. Cut between its two
  renames it leaves a disk that reads, as intended, but a record appended to it (the final status when the
  host no longer knows the terminal) follows the old records with a gap, and the next read fails.\<close>

lemma append_after_cut_restore:
  assumes "json_laws env" and "sha_laws env" and "stores env st d" and "js_records st \<noteq> []"
    and "read_checkpoint env (live_files d1) = Inr cp" and "cp_seq cp = js_head st + 1" and "d1 Live \<noteq> None"
    and "file_bytes JournalFile (live_files d1) = file_bytes JournalFile (live_files d)"
    and "record_ok r" and "record_seq r = cp_seq cp + 1"
    and "journal_append env written r d1 = (ops, Inr ())"
  shows "\<exists>rs. journal_read env d1 = (d1, Inr (journal_suffix cp rs))"
    and "snd (journal_read env (do_ops ops d1)) = Inl ''terminal_journal_gap''"
proof -
  let ?content = "file_bytes JournalFile (live_files d)"
    and ?line = "je_stringify env (with_checksum env (record_core r))"
  have ops: "ops = [MakeDirectory, OpenAppend JournalFile, WriteTo JournalFile (serialize env r)]"
    using assms(11) by (auto simp: journal_append_def append_ops_def Let_def split: if_splits)
  have files: "live_files (do_ops ops d1) CheckpointFile = live_files d1 CheckpointFile"
    "file_bytes JournalFile (live_files (do_ops ops d1)) = ?content @ ?line @ [10]"
    using assms(7,8) by (simp_all add: ops serialize_def)
  let ?c = "js_checkpoint st"
  obtain rs where whole: "complete_part ?content = ?content" and rs: "file_records env (cp_seq ?c) ?content = Inr rs"
    and ends: "rs \<noteq> [] \<longrightarrow> cp_seq ?c \<le> record_seq (last rs)" and st: "st = journal_suffix ?c rs"
    using assms(3) by (auto simp: stores_def)
  have "rs \<noteq> []"
    using assms(4) by (metis filter.simps(1) journal_suffix_simps(2) st)
  then have head: "js_head st = record_seq (last rs)"
    using journal_suffix_head [OF file_records_chain [OF rs], of ?c] ends by (simp flip: st)
  have low: "cp_seq ?c \<le> cp_seq cp"
    using head_at_least [OF assms(3)] assms(6) by simp
  have read: "file_records env (cp_seq cp) ?content = Inr rs"
    using read_lines_floor [OF _ low] rs by (simp add: file_records_def)
  show "\<exists>rs. journal_read env d1 = (d1, Inr (journal_suffix cp rs))"
    using assms(5,8) whole read by (auto simp: journal_read_live Let_def)
  have parse: "je_parse env ?line = Some (with_checksum env (record_core r))"
    using assms(1) stored_record_object by (simp add: json_laws_def)
  have "read_line env (cp_seq cp) rs ?line = Inl ''terminal_journal_gap''"
    using parse stored_record_fields [OF assms(2,9)] checksum_matches_with [OF no_checksum_core] \<open>rs \<noteq> []\<close>
      head assms(6,10) by (simp add: read_line_def)
  then have "file_records env (cp_seq cp) (?content @ ?line @ [10]) = Inl ''terminal_journal_gap''"
    using file_records_line [OF whole, of ?line] stringified_line [OF assms(1), of r] read by simp
  moreover have "complete_part (?content @ ?line @ [10]) = ?content @ ?line @ [10]"
    using complete_part_newline [of "?content @ ?line"] by simp
  moreover have "read_checkpoint env (live_files (do_ops ops d1)) = Inr cp"
    using files(1) assms(5) by (simp add: read_checkpoint_def)
  ultimately show "snd (journal_read env (do_ops ops d1)) = Inl ''terminal_journal_gap''"
    using files(2) by (simp add: journal_read_live)
qed

end
