(* ===== verification/Spec2Isabelle.thy ===== *)
theory Spec2Isabelle
  imports EventHub Coalescer FrameCompression TransportLog PeerProducer SessionInput SessionScreen TerminalControl
    EditSemantics HistoryRecovery
begin

text \<open>
  A verification library for the core of Sedes, a server and web client that run coding agents and
  terminals. Paths are relative to \<^verbatim>\<open>src/src\<close>.

  \<^bold>\<open>The parts and how they interact\<close>

  \<^item> The \<^emph>\<open>sidecar protocol\<close> (\<^verbatim>\<open>internal/sidecar-protocol\<close>) connects the server with processes on other
    hosts. Envelopes and binary stream frames are encoded (\<open>Envelopes\<close>), framed and reassembled
    (\<open>FrameCodec\<close>), optionally compressed (\<open>FrameCompression\<close>), queued in lanes and written to a carrier
    (\<open>FrameTransport\<close>), and turned into calls, requests, events and streams by the peer
    (\<open>ProtocolPeer\<close>), which takes its operations from a registry (\<open>OperationRegistry\<close>).
  \<^item> \<^emph>\<open>Conversation events\<close> of a backend are throttled (\<open>Coalescer\<close>), published with replay
    (\<open>EventHub\<close>) and handed to slow consumers through bounded queues (\<open>BoundedQueue\<close>).
  \<^item> A \<^emph>\<open>terminal\<close> is shared by viewers. The server's actor decides who controls it and which input
    reaches the process (\<open>TerminalControl\<close>); the client's session restores and applies output
    (\<open>TerminalSession\<close>, \<open>SessionScreen\<close>) and sends input through a bounded ledger
    (\<open>InputSequencer\<close>, \<open>SessionInput\<close>). The frames of the two sides are the same datatypes. Its history is
    recorded on disk and in a database row (\<open>TerminalHistory\<close>) in a journal (\<open>TerminalJournal\<close>).
  \<^item> The \<^emph>\<open>edit tool\<close> replaces texts in workspace files (\<open>EditSemantics\<close>).

  \<^bold>\<open>Theories, sources and what is shown\<close>

  \<^descr>[\<open>Prelude\<close>, \<open>Bytes\<close>] JavaScript maps and sets as lists in insertion order, errors as sums, steps
    with outputs, decimal and hexadecimal text, byte access.
  \<^descr>[\<open>EventHub\<close>] \<^verbatim>\<open>server/events/event-hub.ts\<close>. The record \<open>event_hub\<close> holds the class's fields; \<open>publish\<close>,
    \<open>subscribe\<close>, \<open>can_replay\<close> and the others are its methods. An accepted cursor gets exactly the
    later events; the buffer is bounded; event ids round-trip; a throwing subscriber is isolated; the early-exit
    cost test is exact. The locale \<open>replay_log\<close> states the contract and is interpreted on the hub.
  \<^descr>[\<open>Coalescer\<close>] \<^verbatim>\<open>server/conversations/projection-event-coalescer.ts\<close>. After any run and a flush, a
    client has the state the unthrottled stream gives; revisions only grow; invalid input fails
    closed; due timers deliver.
  \<^descr>[\<open>BoundedQueue\<close>] \<^verbatim>\<open>bounded-async-queue.ts\<close>. First in, first out, within count and byte bounds, and a
    suspended push completes; through the locale \<open>bounded_channel\<close>.
  \<^descr>[\<open>Envelopes\<close>] \<^verbatim>\<open>envelopes.ts\<close>, \<^verbatim>\<open>limits.ts\<close>. Stream frames round-trip and are canonical; resolved limits
    are usable.
  \<^descr>[\<open>FrameCodec\<close>, \<open>FrameCompression\<close>] The framing half of \<^verbatim>\<open>length-prefixed-frame-transport.ts\<close>,
    \<^verbatim>\<open>frame-compression.ts\<close>, \<^verbatim>\<open>async-codec-budget.ts\<close>. Reading is independent of how the carrier
    cuts the stream; the zstd validator accepts exactly the intended layout; leases are safe.
  \<^descr>[\<open>FrameTransport\<close>, \<open>TransportWrites\<close>, \<open>TransportLog\<close>] The transport class. Sends settle once and
    truthfully, lanes keep their order, control overtakes operations, queued bytes are accounted for.
  \<^descr>[\<open>OperationRegistry\<close>] \<^verbatim>\<open>operation-registry.ts\<close>. Registration, fork and the announced inventory.
  \<^descr>[\<open>ProtocolPeer\<close>, \<open>PeerFrames\<close>, \<open>PeerCalls\<close>, \<open>PeerSession\<close>, \<open>PeerStreams\<close>, \<open>PeerProducer\<close>]
    \<^verbatim>\<open>protocol-peer.ts\<close>. Calls settle once, handlers run only when authorized, streams are delivered in
    order within credit, producers respect their credit.
  \<^descr>[\<open>InputSequencer\<close>] \<^verbatim>\<open>client/terminals/input-sequencer.ts\<close>. The ledger stays consistent whatever
    calls are made, by rule induction over \<open>sequencer_reachable\<close>.
  \<^descr>[\<open>TerminalSession\<close>] \<^verbatim>\<open>client/terminals/terminal-session.ts\<close>. The record \<open>session\<close> holds the class's
    fields; an entry point, a socket or timer callback, or one await-free piece of a link of the apply queue
    is a \<open>session_event\<close>.
  \<^descr>[\<open>SessionInput\<close>] The drain loop returns and leaves nothing behind that could be sent; it keeps the
    order of the input; queue and ledger stay bounded in every run.
  \<^descr>[\<open>SessionScreen\<close>] What the emulator shows is the server's journal up to the acknowledged entry.
  \<^descr>[\<open>TerminalControl\<close>] The control and input operations of \<^verbatim>\<open>server/terminals/terminal-actor.ts\<close>. Input is
    written exactly once and in order, and only for the one controller.
  \<^descr>[\<open>Base64url\<close>, \<open>TerminalJournal\<close>, \<open>JournalCrash\<close>] \<^verbatim>\<open>server/terminals/terminal-journal.ts\<close>. The store as the file
    system calls it makes; \<open>crashed\<close> are the disks a crash can leave of them. No crash loses a record whose
    append returned; what reads is continuous, whatever the disk holds. \<open>JournalCrash\<close> also has an instance
    of the JSON parameter with its laws.
  \<^descr>[\<open>TerminalHistory\<close>, \<open>HistoryRecovery\<close>] The recording half of \<^verbatim>\<open>terminal-actor.ts\<close>, the statements of
    \<^verbatim>\<open>terminal-repository.ts\<close> it uses and the recovery in \<^verbatim>\<open>terminal-service.ts\<close>. A crash between or inside
    durable changes costs nothing a viewer was shown; row and journal agree while the database answers. Two
    lemmas show where the journal is fragile: after a short write, and after a cut remote restore.
  \<^descr>[\<open>EditSemantics\<close>] \<^verbatim>\<open>server/workspace-tools/edit-semantics.ts\<close>. Exact edits are simultaneous and
    touch nothing else; uniform line endings survive.

  \<^bold>\<open>Conventions, bounds and fuel\<close>

  Asynchronous code is cut at its awaits: each piece between two awaits is a function on the component's
  state that also returns its outputs, and a run is any sequence of such steps, so a statement about runs
  covers every interleaving. What the environment does (network, carrier, emulator, process, clock,
  schema checks) is an argument of the step or a list of outcomes in the state. Counters are integers with
  the code's \<^verbatim>\<open>isSafeInteger\<close> checks; wire fields are bytes. Loops are recursive functions with a termination proof
  (a measure on the queue, the buffer or the text). Fuel appears only in \<open>drain_fuel\<close>, which counts the
  passes of a loop, with the bound of one pass more than the queued inputs and waiting replays proved
  sufficient. JSON, schema validation, SHA-256, zstd, NFKC and the diff package are parameters.

  \<^bold>\<open>Not modelled\<close>

  The React client and the panel layout, the database repositories (but for the terminal's row), the adapters to the agent
  backends (they translate third-party protocols), HTTP and authentication, the Electron and Android shells, the
  actor's viewer pump, the conversation projector and the
  schedulers. Rendering, SQL and process handling have their logic outside the sources; the pump, the
  projector, the schedulers and the layout arithmetic are pure enough to follow, in that order.
\<close>

end
